(* ===== verification/Cx_Prelude.thy ===== *)
theory Cx_Prelude
  imports Main "HOL-Library.Word" "HOL-Library.Sublist"
begin

text \<open>
  What every component of the library shares: the ways a C function can go wrong as a value
  (\<open>fault\<close>), the result type \<open>res\<close> with its sequencing, \<open>size_t\<close> arithmetic on \<open>nat\<close> with the
  wrap-around of 64-bit unsigned integers written out, memory blocks as byte lists with
  bounds-checked reads and writes (\<open>memcpy\<close>, \<open>memmove\<close>, stores), the allocator, and the C string
  functions the sources call (\<open>strlen\<close>, \<open>strcmp\<close>, \<open>strncmp\<close>, \<open>strchr\<close>, \<open>strstr\<close>).
  The collection \<open>cx\<close> holds the rewriting rules that carry the component proofs.
\<close>

named_theorems cx \<open>rewriting rules of the C layer\<close>

subsection \<open>Faults and results\<close>

datatype fault =
    AssertFail   \<comment> \<open>a failing assert: the process aborts\<close>
  | OutOfBounds  \<comment> \<open>a read or a write outside a memory block\<close>
  | NullDeref    \<comment> \<open>a dereference of NULL\<close>
  | BadPointer   \<comment> \<open>a dereference of a pointer that designates no object of its type\<close>

type_synonym 'a res = "fault + 'a"

definition bindR :: "'a res \<Rightarrow> ('a \<Rightarrow> 'b res) \<Rightarrow> 'b res" where
  "bindR m f = (case m of Inl e \<Rightarrow> Inl e | Inr x \<Rightarrow> f x)"

definition assertR :: "bool \<Rightarrow> 'a res \<Rightarrow> 'a res" where
  "assertR b m = (if b then m else Inl AssertFail)"

lemma bindR_simps [simp]: "bindR (Inl e) f = Inl e" "bindR (Inr x) f = f x"
  by (simp_all add: bindR_def)

lemma assertR_simps [simp]: "b \<Longrightarrow> assertR b m = m" "\<not> b \<Longrightarrow> assertR b m = Inl AssertFail"
  by (simp_all add: assertR_def)

lemma bindR_eq_Inr_iff [cx]: "bindR m f = Inr y \<longleftrightarrow> (\<exists>x. m = Inr x \<and> f x = Inr y)"
  by (cases m) auto

lemma bindR_eq_Inl_iff [cx]:
  "bindR m f = Inl e \<longleftrightarrow> m = Inl e \<or> (\<exists>x. m = Inr x \<and> f x = Inl e)"
  by (cases m) auto

lemma assertR_eq_Inr_iff [cx]: "assertR b m = Inr y \<longleftrightarrow> b \<and> m = Inr y"
  by (simp add: assertR_def)

lemma bindR_assoc: "bindR (bindR m f) g = bindR m (\<lambda>x. bindR (f x) g)"
  by (cases m) auto

subsection \<open>Unsigned 64-bit sizes\<close>

text \<open>
  A \<open>size_t\<close> is a \<open>nat\<close> below \<open>size_mod\<close>. Addition, subtraction and shifts are those of the
  machine: results are taken modulo \<open>size_mod\<close>. The rules marked \<open>cx\<close> replace them by plain
  arithmetic where nothing wraps.
\<close>

definition size_mod :: nat where
  "size_mod = 18446744073709551616"

definition size_add :: "nat \<Rightarrow> nat \<Rightarrow> nat" where
  "size_add a b = (a + b) mod size_mod"

definition size_sub :: "nat \<Rightarrow> nat \<Rightarrow> nat" where
  "size_sub a b = (a + (size_mod - b)) mod size_mod"

definition size_shl :: "nat \<Rightarrow> nat \<Rightarrow> nat" where
  "size_shl a k = (a * 2 ^ k) mod size_mod"

definition size_shr :: "nat \<Rightarrow> nat \<Rightarrow> nat" where
  "size_shr a k = a div 2 ^ k"

lemma size_add_exact [cx]: "a + b < size_mod \<Longrightarrow> size_add a b = a + b"
  by (simp add: size_add_def)

lemma size_sub_exact [cx]: "b \<le> a \<Longrightarrow> a < size_mod \<Longrightarrow> size_sub a b = a - b"
proof -
  assume "b \<le> a" "a < size_mod"
  then have "size_sub a b = (a - b + size_mod) mod size_mod" by (simp add: size_sub_def)
  with \<open>a < size_mod\<close> show ?thesis by simp
qed

text \<open>Below zero the subtraction wraps to a value no block can hold.\<close>

lemma size_sub_wraps: "a < b \<Longrightarrow> b \<le> size_mod \<Longrightarrow> size_sub a b = size_mod - (b - a)"
  by (simp add: size_sub_def)

lemma size_shl_one [cx]: "2 * a < size_mod \<Longrightarrow> size_shl a (Suc 0) = 2 * a"
  by (simp add: size_shl_def mult.commute)

lemma size_add_less [simp]: "size_add a b < size_mod"
  by (simp add: size_add_def size_mod_def)

lemma size_sub_less [simp]: "size_sub a b < size_mod"
  by (simp add: size_sub_def size_mod_def)

subsection \<open>Memory blocks\<close>

text \<open>
  A memory block is the list of its bytes. Reading \<open>n\<close> bytes at an offset and storing bytes at an
  offset fail outside the block; \<open>memcpy\<close> and \<open>memmove\<close> between two places of the model are a
  read followed by a store.
\<close>

type_synonym mem = "char list"

abbreviation NUL :: char where
  "NUL \<equiv> CHR 0x00"

definition mem_read :: "mem \<Rightarrow> nat \<Rightarrow> nat \<Rightarrow> mem res" where
  "mem_read m off n = (if off + n \<le> length m then Inr (take n (drop off m)) else Inl OutOfBounds)"

definition mem_write :: "mem \<Rightarrow> nat \<Rightarrow> mem \<Rightarrow> mem res" where
  "mem_write m off xs =
     (if off + length xs \<le> length m
      then Inr (take off m @ xs @ drop (off + length xs) m) else Inl OutOfBounds)"

lemma mem_read_ok [cx]: "off + n \<le> length m \<Longrightarrow> mem_read m off n = Inr (take n (drop off m))"
  by (simp add: mem_read_def)

lemma mem_read_fault [cx]: "length m < off + n \<Longrightarrow> mem_read m off n = Inl OutOfBounds"
  by (simp add: mem_read_def)

lemma mem_read_1: "i < length m \<Longrightarrow> mem_read m i 1 = Inr [m ! i]"
  by (simp add: mem_read_def) (simp add: Cons_nth_drop_Suc [symmetric])

lemma mem_write_ok [cx]:
  "off + length xs \<le> length m \<Longrightarrow>
     mem_write m off xs = Inr (take off m @ xs @ drop (off + length xs) m)"
  by (simp add: mem_write_def)

lemma mem_write_fault [cx]: "length m < off + length xs \<Longrightarrow> mem_write m off xs = Inl OutOfBounds"
  by (simp add: mem_write_def)

lemma mem_write_length: "mem_write m off xs = Inr m' \<Longrightarrow> length m' = length m"
  by (auto simp: mem_write_def split: if_splits)

text \<open>\<open>memcmp\<close> of two arrays returns 0 iff their first \<open>len\<close> bytes agree.\<close>

definition memcmp_eq :: "mem \<Rightarrow> mem \<Rightarrow> nat \<Rightarrow> bool res" where
  "memcmp_eq a b len =
     bindR (mem_read a 0 len) (\<lambda>x. bindR (mem_read b 0 len) (\<lambda>y. Inr (x = y)))"

text \<open>A store is visible where it was made and nowhere else.\<close>

lemma mem_read_after_write:
  "mem_write m off xs = Inr m' \<Longrightarrow> mem_read m' off (length xs) = Inr xs"
  by (auto simp: mem_write_def mem_read_def split: if_splits)

lemma mem_read_write_disjoint:
  assumes "mem_write m off xs = Inr m'" and "o' + n \<le> off \<or> off + length xs \<le> o'"
  shows "mem_read m' o' n = mem_read m o' n"
proof -
  from assms(1) have m': "m' = take off m @ xs @ drop (off + length xs) m"
    and len: "off + length xs \<le> length m"
    by (auto simp: mem_write_def split: if_splits)
  have "take n (drop o' m') = take n (drop o' m)" if "o' + n \<le> length m"
    by (rule nth_equalityI) (use that assms(2) len in \<open>auto simp: m' nth_append\<close>)
  then show ?thesis using m' len by (simp add: mem_read_def)
qed

subsection \<open>The allocator\<close>

text \<open>
  The environment decides whether a request is granted and what indeterminate bytes hold:
  \<open>calloc\<close> gives zeroed bytes, \<open>realloc\<close> keeps the old bytes up to the smaller size.
\<close>

record allocator =
  grant :: "nat \<Rightarrow> bool"
  junk :: "nat \<Rightarrow> char"

definition calloc_c :: "allocator \<Rightarrow> nat \<Rightarrow> mem option" where
  "calloc_c al n = (if grant al n then Some (replicate n NUL) else None)"

definition realloc_c :: "allocator \<Rightarrow> mem \<Rightarrow> nat \<Rightarrow> mem option" where
  "realloc_c al m n =
     (if grant al n then Some (take n m @ map (junk al) [length m..<n]) else None)"

definition generous :: allocator where
  "generous = \<lparr>grant = (\<lambda>_. True), junk = (\<lambda>_. CHR 0xAA)\<rparr>"

lemma calloc_c_length: "calloc_c al n = Some m \<Longrightarrow> length m = n"
  by (auto simp: calloc_c_def split: if_splits)

lemma realloc_c_length: "realloc_c al m n = Some m' \<Longrightarrow> length m' = n"
  by (auto simp: realloc_c_def split: if_splits)

lemma realloc_c_keeps:
  "realloc_c al m n = Some m' \<Longrightarrow> k \<le> n \<Longrightarrow> k \<le> length m \<Longrightarrow> take k m' = take k m"
  by (auto simp: realloc_c_def min_absorb1 split: if_splits)

subsection \<open>C strings\<close>

text \<open>
  A C string is a pointer to a block; the model passes the bytes from the pointer to the end of
  the block. \<open>cstr\<close> is the text before the terminator. \<open>strlen\<close> and every function that runs to the
  terminator read out of bounds when there is none.
\<close>

definition cstr :: "mem \<Rightarrow> string" where
  "cstr m = takeWhile (\<lambda>c. c \<noteq> NUL) m"

definition terminated :: "mem \<Rightarrow> bool" where
  "terminated m \<longleftrightarrow> NUL \<in> set m"

definition strlen_c :: "mem \<Rightarrow> nat res" where
  "strlen_c m = (if terminated m then Inr (length (cstr m)) else Inl OutOfBounds)"

lemma NUL_notin_cstr [simp]: "NUL \<notin> set (cstr m)"
  by (auto simp: cstr_def dest: set_takeWhileD)

lemma cstr_id [simp]: "NUL \<notin> set s \<Longrightarrow> cstr s = s"
  by (auto simp: cstr_def)

lemma cstr_append_NUL [simp]: "cstr (s @ NUL # r) = cstr s"
  unfolding cstr_def by (induction s) auto

lemma cstr_decomp: "terminated m \<Longrightarrow> \<exists>r. m = cstr m @ NUL # r"
  unfolding terminated_def cstr_def by (induction m) auto

lemma terminated_length: "terminated m \<Longrightarrow> length (cstr m) < length m"
  using cstr_decomp [of m] by (metis length_append length_Cons less_add_Suc1 add_Suc_right)

lemma cstr_prefix: "take (length (cstr m)) m = cstr m"
  unfolding cstr_def by (metis takeWhile_eq_take)

text \<open>
  On the texts of two strings: \<open>strcmp\<close> returns 0 iff they are equal, \<open>strncmp\<close> compares at most
  \<open>n\<close> bytes, \<open>strchr\<close> finds the first occurrence of a byte and \<open>strstr\<close> that of a string.
\<close>

definition strcmp_eq :: "string \<Rightarrow> string \<Rightarrow> bool" where
  "strcmp_eq a b \<longleftrightarrow> a = b"

definition strncmp_eq :: "string \<Rightarrow> string \<Rightarrow> nat \<Rightarrow> bool" where
  "strncmp_eq a b n \<longleftrightarrow> take n a = take n b"

fun strchr_c :: "string \<Rightarrow> char \<Rightarrow> nat option" where
  "strchr_c [] c = None"
| "strchr_c (x # xs) c = (if x = c then Some 0 else map_option Suc (strchr_c xs c))"

fun strstr_c :: "string \<Rightarrow> string \<Rightarrow> nat option" where
  "strstr_c [] p = (if p = [] then Some 0 else None)"
| "strstr_c (x # xs) p = (if prefix p (x # xs) then Some 0 else map_option Suc (strstr_c xs p))"

text \<open>\<open>snprintf(dst, size, "%s", src)\<close>: at most \<open>size - 1\<close> bytes and a terminator are stored.\<close>

definition snprintf_s :: "nat \<Rightarrow> string \<Rightarrow> string" where
  "snprintf_s sz s = take (sz - 1) s"

lemma strncmp_full_prefix: "strncmp_eq a b (length a) \<longleftrightarrow> prefix a b"
proof
  assume "strncmp_eq a b (length a)"
  then have "a = take (length a) b" by (simp add: strncmp_eq_def)
  then show "prefix a b" by (metis take_is_prefix)
next
  assume "prefix a b"
  then show "strncmp_eq a b (length a)" by (auto simp: strncmp_eq_def prefix_def)
qed

lemma strchr_c_None: "strchr_c s c = None \<longleftrightarrow> c \<notin> set s"
  by (induction s) auto

lemma strchr_c_Some:
  "strchr_c s c = Some i \<Longrightarrow> i < length s \<and> s ! i = c \<and> c \<notin> set (take i s)"
  by (induction s arbitrary: i) (auto split: if_splits)

lemma strchr_c_first: "c \<notin> set a \<Longrightarrow> strchr_c (a @ c # b) c = Some (length a)"
  by (induction a) auto

lemma strstr_c_Some:
  "strstr_c s p = Some i \<Longrightarrow> i \<le> length s \<and> prefix p (drop i s)"
  by (induction s arbitrary: i) (auto split: if_splits)

lemma strstr_c_least:
  "strstr_c s p = Some i \<Longrightarrow> j < i \<Longrightarrow> \<not> prefix p (drop j s)"
proof (induction s arbitrary: i j)
  case Nil
  then show ?case by (auto split: if_splits)
next
  case (Cons x xs)
  then show ?case by (cases j) (auto split: if_splits)
qed

lemma strstr_c_None: "strstr_c s p = None \<Longrightarrow> \<not> sublist p s"
  by (induction s) (auto simp: sublist_Cons_right split: if_splits)

text \<open>The first occurrence, from a place where the pattern matches and none before it.\<close>

lemma strstr_c_eqI:
  assumes "prefix p (drop i s)" and "i \<le> length s" and "\<And>j. j < i \<Longrightarrow> \<not> prefix p (drop j s)"
  shows "strstr_c s p = Some i"
  using assms
proof (induction s arbitrary: i)
  case Nil
  then show ?case by simp
next
  case (Cons x xs)
  show ?case
  proof (cases i)
    case 0
    with Cons.prems show ?thesis by simp
  next
    case (Suc k)
    have later: "\<not> prefix p (drop j xs)" if "j < k" for j
      using Cons.prems(3) [of "Suc j"] that Suc by simp
    have "strstr_c xs p = Some k"
      by (rule Cons.IH) (use Cons.prems(1,2) Suc later in auto)
    moreover have "\<not> prefix p (x # xs)" using Cons.prems(3) [of 0] Suc by simp
    ultimately show ?thesis using Suc by simp
  qed
qed

subsection \<open>Invariants of components that run by steps\<close>

text \<open>
  The contract of a component whose operations are the steps of a relation: its first state is
  well-formed and every step keeps states well-formed. Every state that it reaches is well-formed then.
\<close>

locale stepwise =
  fixes step :: "'s \<Rightarrow> 's \<Rightarrow> bool" and init :: 's and inv :: "'s \<Rightarrow> bool"
  assumes inv_init: "inv init" and inv_step: "step s s' \<Longrightarrow> inv s \<Longrightarrow> inv s'"
begin

lemma inv_run: "step\<^sup>*\<^sup>* s s' \<Longrightarrow> inv s \<Longrightarrow> inv s'"
  by (induction rule: rtranclp_induct) (auto intro: inv_step)

lemma inv_reached: "step\<^sup>*\<^sup>* init s \<Longrightarrow> inv s"
  using inv_run inv_init by blast

end

end
