(* ===== verification/List_Script.thy ===== *)
theory List_Script
  imports Cx_Prelude
begin

text \<open>
  The contract that the two kinds of linked lists of \<open>list.h\<close> share. A list component gives its calls as a
  datatype, what a call does to the memory and to a plain list, and when it is allowed. \<open>run_calls\<close>
  performs a sequence of calls on the memory and stops at the first fault, \<open>spec_calls\<close> performs it on a
  plain list. In the locale any allowed sequence of calls is shown to run without a fault and to end in
  the list that \<open>spec_calls\<close> gives.
\<close>

primrec run_calls :: "('c \<Rightarrow> 'm \<Rightarrow> 'm res) \<Rightarrow> 'c list \<Rightarrow> 'm \<Rightarrow> 'm res" where
  "run_calls run [] m = Inr m"
| "run_calls run (c # cs) m = bindR (run c m) (run_calls run cs)"

primrec spec_calls :: "('c \<Rightarrow> 'a list \<Rightarrow> 'a list) \<Rightarrow> 'c list \<Rightarrow> 'a list \<Rightarrow> 'a list" where
  "spec_calls spec [] xs = xs"
| "spec_calls spec (c # cs) xs = spec_calls spec cs (spec c xs)"

primrec calls_ok :: "('c \<Rightarrow> 'a list \<Rightarrow> 'a list) \<Rightarrow> ('c \<Rightarrow> 'a list \<Rightarrow> bool) \<Rightarrow> 'c list \<Rightarrow> 'a list \<Rightarrow> bool" where
  "calls_ok spec allowed [] xs \<longleftrightarrow> True"
| "calls_ok spec allowed (c # cs) xs \<longleftrightarrow> allowed c xs \<and> calls_ok spec allowed cs (spec c xs)"

text \<open>\<open>avail m a\<close>: the memory has a cell at \<open>a\<close> that can be an entry of the list.\<close>

locale list_script =
  fixes rep :: "'m \<Rightarrow> 'a list \<Rightarrow> bool"
    and avail :: "'m \<Rightarrow> 'a \<Rightarrow> bool"
    and run :: "'c \<Rightarrow> 'm \<Rightarrow> 'm res"
    and spec :: "'c \<Rightarrow> 'a list \<Rightarrow> 'a list"
    and allowed :: "('a \<Rightarrow> bool) \<Rightarrow> 'c \<Rightarrow> 'a list \<Rightarrow> bool"
  assumes call_law: "rep m xs \<Longrightarrow> allowed (avail m) c xs \<Longrightarrow>
      \<exists>m'. run c m = Inr m' \<and> rep m' (spec c xs) \<and> avail m' = avail m"
begin

lemma calls_run:
  assumes "rep m xs" and "calls_ok spec (allowed (avail m)) cs xs"
  shows "\<exists>m'. run_calls run cs m = Inr m' \<and> rep m' (spec_calls spec cs xs) \<and> avail m' = avail m"
  using assms
proof (induction cs arbitrary: m xs)
  case (Cons c cs)
  obtain m1 where m1: "run c m = Inr m1" "rep m1 (spec c xs)" "avail m1 = avail m"
    using call_law [OF Cons.prems(1), of c] Cons.prems(2) by auto
  with Cons.IH [OF m1(2)] Cons.prems(2) show ?case by auto
qed simp

end

end
