(* ===== verification/Cx_List.thy ===== *)
theory Cx_List
  imports List_Script
begin

text \<open>
  The circular doubly linked lists of \<open>list.h\<close> on a heap of \<open>struct list_head\<close> cells. An address
  outside the heap is not an allocated cell, so that using it is a fault: in particular the two
  poison addresses, which \<open>list_del\<close> leaves in the entry it removes. \<open>dlist h head xs\<close> says that
  the cells \<open>xs\<close>, in this order, hang on \<open>head\<close>. The operations are shown to implement those on the
  list \<open>xs\<close>, one by one and in any sequence; the loops over such lists are in \<open>Cx_List_Iter\<close>.
  The components that keep their objects on such lists are modelled on the abstract list.
\<close>

subsection \<open>Cells\<close>

type_synonym addr = nat

record list_head =
  lh_prev :: addr
  lh_next :: addr

type_synonym lheap = "addr \<rightharpoonup> list_head"

definition LIST_POISON1 :: addr where
  "LIST_POISON1 = 0x00100100"

definition LIST_POISON2 :: addr where
  "LIST_POISON2 = 0x00200200"

definition cell :: "lheap \<Rightarrow> addr \<Rightarrow> list_head res" where
  "cell h p = (case h p of None \<Rightarrow> Inl BadPointer | Some c \<Rightarrow> Inr c)"

definition get_next :: "lheap \<Rightarrow> addr \<Rightarrow> addr res" where
  "get_next h p = bindR (cell h p) (\<lambda>c. Inr (lh_next c))"

definition get_prev :: "lheap \<Rightarrow> addr \<Rightarrow> addr res" where
  "get_prev h p = bindR (cell h p) (\<lambda>c. Inr (lh_prev c))"

definition set_next :: "lheap \<Rightarrow> addr \<Rightarrow> addr \<Rightarrow> lheap res" where
  "set_next h p q = bindR (cell h p) (\<lambda>c. Inr (h(p \<mapsto> c\<lparr>lh_next := q\<rparr>)))"

definition set_prev :: "lheap \<Rightarrow> addr \<Rightarrow> addr \<Rightarrow> lheap res" where
  "set_prev h p q = bindR (cell h p) (\<lambda>c. Inr (h(p \<mapsto> c\<lparr>lh_prev := q\<rparr>)))"

subsection \<open>Operations\<close>

definition LIST_HEAD_INIT :: "addr \<Rightarrow> list_head" where
  "LIST_HEAD_INIT name = \<lparr>lh_prev = name, lh_next = name\<rparr>"

definition INIT_LIST_HEAD :: "lheap \<Rightarrow> addr \<Rightarrow> lheap res" where
  "INIT_LIST_HEAD h head =
     bindR (set_next h head head) (\<lambda>h1. set_prev h1 head head)"

definition raw_list_add :: "lheap \<Rightarrow> addr \<Rightarrow> addr \<Rightarrow> addr \<Rightarrow> lheap res" where
  "raw_list_add h new prev nxt =
     bindR (set_prev h nxt new) (\<lambda>h1.
     bindR (set_next h1 new nxt) (\<lambda>h2.
     bindR (set_prev h2 new prev) (\<lambda>h3.
       set_next h3 prev new)))"

definition list_add :: "lheap \<Rightarrow> addr \<Rightarrow> addr \<Rightarrow> lheap res" where
  "list_add h new head = bindR (get_next h head) (\<lambda>nxt. raw_list_add h new head nxt)"

definition list_add_tail :: "lheap \<Rightarrow> addr \<Rightarrow> addr \<Rightarrow> lheap res" where
  "list_add_tail h new head = bindR (get_prev h head) (\<lambda>prev. raw_list_add h new prev head)"

definition raw_list_del :: "lheap \<Rightarrow> addr \<Rightarrow> addr \<Rightarrow> lheap res" where
  "raw_list_del h prev nxt =
     bindR (set_prev h nxt prev) (\<lambda>h1. set_next h1 prev nxt)"

definition list_unlink :: "lheap \<Rightarrow> addr \<Rightarrow> lheap res" where
  "list_unlink h entry =
     bindR (get_prev h entry) (\<lambda>prev.
     bindR (get_next h entry) (\<lambda>nxt. raw_list_del h prev nxt))"

definition list_del :: "lheap \<Rightarrow> addr \<Rightarrow> lheap res" where
  "list_del h entry =
     bindR (list_unlink h entry) (\<lambda>h1.
     bindR (set_next h1 entry LIST_POISON1) (\<lambda>h2.
       set_prev h2 entry LIST_POISON2))"

definition list_replace :: "lheap \<Rightarrow> addr \<Rightarrow> addr \<Rightarrow> lheap res" where
  "list_replace h old new =
     bindR (get_next h old) (\<lambda>a.
     bindR (set_next h new a) (\<lambda>h1.
     bindR (get_next h1 new) (\<lambda>b.
     bindR (set_prev h1 b new) (\<lambda>h2.
     bindR (get_prev h2 old) (\<lambda>c.
     bindR (set_prev h2 new c) (\<lambda>h3.
     bindR (get_prev h3 new) (\<lambda>d.
       set_next h3 d new)))))))"

definition list_replace_init :: "lheap \<Rightarrow> addr \<Rightarrow> addr \<Rightarrow> lheap res" where
  "list_replace_init h old new =
     bindR (list_replace h old new) (\<lambda>h1. INIT_LIST_HEAD h1 old)"

definition list_del_init :: "lheap \<Rightarrow> addr \<Rightarrow> lheap res" where
  "list_del_init h entry =
     bindR (list_unlink h entry) (\<lambda>h1. INIT_LIST_HEAD h1 entry)"

definition list_move :: "lheap \<Rightarrow> addr \<Rightarrow> addr \<Rightarrow> lheap res" where
  "list_move h entry head = bindR (list_unlink h entry) (\<lambda>h1. list_add h1 entry head)"

definition list_move_tail :: "lheap \<Rightarrow> addr \<Rightarrow> addr \<Rightarrow> lheap res" where
  "list_move_tail h entry head = bindR (list_unlink h entry) (\<lambda>h1. list_add_tail h1 entry head)"

definition list_is_last :: "lheap \<Rightarrow> addr \<Rightarrow> addr \<Rightarrow> bool res" where
  "list_is_last h entry head = bindR (get_next h entry) (\<lambda>n. Inr (n = head))"

definition list_empty :: "lheap \<Rightarrow> addr \<Rightarrow> bool res" where
  "list_empty h head = bindR (get_next h head) (\<lambda>n. Inr (n = head))"

definition list_empty_careful :: "lheap \<Rightarrow> addr \<Rightarrow> bool res" where
  "list_empty_careful h head =
     bindR (get_next h head) (\<lambda>n.
       if n = head then bindR (get_prev h head) (\<lambda>p. Inr (n = p)) else Inr False)"

definition list_is_singular :: "lheap \<Rightarrow> addr \<Rightarrow> bool res" where
  "list_is_singular h head =
     bindR (list_empty h head) (\<lambda>e.
       if e then Inr False
       else bindR (get_next h head) (\<lambda>n. bindR (get_prev h head) (\<lambda>p. Inr (n = p))))"

subsection \<open>Representation\<close>

text \<open>
  \<open>path f xs\<close>: each element of \<open>xs\<close> but the last is mapped to the one after it. A ring is a path
  along \<open>next\<close> that returns to its first cell, and read backwards a path along \<open>prev\<close>.
\<close>

fun path :: "(addr \<rightharpoonup> addr) \<Rightarrow> addr list \<Rightarrow> bool" where
  "path f (a # b # xs) \<longleftrightarrow> f a = Some b \<and> path f (b # xs)"
| "path f _ \<longleftrightarrow> True"

definition nexts :: "lheap \<Rightarrow> addr \<rightharpoonup> addr" where
  "nexts h p = map_option lh_next (h p)"

definition prevs :: "lheap \<Rightarrow> addr \<rightharpoonup> addr" where
  "prevs h p = map_option lh_prev (h p)"

definition ring :: "lheap \<Rightarrow> addr list \<Rightarrow> bool" where
  "ring h xs \<longleftrightarrow> distinct xs \<and> path (nexts h) (xs @ [hd xs]) \<and> path (prevs h) (rev (xs @ [hd xs]))"

definition dlist :: "lheap \<Rightarrow> addr \<Rightarrow> addr list \<Rightarrow> bool" where
  "dlist h head xs \<longleftrightarrow> ring h (head # xs)"

lemma path_Cons: "path f (a # xs) \<longleftrightarrow> (xs = [] \<or> f a = Some (hd xs) \<and> path f xs)"
  by (cases xs) auto

lemma path_append: "path f (xs @ y # ys) \<longleftrightarrow> path f (xs @ [y]) \<and> path f (y # ys)"
  by (induction xs) (auto simp: path_Cons hd_append)

lemma path_snoc: "path f (xs @ [y]) \<longleftrightarrow> (xs = [] \<or> path f xs \<and> f (last xs) = Some y)"
  by (induction f xs rule: path.induct) auto

lemma path_update [simp]: "p \<notin> set (butlast xs) \<Longrightarrow> path (f(p \<mapsto> q)) xs = path f xs"
  by (induction f xs rule: path.induct) auto

lemma path_dom: "path f (xs @ [y]) \<Longrightarrow> x \<in> set xs \<Longrightarrow> \<exists>z. f x = Some z"
  by (induction xs) (auto simp: path_Cons hd_append split: if_splits)

lemma path_cong: "path f xs \<Longrightarrow> (\<And>x. x \<in> set (butlast xs) \<Longrightarrow> g x = f x) \<Longrightarrow> path g xs"
  by (induction f xs rule: path.induct) auto

lemma dom_nexts: "(\<exists>z. nexts h p = Some z) \<longleftrightarrow> p \<in> dom h"
  by (auto simp: nexts_def)

text \<open>Each primitive access in terms of the two pointer functions.\<close>

lemma get_next_eq: "nexts h p = Some q \<Longrightarrow> get_next h p = Inr q"
  by (auto simp: nexts_def get_next_def cell_def)

lemma get_prev_eq: "prevs h p = Some q \<Longrightarrow> get_prev h p = Inr q"
  by (auto simp: prevs_def get_prev_def cell_def)

lemma set_next_ok:
  assumes "p \<in> dom h"
  obtains h' where "set_next h p q = Inr h'" "dom h' = dom h" "nexts h' = (nexts h)(p \<mapsto> q)"
    "prevs h' = prevs h" "\<And>r. r \<noteq> p \<Longrightarrow> h' r = h r"
proof -
  from assms obtain c where c: "h p = Some c" by auto
  let ?h = "h(p \<mapsto> c\<lparr>lh_next := q\<rparr>)"
  have "set_next h p q = Inr ?h" using c by (simp add: set_next_def cell_def)
  moreover have "dom ?h = dom h" using c by auto
  moreover have "nexts ?h = (nexts h)(p \<mapsto> q)" "prevs ?h = prevs h"
    using c by (auto simp: nexts_def prevs_def fun_eq_iff)
  ultimately show thesis by (intro that [of ?h]) auto
qed

lemma set_prev_ok:
  assumes "p \<in> dom h"
  obtains h' where "set_prev h p q = Inr h'" "dom h' = dom h" "prevs h' = (prevs h)(p \<mapsto> q)"
    "nexts h' = nexts h" "\<And>r. r \<noteq> p \<Longrightarrow> h' r = h r"
proof -
  from assms obtain c where c: "h p = Some c" by auto
  let ?h = "h(p \<mapsto> c\<lparr>lh_prev := q\<rparr>)"
  have "set_prev h p q = Inr ?h" using c by (simp add: set_prev_def cell_def)
  moreover have "dom ?h = dom h" using c by auto
  moreover have "prevs ?h = (prevs h)(p \<mapsto> q)" "nexts ?h = nexts h"
    using c by (auto simp: nexts_def prevs_def fun_eq_iff)
  ultimately show thesis by (intro that [of ?h]) auto
qed

text \<open>\<open>reshape h h' A\<close>: an operation that changed cells of \<open>A\<close> only.\<close>

definition reshape :: "lheap \<Rightarrow> lheap \<Rightarrow> addr set \<Rightarrow> bool" where
  "reshape h h' A \<longleftrightarrow> dom h' = dom h \<and> (\<forall>r. r \<notin> A \<longrightarrow> h' r = h r)"

lemma reshape_refl [simp]: "reshape h h A"
  by (simp add: reshape_def)

lemma reshape_trans: "reshape h h1 A \<Longrightarrow> reshape h1 h2 B \<Longrightarrow> A \<union> B \<subseteq> C \<Longrightarrow> reshape h h2 C"
  by (simp add: reshape_def) (metis UnI1 UnI2 subsetD)

lemma reshape_dom: "reshape h h' A \<Longrightarrow> dom h' = dom h"
  by (simp add: reshape_def)

lemma dlist_frame:
  assumes "dlist h hd2 ys" and "reshape h h' A" and "A \<inter> set (hd2 # ys) = {}"
  shows "dlist h' hd2 ys"
proof -
  have same: "\<And>r. r \<in> set (hd2 # ys) \<Longrightarrow> h' r = h r" using assms(2,3) by (auto simp: reshape_def)
  have in_fwd: "set (butlast ((hd2 # ys) @ [hd2])) \<subseteq> set (hd2 # ys)" by (simp add: butlast_append)
  have in_bwd: "set (butlast (rev ((hd2 # ys) @ [hd2]))) \<subseteq> set (hd2 # ys)"
    by (auto dest: in_set_butlastD)
  have "path (nexts h') ((hd2 # ys) @ [hd2])"
    by (rule path_cong [of "nexts h"]) (use assms(1) same in_fwd in \<open>auto simp: dlist_def ring_def nexts_def\<close>)
  moreover have "path (prevs h') (rev ((hd2 # ys) @ [hd2]))"
    by (rule path_cong [of "prevs h"]) (use assms(1) same in_bwd in \<open>auto simp: dlist_def ring_def prevs_def\<close>)
  ultimately show ?thesis using assms(1) by (simp add: dlist_def ring_def)
qed

lemma ring_dom: "ring h xs \<Longrightarrow> set xs \<subseteq> dom h"
  by (auto simp: ring_def nexts_def dest!: path_dom)

lemma ring_rotate: "ring h (x # ys) \<longleftrightarrow> ring h (ys @ [x])"
proof (cases ys)
  case (Cons y zs)
  have "path (nexts h) (x # y # zs @ [x]) \<longleftrightarrow> path (nexts h) (y # zs @ [x, y])"
    using path_append [of "nexts h" "y # zs" x "[y]"] by auto
  moreover have "path (prevs h) (x # rev zs @ [y, x]) \<longleftrightarrow> path (prevs h) (y # x # rev zs @ [y])"
    using path_append [of "prevs h" "x # rev zs" y "[x]"] by auto
  ultimately show ?thesis using Cons by (auto simp: ring_def)
qed simp

lemma ring_turn: "ring h (xs @ ys) \<longleftrightarrow> ring h (ys @ xs)"
proof (induction xs arbitrary: ys)
  case (Cons x xs)
  have "ring h ((x # xs) @ ys) \<longleftrightarrow> ring h (xs @ (ys @ [x]))"
    using ring_rotate [of h x "xs @ ys"] by simp
  also have "\<dots> \<longleftrightarrow> ring h (ys @ (x # xs))" using Cons.IH [of "ys @ [x]"] by simp
  finally show ?case .
qed simp

lemma ring_next: "ring h (x # ys) \<Longrightarrow> nexts h x = Some (hd (ys @ [x]))"
  by (cases ys) (auto simp: ring_def)

lemma ring_prev: "ring h (x # ys) \<Longrightarrow> prevs h x = Some (last (x # ys))"
  by (cases ys rule: rev_cases) (auto simp: ring_def)

text \<open>Linking a new cell behind a cell of a ring, and unlinking a cell.\<close>

lemma raw_list_add_links:
  assumes "n \<in> dom h" and "p \<in> dom h" and "new \<in> dom h"
  obtains h' where "raw_list_add h new p n = Inr h'" "nexts h' = (nexts h)(new \<mapsto> n, p \<mapsto> new)"
    "prevs h' = (prevs h)(n \<mapsto> new, new \<mapsto> p)" "dom h' = dom h" "\<And>r. r \<notin> {n, new, p} \<Longrightarrow> h' r = h r"
proof -
  obtain h1 where h1: "set_prev h n new = Inr h1" "dom h1 = dom h"
    "prevs h1 = (prevs h)(n \<mapsto> new)" "nexts h1 = nexts h" "\<And>r. r \<noteq> n \<Longrightarrow> h1 r = h r"
    using assms by (elim set_prev_ok [of n h new, rotated]) auto
  obtain h2 where h2: "set_next h1 new n = Inr h2" "dom h2 = dom h1"
    "nexts h2 = (nexts h1)(new \<mapsto> n)" "prevs h2 = prevs h1" "\<And>r. r \<noteq> new \<Longrightarrow> h2 r = h1 r"
    using assms h1(2) by (elim set_next_ok [of new h1 n, rotated]) auto
  obtain h3 where h3: "set_prev h2 new p = Inr h3" "dom h3 = dom h2"
    "prevs h3 = (prevs h2)(new \<mapsto> p)" "nexts h3 = nexts h2" "\<And>r. r \<noteq> new \<Longrightarrow> h3 r = h2 r"
    using assms h1(2) h2(2) by (elim set_prev_ok [of new h2 p, rotated]) auto
  obtain h4 where h4: "set_next h3 p new = Inr h4" "dom h4 = dom h3"
    "nexts h4 = (nexts h3)(p \<mapsto> new)" "prevs h4 = prevs h3" "\<And>r. r \<noteq> p \<Longrightarrow> h4 r = h3 r"
    using assms h1(2) h2(2) h3(2) by (elim set_next_ok [of p h3 new, rotated]) auto
  show thesis using h1 h2 h3 h4 by (intro that [of h4]) (simp_all add: raw_list_add_def)
qed

text \<open>A ring whose links were changed so is a ring with the new entry in it.\<close>

lemma ring_inserted:
  fixes zs p
  defines "n \<equiv> hd (zs @ [p])"
  assumes "ring h (p # zs)" and "new \<notin> set (p # zs)" and nx: "nexts h' = (nexts h)(new \<mapsto> n, p \<mapsto> new)"
    and pv: "prevs h' = (prevs h)(n \<mapsto> new, new \<mapsto> p)"
  shows "ring h' (p # new # zs)"
proof -
  have "path (nexts h) (zs @ [p])" using assms(2) by (auto simp: ring_def path_Cons)
  then have "path (nexts h') (zs @ [p])"
    using assms(2,3) by (simp add: nx ring_def butlast_append)
  then have "path (nexts h') (p # new # zs @ [p])" using assms(3) by (simp add: path_Cons nx n_def)
  moreover have "path (prevs h') (p # rev zs @ [new, p])"
  proof (cases zs)
    case Nil
    then show ?thesis using assms(3) by (simp add: pv n_def)
  next
    case (Cons y ws)
    have "path (prevs h) (p # rev ws @ [y])"
      using assms(2) path_append [of "prevs h" "p # rev ws" y "[p]"] Cons by (simp add: ring_def)
    then have "path (prevs h') (p # rev ws @ [y])"
      using assms(2,3) Cons by (simp add: pv n_def ring_def butlast_append)
    moreover have "path (prevs h') [y, new, p]" using assms(2,3) Cons by (simp add: pv n_def ring_def)
    ultimately show ?thesis
      using Cons path_append [of "prevs h'" "p # rev ws" y "[new, p]"] by simp
  qed
  ultimately show ?thesis using assms(2,3) by (auto simp: ring_def)
qed

lemma raw_list_add_ring:
  assumes "ring h (p # zs)" and "new \<notin> set (p # zs)" and "new \<in> dom h"
  obtains h' where "raw_list_add h new p (hd (zs @ [p])) = Inr h'" "ring h' (p # new # zs)"
    "reshape h h' (insert new (set (p # zs)))"
proof -
  let ?n = "hd (zs @ [p])"
  have n: "?n \<in> set (p # zs)" by (cases zs) auto
  have dom: "set (p # zs) \<subseteq> dom h" by (rule ring_dom) (rule assms)
  obtain h' where h': "raw_list_add h new p ?n = Inr h'" "nexts h' = (nexts h)(new \<mapsto> ?n, p \<mapsto> new)"
    "prevs h' = (prevs h)(?n \<mapsto> new, new \<mapsto> p)" "dom h' = dom h" "\<And>r. r \<notin> {?n, new, p} \<Longrightarrow> h' r = h r"
    by (rule raw_list_add_links [of ?n h p new]) (use n dom assms(3) in auto)
  have "reshape h h' (insert new (set (p # zs)))" using h'(4,5) n unfolding reshape_def by (metis insertCI insertE list.set(2) singletonD)
  then show thesis using h'(1) ring_inserted [OF assms(1,2) h'(2,3)] by (rule that [rotated 2])
qed

lemma list_unlink_ring:
  assumes "ring h (e # zs)" and "zs \<noteq> []"
  obtains h' where "list_unlink h e = Inr h'" "ring h' zs" "reshape h h' (set zs)" "h' e = h e"
proof -
  let ?p = "last zs" and ?n = "hd zs"
  have dom: "set (e # zs) \<subseteq> dom h" by (rule ring_dom) (rule assms)
  have mem: "?p \<in> set zs" "?n \<in> set zs" using assms(2) by auto
  obtain h1 where h1: "set_prev h ?n ?p = Inr h1" "dom h1 = dom h"
    "prevs h1 = (prevs h)(?n \<mapsto> ?p)" "nexts h1 = nexts h" "\<And>r. r \<noteq> ?n \<Longrightarrow> h1 r = h r"
    using mem dom by (elim set_prev_ok [of ?n h ?p, rotated]) auto
  obtain h2 where h2: "set_next h1 ?p ?n = Inr h2" "dom h2 = dom h1"
    "nexts h2 = (nexts h1)(?p \<mapsto> ?n)" "prevs h2 = prevs h1" "\<And>r. r \<noteq> ?p \<Longrightarrow> h2 r = h1 r"
    using mem dom h1(2) by (elim set_next_ok [of ?p h1 ?n, rotated]) auto
  have "get_prev h e = Inr ?p" "get_next h e = Inr ?n"
    using ring_prev [OF assms(1)] ring_next [OF assms(1)] assms(2)
    by (auto intro: get_prev_eq get_next_eq)
  then have run: "list_unlink h e = Inr h2"
    using h1 h2 by (simp add: list_unlink_def raw_list_del_def)
  have "path (nexts h2) (zs @ [hd zs])"
  proof -
    have "path (nexts h) (e # zs @ [e])" using assms(1) by (simp add: ring_def)
    then have "path (nexts h) zs" by (simp add: path_Cons path_snoc assms(2))
    moreover have "?p \<notin> set (butlast zs)"
      using assms by (cases zs rule: rev_cases) (auto simp: ring_def)
    ultimately have "path (nexts h2) zs" by (simp add: h1 h2)
    then show ?thesis by (simp add: path_snoc h2)
  qed
  moreover have "path (prevs h2) (rev (zs @ [hd zs]))"
  proof -
    have "path (prevs h) (e # rev zs @ [e])" using assms(1) by (simp add: ring_def)
    then have "path (prevs h) (rev zs)" by (simp add: path_Cons path_snoc assms(2))
    moreover have "?n \<notin> set (butlast (rev zs))"
      using assms by (cases zs) (auto simp: ring_def)
    ultimately have "path (prevs h2) (rev zs)" by (simp add: h1 h2)
    moreover have "prevs h2 ?n = Some ?p" by (simp add: h1 h2)
    ultimately show ?thesis using assms(2) by (simp add: path_Cons hd_rev)
  qed
  ultimately have "ring h2 zs" using assms(1) by (simp add: ring_def)
  moreover have "reshape h h2 (set zs)"
    using h1(2,5) h2(2,5) mem unfolding reshape_def by metis
  moreover from this have "h2 e = h e" using assms(1) by (auto simp: ring_def reshape_def)
  ultimately show thesis using run by (metis that)
qed

lemma list_replace_ring:
  assumes "ring h (old # zs)" and "zs \<noteq> []" and "new \<notin> set (old # zs)" and "new \<in> dom h"
  obtains h' where "list_replace h old new = Inr h'" "ring h' (new # zs)"
    "reshape h h' (insert new (set zs))"
proof -
  let ?p = "last zs" and ?n = "hd zs"
  have dom: "set (old # zs) \<subseteq> dom h" by (rule ring_dom) (rule assms)
  have mem: "?p \<in> set zs" "?n \<in> set zs" using assms(2) by auto
  have ne: "?p \<noteq> new" "?n \<noteq> new" "?n \<noteq> old" "old \<noteq> new" using mem assms(1,3) by (auto simp: ring_def)
  obtain h1 where h1: "set_next h new ?n = Inr h1" "dom h1 = dom h"
    "nexts h1 = (nexts h)(new \<mapsto> ?n)" "prevs h1 = prevs h" "\<And>r. r \<noteq> new \<Longrightarrow> h1 r = h r"
    using assms(4) by (elim set_next_ok [of new h ?n, rotated])
  obtain h2 where h2: "set_prev h1 ?n new = Inr h2" "dom h2 = dom h1"
    "prevs h2 = (prevs h1)(?n \<mapsto> new)" "nexts h2 = nexts h1" "\<And>r. r \<noteq> ?n \<Longrightarrow> h2 r = h1 r"
    using mem dom h1(2) by (elim set_prev_ok [of ?n h1 new, rotated]) auto
  obtain h3 where h3: "set_prev h2 new ?p = Inr h3" "dom h3 = dom h2"
    "prevs h3 = (prevs h2)(new \<mapsto> ?p)" "nexts h3 = nexts h2" "\<And>r. r \<noteq> new \<Longrightarrow> h3 r = h2 r"
    using assms(4) h1(2) h2(2) by (elim set_prev_ok [of new h2 ?p, rotated]) auto
  obtain h4 where h4: "set_next h3 ?p new = Inr h4" "dom h4 = dom h3"
    "nexts h4 = (nexts h3)(?p \<mapsto> new)" "prevs h4 = prevs h3" "\<And>r. r \<noteq> ?p \<Longrightarrow> h4 r = h3 r"
    using mem dom h1(2) h2(2) h3(2) by (elim set_next_ok [of ?p h3 new, rotated]) auto
  have "get_next h old = Inr ?n" "get_next h1 new = Inr ?n" "get_prev h2 old = Inr ?p" "get_prev h3 new = Inr ?p"
    using ring_prev [OF assms(1)] ring_next [OF assms(1)] assms(2) ne
    by (auto intro!: get_prev_eq get_next_eq simp: h1 h2 h3)
  then have run: "list_replace h old new = Inr h4"
    using h1 h2 h3 h4 by (simp add: list_replace_def)
  have "path (nexts h) (old # zs @ [old])" and "path (prevs h) (old # rev zs @ [old])"
    using assms(1) by (simp_all add: ring_def)
  then have old: "path (nexts h) zs" "path (prevs h) (rev zs)"
    by (simp_all add: path_Cons path_snoc assms(2))
  have "new \<notin> set (butlast zs)" "?p \<notin> set (butlast zs)" "new \<notin> set (butlast (rev zs))"
    "?n \<notin> set (butlast (rev zs))"
    using assms(1-3) by (auto simp: ring_def dest: in_set_butlastD)
      (cases zs rule: rev_cases; auto; fail | cases zs; auto; fail)+
  then have "path (nexts h4) (new # zs @ [new])" "path (prevs h4) (new # rev zs @ [new])"
    using old ne assms(2) by (simp_all add: path_Cons path_snoc h1 h2 h3 h4 hd_append hd_rev last_rev)
  then have "ring h4 (new # zs)" using assms(1,3) by (auto simp: ring_def)
  moreover have "reshape h h4 (insert new (set zs))"
    using h1(2,5) h2(2,5) h3(2,5) h4(2,5) mem unfolding reshape_def by (metis insertCI)
  ultimately show thesis using run by (metis that)
qed

subsection \<open>The operations on \<open>dlist\<close>\<close>

lemma dlist_distinct: "dlist h head xs \<Longrightarrow> distinct (head # xs)"
  by (simp add: dlist_def ring_def)

lemma dlist_dom: "dlist h head xs \<Longrightarrow> set (head # xs) \<subseteq> dom h"
  by (metis dlist_def ring_dom)

lemma INIT_LIST_HEAD_spec:
  assumes "head \<in> dom h"
  obtains h' where "INIT_LIST_HEAD h head = Inr h'" "dlist h' head []" "reshape h h' {head}"
proof -
  obtain h1 where h1: "set_next h head head = Inr h1" "dom h1 = dom h"
    "nexts h1 = (nexts h)(head \<mapsto> head)" "prevs h1 = prevs h" "\<And>r. r \<noteq> head \<Longrightarrow> h1 r = h r"
    using assms by (elim set_next_ok [of head h head, rotated])
  obtain h2 where h2: "set_prev h1 head head = Inr h2" "dom h2 = dom h1"
    "prevs h2 = (prevs h1)(head \<mapsto> head)" "nexts h2 = nexts h1" "\<And>r. r \<noteq> head \<Longrightarrow> h2 r = h1 r"
    using assms h1(2) by (elim set_prev_ok [of head h1 head, rotated]) auto
  show thesis
    by (rule that [of h2]) (use h1 h2 in \<open>auto simp: INIT_LIST_HEAD_def dlist_def ring_def reshape_def\<close>)
qed

lemma list_add_spec:
  assumes "dlist h head xs" and "new \<notin> set (head # xs)" and "new \<in> dom h"
  obtains h' where "list_add h new head = Inr h'" "dlist h' head (new # xs)"
    "reshape h h' (insert new (set (head # xs)))"
proof -
  have "get_next h head = Inr (hd (xs @ [head]))"
    using assms(1) ring_next get_next_eq by (auto simp: dlist_def)
  then show thesis
    using raw_list_add_ring [OF assms(1) [unfolded dlist_def] assms(2,3)] that
    by (auto simp: list_add_def dlist_def)
qed

lemma list_add_tail_spec:
  assumes "dlist h head xs" and "new \<notin> set (head # xs)" and "new \<in> dom h"
  obtains h' where "list_add_tail h new head = Inr h'" "dlist h' head (xs @ [new])"
    "reshape h h' (insert new (set (head # xs)))"
proof -
  let ?p = "last (head # xs)"
  have prev: "get_prev h head = Inr ?p"
    using assms(1) ring_prev get_prev_eq unfolding dlist_def by blast
  let ?zs = "butlast (head # xs)"
  have split: "head # xs = ?zs @ [?p]" by simp
  then have "ring h (?p # ?zs)" using assms(1) ring_rotate unfolding dlist_def by metis
  moreover have "set (?p # ?zs) = set (head # xs)" using split by (metis rotate1.simps(2) set_rotate1)
  moreover have "hd (?zs @ [?p]) = head" by (metis list.sel(1) split)
  ultimately obtain h' where h': "raw_list_add h new ?p head = Inr h'" "ring h' (?p # new # ?zs)"
    "reshape h h' (insert new (set (head # xs)))"
    using raw_list_add_ring [of h ?p ?zs new] assms(2,3) by metis
  have "ring h' (?zs @ [?p, new])" using h'(2) ring_turn [of h' "[?p, new]" ?zs] by simp
  then have "dlist h' head (xs @ [new])" using split by (simp add: dlist_def) (metis append.assoc append_Cons append_Nil)
  then show thesis using that h' prev by (simp add: list_add_tail_def)
qed

lemma dlist_split:
  assumes "dlist h head (as @ e # bs)"
  shows "ring h (e # bs @ head # as)"
  using assms ring_turn [of h "head # as" "e # bs"] by (simp add: dlist_def)

lemma list_unlink_spec:
  assumes "dlist h head xs" and "e \<in> set xs"
  obtains h' where "list_unlink h e = Inr h'" "dlist h' head (remove1 e xs)"
    "reshape h h' (set (head # xs) - {e})" "h' e = h e" "e \<in> dom h'"
proof -
  from assms(2) obtain as bs where xs: "xs = as @ e # bs" "e \<notin> set as" by (meson split_list_first)
  obtain h' where h': "list_unlink h e = Inr h'" "ring h' (bs @ head # as)"
    "reshape h h' (set (bs @ head # as))" "h' e = h e"
    using dlist_split assms(1) xs(1) by (elim list_unlink_ring [of h e "bs @ head # as", rotated 2]) auto
  have "ring h' (head # as @ bs)" using h'(2) ring_turn [of h' bs "head # as"] by simp
  moreover have "set (bs @ head # as) = set (head # xs) - {e}"
    using dlist_distinct [OF assms(1)] xs by auto
  moreover have "e \<in> dom h'" using h'(4) dlist_dom [OF assms(1)] assms(2) by (auto simp: dom_def)
  ultimately show thesis using h' xs that by (simp add: dlist_def remove1_append)
qed

lemma list_del_spec:
  assumes "dlist h head xs" and "e \<in> set xs"
  obtains h' where "list_del h e = Inr h'" "dlist h' head (remove1 e xs)" "reshape h h' (set (head # xs))"
    "nexts h' e = Some LIST_POISON1" "prevs h' e = Some LIST_POISON2"
proof -
  obtain h1 where h1: "list_unlink h e = Inr h1" "dlist h1 head (remove1 e xs)"
    "reshape h h1 (set (head # xs) - {e})" "e \<in> dom h1"
    using list_unlink_spec [OF assms] by metis
  obtain h2 where h2: "set_next h1 e LIST_POISON1 = Inr h2" "dom h2 = dom h1"
    "nexts h2 = (nexts h1)(e \<mapsto> LIST_POISON1)" "\<And>r. r \<noteq> e \<Longrightarrow> h2 r = h1 r"
    using set_next_ok [OF h1(4)] by metis
  obtain h3 where h3: "set_prev h2 e LIST_POISON2 = Inr h3" "dom h3 = dom h2"
    "prevs h3 = (prevs h2)(e \<mapsto> LIST_POISON2)" "nexts h3 = nexts h2" "\<And>r. r \<noteq> e \<Longrightarrow> h3 r = h2 r"
    using h1(4) h2(2) by (elim set_prev_ok [of e h2 LIST_POISON2, rotated]) auto
  have re: "reshape h1 h3 {e}" using h2(2,4) h3(2,5) by (simp add: reshape_def)
  have "e \<notin> set (head # remove1 e xs)" using dlist_distinct [OF assms(1)] assms(2) by auto
  then have "dlist h3 head (remove1 e xs)" using dlist_frame [OF h1(2) re] by simp
  moreover have "reshape h h3 (set (head # xs))"
    by (rule reshape_trans [OF h1(3) re]) (use assms(2) in auto)
  ultimately show thesis using that h1(1) h2 h3 by (simp add: list_del_def)
qed

lemma list_del_init_spec:
  assumes "dlist h head xs" and "e \<in> set xs"
  obtains h' where "list_del_init h e = Inr h'" "dlist h' head (remove1 e xs)" "dlist h' e []"
    "reshape h h' (set (head # xs))"
proof -
  obtain h1 where h1: "list_unlink h e = Inr h1" "dlist h1 head (remove1 e xs)"
    "reshape h h1 (set (head # xs) - {e})" "e \<in> dom h1"
    using list_unlink_spec [OF assms] by metis
  obtain h2 where h2: "INIT_LIST_HEAD h1 e = Inr h2" "dlist h2 e []" "reshape h1 h2 {e}"
    using INIT_LIST_HEAD_spec [OF h1(4)] by metis
  have "e \<notin> set (head # remove1 e xs)" using dlist_distinct [OF assms(1)] assms(2) by auto
  then have "dlist h2 head (remove1 e xs)" using dlist_frame [OF h1(2) h2(3)] by simp
  moreover have "reshape h h2 (set (head # xs))"
    by (rule reshape_trans [OF h1(3) h2(3)]) (use assms(2) in auto)
  ultimately show thesis using that h1(1) h2 by (simp add: list_del_init_def)
qed

lemma list_replace_spec:
  assumes "dlist h head (as @ old # bs)" and "new \<notin> set (head # as @ old # bs)" and "new \<in> dom h"
  obtains h' where "list_replace h old new = Inr h'" "dlist h' head (as @ new # bs)"
    "reshape h h' (insert new (set (head # as @ bs)))"
proof -
  obtain h' where h': "list_replace h old new = Inr h'" "ring h' (new # bs @ head # as)"
    "reshape h h' (insert new (set (bs @ head # as)))"
    using dlist_split [OF assms(1)] assms(2,3)
    by (elim list_replace_ring [of h old "bs @ head # as" new, rotated 4]) auto
  moreover have "insert new (set (bs @ head # as)) = insert new (set (head # as @ bs))" by auto
  moreover have "ring h' (head # as @ new # bs)"
    using h'(2) ring_turn [of h' "new # bs" "head # as"] by simp
  ultimately show thesis using that by (simp add: dlist_def)
qed

lemma list_replace_init_spec:
  assumes "dlist h head (as @ old # bs)" and "new \<notin> set (head # as @ old # bs)" and "new \<in> dom h"
  obtains h' where "list_replace_init h old new = Inr h'" "dlist h' head (as @ new # bs)" "dlist h' old []"
proof -
  obtain h1 where h1: "list_replace h old new = Inr h1" "dlist h1 head (as @ new # bs)"
    "reshape h h1 (insert new (set (head # as @ bs)))"
    using list_replace_spec [OF assms] by metis
  have "old \<in> dom h1" using dlist_dom [OF assms(1)] reshape_dom [OF h1(3)] by simp
  then obtain h2 where h2: "INIT_LIST_HEAD h1 old = Inr h2" "dlist h2 old []" "reshape h1 h2 {old}"
    using INIT_LIST_HEAD_spec by metis
  have "old \<notin> set (head # as @ new # bs)" using dlist_distinct [OF assms(1)] assms(2) by auto
  then have "dlist h2 head (as @ new # bs)" using dlist_frame [OF h1(2) h2(3)] by simp
  then show thesis using that h1(1) h2 by (simp add: list_replace_init_def)
qed

text \<open>Moving an entry to the front or the back, in its own list and to another one.\<close>

lemma unlink_spared:
  assumes "dlist h head xs" and "e \<in> set xs" and "dlist h head2 ys"
    and "set (head # xs) \<inter> set (head2 # ys) = {}"
  obtains h' where "list_unlink h e = Inr h'" "dlist h' head (remove1 e xs)" "dlist h' head2 ys"
    "e \<in> dom h'" "e \<notin> set (head2 # ys)" "e \<notin> set (head # remove1 e xs)"
proof -
  obtain h1 where h1: "list_unlink h e = Inr h1" "dlist h1 head (remove1 e xs)"
    "reshape h h1 (set (head # xs) - {e})" "e \<in> dom h1"
    using list_unlink_spec [OF assms(1,2)] by metis
  moreover have "dlist h1 head2 ys" by (rule dlist_frame [OF assms(3) h1(3)]) (use assms(4) in auto)
  moreover have "e \<notin> set (head2 # ys)" "e \<notin> set (head # remove1 e xs)"
    using assms dlist_distinct [OF assms(1)] by auto
  ultimately show thesis using that by metis
qed

lemma list_move_within:
  assumes "dlist h head xs" and "e \<in> set xs"
  shows "\<exists>h'. list_move h e head = Inr h' \<and> dlist h' head (e # remove1 e xs) \<and> reshape h h' (set (head # xs))"
    and "\<exists>h'. list_move_tail h e head = Inr h' \<and> dlist h' head (remove1 e xs @ [e]) \<and> reshape h h' (set (head # xs))"
proof -
  obtain h1 where h1: "list_unlink h e = Inr h1" "dlist h1 head (remove1 e xs)" "e \<in> dom h1"
    "reshape h h1 (set (head # xs) - {e})" using list_unlink_spec [OF assms] by metis
  have new: "e \<notin> set (head # remove1 e xs)" using dlist_distinct [OF assms(1)] assms(2) by auto
  have all: "reshape h h' (set (head # xs))" if "reshape h1 h' (insert e (set (head # remove1 e xs)))" for h'
    by (rule reshape_trans [OF h1(4) that]) (use assms(2) set_remove1_subset [of e xs] in auto)
  obtain h2 where "list_add h1 e head = Inr h2" "dlist h2 head (e # remove1 e xs)"
    "reshape h1 h2 (insert e (set (head # remove1 e xs)))" using list_add_spec [OF h1(2) new h1(3)] by metis
  then show "\<exists>h'. list_move h e head = Inr h' \<and> dlist h' head (e # remove1 e xs) \<and> reshape h h' (set (head # xs))"
    using h1(1) all by (simp add: list_move_def)
  obtain h3 where "list_add_tail h1 e head = Inr h3" "dlist h3 head (remove1 e xs @ [e])"
    "reshape h1 h3 (insert e (set (head # remove1 e xs)))" using list_add_tail_spec [OF h1(2) new h1(3)] by metis
  then show "\<exists>h'. list_move_tail h e head = Inr h' \<and> dlist h' head (remove1 e xs @ [e]) \<and> reshape h h' (set (head # xs))"
    using h1(1) all by (simp add: list_move_tail_def)
qed

lemma list_move_across:
  assumes "dlist h head xs" and "e \<in> set xs" and "dlist h head2 ys"
    and "set (head # xs) \<inter> set (head2 # ys) = {}"
  shows "\<exists>h'. list_move h e head2 = Inr h' \<and> dlist h' head (remove1 e xs) \<and> dlist h' head2 (e # ys)"
    and "\<exists>h'. list_move_tail h e head2 = Inr h' \<and> dlist h' head (remove1 e xs) \<and> dlist h' head2 (ys @ [e])"
proof -
  obtain h1 where h1: "list_unlink h e = Inr h1" "dlist h1 head (remove1 e xs)" "dlist h1 head2 ys"
    "e \<in> dom h1" "e \<notin> set (head2 # ys)" "e \<notin> set (head # remove1 e xs)"
    using unlink_spared [OF assms] by metis
  have apart: "insert e (set (head2 # ys)) \<inter> set (head # remove1 e xs) = {}"
    using assms(4) h1(6) set_remove1_subset [of e xs] by auto
  obtain h2 where "list_add h1 e head2 = Inr h2" "dlist h2 head2 (e # ys)"
    "reshape h1 h2 (insert e (set (head2 # ys)))" using list_add_spec [OF h1(3,5,4)] by metis
  then show "\<exists>h'. list_move h e head2 = Inr h' \<and> dlist h' head (remove1 e xs) \<and> dlist h' head2 (e # ys)"
    using dlist_frame [OF h1(2) _ apart] h1(1) by (simp add: list_move_def)
  obtain h3 where "list_add_tail h1 e head2 = Inr h3" "dlist h3 head2 (ys @ [e])"
    "reshape h1 h3 (insert e (set (head2 # ys)))" using list_add_tail_spec [OF h1(3,5,4)] by metis
  then show "\<exists>h'. list_move_tail h e head2 = Inr h' \<and> dlist h' head (remove1 e xs) \<and> dlist h' head2 (ys @ [e])"
    using dlist_frame [OF h1(2) _ apart] h1(1) by (simp add: list_move_tail_def)
qed

text \<open>The queries.\<close>

lemma dlist_head_links:
  assumes "dlist h head xs"
  shows "get_next h head = Inr (hd (xs @ [head]))" "get_prev h head = Inr (last (head # xs))"
  using assms ring_next ring_prev get_next_eq get_prev_eq unfolding dlist_def by metis+

lemma dlist_entry_next:
  assumes "dlist h head (as @ e # bs)"
  shows "get_next h e = Inr (hd (bs @ [head]))"
  using ring_next [OF dlist_split [OF assms]] get_next_eq by (cases bs) auto

lemma dlist_entry_prev:
  assumes "dlist h head (as @ e # bs)"
  shows "get_prev h e = Inr (last (head # as))"
  using ring_prev [OF dlist_split [OF assms]] get_prev_eq by (cases as) auto

text \<open>A head that is initialised where it is declared.\<close>

lemma LIST_HEAD_INIT_empty: "h name = Some (LIST_HEAD_INIT name) \<Longrightarrow> dlist h name []"
  by (simp add: dlist_def ring_def nexts_def prevs_def LIST_HEAD_INIT_def)

lemma list_queries:
  assumes "dlist h head xs"
  shows "list_empty h head = Inr (xs = [])" "list_empty_careful h head = Inr (xs = [])"
    and "list_is_singular h head = Inr (length xs = 1)"
proof -
  have d: "distinct (head # xs)" by (rule dlist_distinct) (rule assms)
  have e: "hd (xs @ [head]) = head \<longleftrightarrow> xs = []" using d by (cases xs) auto
  show em: "list_empty h head = Inr (xs = [])"
    by (simp add: list_empty_def dlist_head_links [OF assms] e)
  show "list_empty_careful h head = Inr (xs = [])"
    by (simp add: list_empty_careful_def dlist_head_links [OF assms] e)
  have "hd (xs @ [head]) = last (head # xs) \<longleftrightarrow> length xs \<le> 1"
    using d by (cases xs; cases "tl xs" rule: rev_cases) auto
  then show "list_is_singular h head = Inr (length xs = 1)"
    by (simp add: list_is_singular_def em dlist_head_links [OF assms]) (cases xs; auto)
qed

lemma list_is_last_spec:
  assumes "dlist h head (as @ e # bs)"
  shows "list_is_last h e head = Inr (bs = [])"
  using dlist_distinct [OF assms] by (cases bs) (auto simp: list_is_last_def dlist_entry_next [OF assms])

subsection \<open>The contract of a list\<close>

definition entry_avail :: "addr \<Rightarrow> lheap \<Rightarrow> addr \<Rightarrow> bool" where
  "entry_avail head h p \<longleftrightarrow> p \<in> dom h \<and> p \<noteq> head"

lemma entry_avail_reshape: "reshape h h' A \<Longrightarrow> entry_avail head h' = entry_avail head h"
  by (auto simp: entry_avail_def reshape_def fun_eq_iff)

text \<open>The calls that change one list: what they do to a plain list, and when they are allowed.\<close>

datatype list_call =
    Add addr | AddTail addr | Del addr | DelInit addr | Move addr | MoveTail addr | Replace addr addr

primrec run_list_call :: "addr \<Rightarrow> list_call \<Rightarrow> lheap \<Rightarrow> lheap res" where
  "run_list_call head (Add a) h = list_add h a head"
| "run_list_call head (AddTail a) h = list_add_tail h a head"
| "run_list_call head (Del a) h = list_del h a"
| "run_list_call head (DelInit a) h = list_del_init h a"
| "run_list_call head (Move a) h = list_move h a head"
| "run_list_call head (MoveTail a) h = list_move_tail h a head"
| "run_list_call head (Replace a b) h = list_replace h a b"

primrec spec_list_call :: "list_call \<Rightarrow> addr list \<Rightarrow> addr list" where
  "spec_list_call (Add a) xs = a # xs"
| "spec_list_call (AddTail a) xs = xs @ [a]"
| "spec_list_call (Del a) xs = remove1 a xs"
| "spec_list_call (DelInit a) xs = remove1 a xs"
| "spec_list_call (Move a) xs = a # remove1 a xs"
| "spec_list_call (MoveTail a) xs = remove1 a xs @ [a]"
| "spec_list_call (Replace a b) xs = map (\<lambda>x. if x = a then b else x) xs"

primrec list_call_ok :: "(addr \<Rightarrow> bool) \<Rightarrow> list_call \<Rightarrow> addr list \<Rightarrow> bool" where
  "list_call_ok avail (Add a) xs \<longleftrightarrow> avail a \<and> a \<notin> set xs"
| "list_call_ok avail (AddTail a) xs \<longleftrightarrow> avail a \<and> a \<notin> set xs"
| "list_call_ok avail (Del a) xs \<longleftrightarrow> a \<in> set xs"
| "list_call_ok avail (DelInit a) xs \<longleftrightarrow> a \<in> set xs"
| "list_call_ok avail (Move a) xs \<longleftrightarrow> a \<in> set xs"
| "list_call_ok avail (MoveTail a) xs \<longleftrightarrow> a \<in> set xs"
| "list_call_ok avail (Replace a b) xs \<longleftrightarrow> a \<in> set xs \<and> avail b \<and> b \<notin> set xs"

lemma list_replace_law:
  assumes "dlist h head xs" and "a \<in> set xs" and "b \<notin> set (head # xs)" and "b \<in> dom h"
  obtains h' A where "list_replace h a b = Inr h'" "dlist h' head (map (\<lambda>x. if x = a then b else x) xs)" "reshape h h' A"
proof -
  from assms(2) obtain as bs where xs: "xs = as @ a # bs" by (auto dest: split_list)
  then have "a \<notin> set as" "a \<notin> set bs" using dlist_distinct [OF assms(1)] by auto
  then have "map (\<lambda>x. if x = a then b else x) xs = as @ b # bs"
    using xs by (auto intro!: map_idI)
  then show thesis using list_replace_spec [of h head as a bs b] assms xs that by metis
qed

lemma list_call_law:
  assumes "dlist h head xs" and "list_call_ok (entry_avail head h) c xs"
  shows "\<exists>h'. run_list_call head c h = Inr h' \<and> dlist h' head (spec_list_call c xs) \<and> entry_avail head h' = entry_avail head h"
proof -
  have "\<exists>h' A. run_list_call head c h = Inr h' \<and> dlist h' head (spec_list_call c xs) \<and> reshape h h' A"
  proof (cases c)
    case (Add a)
    then show ?thesis using list_add_spec [OF assms(1), of a] assms(2) by (auto simp: entry_avail_def) metis
  next
    case (AddTail a)
    then show ?thesis using list_add_tail_spec [OF assms(1), of a] assms(2) by (auto simp: entry_avail_def) metis
  next
    case (Del a)
    then show ?thesis using list_del_spec [OF assms(1), of a] assms(2) by simp metis
  next
    case (DelInit a)
    then show ?thesis using list_del_init_spec [OF assms(1), of a] assms(2) by simp metis
  next
    case (Move a)
    then show ?thesis using list_move_within(1) [OF assms(1), of a] assms(2) by auto
  next
    case (MoveTail a)
    then show ?thesis using list_move_within(2) [OF assms(1), of a] assms(2) by auto
  next
    case (Replace a b)
    then show ?thesis using list_replace_law [OF assms(1), of a b] assms(2) by (simp add: entry_avail_def) metis
  qed
  then show ?thesis using entry_avail_reshape by blast
qed

interpretation dl: list_script "\<lambda>h. dlist h head" "entry_avail head" "run_list_call head" spec_list_call list_call_ok
  by unfold_locales (fact list_call_law)

subsection \<open>Properties\<close>

text \<open>Two lists: entries 101 and 102 on head 100, entry 104 on head 103; the cell 105 is unlinked.\<close>

definition list_example :: lheap where
  "list_example =
     [100 \<mapsto> \<lparr>lh_prev = 102, lh_next = 101\<rparr>, 101 \<mapsto> \<lparr>lh_prev = 100, lh_next = 102\<rparr>,
      102 \<mapsto> \<lparr>lh_prev = 101, lh_next = 100\<rparr>, 103 \<mapsto> \<lparr>lh_prev = 104, lh_next = 104\<rparr>,
      104 \<mapsto> \<lparr>lh_prev = 103, lh_next = 103\<rparr>, 105 \<mapsto> \<lparr>lh_prev = 0, lh_next = 0\<rparr>]"

lemma list_example_lists: "dlist list_example 100 [101, 102]" "dlist list_example 103 [104]"
  by (simp_all add: list_example_def dlist_def ring_def nexts_def prevs_def)

text \<open>C13: any sequence of calls of \<open>list_add\<close>, \<open>list_add_tail\<close>, \<open>list_del\<close>, \<open>list_del_init\<close>, \<open>list_move\<close>,
  \<open>list_move_tail\<close> and \<open>list_replace\<close> on one list, which adds only cells that are not on the list and
  deletes, moves and replaces only entries that are, runs without a fault, and leaves on the list exactly
  the entries, in the order, that the same sequence gives on a plain list.\<close>

theorem list_script_refines:
  assumes "dlist h head xs" and "calls_ok spec_list_call (list_call_ok (entry_avail head h)) cs xs"
  shows "\<exists>h'. run_calls (run_list_call head) cs h = Inr h' \<and> dlist h' head (spec_calls spec_list_call cs xs)"
  using dl.calls_run [OF assms] by blast

theorem list_script_refines_witness:
  "\<exists>h'. run_calls (run_list_call 100) [AddTail 105, Del 101, Add 101, MoveTail 102] list_example = Inr h' \<and>
     dlist h' 100 [101, 105, 102]"
  using list_script_refines [OF list_example_lists(1), of "[AddTail 105, Del 101, Add 101, MoveTail 102]"]
  by (simp add: entry_avail_def list_example_def)

text \<open>deleting an entry twice is caught: as long as the poison address is not an allocated
  cell, the second \<open>list_del\<close> faults on it instead of corrupting the list.\<close>

theorem list_del_twice_faults:
  assumes "dlist h head xs" and "e \<in> set xs" and "LIST_POISON1 \<notin> dom h"
  shows "bindR (list_del h e) (\<lambda>h'. list_del h' e) = Inl BadPointer"
proof -
  obtain h' where h': "list_del h e = Inr h'" "reshape h h' (set (head # xs))"
    "nexts h' e = Some LIST_POISON1" "prevs h' e = Some LIST_POISON2"
    using list_del_spec [OF assms(1,2)] by metis
  have "h' LIST_POISON1 = None" using assms(3) reshape_dom [OF h'(2)] by auto
  then show ?thesis
    using h'(1) get_next_eq [OF h'(3)] get_prev_eq [OF h'(4)]
    by (simp add: list_del_def list_unlink_def raw_list_del_def set_prev_def cell_def)
qed

theorem list_del_twice_faults_witness:
  "bindR (list_del list_example 101) (\<lambda>h'. list_del h' 101) = Inl BadPointer"
  using list_del_twice_faults [OF list_example_lists(1), of 101]
  by (simp add: list_example_def LIST_POISON1_def)

end
