(* ===== verification/Cx_Hlist.thy ===== *)
theory Cx_Hlist
  imports Cx_List
begin

text \<open>
  The lists with a single-pointer head of \<open>list.h\<close>, which the hash tables use. The field \<open>pprev\<close> of
  a node holds the address of the pointer that points to the node: the field \<open>first\<close> of a head or
  the field \<open>next\<close> of another node. \<open>hlist h head xs\<close> says that the nodes \<open>xs\<close>, in this order, hang
  on \<open>head\<close>; the operations are shown to implement those on \<open>xs\<close>. The loops are in \<open>Cx_Hlist_Iter\<close>.
\<close>

subsection \<open>Heads, nodes and pointers to pointers\<close>

datatype hpp = PNull | PFirst addr | PNext addr | PPoison

record hlist_node =
  hn_next :: addr
  hn_pprev :: hpp

record hheap =
  hh_first :: "addr \<rightharpoonup> addr"
  hh_node :: "addr \<rightharpoonup> hlist_node"

definition hnode :: "hheap \<Rightarrow> addr \<Rightarrow> hlist_node res" where
  "hnode h n =
     (if n = 0 then Inl NullDeref
      else case hh_node h n of None \<Rightarrow> Inl BadPointer | Some c \<Rightarrow> Inr c)"

definition get_first :: "hheap \<Rightarrow> addr \<Rightarrow> addr res" where
  "get_first h head = (case hh_first h head of None \<Rightarrow> Inl BadPointer | Some a \<Rightarrow> Inr a)"

definition set_first :: "hheap \<Rightarrow> addr \<Rightarrow> addr \<Rightarrow> hheap res" where
  "set_first h head a =
     bindR (get_first h head) (\<lambda>_. Inr (h\<lparr>hh_first := (hh_first h)(head \<mapsto> a)\<rparr>))"

definition set_hnext :: "hheap \<Rightarrow> addr \<Rightarrow> addr \<Rightarrow> hheap res" where
  "set_hnext h n a =
     bindR (hnode h n) (\<lambda>c. Inr (h\<lparr>hh_node := (hh_node h)(n \<mapsto> c\<lparr>hn_next := a\<rparr>)\<rparr>))"

definition set_hpprev :: "hheap \<Rightarrow> addr \<Rightarrow> hpp \<Rightarrow> hheap res" where
  "set_hpprev h n pp =
     bindR (hnode h n) (\<lambda>c. Inr (h\<lparr>hh_node := (hh_node h)(n \<mapsto> c\<lparr>hn_pprev := pp\<rparr>)\<rparr>))"

text \<open>The store \<open>*pp = a\<close>.\<close>

fun set_through :: "hheap \<Rightarrow> hpp \<Rightarrow> addr \<Rightarrow> hheap res" where
  "set_through h PNull a = Inl NullDeref"
| "set_through h PPoison a = Inl BadPointer"
| "set_through h (PFirst head) a = set_first h head a"
| "set_through h (PNext n) a = set_hnext h n a"

subsection \<open>Operations\<close>

definition HLIST_HEAD_INIT :: addr where
  "HLIST_HEAD_INIT = 0"

definition INIT_HLIST_HEAD :: "hheap \<Rightarrow> addr \<Rightarrow> hheap res" where
  "INIT_HLIST_HEAD h head = set_first h head 0"

definition INIT_HLIST_NODE :: "hheap \<Rightarrow> addr \<Rightarrow> hheap res" where
  "INIT_HLIST_NODE h n = bindR (set_hnext h n 0) (\<lambda>h1. set_hpprev h1 n PNull)"

definition hlist_unhashed :: "hheap \<Rightarrow> addr \<Rightarrow> bool res" where
  "hlist_unhashed h n = bindR (hnode h n) (\<lambda>c. Inr (hn_pprev c = PNull))"

definition hlist_empty :: "hheap \<Rightarrow> addr \<Rightarrow> bool res" where
  "hlist_empty h head = bindR (get_first h head) (\<lambda>a. Inr (a = 0))"

definition raw_hlist_del :: "hheap \<Rightarrow> addr \<Rightarrow> hheap res" where
  "raw_hlist_del h n =
     bindR (hnode h n) (\<lambda>c.
     let nxt = hn_next c; pprev = hn_pprev c
     in bindR (set_through h pprev nxt) (\<lambda>h1.
        if nxt \<noteq> 0 then set_hpprev h1 nxt pprev else Inr h1))"

definition hlist_del :: "hheap \<Rightarrow> addr \<Rightarrow> hheap res" where
  "hlist_del h n =
     bindR (raw_hlist_del h n) (\<lambda>h1.
     bindR (set_hnext h1 n LIST_POISON1) (\<lambda>h2. set_hpprev h2 n PPoison))"

definition hlist_del_init :: "hheap \<Rightarrow> addr \<Rightarrow> hheap res" where
  "hlist_del_init h n =
     bindR (hlist_unhashed h n) (\<lambda>u.
       if \<not> u then bindR (raw_hlist_del h n) (\<lambda>h1. INIT_HLIST_NODE h1 n) else Inr h)"

definition hlist_add_head :: "hheap \<Rightarrow> addr \<Rightarrow> addr \<Rightarrow> hheap res" where
  "hlist_add_head h n head =
     bindR (get_first h head) (\<lambda>first.
     bindR (set_hnext h n first) (\<lambda>h1.
     bindR (if first \<noteq> 0 then set_hpprev h1 first (PNext n) else Inr h1) (\<lambda>h2.
     bindR (set_first h2 head n) (\<lambda>h3. set_hpprev h3 n (PFirst head)))))"

definition hlist_add_before :: "hheap \<Rightarrow> addr \<Rightarrow> addr \<Rightarrow> hheap res" where
  "hlist_add_before h n nxt =
     bindR (hnode h nxt) (\<lambda>c.
     bindR (set_hpprev h n (hn_pprev c)) (\<lambda>h1.
     bindR (set_hnext h1 n nxt) (\<lambda>h2.
     bindR (set_hpprev h2 nxt (PNext n)) (\<lambda>h3.
     bindR (hnode h3 n) (\<lambda>d. set_through h3 (hn_pprev d) n)))))"

definition hlist_add_behind :: "hheap \<Rightarrow> addr \<Rightarrow> addr \<Rightarrow> hheap res" where
  "hlist_add_behind h n prev =
     bindR (hnode h prev) (\<lambda>c.
     bindR (set_hnext h n (hn_next c)) (\<lambda>h1.
     bindR (set_hnext h1 prev n) (\<lambda>h2.
     bindR (set_hpprev h2 n (PNext prev)) (\<lambda>h3.
     bindR (hnode h3 n) (\<lambda>d.
       if hn_next d \<noteq> 0 then set_hpprev h3 (hn_next d) (PNext n) else Inr h3)))))"

definition hlist_add_fake :: "hheap \<Rightarrow> addr \<Rightarrow> hheap res" where
  "hlist_add_fake h n = set_hpprev h n (PNext n)"

definition hlist_fake :: "hheap \<Rightarrow> addr \<Rightarrow> bool res" where
  "hlist_fake h n = bindR (hnode h n) (\<lambda>c. Inr (hn_pprev c = PNext n))"

definition hlist_is_singular_node :: "hheap \<Rightarrow> addr \<Rightarrow> addr \<Rightarrow> bool res" where
  "hlist_is_singular_node h n head =
     bindR (hnode h n) (\<lambda>c. Inr (hn_next c = 0 \<and> hn_pprev c = PFirst head))"

definition hlist_move_list :: "hheap \<Rightarrow> addr \<Rightarrow> addr \<Rightarrow> hheap res" where
  "hlist_move_list h old new =
     bindR (get_first h old) (\<lambda>a.
     bindR (set_first h new a) (\<lambda>h1.
     bindR (get_first h1 new) (\<lambda>b.
     bindR (if b \<noteq> 0 then set_hpprev h1 b (PFirst new) else Inr h1) (\<lambda>h2.
       set_first h2 old 0))))"

subsection \<open>Representation\<close>

text \<open>\<open>hseg h pp xs q\<close>: the nodes \<open>xs\<close> are linked, entered through the pointer at \<open>pp\<close> and left to \<open>q\<close>.\<close>

definition entry :: "addr list \<Rightarrow> addr \<Rightarrow> addr" where
  "entry xs q = (case xs of [] \<Rightarrow> q | x # _ \<Rightarrow> x)"

definition exit_pp :: "hpp \<Rightarrow> addr list \<Rightarrow> hpp" where
  "exit_pp pp xs = (if xs = [] then pp else PNext (last xs))"

fun hseg :: "hheap \<Rightarrow> hpp \<Rightarrow> addr list \<Rightarrow> addr \<Rightarrow> bool" where
  "hseg h pp [] q \<longleftrightarrow> True"
| "hseg h pp (x # xs) q \<longleftrightarrow>
     hh_node h x = Some \<lparr>hn_next = entry xs q, hn_pprev = pp\<rparr> \<and> hseg h (PNext x) xs q"

definition hlist :: "hheap \<Rightarrow> addr \<Rightarrow> addr list \<Rightarrow> bool" where
  "hlist h head xs \<longleftrightarrow>
     distinct xs \<and> 0 \<notin> set xs \<and> hh_first h head = Some (entry xs 0) \<and> hseg h (PFirst head) xs 0"

lemma entry_simps [simp]: "entry [] q = q" "entry (x # xs) q = x" "entry (xs @ ys) q = entry xs (entry ys q)"
  by (auto simp: entry_def split: list.splits)

lemma exit_pp_simps [simp]: "exit_pp pp [] = pp" "exit_pp pp (x # xs) = exit_pp (PNext x) xs"
  by (auto simp: exit_pp_def)

lemma hseg_append [simp]:
  "hseg h pp (xs @ ys) q \<longleftrightarrow> hseg h pp xs (entry ys q) \<and> hseg h (exit_pp pp xs) ys q"
  by (induction xs arbitrary: pp) auto

lemma hseg_frame:
  "hseg h pp xs q \<Longrightarrow> (\<And>x. x \<in> set xs \<Longrightarrow> hh_node h' x = hh_node h x) \<Longrightarrow> hseg h' pp xs q"
  by (induction xs arbitrary: pp) auto

lemma hseg_dom: "hseg h pp xs q \<Longrightarrow> x \<in> set xs \<Longrightarrow> x \<in> dom (hh_node h)"
  by (induction xs arbitrary: pp) auto

text \<open>\<open>hkeep h h' H A\<close>: only the heads \<open>H\<close> and the nodes \<open>A\<close> were changed.\<close>

definition hkeep :: "hheap \<Rightarrow> hheap \<Rightarrow> addr set \<Rightarrow> addr set \<Rightarrow> bool" where
  "hkeep h h' H A \<longleftrightarrow> dom (hh_node h') = dom (hh_node h) \<and> dom (hh_first h') = dom (hh_first h) \<and>
     (\<forall>x. x \<notin> A \<longrightarrow> hh_node h' x = hh_node h x) \<and> (\<forall>g. g \<notin> H \<longrightarrow> hh_first h' g = hh_first h g)"

lemma hkeep_trans: "hkeep h h1 H A \<Longrightarrow> hkeep h1 h2 G B \<Longrightarrow> H \<union> G \<subseteq> K \<Longrightarrow> A \<union> B \<subseteq> C \<Longrightarrow> hkeep h h2 K C"
  unfolding hkeep_def by (simp add: subset_iff) metis

lemma hseg_keep: "hseg h pp xs q \<Longrightarrow> hkeep h h' H A \<Longrightarrow> A \<inter> set xs = {} \<Longrightarrow> hseg h' pp xs q"
  by (erule hseg_frame) (auto simp: hkeep_def)

lemma hlist_keep:
  "hlist h head xs \<Longrightarrow> hkeep h h' H A \<Longrightarrow> head \<notin> H \<Longrightarrow> A \<inter> set xs = {} \<Longrightarrow> hlist h' head xs"
  using hseg_keep [of h "PFirst head" xs 0 h' H A] by (auto simp: hlist_def hkeep_def)

lemma hlist_node_upd [simp]:
  "c\<lparr>hn_next := a, hn_pprev := p\<rparr> = \<lparr>hn_next = a, hn_pprev = p\<rparr>"
  "c\<lparr>hn_pprev := p, hn_next := a\<rparr> = \<lparr>hn_next = a, hn_pprev = p\<rparr>" for c :: hlist_node
  by (cases c, simp)+

lemma hnode_ok: "n \<noteq> 0 \<Longrightarrow> hh_node h n = Some c \<Longrightarrow> hnode h n = Inr c"
  by (simp add: hnode_def)

text \<open>The two repairs every operation consists of: storing through the pointer that enters a
  suffix, and setting the back pointer of its first node.\<close>

lemma store_exit:
  assumes "hseg h (PFirst head) as q" and "hh_first h head = Some (entry as q)"
    and "distinct as" and "0 \<notin> set as"
  obtains h' where "set_through h (exit_pp (PFirst head) as) a = Inr h'" "hseg h' (PFirst head) as a"
    "hh_first h' head = Some (entry as a)" "hkeep h h' {head} (set as)"
proof (cases as rule: rev_cases)
  case Nil
  then show thesis
    using assms by (intro that [of "h\<lparr>hh_first := (hh_first h)(head \<mapsto> a)\<rparr>"])
      (auto simp: set_first_def get_first_def hkeep_def)
next
  case (snoc bs l)
  let ?c = "\<lparr>hn_next = a, hn_pprev = exit_pp (PFirst head) bs\<rparr>"
  let ?h = "h\<lparr>hh_node := (hh_node h)(l \<mapsto> ?c)\<rparr>"
  have l: "hh_node h l = Some \<lparr>hn_next = q, hn_pprev = exit_pp (PFirst head) bs\<rparr>" "l \<noteq> 0" "l \<notin> set bs"
    and bs: "hseg h (PFirst head) bs l" using assms snoc by auto
  have keep: "hkeep h ?h {} {l}" using l by (auto simp: hkeep_def)
  have "set_through h (exit_pp (PFirst head) as) a = Inr ?h"
    using snoc l by (simp add: exit_pp_def set_hnext_def hnode_ok)
  moreover have "hseg ?h (PFirst head) as a" using snoc hseg_keep [OF bs keep] l by simp
  moreover have "hkeep h ?h {head} (set as)" using snoc l by (auto simp: hkeep_def)
  moreover have "hh_first ?h head = Some (entry as a)" using assms(2) snoc by (cases bs) auto
  ultimately show thesis using that by blast
qed

lemma repoint:
  assumes "hseg h pp ys 0" and "distinct ys" and "0 \<notin> set ys"
  obtains h' where "(if entry ys 0 \<noteq> 0 then set_hpprev h (entry ys 0) pp' else Inr h) = Inr h'"
    "hseg h' pp' ys 0" "hkeep h h' {} (set ys)"
proof (cases ys)
  case Nil
  then show thesis by (intro that [of h]) (auto simp: hkeep_def)
next
  case (Cons y zs)
  let ?h = "h\<lparr>hh_node := (hh_node h)(y \<mapsto> \<lparr>hn_next = entry zs 0, hn_pprev = pp'\<rparr>)\<rparr>"
  have y: "hh_node h y = Some \<lparr>hn_next = entry zs 0, hn_pprev = pp\<rparr>" "y \<noteq> 0" "y \<notin> set zs"
    and zs: "hseg h (PNext y) zs 0" using assms Cons by auto
  have "hkeep h ?h {} {y}" using y by (auto simp: hkeep_def)
  then have "hseg ?h pp' ys 0" using hseg_keep [OF zs] y Cons by simp
  moreover have "set_hpprev h y pp' = Inr ?h" using y by (simp add: set_hpprev_def hnode_ok)
  moreover have "hkeep h ?h {} (set ys)" using Cons y by (auto simp: hkeep_def)
  ultimately show thesis using that Cons y by simp
qed

subsection \<open>The operations on \<open>hlist\<close>\<close>

lemma hlist_parts:
  assumes "hlist h head (as @ bs)"
  shows "hseg h (PFirst head) as (entry bs 0)" "hseg h (exit_pp (PFirst head) as) bs 0"
    "hh_first h head = Some (entry as (entry bs 0))" "distinct as" "distinct bs"
    "set as \<inter> set bs = {}" "0 \<notin> set as" "0 \<notin> set bs"
  using assms by (auto simp: hlist_def)

lemma hlist_join:
  assumes "hseg h (PFirst head) as (entry bs 0)" "hseg h (exit_pp (PFirst head) as) bs 0"
    "hh_first h head = Some (entry as (entry bs 0))" "distinct (as @ bs)" "0 \<notin> set (as @ bs)"
  shows "hlist h head (as @ bs)"
  using assms by (simp add: hlist_def)

lemma set_hnext_ok:
  assumes "n \<noteq> 0" and "hh_node h n = Some c"
  shows "set_hnext h n a = Inr (h\<lparr>hh_node := (hh_node h)(n \<mapsto> c\<lparr>hn_next := a\<rparr>)\<rparr>)"
    and "set_hpprev h n pp = Inr (h\<lparr>hh_node := (hh_node h)(n \<mapsto> c\<lparr>hn_pprev := pp\<rparr>)\<rparr>)"
  using assms by (simp_all add: set_hnext_def set_hpprev_def hnode_def)

lemma raw_hlist_del_spec:
  assumes "hlist h head (as @ e # bs)"
  obtains h' where "raw_hlist_del h e = Inr h'" "hlist h' head (as @ bs)" "hh_node h' e = hh_node h e"
    "hkeep h h' {head} (set (as @ bs))"
proof -
  note p = hlist_parts [OF assms]
  have e: "hh_node h e = Some \<lparr>hn_next = entry bs 0, hn_pprev = exit_pp (PFirst head) as\<rparr>" "e \<noteq> 0"
    using p by auto
  obtain h1 where h1: "set_through h (exit_pp (PFirst head) as) (entry bs 0) = Inr h1"
    "hseg h1 (PFirst head) as (entry bs 0)" "hh_first h1 head = Some (entry as (entry bs 0))"
    "hkeep h h1 {head} (set as)"
    using store_exit [OF p(1,3,4,7)] by metis
  have "hseg h (PNext e) bs 0" using p(2) by simp
  then have "hseg h1 (PNext e) bs 0" by (rule hseg_keep) (use p h1(4) in auto)
  then obtain h2 where h2: "(if entry bs 0 \<noteq> 0 then set_hpprev h1 (entry bs 0) (exit_pp (PFirst head) as) else Inr h1) = Inr h2"
    "hseg h2 (exit_pp (PFirst head) as) bs 0" "hkeep h1 h2 {} (set bs)"
    using p repoint [of h1 "PNext e" bs "exit_pp (PFirst head) as"] by auto
  have run: "raw_hlist_del h e = Inr h2"
    using e h1(1) h2(1) by (simp add: raw_hlist_del_def hnode_ok Let_def split: if_splits)
  have keep: "hkeep h h2 {head} (set (as @ bs))" by (rule hkeep_trans [OF h1(4) h2(3)]) auto
  have "hseg h2 (PFirst head) as (entry bs 0)" using hseg_keep [OF h1(2) h2(3)] p(6) by auto
  moreover have "hh_first h2 head = Some (entry as (entry bs 0))" using h1(3) h2(3) by (simp add: hkeep_def)
  ultimately have "hlist h2 head (as @ bs)" using h2(2) p by (intro hlist_join) auto
  moreover have "hh_node h2 e = hh_node h e" using keep p by (auto simp: hkeep_def)
  ultimately show thesis using that run keep by blast
qed

lemma hlist_del_spec:
  assumes "hlist h head (as @ e # bs)"
  obtains h' where "hlist_del h e = Inr h'" "hlist h' head (as @ bs)"
    "hh_node h' e = Some \<lparr>hn_next = LIST_POISON1, hn_pprev = PPoison\<rparr>"
    "hkeep h h' {head} (set (as @ e # bs))"
proof -
  note p = hlist_parts [OF assms]
  obtain h1 where h1: "raw_hlist_del h e = Inr h1" "hlist h1 head (as @ bs)"
    "hh_node h1 e = hh_node h e" "hkeep h h1 {head} (set (as @ bs))"
    using raw_hlist_del_spec [OF assms] by metis
  let ?h = "h1\<lparr>hh_node := (hh_node h1)(e \<mapsto> \<lparr>hn_next = LIST_POISON1, hn_pprev = PPoison\<rparr>)\<rparr>"
  have e: "e \<noteq> 0" "e \<notin> set (as @ bs)" "hh_node h1 e \<noteq> None" using p h1(3) by auto
  then have "hlist_del h e = Inr ?h"
    using h1(1) by (auto simp: hlist_del_def set_hnext_ok)
  moreover have keep: "hkeep h1 ?h {} {e}" using e by (auto simp: hkeep_def)
  moreover have "hlist ?h head (as @ bs)" by (rule hlist_keep [OF h1(2) keep]) (use e in auto)
  moreover have "hkeep h ?h {head} (set (as @ e # bs))" by (rule hkeep_trans [OF h1(4) keep]) auto
  ultimately show thesis using that by simp
qed

lemma hlist_del_init_spec:
  assumes "hlist h head (as @ e # bs)"
  obtains h' where "hlist_del_init h e = Inr h'" "hlist h' head (as @ bs)"
    "hh_node h' e = Some \<lparr>hn_next = 0, hn_pprev = PNull\<rparr>" "hkeep h h' {head} (set (as @ e # bs))"
proof -
  note p = hlist_parts [OF assms]
  obtain h1 where h1: "raw_hlist_del h e = Inr h1" "hlist h1 head (as @ bs)"
    "hh_node h1 e = hh_node h e" "hkeep h h1 {head} (set (as @ bs))"
    using raw_hlist_del_spec [OF assms] by metis
  let ?h = "h1\<lparr>hh_node := (hh_node h1)(e \<mapsto> \<lparr>hn_next = 0, hn_pprev = PNull\<rparr>)\<rparr>"
  have e: "e \<noteq> 0" "e \<notin> set (as @ bs)" "hh_node h1 e \<noteq> None" using p h1(3) by auto
  have "hlist_unhashed h e = Inr False"
    using p(2) e(1) by (auto simp: hlist_unhashed_def hnode_ok exit_pp_def)
  then have "hlist_del_init h e = Inr ?h"
    using h1(1) e by (auto simp: hlist_del_init_def INIT_HLIST_NODE_def set_hnext_ok)
  moreover have keep: "hkeep h1 ?h {} {e}" using e by (auto simp: hkeep_def)
  moreover have "hlist ?h head (as @ bs)" by (rule hlist_keep [OF h1(2) keep]) (use e in auto)
  moreover have "hkeep h ?h {head} (set (as @ e # bs))" by (rule hkeep_trans [OF h1(4) keep]) auto
  ultimately show thesis using that by simp
qed

lemma hlist_add_head_spec:
  assumes "hlist h head xs" and "n \<notin> set xs" and "n \<noteq> 0" and "n \<in> dom (hh_node h)"
  obtains h' where "hlist_add_head h n head = Inr h'" "hlist h' head (n # xs)"
    "hkeep h h' {head} (insert n (set xs))"
proof -
  have p: "hseg h (PFirst head) xs 0" "hh_first h head = Some (entry xs 0)" "distinct xs" "0 \<notin> set xs"
    using assms(1) by (simp_all add: hlist_def)
  from assms(4) obtain c where c: "hh_node h n = Some c" by auto
  let ?h1 = "h\<lparr>hh_node := (hh_node h)(n \<mapsto> c\<lparr>hn_next := entry xs 0\<rparr>)\<rparr>"
  have k1: "hkeep h ?h1 {} {n}" using c by (auto simp: hkeep_def)
  have "hseg ?h1 (PFirst head) xs 0" by (rule hseg_keep [OF p(1) k1]) (use assms(2) in auto)
  then obtain h2 where h2: "(if entry xs 0 \<noteq> 0 then set_hpprev ?h1 (entry xs 0) (PNext n) else Inr ?h1) = Inr h2"
    "hseg h2 (PNext n) xs 0" "hkeep ?h1 h2 {} (set xs)"
    using p repoint [of ?h1 "PFirst head" xs "PNext n"] by auto
  let ?h3 = "h2\<lparr>hh_first := (hh_first h2)(head \<mapsto> n)\<rparr>"
  let ?h4 = "?h3\<lparr>hh_node := (hh_node h2)(n \<mapsto> \<lparr>hn_next = entry xs 0, hn_pprev = PFirst head\<rparr>)\<rparr>"
  have n2: "hh_node h2 n = Some (c\<lparr>hn_next := entry xs 0\<rparr>)" and f2: "hh_first h2 head = Some (entry xs 0)"
    using h2(3) assms(2) p by (auto simp: hkeep_def)
  have "get_first h head = Inr (entry xs 0)" "set_first h2 head n = Inr ?h3"
    using p f2 by (simp_all add: get_first_def set_first_def)
  moreover have "set_hnext h n (entry xs 0) = Inr ?h1" using set_hnext_ok(1) [OF assms(3) c] .
  moreover have "set_hpprev ?h3 n (PFirst head) = Inr ?h4" using set_hnext_ok(2) [of n ?h3] assms(3) n2 by simp
  ultimately have run: "hlist_add_head h n head = Inr ?h4"
    using h2(1) by (simp add: hlist_add_head_def split: if_splits)
  have k2: "hkeep h2 ?h4 {head} {n}" using n2 f2 by (auto simp: hkeep_def)
  have "hseg ?h4 (PNext n) xs 0" by (rule hseg_keep [OF h2(2) k2]) (use assms(2) in auto)
  then have "hlist ?h4 head (n # xs)" using assms p by (simp add: hlist_def)
  moreover have "hkeep h ?h4 {head} (insert n (set xs))"
    by (rule hkeep_trans [OF hkeep_trans [OF k1 h2(3) subset_refl subset_refl] k2]) auto
  ultimately show thesis using that run by blast
qed

lemma hlist_add_before_spec:
  assumes "hlist h head (as @ e # bs)" and "n \<notin> set (as @ e # bs)" and "n \<noteq> 0" and "n \<in> dom (hh_node h)"
  obtains h' where "hlist_add_before h n e = Inr h'" "hlist h' head (as @ n # e # bs)"
proof -
  note p = hlist_parts [OF assms(1)]
  let ?pp = "exit_pp (PFirst head) as"
  from assms(4) obtain c where c: "hh_node h n = Some c" by auto
  have e: "hh_node h e = Some \<lparr>hn_next = entry bs 0, hn_pprev = ?pp\<rparr>" "e \<noteq> 0" "n \<noteq> e"
    using p assms(2) by auto
  let ?h = "h\<lparr>hh_node := (hh_node h)(n \<mapsto> \<lparr>hn_next = e, hn_pprev = ?pp\<rparr>,
    e \<mapsto> \<lparr>hn_next = entry bs 0, hn_pprev = PNext n\<rparr>)\<rparr>"
  have k: "hkeep h ?h {} {n, e}" using c e by (auto simp: hkeep_def)
  have as: "hseg ?h (PFirst head) as e" by (rule hseg_keep [OF _ k]) (use p assms(2) in auto)
  have bs: "hseg h (PNext e) bs 0" using p(2) by simp
  have bs: "hseg ?h (PNext e) bs 0" by (rule hseg_keep [OF bs k]) (use p assms(2) in auto)
  obtain h2 where h2: "set_through ?h ?pp n = Inr h2" "hseg h2 (PFirst head) as n"
    "hh_first h2 head = Some (entry as n)" "hkeep ?h h2 {head} (set as)"
    using store_exit [OF as, of n] p by auto
  have run: "hlist_add_before h n e = Inr h2"
    using c e assms(3) h2(1) by (simp add: hlist_add_before_def hnode_def set_hpprev_def set_hnext_def)
  have "hseg h2 (PNext e) bs 0" by (rule hseg_keep [OF bs h2(4)]) (use p in auto)
  moreover have "hh_node h2 n = Some \<lparr>hn_next = e, hn_pprev = ?pp\<rparr>"
    "hh_node h2 e = Some \<lparr>hn_next = entry bs 0, hn_pprev = PNext n\<rparr>"
    using h2(4) p assms(2) e(3) by (auto simp: hkeep_def)
  ultimately have "hseg h2 ?pp (n # e # bs) 0" by simp
  then have "hlist h2 head (as @ n # e # bs)"
    using h2(2,3) p assms(2,3) by (intro hlist_join) auto
  then show thesis using that run by blast
qed

lemma hlist_add_behind_spec:
  assumes "hlist h head (as @ e # bs)" and "n \<notin> set (as @ e # bs)" and "n \<noteq> 0" and "n \<in> dom (hh_node h)"
  obtains h' where "hlist_add_behind h n e = Inr h'" "hlist h' head (as @ e # n # bs)"
proof -
  note p = hlist_parts [OF assms(1)]
  let ?pp = "exit_pp (PFirst head) as"
  from assms(4) obtain c where c: "hh_node h n = Some c" by auto
  have e: "hh_node h e = Some \<lparr>hn_next = entry bs 0, hn_pprev = ?pp\<rparr>" "e \<noteq> 0" "n \<noteq> e"
    using p assms(2) by auto
  let ?h = "h\<lparr>hh_node := (hh_node h)(n \<mapsto> \<lparr>hn_next = entry bs 0, hn_pprev = PNext e\<rparr>,
    e \<mapsto> \<lparr>hn_next = n, hn_pprev = ?pp\<rparr>)\<rparr>"
  have k: "hkeep h ?h {} {n, e}" using c e by (auto simp: hkeep_def)
  have bs: "hseg h (PNext e) bs 0" using p(2) by simp
  have "hseg ?h (PNext e) bs 0" by (rule hseg_keep [OF bs k]) (use p assms(2) in auto)
  then obtain h2 where h2: "(if entry bs 0 \<noteq> 0 then set_hpprev ?h (entry bs 0) (PNext n) else Inr ?h) = Inr h2"
    "hseg h2 (PNext n) bs 0" "hkeep ?h h2 {} (set bs)"
    using p repoint [of ?h "PNext e" bs "PNext n"] by auto
  have "((hh_node h)(n \<mapsto> \<lparr>hn_next = entry bs 0, hn_pprev = PNext e\<rparr>, e \<mapsto> \<lparr>hn_next = n, hn_pprev = ?pp\<rparr>)) =
    ((hh_node h)(e \<mapsto> \<lparr>hn_next = n, hn_pprev = ?pp\<rparr>, n \<mapsto> \<lparr>hn_next = entry bs 0, hn_pprev = PNext e\<rparr>))"
    using e(3) by (simp add: fun_upd_twist)
  then have run: "hlist_add_behind h n e = Inr h2"
    using c e assms(3) h2(1)
    by (simp add: hlist_add_behind_def hnode_def set_hpprev_def set_hnext_def fun_upd_twist split: if_splits)
  have as: "hseg ?h (PFirst head) as e" by (rule hseg_keep [OF _ k]) (use p assms(2) in auto)
  have "hseg h2 (PFirst head) as e" by (rule hseg_keep [OF as h2(3)]) (use p in auto)
  moreover have "hh_node h2 n = Some \<lparr>hn_next = entry bs 0, hn_pprev = PNext e\<rparr>"
    "hh_node h2 e = Some \<lparr>hn_next = n, hn_pprev = ?pp\<rparr>" "hh_first h2 head = hh_first h head"
    using h2(3) p assms(2) e(3) by (auto simp: hkeep_def)
  ultimately have "hlist h2 head (as @ e # n # bs)"
    using h2(2) p assms(2,3) by (intro hlist_join) auto
  then show thesis using that run by blast
qed

lemma hlist_move_list_spec:
  assumes "hlist h old xs" and "new \<noteq> old" and "new \<in> dom (hh_first h)"
  obtains h' where "hlist_move_list h old new = Inr h'" "hlist h' new xs" "hlist h' old []"
proof -
  have p: "hseg h (PFirst old) xs 0" "hh_first h old = Some (entry xs 0)" "distinct xs" "0 \<notin> set xs"
    using assms(1) by (simp_all add: hlist_def)
  let ?h1 = "h\<lparr>hh_first := (hh_first h)(new \<mapsto> entry xs 0)\<rparr>"
  have k1: "hkeep h ?h1 {new} {}" using assms(3) by (auto simp: hkeep_def)
  have "hseg ?h1 (PFirst old) xs 0" by (rule hseg_keep [OF p(1) k1]) simp
  then obtain h2 where h2: "(if entry xs 0 \<noteq> 0 then set_hpprev ?h1 (entry xs 0) (PFirst new) else Inr ?h1) = Inr h2"
    "hseg h2 (PFirst new) xs 0" "hkeep ?h1 h2 {} (set xs)"
    using p repoint [of ?h1 "PFirst old" xs "PFirst new"] by auto
  let ?h3 = "h2\<lparr>hh_first := (hh_first h2)(old \<mapsto> 0)\<rparr>"
  have f2: "hh_first h2 = hh_first ?h1" using h2(3) by (auto simp: hkeep_def)
  have run: "hlist_move_list h old new = Inr ?h3"
    using h2(1) p assms(2,3) f2
    by (auto simp: hlist_move_list_def get_first_def set_first_def split: if_splits)
  have k2: "hkeep h2 ?h3 {old} {}" using f2 p by (auto simp: hkeep_def)
  have "hseg ?h3 (PFirst new) xs 0" by (rule hseg_keep [OF h2(2) k2]) simp
  then have "hlist ?h3 new xs" "hlist ?h3 old []" using p assms(2) f2 by (simp_all add: hlist_def)
  then show thesis using that run by blast
qed

subsection \<open>The contract of a list\<close>

definition node_avail :: "hheap \<Rightarrow> addr \<Rightarrow> bool" where
  "node_avail h n \<longleftrightarrow> n \<in> dom (hh_node h) \<and> n \<noteq> 0"

lemma node_avail_keep: "hkeep h h' H A \<Longrightarrow> node_avail h' = node_avail h"
  by (auto simp: node_avail_def hkeep_def fun_eq_iff)

text \<open>The calls that change one list: what they do to a plain list, and when they are allowed.\<close>

datatype hlist_call = AddHead addr | AddBefore addr addr | AddBehind addr addr | HDel addr | HDelInit addr

primrec run_hlist_call :: "addr \<Rightarrow> hlist_call \<Rightarrow> hheap \<Rightarrow> hheap res" where
  "run_hlist_call head (AddHead a) h = hlist_add_head h a head"
| "run_hlist_call head (AddBefore a e) h = hlist_add_before h a e"
| "run_hlist_call head (AddBehind a e) h = hlist_add_behind h a e"
| "run_hlist_call head (HDel a) h = hlist_del h a"
| "run_hlist_call head (HDelInit a) h = hlist_del_init h a"

primrec insert_before :: "addr \<Rightarrow> addr \<Rightarrow> addr list \<Rightarrow> addr list" where
  "insert_before a e [] = []"
| "insert_before a e (x # xs) = (if x = e then a # x # xs else x # insert_before a e xs)"

primrec insert_behind :: "addr \<Rightarrow> addr \<Rightarrow> addr list \<Rightarrow> addr list" where
  "insert_behind a e [] = []"
| "insert_behind a e (x # xs) = (if x = e then x # a # xs else x # insert_behind a e xs)"

primrec spec_hlist_call :: "hlist_call \<Rightarrow> addr list \<Rightarrow> addr list" where
  "spec_hlist_call (AddHead a) xs = a # xs"
| "spec_hlist_call (AddBefore a e) xs = insert_before a e xs"
| "spec_hlist_call (AddBehind a e) xs = insert_behind a e xs"
| "spec_hlist_call (HDel a) xs = remove1 a xs"
| "spec_hlist_call (HDelInit a) xs = remove1 a xs"

primrec hlist_call_ok :: "(addr \<Rightarrow> bool) \<Rightarrow> hlist_call \<Rightarrow> addr list \<Rightarrow> bool" where
  "hlist_call_ok avail (AddHead a) xs \<longleftrightarrow> avail a \<and> a \<notin> set xs"
| "hlist_call_ok avail (AddBefore a e) xs \<longleftrightarrow> avail a \<and> a \<notin> set xs \<and> e \<in> set xs"
| "hlist_call_ok avail (AddBehind a e) xs \<longleftrightarrow> avail a \<and> a \<notin> set xs \<and> e \<in> set xs"
| "hlist_call_ok avail (HDel a) xs \<longleftrightarrow> a \<in> set xs"
| "hlist_call_ok avail (HDelInit a) xs \<longleftrightarrow> a \<in> set xs"

lemma insert_at:
  assumes "e \<notin> set as"
  shows "insert_before a e (as @ e # bs) = as @ a # e # bs" "insert_behind a e (as @ e # bs) = as @ e # a # bs"
  using assms by (induction as) auto

text \<open>No store makes a node or frees one.\<close>

lemma store_avail:
  "set_first h g a = Inr h' \<Longrightarrow> node_avail h' = node_avail h"
  "set_hnext h n a = Inr h' \<Longrightarrow> node_avail h' = node_avail h"
  "set_hpprev h n pp = Inr h' \<Longrightarrow> node_avail h' = node_avail h"
  "set_through h pp a = Inr h' \<Longrightarrow> node_avail h' = node_avail h"
proof -
  show "set_first h g a = Inr h' \<Longrightarrow> node_avail h' = node_avail h" for h h' g
    by (auto simp: set_first_def bindR_eq_Inr_iff node_avail_def fun_eq_iff)
  then show "set_through h pp a = Inr h' \<Longrightarrow> node_avail h' = node_avail h"
    by (cases pp) (auto simp: set_hnext_def bindR_eq_Inr_iff hnode_def node_avail_def fun_eq_iff split: if_splits option.splits)
qed (auto simp: set_hnext_def set_hpprev_def bindR_eq_Inr_iff hnode_def node_avail_def fun_eq_iff split: if_splits option.splits)

lemma add_avail:
  "hlist_add_before h n e = Inr h' \<Longrightarrow> node_avail h' = node_avail h"
  "hlist_add_behind h n e = Inr h' \<Longrightarrow> node_avail h' = node_avail h"
  by (auto simp: hlist_add_before_def hlist_add_behind_def bindR_eq_Inr_iff split: if_splits dest!: store_avail)

lemma hlist_call_law:
  assumes "hlist h head xs" and "hlist_call_ok (node_avail h) c xs"
  shows "\<exists>h'. run_hlist_call head c h = Inr h' \<and> hlist h' head (spec_hlist_call c xs) \<and> node_avail h' = node_avail h"
proof (cases c)
  case (AddHead a)
  then show ?thesis
    using hlist_add_head_spec [OF assms(1), of a] assms(2) node_avail_keep by (simp add: node_avail_def [of h]) metis
next
  case (AddBefore a e)
  then obtain as bs where xs: "xs = as @ e # bs" "e \<notin> set as"
    using assms(2) split_list_first [of e xs] by auto
  then show ?thesis
    using hlist_add_before_spec [of h head as e bs a] assms AddBefore add_avail(1) insert_at
    by (simp add: node_avail_def [of h]) metis
next
  case (AddBehind a e)
  then obtain as bs where xs: "xs = as @ e # bs" "e \<notin> set as"
    using assms(2) split_list_first [of e xs] by auto
  then show ?thesis
    using hlist_add_behind_spec [of h head as e bs a] assms AddBehind add_avail(2) insert_at
    by (simp add: node_avail_def [of h]) metis
next
  case (HDel a)
  then obtain as bs where xs: "xs = as @ a # bs" "a \<notin> set as"
    using assms(2) split_list_first [of a xs] by auto
  then show ?thesis
    using hlist_del_spec [of h head as a bs] assms(1) HDel node_avail_keep by (simp add: remove1_append) metis
next
  case (HDelInit a)
  then obtain as bs where xs: "xs = as @ a # bs" "a \<notin> set as"
    using assms(2) split_list_first [of a xs] by auto
  then show ?thesis
    using hlist_del_init_spec [of h head as a bs] assms(1) HDelInit node_avail_keep by (simp add: remove1_append) metis
qed

interpretation hl: list_script "\<lambda>h. hlist h head" node_avail "run_hlist_call head" spec_hlist_call hlist_call_ok
  by unfold_locales (fact hlist_call_law)

subsection \<open>An example\<close>

text \<open>The nodes 7 and 8 on head 50, nothing on head 51; the node 9 is unlinked.\<close>

definition hlist_example :: hheap where
  "hlist_example = \<lparr>hh_first = [50 \<mapsto> 7, 51 \<mapsto> 0],
     hh_node = [7 \<mapsto> \<lparr>hn_next = 8, hn_pprev = PFirst 50\<rparr>, 8 \<mapsto> \<lparr>hn_next = 0, hn_pprev = PNext 7\<rparr>,
       9 \<mapsto> \<lparr>hn_next = 0, hn_pprev = PNull\<rparr>]\<rparr>"

lemma hlist_example_lists: "hlist hlist_example 50 [7, 8]" "hlist hlist_example 51 []"
  by (simp_all add: hlist_example_def hlist_def)

end
