(* ===== verification/Cx_Loop.thy ===== *)
theory Cx_Loop
  imports Cx_Prelude
begin

text \<open>
  The \<open>for\<close> statement of C, and what loops over linked objects have in common. \<open>list.h\<close> writes its
  loops as macros that expand to the head of a \<open>for\<close> statement, so that the body is the client's: it
  is an argument here, a function on the client's state and the heap. The locale \<open>list_cursor\<close> is the
  contract between a linked structure and such a loop; the loops are shown once, inside it, to
  end, to visit each object once and in order, and, where the macro keeps the next object in a
  second variable, to allow the body to delete the object it is called for.
\<close>

subsection \<open>The statement\<close>

text \<open>
  \<open>p\<close> stands for the loop variables and \<open>s\<close> for everything else. The test may assign to the loop
  variables, as a statement expression in it does. \<open>None\<close> is a loop that has not ended after
  \<open>fuel\<close> tests.
\<close>

fun for_loop ::
  "nat \<Rightarrow> ('p \<Rightarrow> 's \<Rightarrow> (bool \<times> 'p) res) \<Rightarrow> ('p \<Rightarrow> 's \<Rightarrow> 'p res) \<Rightarrow> ('p \<Rightarrow> 's \<Rightarrow> 's res) \<Rightarrow> 'p \<Rightarrow> 's \<Rightarrow>
   ('p \<times> 's) res option"
where
  "for_loop 0 test advance body p s = None"
| "for_loop (Suc fuel) test advance body p s =
     (case test p s of
        Inl e \<Rightarrow> Some (Inl e)
      | Inr (go, p1) \<Rightarrow>
          (if \<not> go then Some (Inr (p1, s))
           else (case bindR (body p1 s) (\<lambda>s1. bindR (advance p1 s1) (\<lambda>p2. Inr (p2, s1))) of
                   Inl e \<Rightarrow> Some (Inl e)
                 | Inr (p2, s1) \<Rightarrow> for_loop fuel test advance body p2 s1)))"

text \<open>The first part of the statement, which gives the loop variables their first values.\<close>

definition for_init :: "'p res \<Rightarrow> ('p \<Rightarrow> ('p \<times> 's) res option) \<Rightarrow> ('p \<times> 's) res option" where
  "for_init r k = (case r of Inl e \<Rightarrow> Some (Inl e) | Inr p \<Rightarrow> k p)"

lemma for_init_simps [simp]: "for_init (Inl e) k = Some (Inl e)" "for_init (Inr p) k = k p"
  by (simp_all add: for_init_def)

text \<open>A loop that works off a list ends when its fuel is larger than the length of the list.\<close>

lemma for_loop_works_off:
  assumes "R xs p s" and "length xs < fuel"
    and stop: "\<And>p s. R [] p s \<Longrightarrow> \<exists>p1. test p s = Inr (False, p1) \<and> Q p1 s"
    and round: "\<And>x xs p s. R (x # xs) p s \<Longrightarrow> \<exists>p1 s1 p2. test p s = Inr (True, p1) \<and>
      body p1 s = Inr s1 \<and> advance p1 s1 = Inr p2 \<and> R xs p2 s1"
  shows "\<exists>p' s'. for_loop fuel test advance body p s = Some (Inr (p', s')) \<and> Q p' s'"
  using assms(1,2)
proof (induction xs arbitrary: p s fuel)
  case Nil
  then show ?case using stop [OF Nil.prems(1)] by (cases fuel) auto
next
  case (Cons x xs)
  obtain p1 s1 p2 where "test p s = Inr (True, p1)" "body p1 s = Inr s1" "advance p1 s1 = Inr p2" "R xs p2 s1"
    using round [OF Cons.prems(1)] by blast
  moreover obtain f where "fuel = Suc f" using Cons.prems(2) by (cases fuel) auto
  ultimately show ?case using Cons.IH [of p2 s1 f] Cons.prems(2) by simp
qed

subsection \<open>Two bodies\<close>

text \<open>A body that notes what it is called with, and one that also deletes the objects chosen by \<open>P\<close>.\<close>

definition visit :: "'p \<Rightarrow> 'p list \<times> 'h \<Rightarrow> ('p list \<times> 'h) res" where
  "visit pos = (\<lambda>(seen, h). Inr (seen @ [pos], h))"

definition purge :: "('p \<Rightarrow> 'a) \<Rightarrow> ('h \<Rightarrow> 'a \<Rightarrow> 'h res) \<Rightarrow> ('a \<Rightarrow> bool) \<Rightarrow> 'p \<Rightarrow> 'p list \<times> 'h \<Rightarrow> ('p list \<times> 'h) res"
where
  "purge node del P pos = (\<lambda>(seen, h).
     bindR (if P (node pos) then del h (node pos) else Inr h) (\<lambda>h1. Inr (seen @ [pos], h1)))"

subsection \<open>The contract of a cursor\<close>

text \<open>
  \<open>seq h xs\<close>: the heap \<open>h\<close> holds the objects \<open>xs\<close> in this order. \<open>elem x\<close> is the value of the loop
  variable for the object \<open>x\<close>, \<open>fin\<close> its value behind the last one, and \<open>node\<close> the way back. The
  provider promises that \<open>more\<close> tells the two apart, that \<open>step\<close> leads from an object to the next
  one, and that \<open>del\<close> takes an object out and leaves the others.
\<close>

definition cursor :: "('a \<Rightarrow> 'p) \<Rightarrow> 'p \<Rightarrow> 'a list \<Rightarrow> 'p" where
  "cursor elem fin xs = (case xs of [] \<Rightarrow> fin | x # _ \<Rightarrow> elem x)"

lemma cursor_simps [simp]: "cursor elem fin [] = fin" "cursor elem fin (x # xs) = elem x"
  by (simp_all add: cursor_def)

locale list_cursor =
  fixes seq :: "'h \<Rightarrow> 'a list \<Rightarrow> bool" and elem :: "'a \<Rightarrow> 'p" and fin :: 'p and node :: "'p \<Rightarrow> 'a"
    and more :: "'p \<Rightarrow> bool" and step :: "'h \<Rightarrow> 'p \<Rightarrow> 'p res" and del :: "'h \<Rightarrow> 'a \<Rightarrow> 'h res"
  assumes node_elem: "node (elem x) = x"
    and more_fin: "\<not> more fin"
    and more_elem: "seq h (as @ x # bs) \<Longrightarrow> more (elem x)"
    and step_elem: "seq h (as @ x # bs) \<Longrightarrow> step h (elem x) = Inr (cursor elem fin bs)"
    and del_elem: "seq h (as @ x # bs) \<Longrightarrow> \<exists>h'. del h x = Inr h' \<and> seq h' (as @ bs)"
begin

lemma visits:
  assumes "seq h (kept @ rest)" and "length rest < fuel"
  shows "for_loop fuel (\<lambda>pos s. Inr (more pos, pos)) (\<lambda>pos s. step (snd s) pos) visit
    (cursor elem fin rest) (seen, h) = Some (Inr (fin, (seen @ map elem rest, h)))"
proof -
  let ?R = "\<lambda>xs p s. \<exists>ys. p = cursor elem fin xs \<and> seq h (ys @ xs) \<and> (\<exists>zs. s = (zs, h) \<and> zs @ map elem xs = seen @ map elem rest)"
  let ?Q = "\<lambda>p s. p = fin \<and> s = (seen @ map elem rest, h)"
  have "\<exists>p' s'. for_loop fuel (\<lambda>pos s. Inr (more pos, pos)) (\<lambda>pos s. step (snd s) pos) visit
    (cursor elem fin rest) (seen, h) = Some (Inr (p', s')) \<and> ?Q p' s'"
  proof (rule for_loop_works_off [where R = ?R and xs = rest])
    fix x xs p s
    assume "?R (x # xs) p s"
    then obtain ys zs where *: "p = elem x" "seq h (ys @ x # xs)" "s = (zs, h)" "zs @ elem x # map elem xs = seen @ map elem rest"
      by auto
    then show "\<exists>p1 s1 p2. Inr (more p, p) = Inr (True, p1) \<and> visit p1 s = Inr s1 \<and>
        step (snd s1) p1 = Inr p2 \<and> ?R xs p2 s1"
      using more_elem [OF *(2)] step_elem [OF *(2)] by (auto simp: visit_def intro: exI [of _ "ys @ [x]"])
  qed (use assms more_fin in auto)
  then show ?thesis by blast
qed

text \<open>One call of the deleting body, and what it leaves.\<close>

lemma purge_step:
  assumes "seq h (kept @ x # rest)"
  shows "\<exists>h'. purge node del P (elem x) (seen, h) = Inr (seen @ [elem x], h') \<and>
    seq h' ((kept @ filter (\<lambda>y. \<not> P y) [x]) @ rest)"
  using del_elem [OF assms] assms by (cases "P x") (auto simp: purge_def node_elem)

text \<open>The next object is kept by the test, as in the loops over hash lists.\<close>

lemma purges_kept_by_test:
  fixes peek :: "'h \<Rightarrow> 'p \<Rightarrow> 'n res" and n :: 'n
  assumes "seq h rest" and "length rest < fuel"
    and split: "\<And>h p. step h p = bindR (peek h p) (\<lambda>n. Inr (conv n))"
  shows "\<exists>n' h'. for_loop fuel
      (\<lambda>(pos, n) s. if more pos then bindR (peek (snd s) pos) (\<lambda>n1. Inr (True, (pos, n1))) else Inr (False, (pos, n)))
      (\<lambda>(pos, n) s. Inr (conv n, n)) (\<lambda>(pos, n). purge node del P pos) (cursor elem fin rest, n) ([], h) =
      Some (Inr ((fin, n'), (map elem rest, h'))) \<and> seq h' (filter (\<lambda>y. \<not> P y) rest)"
proof -
  let ?R = "\<lambda>xs (pn :: 'p \<times> 'n) s. \<exists>ys zs h1. fst pn = cursor elem fin xs \<and> s = (map elem zs, h1) \<and> zs @ xs = rest \<and>
      ys = filter (\<lambda>y. \<not> P y) zs \<and> seq h1 (ys @ xs)"
  let ?Q = "\<lambda>pn s. fst pn = fin \<and> fst s = map elem rest \<and> seq (snd s) (filter (\<lambda>y. \<not> P y) rest)"
  let ?test = "\<lambda>(pos, n :: 'n) (s :: 'p list \<times> 'h). if more pos then bindR (peek (snd s) pos) (\<lambda>n1. Inr (True, (pos, n1))) else Inr (False, (pos, n))"
  have "\<exists>p' s'. for_loop fuel ?test
      (\<lambda>(pos, n) s. Inr (conv n, n)) (\<lambda>(pos, n). purge node del P pos) (cursor elem fin rest, n) ([], h) =
      Some (Inr (p', s')) \<and> ?Q p' s'"
  proof (rule for_loop_works_off [where R = ?R and xs = rest])
    fix x xs pn s
    assume "?R (x # xs) pn s"
    then obtain n zs h1 where pn: "pn = (elem x, n)" and s: "s = (map elem zs, h1)" "zs @ x # xs = rest"
      and seq: "seq h1 (filter (\<lambda>y. \<not> P y) zs @ x # xs)" by (cases pn) auto
    obtain n1 where n1: "peek h1 (elem x) = Inr n1" "conv n1 = cursor elem fin xs"
      using step_elem [OF seq] split [of h1 "elem x"] by (auto simp: bindR_eq_Inr_iff)
    obtain h2 where h2: "purge node del P (elem x) (map elem zs, h1) = Inr (map elem zs @ [elem x], h2)"
      "seq h2 ((filter (\<lambda>y. \<not> P y) zs @ filter (\<lambda>y. \<not> P y) [x]) @ xs)" using purge_step [OF seq] by blast
    then have "?R xs (conv n1, n1) (map elem zs @ [elem x], h2)"
      using s n1 by (intro exI [of _ "filter (\<lambda>y. \<not> P y) (zs @ [x])"] exI [of _ "zs @ [x]"] exI [of _ h2]) auto
    then show "\<exists>p1 s1 p2. ?test pn s = Inr (True, p1) \<and> (\<lambda>(pos, n). purge node del P pos) p1 s = Inr s1 \<and>
        (\<lambda>(pos, n) s. Inr (conv n, n)) p1 s1 = Inr p2 \<and> ?R xs p2 s1"
      using pn s more_elem [OF seq] n1 h2 by simp
  qed (use assms more_fin in \<open>auto simp: split_beta\<close>)
  then show ?thesis by auto
qed

end

text \<open>On a circular list the head is an object as well, from which a step leads on.\<close>

locale ring_cursor = list_cursor seq elem fin node more step del
  for seq :: "'h \<Rightarrow> 'a list \<Rightarrow> bool" and elem :: "'a \<Rightarrow> 'p" and fin :: 'p and node :: "'p \<Rightarrow> 'a"
    and more :: "'p \<Rightarrow> bool" and step :: "'h \<Rightarrow> 'p \<Rightarrow> 'p res" and del :: "'h \<Rightarrow> 'a \<Rightarrow> 'h res" +
  assumes step_fin: "seq h xs \<Longrightarrow> step h fin = Inr (cursor elem fin xs)"
begin

lemma second:
  assumes "seq h (kept @ rest)"
  shows "\<exists>n. step h (cursor elem fin rest) = Inr n \<and> (rest \<noteq> [] \<longrightarrow> n = cursor elem fin (tl rest))"
  using assms step_fin [OF assms] step_elem [of h kept] by (cases rest) auto

text \<open>Two variables: the object of this round and the next one.\<close>

lemma purges_two_ahead:
  assumes "seq h (kept @ rest)" and "length rest < fuel" and "rest \<noteq> [] \<Longrightarrow> n = cursor elem fin (tl rest)"
  shows "\<exists>n' h'. for_loop fuel (\<lambda>(pos, n) s. Inr (more pos, (pos, n)))
      (\<lambda>(pos, n) s. bindR (step (snd s) n) (\<lambda>n1. Inr (n, n1))) (\<lambda>(pos, n). purge node del P pos)
      (cursor elem fin rest, n) ([], h) =
      Some (Inr ((fin, n'), (map elem rest, h'))) \<and> seq h' (kept @ filter (\<lambda>y. \<not> P y) rest)"
proof -
  let ?R = "\<lambda>xs pn s. \<exists>zs h1. fst pn = cursor elem fin xs \<and> (xs \<noteq> [] \<longrightarrow> snd pn = cursor elem fin (tl xs)) \<and>
      s = (map elem zs, h1) \<and> zs @ xs = rest \<and> seq h1 ((kept @ filter (\<lambda>y. \<not> P y) zs) @ xs)"
  let ?Q = "\<lambda>pn s. fst pn = fin \<and> fst s = map elem rest \<and> seq (snd s) (kept @ filter (\<lambda>y. \<not> P y) rest)"
  let ?adv = "\<lambda>(pos :: 'p, n) (s :: 'p list \<times> 'h). bindR (step (snd s) n) (\<lambda>n1. Inr (n, n1))"
  have "\<exists>p' s'. for_loop fuel (\<lambda>(pos, n) s. Inr (more pos, (pos, n))) ?adv
      (\<lambda>(pos, n). purge node del P pos) (cursor elem fin rest, n) ([], h) = Some (Inr (p', s')) \<and> ?Q p' s'"
  proof (rule for_loop_works_off [where R = ?R and xs = rest])
    fix x xs pn s
    assume "?R (x # xs) pn s"
    then obtain zs h1 where pn: "pn = (elem x, cursor elem fin xs)" and s: "s = (map elem zs, h1)" "zs @ x # xs = rest"
      and seq: "seq h1 ((kept @ filter (\<lambda>y. \<not> P y) zs) @ x # xs)" by (cases pn) auto
    obtain h2 where h2: "purge node del P (elem x) (map elem zs, h1) = Inr (map elem zs @ [elem x], h2)"
      "seq h2 (((kept @ filter (\<lambda>y. \<not> P y) zs) @ filter (\<lambda>y. \<not> P y) [x]) @ xs)" using purge_step [OF seq] by blast
    obtain n1 where n1: "step h2 (cursor elem fin xs) = Inr n1" "xs \<noteq> [] \<longrightarrow> n1 = cursor elem fin (tl xs)"
      using second [OF h2(2)] by blast
    have "?R xs (cursor elem fin xs, n1) (map elem zs @ [elem x], h2)"
      using s n1 h2 by (intro exI [of _ "zs @ [x]"] exI [of _ h2]) auto
    then show "\<exists>p1 s1 p2. (\<lambda>(pos, n) s. Inr (more pos, (pos, n))) pn s = Inr (True, p1) \<and>
        (\<lambda>(pos, n). purge node del P pos) p1 s = Inr s1 \<and> ?adv p1 s1 = Inr p2 \<and> ?R xs p2 s1"
      using pn s more_elem [OF seq] n1 h2 by simp
  qed (use assms more_fin in auto)
  then show ?thesis by auto
qed

end

end
