(* ===== verification/Cx_List_Iter.thy ===== *)
theory Cx_List_Iter
  imports Cx_List Cx_Loop
begin

text \<open>
  The loops of \<open>list.h\<close> over circular lists. The macros differ in three ways: the loop variable is a
  pointer to the \<open>struct list_head\<close> or to the object that contains it, the loop runs forwards or
  backwards, from an end or from a given place, and it keeps the next object in a second variable
  or not. Each macro is one definition, an instance of \<open>for_loop\<close>. Every pair of direction and kind of
  pointer is an interpretation of \<open>ring_cursor\<close>, from which the properties of the loops follow.
\<close>

subsection \<open>From a member to its object and back\<close>

text \<open>
  \<open>off\<close> is \<open>offsetof(type, member)\<close>. \<open>container_of\<close> is also applied to the head of a list, which is no
  member of an object; the pointer is then only used to take the address of its member again.
  Addresses of objects are integers, so that this address may lie below zero.
\<close>

definition container_of :: "nat \<Rightarrow> addr \<Rightarrow> int" where
  "container_of off ptr = int ptr - int off"

definition member_of :: "nat \<Rightarrow> int \<Rightarrow> addr" where
  "member_of off pos = nat (pos + int off)"

definition list_entry :: "nat \<Rightarrow> addr \<Rightarrow> int" where
  "list_entry off ptr = container_of off ptr"

definition list_first_entry :: "nat \<Rightarrow> lheap \<Rightarrow> addr \<Rightarrow> int res" where
  "list_first_entry off h ptr = bindR (get_next h ptr) (\<lambda>n. Inr (list_entry off n))"

definition list_last_entry :: "nat \<Rightarrow> lheap \<Rightarrow> addr \<Rightarrow> int res" where
  "list_last_entry off h ptr = bindR (get_prev h ptr) (\<lambda>n. Inr (list_entry off n))"

definition list_next_entry :: "nat \<Rightarrow> lheap \<Rightarrow> int \<Rightarrow> int res" where
  "list_next_entry off h pos = bindR (get_next h (member_of off pos)) (\<lambda>n. Inr (list_entry off n))"

definition list_prev_entry :: "nat \<Rightarrow> lheap \<Rightarrow> int \<Rightarrow> int res" where
  "list_prev_entry off h pos = bindR (get_prev h (member_of off pos)) (\<lambda>n. Inr (list_entry off n))"

text \<open>The operator \<open>?:\<close> without a second operand gives the pointer itself unless it is NULL.\<close>

definition list_prepare_entry :: "nat \<Rightarrow> int \<Rightarrow> addr \<Rightarrow> int" where
  "list_prepare_entry off pos head = (if pos \<noteq> 0 then pos else list_entry off head)"

subsection \<open>Loops with a pointer to the list structure\<close>

type_synonym ('p, 's) list_body = "'p \<Rightarrow> 's \<times> lheap \<Rightarrow> ('s \<times> lheap) res"

definition list_for_each ::
  "nat \<Rightarrow> (addr, 's) list_body \<Rightarrow> addr \<Rightarrow> 's \<times> lheap \<Rightarrow> (addr \<times> 's \<times> lheap) res option" where
  "list_for_each fuel body head s =
     for_init (get_next (snd s) head)
       (\<lambda>pos. for_loop fuel (\<lambda>pos s. Inr (pos \<noteq> head, pos)) (\<lambda>pos s. get_next (snd s) pos) body pos s)"

definition list_for_each_prev ::
  "nat \<Rightarrow> (addr, 's) list_body \<Rightarrow> addr \<Rightarrow> 's \<times> lheap \<Rightarrow> (addr \<times> 's \<times> lheap) res option" where
  "list_for_each_prev fuel body head s =
     for_init (get_prev (snd s) head)
       (\<lambda>pos. for_loop fuel (\<lambda>pos s. Inr (pos \<noteq> head, pos)) (\<lambda>pos s. get_prev (snd s) pos) body pos s)"

definition list_for_each_safe ::
  "nat \<Rightarrow> (addr, 's) list_body \<Rightarrow> addr \<Rightarrow> 's \<times> lheap \<Rightarrow> ((addr \<times> addr) \<times> 's \<times> lheap) res option" where
  "list_for_each_safe fuel body head s =
     for_init (bindR (get_next (snd s) head) (\<lambda>pos. bindR (get_next (snd s) pos) (\<lambda>n. Inr (pos, n))))
       (\<lambda>pn. for_loop fuel (\<lambda>(pos, n) s. Inr (pos \<noteq> head, (pos, n)))
          (\<lambda>(pos, n) s. bindR (get_next (snd s) n) (\<lambda>n1. Inr (n, n1))) (\<lambda>(pos, n). body pos) pn s)"

definition list_for_each_prev_safe ::
  "nat \<Rightarrow> (addr, 's) list_body \<Rightarrow> addr \<Rightarrow> 's \<times> lheap \<Rightarrow> ((addr \<times> addr) \<times> 's \<times> lheap) res option" where
  "list_for_each_prev_safe fuel body head s =
     for_init (bindR (get_prev (snd s) head) (\<lambda>pos. bindR (get_prev (snd s) pos) (\<lambda>n. Inr (pos, n))))
       (\<lambda>pn. for_loop fuel (\<lambda>(pos, n) s. Inr (pos \<noteq> head, (pos, n)))
          (\<lambda>(pos, n) s. bindR (get_prev (snd s) n) (\<lambda>n1. Inr (n, n1))) (\<lambda>(pos, n). body pos) pn s)"

subsection \<open>Loops with a pointer to the object\<close>

definition list_for_each_entry_from ::
  "nat \<Rightarrow> nat \<Rightarrow> (int, 's) list_body \<Rightarrow> int \<Rightarrow> addr \<Rightarrow> 's \<times> lheap \<Rightarrow> (int \<times> 's \<times> lheap) res option" where
  "list_for_each_entry_from fuel off body pos head s =
     for_loop fuel (\<lambda>pos s. Inr (member_of off pos \<noteq> head, pos)) (\<lambda>pos s. list_next_entry off (snd s) pos) body pos s"

definition list_for_each_entry ::
  "nat \<Rightarrow> nat \<Rightarrow> (int, 's) list_body \<Rightarrow> addr \<Rightarrow> 's \<times> lheap \<Rightarrow> (int \<times> 's \<times> lheap) res option" where
  "list_for_each_entry fuel off body head s =
     for_init (list_first_entry off (snd s) head)
       (\<lambda>pos. for_loop fuel (\<lambda>pos s. Inr (member_of off pos \<noteq> head, pos))
          (\<lambda>pos s. list_next_entry off (snd s) pos) body pos s)"

definition list_for_each_entry_reverse ::
  "nat \<Rightarrow> nat \<Rightarrow> (int, 's) list_body \<Rightarrow> addr \<Rightarrow> 's \<times> lheap \<Rightarrow> (int \<times> 's \<times> lheap) res option" where
  "list_for_each_entry_reverse fuel off body head s =
     for_init (list_last_entry off (snd s) head)
       (\<lambda>pos. for_loop fuel (\<lambda>pos s. Inr (member_of off pos \<noteq> head, pos))
          (\<lambda>pos s. list_prev_entry off (snd s) pos) body pos s)"

definition list_for_each_entry_continue ::
  "nat \<Rightarrow> nat \<Rightarrow> (int, 's) list_body \<Rightarrow> int \<Rightarrow> addr \<Rightarrow> 's \<times> lheap \<Rightarrow> (int \<times> 's \<times> lheap) res option" where
  "list_for_each_entry_continue fuel off body pos head s =
     for_init (list_next_entry off (snd s) pos)
       (\<lambda>pos. for_loop fuel (\<lambda>pos s. Inr (member_of off pos \<noteq> head, pos))
          (\<lambda>pos s. list_next_entry off (snd s) pos) body pos s)"

definition list_for_each_entry_continue_reverse ::
  "nat \<Rightarrow> nat \<Rightarrow> (int, 's) list_body \<Rightarrow> int \<Rightarrow> addr \<Rightarrow> 's \<times> lheap \<Rightarrow> (int \<times> 's \<times> lheap) res option" where
  "list_for_each_entry_continue_reverse fuel off body pos head s =
     for_init (list_prev_entry off (snd s) pos)
       (\<lambda>pos. for_loop fuel (\<lambda>pos s. Inr (member_of off pos \<noteq> head, pos))
          (\<lambda>pos s. list_prev_entry off (snd s) pos) body pos s)"

definition list_for_each_entry_safe ::
  "nat \<Rightarrow> nat \<Rightarrow> (int, 's) list_body \<Rightarrow> addr \<Rightarrow> 's \<times> lheap \<Rightarrow> ((int \<times> int) \<times> 's \<times> lheap) res option" where
  "list_for_each_entry_safe fuel off body head s =
     for_init (bindR (list_first_entry off (snd s) head)
         (\<lambda>pos. bindR (list_next_entry off (snd s) pos) (\<lambda>n. Inr (pos, n))))
       (\<lambda>pn. for_loop fuel (\<lambda>(pos, n) s. Inr (member_of off pos \<noteq> head, (pos, n)))
          (\<lambda>(pos, n) s. bindR (list_next_entry off (snd s) n) (\<lambda>n1. Inr (n, n1))) (\<lambda>(pos, n). body pos) pn s)"

definition list_for_each_entry_safe_continue ::
  "nat \<Rightarrow> nat \<Rightarrow> (int, 's) list_body \<Rightarrow> int \<Rightarrow> addr \<Rightarrow> 's \<times> lheap \<Rightarrow> ((int \<times> int) \<times> 's \<times> lheap) res option" where
  "list_for_each_entry_safe_continue fuel off body pos head s =
     for_init (bindR (list_next_entry off (snd s) pos)
         (\<lambda>pos. bindR (list_next_entry off (snd s) pos) (\<lambda>n. Inr (pos, n))))
       (\<lambda>pn. for_loop fuel (\<lambda>(pos, n) s. Inr (member_of off pos \<noteq> head, (pos, n)))
          (\<lambda>(pos, n) s. bindR (list_next_entry off (snd s) n) (\<lambda>n1. Inr (n, n1))) (\<lambda>(pos, n). body pos) pn s)"

definition list_for_each_entry_safe_from ::
  "nat \<Rightarrow> nat \<Rightarrow> (int, 's) list_body \<Rightarrow> int \<Rightarrow> addr \<Rightarrow> 's \<times> lheap \<Rightarrow> ((int \<times> int) \<times> 's \<times> lheap) res option" where
  "list_for_each_entry_safe_from fuel off body pos head s =
     for_init (bindR (list_next_entry off (snd s) pos) (\<lambda>n. Inr (pos, n)))
       (\<lambda>pn. for_loop fuel (\<lambda>(pos, n) s. Inr (member_of off pos \<noteq> head, (pos, n)))
          (\<lambda>(pos, n) s. bindR (list_next_entry off (snd s) n) (\<lambda>n1. Inr (n, n1))) (\<lambda>(pos, n). body pos) pn s)"

definition list_for_each_entry_safe_reverse ::
  "nat \<Rightarrow> nat \<Rightarrow> (int, 's) list_body \<Rightarrow> addr \<Rightarrow> 's \<times> lheap \<Rightarrow> ((int \<times> int) \<times> 's \<times> lheap) res option" where
  "list_for_each_entry_safe_reverse fuel off body head s =
     for_init (bindR (list_last_entry off (snd s) head)
         (\<lambda>pos. bindR (list_prev_entry off (snd s) pos) (\<lambda>n. Inr (pos, n))))
       (\<lambda>pn. for_loop fuel (\<lambda>(pos, n) s. Inr (member_of off pos \<noteq> head, (pos, n)))
          (\<lambda>(pos, n) s. bindR (list_prev_entry off (snd s) n) (\<lambda>n1. Inr (n, n1))) (\<lambda>(pos, n). body pos) pn s)"

subsection \<open>The four cursors\<close>

lemma member_of_entry [simp]: "member_of off (list_entry off a) = a"
  by (simp add: member_of_def list_entry_def container_of_def)

text \<open>The two ends of a list in terms of the cursor that walks over it, and the effect of a deletion.\<close>

lemma hd_cursor: "elem (hd (xs @ [head])) = cursor elem (elem head) xs"
  by (cases xs) auto

lemma last_cursor: "elem (last (head # xs)) = cursor elem (elem head) (rev xs)"
  by (cases xs rule: rev_cases) auto

lemma dlist_del:
  assumes "dlist h head (as @ x # bs)"
  shows "\<exists>h'. list_del h x = Inr h' \<and> dlist h' head (as @ bs)"
proof -
  obtain h' where "list_del h x = Inr h'" "dlist h' head (remove1 x (as @ x # bs))"
    using list_del_spec [OF assms, of x] by auto
  moreover have "x \<notin> set as" using dlist_distinct [OF assms] by auto
  ultimately show ?thesis by (simp add: remove1_append)
qed

lemma dlist_next_cursor:
  "dlist h head (as @ x # bs) \<Longrightarrow> get_next h x = Inr (cursor (\<lambda>a. a) head bs)"
  "dlist h head xs \<Longrightarrow> get_next h head = Inr (cursor (\<lambda>a. a) head xs)"
  using dlist_entry_next dlist_head_links(1) hd_cursor [of "\<lambda>a. a"] by auto

lemma dlist_prev_cursor:
  "dlist h head (rev (as @ x # bs)) \<Longrightarrow> get_prev h x = Inr (cursor (\<lambda>a. a) head bs)"
  "dlist h head (rev xs) \<Longrightarrow> get_prev h head = Inr (cursor (\<lambda>a. a) head xs)"
  using dlist_entry_prev [of h head "rev bs" x "rev as"] dlist_head_links(2) [of h head "rev xs"]
    last_cursor [of "\<lambda>a. a" head "rev bs"] last_cursor [of "\<lambda>a. a" head "rev xs"] by auto

lemma cursor_entry: "list_entry off (cursor (\<lambda>a. a) head xs) = cursor (list_entry off) (list_entry off head) xs"
  by (cases xs) auto

lemma dlist_not_head: "dlist h head (as @ x # bs) \<Longrightarrow> x \<noteq> head"
  using dlist_distinct by fastforce

interpretation nodes: ring_cursor "\<lambda>h. dlist h head" "\<lambda>a. a" head "\<lambda>a. a" "\<lambda>pos. pos \<noteq> head" get_next list_del
  by unfold_locales (auto simp: dlist_not_head dlist_next_cursor intro: dlist_del)

interpretation nodes_back: ring_cursor "\<lambda>h xs. dlist h head (rev xs)" "\<lambda>a. a" head "\<lambda>a. a" "\<lambda>pos. pos \<noteq> head"
  get_prev list_del
  by unfold_locales (use dlist_prev_cursor in \<open>auto simp: dlist_not_head dlist_del\<close>)

interpretation entries: ring_cursor "\<lambda>h. dlist h head" "list_entry off" "list_entry off head" "member_of off"
  "\<lambda>pos. member_of off pos \<noteq> head" "list_next_entry off" list_del
  by unfold_locales
    (auto simp: dlist_not_head list_next_entry_def dlist_next_cursor cursor_entry intro: dlist_del)

interpretation entries_back: ring_cursor "\<lambda>h xs. dlist h head (rev xs)" "list_entry off" "list_entry off head"
  "member_of off" "\<lambda>pos. member_of off pos \<noteq> head" "list_prev_entry off" list_del
  by unfold_locales
    (use dlist_prev_cursor in \<open>auto simp: dlist_not_head list_prev_entry_def cursor_entry dlist_del\<close>)

lemmas list_loop_defs =
  list_for_each_def list_for_each_prev_def list_for_each_safe_def list_for_each_prev_safe_def
  list_for_each_entry_def list_for_each_entry_reverse_def list_for_each_entry_safe_def
  list_for_each_entry_safe_reverse_def list_for_each_entry_from_def list_for_each_entry_continue_def
  list_for_each_entry_continue_reverse_def list_for_each_entry_safe_from_def list_for_each_entry_safe_continue_def

text \<open>The pointers with which the loops start.\<close>

lemma list_first_last_entry:
  assumes "dlist h head xs"
  shows "list_first_entry off h head = Inr (cursor (list_entry off) (list_entry off head) xs)"
    and "list_last_entry off h head = Inr (cursor (list_entry off) (list_entry off head) (rev xs))"
  using dlist_next_cursor(2) [OF assms] dlist_prev_cursor(2) [of h head "rev xs"] assms
  by (simp_all add: list_first_entry_def list_last_entry_def cursor_entry)

subsection \<open>Loops that allow removal\<close>

lemma list_for_each_safe_purges:
  assumes "dlist h head xs" and "length xs < fuel"
  shows "\<exists>n h'. list_for_each_safe fuel (purge (\<lambda>a. a) list_del P) head ([], h) = Some (Inr ((head, n), (xs, h')))
    \<and> dlist h' head (filter (\<lambda>x. \<not> P x) xs)"
proof -
  obtain n where "get_next h (cursor (\<lambda>a. a) head xs) = Inr n" "xs \<noteq> [] \<longrightarrow> n = cursor (\<lambda>a. a) head (tl xs)"
    using nodes.second [of h head "[]" xs] assms(1) by auto
  then show ?thesis
    using nodes.purges_two_ahead [of h head "[]" xs fuel n P] assms dlist_next_cursor(2) [OF assms(1)]
    by (simp add: list_loop_defs)
qed

lemma list_for_each_prev_safe_purges:
  assumes "dlist h head xs" and "length xs < fuel"
  shows "\<exists>n h'. list_for_each_prev_safe fuel (purge (\<lambda>a. a) list_del P) head ([], h) =
    Some (Inr ((head, n), (rev xs, h'))) \<and> dlist h' head (filter (\<lambda>x. \<not> P x) xs)"
proof -
  have r: "dlist h head (rev (rev xs))" "length (rev xs) < fuel" using assms by simp_all
  obtain n where "get_prev h (cursor (\<lambda>a. a) head (rev xs)) = Inr n"
      "rev xs \<noteq> [] \<longrightarrow> n = cursor (\<lambda>a. a) head (tl (rev xs))"
    using nodes_back.second [of h head "[]" "rev xs"] r(1) by auto
  then show ?thesis
    using nodes_back.purges_two_ahead [of h head "[]" "rev xs" fuel n P] r dlist_prev_cursor(2) [OF r(1)]
    by (simp add: list_loop_defs rev_filter [symmetric])
qed

lemma list_for_each_entry_safe_purges:
  assumes "dlist h head xs" and "length xs < fuel"
  shows "\<exists>n h'. list_for_each_entry_safe fuel off (purge (member_of off) list_del P) head ([], h) =
    Some (Inr ((list_entry off head, n), (map (list_entry off) xs, h'))) \<and> dlist h' head (filter (\<lambda>x. \<not> P x) xs)"
proof -
  obtain n where "list_next_entry off h (cursor (list_entry off) (list_entry off head) xs) = Inr n"
      "xs \<noteq> [] \<longrightarrow> n = cursor (list_entry off) (list_entry off head) (tl xs)"
    using entries.second [of h head "[]" xs off] assms(1) by auto
  then show ?thesis
    using entries.purges_two_ahead [of h head "[]" xs fuel n off P] assms list_first_last_entry(1) [OF assms(1)]
    by (simp add: list_loop_defs)
qed

lemma list_for_each_entry_safe_reverse_purges:
  assumes "dlist h head xs" and "length xs < fuel"
  shows "\<exists>n h'. list_for_each_entry_safe_reverse fuel off (purge (member_of off) list_del P) head ([], h) =
    Some (Inr ((list_entry off head, n), (map (list_entry off) (rev xs), h'))) \<and> dlist h' head (filter (\<lambda>x. \<not> P x) xs)"
proof -
  have r: "dlist h head (rev (rev xs))" "length (rev xs) < fuel" using assms by simp_all
  obtain n where "list_prev_entry off h (cursor (list_entry off) (list_entry off head) (rev xs)) = Inr n"
      "rev xs \<noteq> [] \<longrightarrow> n = cursor (list_entry off) (list_entry off head) (tl (rev xs))"
    using entries_back.second [of h head "[]" "rev xs" off] r(1) by auto
  then show ?thesis
    using entries_back.purges_two_ahead [of h head "[]" "rev xs" fuel n off P] r list_first_last_entry(2) [OF assms(1)]
    by (simp add: list_loop_defs rev_filter [symmetric] rev_map)
qed

text \<open>From a place in the middle of the list.\<close>

lemma list_safe_loops_resume:
  assumes "dlist h head (as @ e # bs)" and "Suc (length bs) < fuel"
  shows "\<exists>n h'. list_for_each_entry_safe_from fuel off (purge (member_of off) list_del P) (list_entry off e) head ([], h) =
      Some (Inr ((list_entry off head, n), (map (list_entry off) (e # bs), h'))) \<and>
      dlist h' head (as @ filter (\<lambda>x. \<not> P x) (e # bs))"
    and "\<exists>n h'. list_for_each_entry_safe_continue fuel off (purge (member_of off) list_del P) (list_entry off e) head ([], h) =
      Some (Inr ((list_entry off head, n), (map (list_entry off) bs, h'))) \<and>
      dlist h' head ((as @ [e]) @ filter (\<lambda>x. \<not> P x) bs)"
proof -
  have first: "list_next_entry off h (list_entry off e) = Inr (cursor (list_entry off) (list_entry off head) bs)"
    using entries.step_elem [OF assms(1)] .
  then show "\<exists>n h'. list_for_each_entry_safe_from fuel off (purge (member_of off) list_del P) (list_entry off e) head ([], h) =
      Some (Inr ((list_entry off head, n), (map (list_entry off) (e # bs), h'))) \<and>
      dlist h' head (as @ filter (\<lambda>x. \<not> P x) (e # bs))"
    using entries.purges_two_ahead [OF assms(1), of fuel "cursor (list_entry off) (list_entry off head) bs" off P] assms(2)
    by (simp only: list_loop_defs) (simp del: filter.simps)
  obtain n where "list_next_entry off h (cursor (list_entry off) (list_entry off head) bs) = Inr n"
      "bs \<noteq> [] \<Longrightarrow> n = cursor (list_entry off) (list_entry off head) (tl bs)"
    using entries.second [of h head "as @ [e]" bs] assms(1) by auto
  then show "\<exists>n h'. list_for_each_entry_safe_continue fuel off (purge (member_of off) list_del P) (list_entry off e) head ([], h) =
      Some (Inr ((list_entry off head, n), (map (list_entry off) bs, h'))) \<and>
      dlist h' head ((as @ [e]) @ filter (\<lambda>x. \<not> P x) bs)"
    using entries.purges_two_ahead [of h head "as @ [e]" bs fuel n off P] assms first
    by (simp add: list_loop_defs)
qed

subsection \<open>Properties\<close>

text \<open>C25: the loops of \<open>list.h\<close> that keep the next object in a second variable end, visit every
  object once, in order or in reverse order, although the body deletes objects while the loop
  runs, and leave exactly the objects that were not deleted.\<close>

theorem list_for_each_safe_against_removal:
  assumes "dlist h head xs" and "length xs < fuel"
  shows "(\<exists>n h'. list_for_each_safe fuel (purge (\<lambda>a. a) list_del P) head ([], h) = Some (Inr ((head, n), (xs, h')))
      \<and> dlist h' head (filter (\<lambda>x. \<not> P x) xs)) \<and>
    (\<exists>n h'. list_for_each_prev_safe fuel (purge (\<lambda>a. a) list_del P) head ([], h) =
      Some (Inr ((head, n), (rev xs, h'))) \<and> dlist h' head (filter (\<lambda>x. \<not> P x) xs)) \<and>
    (\<exists>n h'. list_for_each_entry_safe fuel off (purge (member_of off) list_del P) head ([], h) =
      Some (Inr ((list_entry off head, n), (map (list_entry off) xs, h'))) \<and> dlist h' head (filter (\<lambda>x. \<not> P x) xs)) \<and>
    (\<exists>n h'. list_for_each_entry_safe_reverse fuel off (purge (member_of off) list_del P) head ([], h) =
      Some (Inr ((list_entry off head, n), (map (list_entry off) (rev xs), h'))) \<and> dlist h' head (filter (\<lambda>x. \<not> P x) xs))"
  using list_for_each_safe_purges list_for_each_prev_safe_purges list_for_each_entry_safe_purges
    list_for_each_entry_safe_reverse_purges assms by (intro conjI)

theorem list_for_each_safe_against_removal_witness:
  "\<exists>n h'. list_for_each_entry_safe_reverse 3 8 (purge (member_of 8) list_del even) 100 ([], list_example) =
     Some (Inr ((92, n), ([94, 93], h'))) \<and> dlist h' 100 [101]"
  using list_for_each_safe_against_removal [OF list_example_lists(1), of 3 even 8]
  by (simp add: list_entry_def container_of_def)

text \<open>the loops without a second variable visit all objects in the order of the list or in
  reverse order and change nothing.\<close>

theorem list_loops_visit:
  assumes "dlist h head xs" and "length xs < fuel"
  shows "list_for_each fuel visit head ([], h) = Some (Inr (head, (xs, h))) \<and>
    list_for_each_prev fuel visit head ([], h) = Some (Inr (head, (rev xs, h))) \<and>
    list_for_each_entry fuel off visit head ([], h) =
      Some (Inr (list_entry off head, (map (list_entry off) xs, h))) \<and>
    list_for_each_entry_reverse fuel off visit head ([], h) =
      Some (Inr (list_entry off head, (map (list_entry off) (rev xs), h)))"
proof -
  have r: "dlist h head (rev ([] @ rev xs))" "length (rev xs) < fuel" using assms by simp_all
  have "list_for_each fuel visit head ([], h) = Some (Inr (head, (xs, h)))"
    using nodes.visits [of h head "[]" xs fuel "[]"] assms dlist_next_cursor(2) [OF assms(1)]
    by (simp add: list_loop_defs)
  moreover have "list_for_each_prev fuel visit head ([], h) = Some (Inr (head, (rev xs, h)))"
    using nodes_back.visits [OF r, of "[]"] dlist_prev_cursor(2) [of h head "rev xs"] assms(1) by (simp add: list_loop_defs)
  moreover have "list_for_each_entry fuel off visit head ([], h) =
      Some (Inr (list_entry off head, (map (list_entry off) xs, h)))"
    using entries.visits [of h head "[]" xs fuel off "[]"] assms list_first_last_entry(1) [OF assms(1)]
    by (simp add: list_loop_defs)
  moreover have "list_for_each_entry_reverse fuel off visit head ([], h) =
      Some (Inr (list_entry off head, (map (list_entry off) (rev xs), h)))"
    using entries_back.visits [OF r, of off "[]"] list_first_last_entry(2) [OF assms(1)] by (simp add: list_loop_defs)
  ultimately show ?thesis by blast
qed

theorem list_loops_visit_witness:
  "list_for_each_entry_reverse 3 8 visit 100 ([], list_example) = Some (Inr (92, ([94, 93], list_example)))"
  using list_loops_visit [OF list_example_lists(1), of 3 8] by (simp add: list_entry_def container_of_def)

text \<open>the loops that resume at an object visit it and those behind it, only those behind it, or
  those before it in reverse order; resuming at a NULL pointer that was prepared visits all.\<close>

theorem list_loops_resume:
  assumes "dlist h head (as @ e # bs)" and "length (as @ e # bs) < fuel"
  shows "list_for_each_entry_from fuel off visit (list_entry off e) head ([], h) =
      Some (Inr (list_entry off head, (map (list_entry off) (e # bs), h))) \<and>
    list_for_each_entry_continue fuel off visit (list_entry off e) head ([], h) =
      Some (Inr (list_entry off head, (map (list_entry off) bs, h))) \<and>
    list_for_each_entry_continue_reverse fuel off visit (list_entry off e) head ([], h) =
      Some (Inr (list_entry off head, (map (list_entry off) (rev as), h))) \<and>
    list_for_each_entry_continue fuel off visit (list_prepare_entry off 0 head) head ([], h) =
      Some (Inr (list_entry off head, (map (list_entry off) (as @ e # bs), h)))"
proof -
  have r: "dlist h head (rev (rev bs @ e # rev as))" "dlist h head (rev ((rev bs @ [e]) @ rev as))" using assms by simp_all
  have "list_for_each_entry_from fuel off visit (list_entry off e) head ([], h) =
      Some (Inr (list_entry off head, (map (list_entry off) (e # bs), h)))"
    using entries.visits [OF assms(1), of fuel off "[]"] assms(2) by (simp add: list_loop_defs)
  moreover have "list_for_each_entry_continue fuel off visit (list_entry off e) head ([], h) =
      Some (Inr (list_entry off head, (map (list_entry off) bs, h)))"
    using entries.visits [of h head "as @ [e]" bs fuel off "[]"] entries.step_elem [OF assms(1)] assms
    by (simp add: list_loop_defs)
  moreover have "list_for_each_entry_continue_reverse fuel off visit (list_entry off e) head ([], h) =
      Some (Inr (list_entry off head, (map (list_entry off) (rev as), h)))"
    using entries_back.visits [OF r(2), of fuel off "[]"] entries_back.step_elem [OF r(1)] assms(2)
    by (simp add: list_loop_defs)
  moreover have "list_for_each_entry_continue fuel off visit (list_prepare_entry off 0 head) head ([], h) =
      Some (Inr (list_entry off head, (map (list_entry off) (as @ e # bs), h)))"
    using entries.visits [of h head "[]" "as @ e # bs" fuel off "[]"] entries.step_fin [OF assms(1)] assms
    by (simp add: list_loop_defs list_prepare_entry_def)
  ultimately show ?thesis by blast
qed

theorem list_loops_resume_witness:
  "list_for_each_entry_continue 3 8 visit 93 100 ([], list_example) = Some (Inr (92, ([94], list_example)))"
  using list_loops_resume [of list_example 100 "[]" 101 "[102]" 3 8] list_example_lists(1)
  by (simp add: list_entry_def container_of_def)

lemma list_loop_faults_at:
  assumes "dlist h head (kept @ as @ e # bs)" and "LIST_POISON1 \<notin> dom h" and "P e" and "\<forall>a\<in>set as. \<not> P a"
    and "Suc (length as) < fuel"
  shows "for_loop fuel (\<lambda>pos s. Inr (member_of off pos \<noteq> head, pos)) (\<lambda>pos s. list_next_entry off (snd s) pos)
    (purge (member_of off) list_del P) (cursor (list_entry off) (list_entry off head) (as @ e # bs)) (seen, h) = Some (Inl BadPointer)"
  using assms
proof (induction as arbitrary: kept seen fuel)
  case Nil
  then obtain f where fuel: "fuel = Suc (Suc f)" by (cases fuel; cases "fuel - 1") auto
  obtain h' where h': "list_del h e = Inr h'" "nexts h' e = Some LIST_POISON1" "reshape h h' (set (head # kept @ e # bs))"
    using list_del_spec [of h head "kept @ e # bs" e] Nil.prems(1) by auto
  have p: "LIST_POISON1 \<noteq> head" "h' LIST_POISON1 = None" "e \<noteq> head"
    using dlist_dom [OF Nil.prems(1)] Nil.prems(2) reshape_dom [OF h'(3)] dlist_not_head [of h head kept e bs] Nil.prems(1)
    by auto
  then show ?case
    using h' Nil.prems(3) get_next_eq [OF h'(2)] fuel
    by (simp add: purge_def list_next_entry_def list_del_def list_unlink_def get_next_def get_prev_def cell_def)
next
  case (Cons a as)
  then obtain f where fuel: "fuel = Suc f" by (cases fuel) auto
  have "dlist h head (kept @ a # as @ e # bs)" using Cons.prems(1) by simp
  note step = entries.step_elem [OF this, of off] entries.more_elem [OF this, of off]
  show ?case using Cons.IH [of "kept @ [a]" f "seen @ [list_entry off a]"] Cons.prems step fuel by (simp add: purge_def)
qed

text \<open>in a loop without a second variable the body must not delete the object it is called for:
  as long as the poison address is not an allocated cell, the loop then faults on it.\<close>

theorem list_for_each_entry_removal_faults:
  assumes "dlist h head xs" and "e \<in> set xs" and "P e" and "LIST_POISON1 \<notin> dom h" and "length xs < fuel"
  shows "list_for_each_entry fuel off (purge (member_of off) list_del P) head ([], h) = Some (Inl BadPointer)"
proof -
  obtain as y bs where xs: "xs = as @ y # bs" "P y" "\<forall>a\<in>set as. \<not> P a"
    using split_list_first_prop [of xs P] assms(2,3) by blast
  then show ?thesis
    using list_loop_faults_at [of h head "[]" as y bs P fuel off "[]"] assms list_first_last_entry(1) [OF assms(1)]
    by (simp add: list_for_each_entry_def)
qed

theorem list_for_each_entry_removal_faults_witness:
  "list_for_each_entry 3 8 (purge (member_of 8) list_del even) 100 ([], list_example) = Some (Inl BadPointer)"
  using list_for_each_entry_removal_faults [OF list_example_lists(1), of 102 even 3 8]
  by (simp add: list_example_def LIST_POISON1_def)

end
