(* ===== verification/Cx_Hlist_Iter.thy ===== *)
theory Cx_Hlist_Iter
  imports Cx_Hlist Cx_List_Iter
begin

text \<open>
  The loops of \<open>list.h\<close> over the lists with a single-pointer head. They end at NULL instead of at
  the head, and those that allow removal take the next node in the test of the loop. As for the
  circular lists, each macro is an instance of \<open>for_loop\<close> and the two kinds of loop variable are
  interpretations of \<open>list_cursor\<close>.
\<close>

subsection \<open>The macros\<close>

definition hlist_entry :: "nat \<Rightarrow> addr \<Rightarrow> int" where
  "hlist_entry off ptr = container_of off ptr"

definition hlist_entry_safe :: "nat \<Rightarrow> addr \<Rightarrow> int" where
  "hlist_entry_safe off ptr = (if ptr \<noteq> 0 then hlist_entry off ptr else 0)"

definition get_hnext :: "hheap \<Rightarrow> addr \<Rightarrow> addr res" where
  "get_hnext h n = bindR (hnode h n) (\<lambda>c. Inr (hn_next c))"

text \<open>\<open>pos->member.next\<close>, and the object it is the member of.\<close>

definition entry_hnext :: "nat \<Rightarrow> hheap \<Rightarrow> int \<Rightarrow> addr res" where
  "entry_hnext off h pos = (if pos = 0 then Inl NullDeref else get_hnext h (member_of off pos))"

definition hlist_next_entry :: "nat \<Rightarrow> hheap \<Rightarrow> int \<Rightarrow> int res" where
  "hlist_next_entry off h pos = bindR (entry_hnext off h pos) (\<lambda>n. Inr (hlist_entry_safe off n))"

type_synonym ('p, 's) hlist_body = "'p \<Rightarrow> 's \<times> hheap \<Rightarrow> ('s \<times> hheap) res"

definition hlist_for_each ::
  "nat \<Rightarrow> (addr, 's) hlist_body \<Rightarrow> addr \<Rightarrow> 's \<times> hheap \<Rightarrow> (addr \<times> 's \<times> hheap) res option" where
  "hlist_for_each fuel body head s =
     for_init (get_first (snd s) head)
       (\<lambda>pos. for_loop fuel (\<lambda>pos s. Inr (pos \<noteq> 0, pos)) (\<lambda>pos s. get_hnext (snd s) pos) body pos s)"

definition hlist_for_each_safe ::
  "nat \<Rightarrow> (addr, 's) hlist_body \<Rightarrow> addr \<Rightarrow> addr \<Rightarrow> 's \<times> hheap \<Rightarrow> ((addr \<times> addr) \<times> 's \<times> hheap) res option" where
  "hlist_for_each_safe fuel body n head s =
     for_init (bindR (get_first (snd s) head) (\<lambda>pos. Inr (pos, n)))
       (\<lambda>pn. for_loop fuel
          (\<lambda>(pos, n) s. if pos \<noteq> 0 then bindR (get_hnext (snd s) pos) (\<lambda>n1. Inr (True, (pos, n1))) else Inr (False, (pos, n)))
          (\<lambda>(pos, n) s. Inr (n, n)) (\<lambda>(pos, n). body pos) pn s)"

definition hlist_for_each_entry ::
  "nat \<Rightarrow> nat \<Rightarrow> (int, 's) hlist_body \<Rightarrow> addr \<Rightarrow> 's \<times> hheap \<Rightarrow> (int \<times> 's \<times> hheap) res option" where
  "hlist_for_each_entry fuel off body head s =
     for_init (bindR (get_first (snd s) head) (\<lambda>a. Inr (hlist_entry_safe off a)))
       (\<lambda>pos. for_loop fuel (\<lambda>pos s. Inr (pos \<noteq> 0, pos)) (\<lambda>pos s. hlist_next_entry off (snd s) pos) body pos s)"

definition hlist_for_each_entry_continue ::
  "nat \<Rightarrow> nat \<Rightarrow> (int, 's) hlist_body \<Rightarrow> int \<Rightarrow> 's \<times> hheap \<Rightarrow> (int \<times> 's \<times> hheap) res option" where
  "hlist_for_each_entry_continue fuel off body pos s =
     for_init (hlist_next_entry off (snd s) pos)
       (\<lambda>pos. for_loop fuel (\<lambda>pos s. Inr (pos \<noteq> 0, pos)) (\<lambda>pos s. hlist_next_entry off (snd s) pos) body pos s)"

definition hlist_for_each_entry_from ::
  "nat \<Rightarrow> nat \<Rightarrow> (int, 's) hlist_body \<Rightarrow> int \<Rightarrow> 's \<times> hheap \<Rightarrow> (int \<times> 's \<times> hheap) res option" where
  "hlist_for_each_entry_from fuel off body pos s =
     for_loop fuel (\<lambda>pos s. Inr (pos \<noteq> 0, pos)) (\<lambda>pos s. hlist_next_entry off (snd s) pos) body pos s"

definition hlist_for_each_entry_safe ::
  "nat \<Rightarrow> nat \<Rightarrow> (int, 's) hlist_body \<Rightarrow> addr \<Rightarrow> addr \<Rightarrow> 's \<times> hheap \<Rightarrow> ((int \<times> addr) \<times> 's \<times> hheap) res option" where
  "hlist_for_each_entry_safe fuel off body n head s =
     for_init (bindR (get_first (snd s) head) (\<lambda>a. Inr (hlist_entry_safe off a, n)))
       (\<lambda>pn. for_loop fuel
          (\<lambda>(pos, n) s. if pos \<noteq> 0 then bindR (entry_hnext off (snd s) pos) (\<lambda>n1. Inr (True, (pos, n1)))
             else Inr (False, (pos, n)))
          (\<lambda>(pos, n) s. Inr (hlist_entry_safe off n, n)) (\<lambda>(pos, n). body pos) pn s)"

subsection \<open>The two cursors\<close>

lemma hlist_first: "hlist h head xs \<Longrightarrow> get_first h head = Inr (cursor (\<lambda>a. a) 0 xs)"
  by (cases xs) (auto simp: hlist_def get_first_def)

lemma hlist_hnext:
  assumes "hlist h head (as @ x # bs)"
  shows "get_hnext h x = Inr (cursor (\<lambda>a. a) 0 bs)" "x \<noteq> 0"
  using assms by (cases bs; auto simp: hlist_def get_hnext_def hnode_def)+

lemma hlist_del_cursor:
  assumes "hlist h head (as @ x # bs)"
  shows "\<exists>h'. hlist_del h x = Inr h' \<and> hlist h' head (as @ bs)"
  using hlist_del_spec [OF assms] by metis

text \<open>No object lies at address 0, so that the address of its member is not the offset of the member.\<close>

definition objects_at :: "nat \<Rightarrow> addr list \<Rightarrow> bool" where
  "objects_at off xs \<longleftrightarrow> off \<notin> set xs"

lemma hlist_entry_cursor:
  "0 \<notin> set xs \<Longrightarrow> hlist_entry_safe off (cursor (\<lambda>a. a) 0 xs) = cursor (hlist_entry off) 0 xs"
  by (cases xs) (auto simp: hlist_entry_safe_def)

lemma hlist_entry_member: "member_of off (hlist_entry off a) = a" "hlist_entry off a = 0 \<longleftrightarrow> a = off"
  using member_of_entry [of off a] by (auto simp: hlist_entry_def list_entry_def container_of_def)

lemma hlist_no_null: "hlist h head xs \<Longrightarrow> 0 \<notin> set xs"
  by (simp add: hlist_def)

lemma hlist_next_entry_ok:
  assumes "hlist h head (as @ x # bs)" and "objects_at off (as @ x # bs)"
  shows "hlist_next_entry off h (hlist_entry off x) = Inr (cursor (hlist_entry off) 0 bs)"
  using hlist_hnext [OF assms(1)] hlist_no_null [OF assms(1)] assms(2)
  by (simp add: hlist_next_entry_def entry_hnext_def hlist_entry_member objects_at_def hlist_entry_cursor)

interpretation hnodes: list_cursor "\<lambda>h. hlist h head" "\<lambda>a. a" 0 "\<lambda>a. a" "\<lambda>pos. pos \<noteq> 0" get_hnext hlist_del
  by unfold_locales (auto simp: hlist_hnext intro: hlist_del_cursor dest: hlist_no_null)

interpretation hentries: list_cursor "\<lambda>h xs. hlist h head xs \<and> objects_at off xs" "hlist_entry off" 0 "member_of off"
  "\<lambda>pos. pos \<noteq> 0" "hlist_next_entry off" hlist_del
  by unfold_locales
    (use hlist_del_cursor in \<open>auto simp: hlist_entry_member hlist_next_entry_ok, auto simp: objects_at_def\<close>)

subsection \<open>Properties\<close>

text \<open>C35: any sequence of calls of \<open>hlist_add_head\<close>, \<open>hlist_add_before\<close>, \<open>hlist_add_behind\<close>, \<open>hlist_del\<close> and
  \<open>hlist_del_init\<close> on one list, which adds only nodes that are not on the list, next to nodes that are, and
  deletes only nodes that are, runs without a fault and gives the same entries in the same order as on a
  plain list, and \<open>hlist_for_each\<close> then ends and visits just these.\<close>

theorem hlist_script_refines:
  assumes "hlist h head xs" and "calls_ok spec_hlist_call (hlist_call_ok (node_avail h)) cs xs"
    and "length (spec_calls spec_hlist_call cs xs) < fuel"
  shows "\<exists>h'. run_calls (run_hlist_call head) cs h = Inr h' \<and> hlist h' head (spec_calls spec_hlist_call cs xs) \<and>
    hlist_for_each fuel visit head ([], h') = Some (Inr (0, (spec_calls spec_hlist_call cs xs, h')))"
proof -
  let ?ys = "spec_calls spec_hlist_call cs xs"
  obtain h' where h': "run_calls (run_hlist_call head) cs h = Inr h'" "hlist h' head ?ys"
    using hl.calls_run [OF assms(1,2)] by blast
  then have "hlist_for_each fuel visit head ([], h') = Some (Inr (0, (?ys, h')))"
    using hnodes.visits [of h' head "[]" _ fuel "[]"] assms(3) hlist_first by (simp add: hlist_for_each_def)
  with h' show ?thesis by blast
qed

theorem hlist_script_refines_witness:
  "\<exists>h'. run_calls (run_hlist_call 50) [AddBehind 9 7, HDel 7, AddHead 7, HDelInit 8] hlist_example = Inr h' \<and>
     hlist h' 50 [7, 9] \<and> hlist_for_each 3 visit 50 ([], h') = Some (Inr (0, ([7, 9], h')))"
  using hlist_script_refines [OF hlist_example_lists(1), of "[AddBehind 9 7, HDel 7, AddHead 7, HDelInit 8]" 3]
  by (simp add: node_avail_def hlist_example_def)

text \<open>C31: the loops over a hash list end, visit its objects in order, from the first one, from a given
  one or from the one behind it, and those that allow it leave exactly the objects that the body
  did not delete.\<close>

theorem hlist_loops:
  assumes "hlist h head (as @ e # bs)" and "objects_at off (as @ e # bs)" and "length (as @ e # bs) < fuel"
  shows "hlist_for_each_entry fuel off visit head ([], h) =
      Some (Inr (0, (map (hlist_entry off) (as @ e # bs), h))) \<and>
    hlist_for_each_entry_from fuel off visit (hlist_entry off e) ([], h) =
      Some (Inr (0, (map (hlist_entry off) (e # bs), h))) \<and>
    hlist_for_each_entry_continue fuel off visit (hlist_entry off e) ([], h) =
      Some (Inr (0, (map (hlist_entry off) bs, h))) \<and>
    (\<exists>n' h'. hlist_for_each_entry_safe fuel off (purge (member_of off) hlist_del P) n head ([], h) =
      Some (Inr ((0, n'), (map (hlist_entry off) (as @ e # bs), h'))) \<and>
      hlist h' head (filter (\<lambda>x. \<not> P x) (as @ e # bs))) \<and>
    (\<exists>n' h'. hlist_for_each_safe fuel (purge (\<lambda>a. a) hlist_del P) n head ([], h) =
      Some (Inr ((0, n'), (as @ e # bs, h'))) \<and> hlist h' head (filter (\<lambda>x. \<not> P x) (as @ e # bs)))"
proof -
  let ?xs = "as @ e # bs"
  have first: "bindR (get_first h head) (\<lambda>a. Inr (hlist_entry_safe off a)) = Inr (cursor (hlist_entry off) 0 ?xs)"
    using hlist_first [OF assms(1)] hlist_entry_cursor [OF hlist_no_null [OF assms(1)]] by simp
  have "hlist_for_each_entry fuel off visit head ([], h) = Some (Inr (0, (map (hlist_entry off) ?xs, h)))"
    using hentries.visits [of h head "[]" ?xs off fuel "[]"] assms first by (simp add: hlist_for_each_entry_def)
  moreover have "hlist_for_each_entry_from fuel off visit (hlist_entry off e) ([], h) =
      Some (Inr (0, (map (hlist_entry off) (e # bs), h)))"
    using hentries.visits [of h head as "e # bs" off fuel "[]"] assms by (simp add: hlist_for_each_entry_from_def)
  moreover have "hlist_for_each_entry_continue fuel off visit (hlist_entry off e) ([], h) =
      Some (Inr (0, (map (hlist_entry off) bs, h)))"
    using hentries.visits [of h head "as @ [e]" bs off fuel "[]"] assms hlist_next_entry_ok [OF assms(1,2)]
    by (simp add: hlist_for_each_entry_continue_def)
  moreover have "\<exists>n' h'. hlist_for_each_entry_safe fuel off (purge (member_of off) hlist_del P) n head ([], h) =
      Some (Inr ((0, n'), (map (hlist_entry off) ?xs, h'))) \<and> hlist h' head (filter (\<lambda>x. \<not> P x) ?xs)"
    using hentries.purges_kept_by_test [of h head ?xs off fuel "entry_hnext off" "hlist_entry_safe off" P n]
      hlist_first [OF assms(1)] hlist_entry_cursor [OF hlist_no_null [OF assms(1)]] assms
    by (simp add: hlist_for_each_entry_safe_def hlist_next_entry_def del: map_append filter_append) blast
  moreover have "\<exists>n' h'. hlist_for_each_safe fuel (purge (\<lambda>a. a) hlist_del P) n head ([], h) =
      Some (Inr ((0, n'), (?xs, h'))) \<and> hlist h' head (filter (\<lambda>x. \<not> P x) ?xs)"
    using hnodes.purges_kept_by_test [of h head ?xs fuel get_hnext "\<lambda>a. a" P n] hlist_first [OF assms(1)] assms
    by (simp add: hlist_for_each_safe_def bindR_def del: filter_append split: sum.splits)
  ultimately show ?thesis by blast
qed

theorem hlist_loops_witness:
  "hlist_for_each_entry 3 4 visit 50 ([], hlist_example) = Some (Inr (0, ([3, 4], hlist_example))) \<and>
   (\<exists>n' h'. hlist_for_each_safe 3 (purge (\<lambda>a. a) hlist_del even) 0 50 ([], hlist_example) =
      Some (Inr ((0, n'), ([7, 8], h'))) \<and> hlist h' 50 [7])"
  using hlist_loops [of hlist_example 50 "[]" 7 "[8]" 4 3 even 0] hlist_example_lists(1)
  by (simp add: objects_at_def hlist_entry_def container_of_def)

end
