(* ===== verification/Registry.thy ===== *)
theory Registry
  imports Cx_Prelude
begin

text \<open>
  The contract of a registry in which the first registration of a key stays: \<open>register\<close> returns 0
  and enters a key that is not there, returns -1 and changes nothing for one that is. A sequence of
  registrations is shown to give the lookups of the association list they form.
\<close>

primrec register_all :: "('s \<Rightarrow> 'k \<Rightarrow> 'v \<Rightarrow> (int \<times> 's) res) \<Rightarrow> 's \<Rightarrow> ('k \<times> 'v) list \<Rightarrow> 's res" where
  "register_all register s [] = Inr s"
| "register_all register s (kv # kvs) =
     bindR (register s (fst kv) (snd kv)) (\<lambda>(_, s1). register_all register s1 kvs)"

locale registry =
  fixes inv :: "'s \<Rightarrow> bool"
    and entries :: "'s \<Rightarrow> 'k \<rightharpoonup> 'v"
    and register :: "'s \<Rightarrow> 'k \<Rightarrow> 'v \<Rightarrow> (int \<times> 's) res"
  assumes register_new: "inv s \<Longrightarrow> entries s k = None \<Longrightarrow>
      \<exists>s'. register s k v = Inr (0, s') \<and> inv s' \<and> entries s' = (entries s)(k \<mapsto> v)"
    and register_again: "inv s \<Longrightarrow> entries s k = Some w \<Longrightarrow> register s k v = Inr (- 1, s)"
begin

lemma register_first_stays:
  assumes "inv s"
  shows "\<exists>r s'. register s k v = Inr (r, s') \<and> inv s' \<and> entries s' = [k \<mapsto> v] ++ entries s"
proof (cases "entries s k")
  case None
  then have "[k \<mapsto> v] ++ entries s = (entries s)(k \<mapsto> v)"
    by (auto simp: map_add_def fun_eq_iff split: option.splits)
  then show ?thesis using register_new [OF assms None] by metis
next
  case (Some w)
  then have "[k \<mapsto> v] ++ entries s = entries s"
    by (auto simp: map_add_def fun_eq_iff split: option.splits)
  then show ?thesis using register_again [OF assms Some] assms by metis
qed

lemma register_all_spec:
  assumes "inv s"
  shows "\<exists>s'. register_all register s kvs = Inr s' \<and> inv s' \<and> entries s' = map_of kvs ++ entries s"
  using assms
proof (induction kvs arbitrary: s)
  case (Cons kv kvs)
  obtain r s1 where s1: "register s (fst kv) (snd kv) = Inr (r, s1)" "inv s1"
    "entries s1 = [fst kv \<mapsto> snd kv] ++ entries s"
    using register_first_stays [OF Cons.prems] by blast
  obtain s' where s': "register_all register s1 kvs = Inr s'" "inv s'" "entries s' = map_of kvs ++ entries s1"
    using Cons.IH [OF s1(2)] by blast
  have "entries s' = map_of (kv # kvs) ++ entries s"
    by (cases kv) (simp add: s'(3) s1(3) map_add_assoc [symmetric])
  with s1 s' show ?case by (auto simp: fun_upd_def)
qed simp

end

end
