(* ===== verification/Cx_Stdio.thy ===== *)
theory Cx_Stdio
  imports Cx_Prelude
begin

text \<open>
  What the program uses of \<open>stdio.h\<close> and \<open>ctype.h\<close>: \<open>sscanf\<close> with the conversions \<open>%c\<close>, \<open>%d\<close>, \<open>%x\<close>
  and \<open>%<width>x\<close> and ordinary characters, \<open>snprintf\<close> with \<open>%.4x\<close>, and the character classes of the C
  locale. \<open>sscanf\<close> returns the values it assigns, in order, so that their number is its result. The
  main fact is that \<open>%x\<close> reads back what \<open>%.4x\<close> prints.
\<close>

subsection \<open>Characters\<close>

definition code :: "char \<Rightarrow> nat" where
  "code c = of_char c"

definition isspace_c :: "char \<Rightarrow> bool" where
  "isspace_c c \<longleftrightarrow> code c = 32 \<or> 9 \<le> code c \<and> code c \<le> 13"

definition isdigit_c :: "char \<Rightarrow> bool" where
  "isdigit_c c \<longleftrightarrow> 48 \<le> code c \<and> code c \<le> 57"

definition xdigit :: "char \<Rightarrow> nat option" where
  "xdigit c =
     (let n = code c
      in if 48 \<le> n \<and> n \<le> 57 then Some (n - 48)
         else if 97 \<le> n \<and> n \<le> 102 then Some (n - 87)
         else if 65 \<le> n \<and> n \<le> 70 then Some (n - 55)
         else None)"

subsection \<open>Scanning\<close>

fun hex_num :: "nat \<Rightarrow> string \<Rightarrow> nat" where
  "hex_num acc [] = acc"
| "hex_num acc (c # cs) = hex_num (16 * acc + (case xdigit c of Some d \<Rightarrow> d | None \<Rightarrow> 0)) cs"

text \<open>
  The number a digit sequence denotes as \<open>strtoul\<close> gives it (saturating at 64 bits, negated modulo
  \<open>2 ^ 64\<close> after a minus sign), stored into a 32-bit unsigned integer.
\<close>

definition strtoul32 :: "bool \<Rightarrow> string \<Rightarrow> nat" where
  "strtoul32 neg ds =
     (let v = hex_num 0 ds
      in (if size_mod \<le> v then size_mod - 1 else if neg \<and> 0 < v then size_mod - v else v) mod 2 ^ 32)"

text \<open>
  \<open>%x\<close>: white space is skipped, then at most \<open>width\<close> characters form the longest sequence of an
  optional sign, an optional \<open>0x\<close> and digits; without a digit the conversion fails.
\<close>

definition scan_sign :: "string \<Rightarrow> bool \<times> nat" where
  "scan_sign s = (case s of c # _ \<Rightarrow> if c = CHR ''-'' then (True, 1) else if c = CHR ''+'' then (False, 1) else (False, 0)
                  | [] \<Rightarrow> (False, 0))"

definition scan_0x :: "string \<Rightarrow> nat" where
  "scan_0x s = (case s of a # b # _ \<Rightarrow> if a = CHR ''0'' \<and> (b = CHR ''x'' \<or> b = CHR ''X'') then 2 else 0 | _ \<Rightarrow> 0)"

definition scan_x :: "nat option \<Rightarrow> string \<Rightarrow> (nat \<times> string) option" where
  "scan_x width s =
     (let s1 = dropWhile isspace_c s;
          item = (case width of None \<Rightarrow> s1 | Some w \<Rightarrow> take w s1);
          (neg, a) = scan_sign item;
          b = scan_0x (drop a item);
          ds = takeWhile (\<lambda>c. xdigit c \<noteq> None) (drop (a + b) item)
      in if ds = [] then None else Some (strtoul32 neg ds, drop (a + b + length ds) s1))"

text \<open>\<open>%d\<close> likewise, with decimal digits: \<open>strtol\<close> saturates at 64 bits, and the result is stored into
  a 32-bit signed integer.\<close>

fun dec_num :: "nat \<Rightarrow> string \<Rightarrow> nat" where
  "dec_num acc [] = acc"
| "dec_num acc (c # cs) = dec_num (10 * acc + (code c - 48)) cs"

definition to_int32 :: "int \<Rightarrow> int" where
  "to_int32 i = (i + 2 ^ 31) mod 2 ^ 32 - 2 ^ 31"

definition strtol32 :: "bool \<Rightarrow> string \<Rightarrow> int" where
  "strtol32 neg ds =
     (let v = int (dec_num 0 ds)
      in to_int32 (if neg then max (- (2 ^ 63)) (- v) else min (2 ^ 63 - 1) v))"

definition scan_d :: "string \<Rightarrow> (int \<times> string) option" where
  "scan_d s =
     (let s1 = dropWhile isspace_c s;
          (neg, a) = scan_sign s1;
          ds = takeWhile isdigit_c (drop a s1)
      in if ds = [] then None else Some (strtol32 neg ds, drop (a + length ds) s1))"

datatype conv = Conv_c | Conv_x "nat option" | Conv_d | Lit char

datatype sval = CharV char | HexV nat | IntV int

fun sscanf :: "conv list \<Rightarrow> string \<Rightarrow> sval list" where
  "sscanf [] s = []"
| "sscanf (Conv_c # f) s = (case s of [] \<Rightarrow> [] | c # r \<Rightarrow> CharV c # sscanf f r)"
| "sscanf (Conv_x w # f) s = (case scan_x w s of None \<Rightarrow> [] | Some (v, r) \<Rightarrow> HexV v # sscanf f r)"
| "sscanf (Conv_d # f) s = (case scan_d s of None \<Rightarrow> [] | Some (v, r) \<Rightarrow> IntV v # sscanf f r)"
| "sscanf (Lit c # f) s = (case s of [] \<Rightarrow> [] | d # r \<Rightarrow> if d = c then sscanf f r else [])"

subsection \<open>Printing\<close>

definition hex_char :: "nat \<Rightarrow> char" where
  "hex_char d = char_of (if d < 10 then 48 + d else 87 + d)"

fun hex_string :: "nat \<Rightarrow> string" where
  "hex_string n = (if n < 16 then [hex_char n] else hex_string (n div 16) @ [hex_char (n mod 16)])"

declare hex_string.simps [simp del]

text \<open>\<open>%.4x\<close>: at least four digits.\<close>

definition hex4 :: "nat \<Rightarrow> string" where
  "hex4 n = replicate (4 - length (hex_string n)) (CHR ''0'') @ hex_string n"

subsection \<open>Reading back\<close>

lemma xdigit_hex_char: "d < 16 \<Longrightarrow> xdigit (hex_char d) = Some d"
  by (auto simp: xdigit_def hex_char_def code_def)

lemma hex_num_append: "hex_num a (xs @ ys) = hex_num (hex_num a xs) ys"
  by (induction xs arbitrary: a) auto

lemma hex_num_zeros: "hex_num 0 (replicate k (CHR ''0'') @ xs) = hex_num 0 xs"
  by (induction k) (auto simp: xdigit_def code_def)

lemma hex_num_hex_string: "hex_num 0 (hex_string n) = n"
proof (induction n rule: hex_string.induct)
  case (1 n)
  show ?case
  proof (cases "n < 16")
    case True
    then show ?thesis by (simp add: hex_string.simps [of n] xdigit_hex_char)
  next
    case False
    then show ?thesis
      using 1 by (subst hex_string.simps) (simp add: hex_num_append xdigit_hex_char)
  qed
qed

lemma hex_string_digits: "c \<in> set (hex_string n) \<Longrightarrow> xdigit c \<noteq> None"
proof (induction n rule: hex_string.induct)
  case (1 n)
  then show ?case
    by (subst (asm) hex_string.simps) (auto simp: xdigit_hex_char split: if_splits)
qed

lemma hex_string_length: "n < 16 ^ k \<Longrightarrow> 0 < k \<Longrightarrow> length (hex_string n) \<le> k"
proof (induction k arbitrary: n)
  case (Suc k)
  show ?case
  proof (cases "n < 16")
    case True
    then show ?thesis by (simp add: hex_string.simps [of n])
  next
    case False
    then have "0 < k" using Suc.prems by (cases k) auto
    moreover have "n div 16 < 16 ^ k" using Suc.prems by (simp add: less_mult_imp_div_less mult.commute)
    ultimately show ?thesis using Suc.IH [of "n div 16"] False by (subst hex_string.simps) simp
  qed
qed simp

lemma hex4_length: "n < 65536 \<Longrightarrow> length (hex4 n) = 4"
  using hex_string_length [of n 4] by (simp add: hex4_def)

lemma hex4_digits: "c \<in> set (hex4 n) \<Longrightarrow> xdigit c \<noteq> None"
  by (auto simp: hex4_def hex_string_digits) (auto simp: xdigit_def code_def dest: hex_string_digits)

lemma hex_num_hex4: "hex_num 0 (hex4 n) = n"
  by (simp add: hex4_def hex_num_zeros hex_num_hex_string)

text \<open>A run of digits, of the width if one is given and ended by another character, is scanned.\<close>

lemma xdigit_plain:
  assumes "xdigit c \<noteq> None"
  shows "\<not> isspace_c c" "c \<noteq> CHR ''-''" "c \<noteq> CHR ''+''" "c \<noteq> CHR ''x''" "c \<noteq> CHR ''X''"
  using assms by (auto simp: xdigit_def isspace_c_def code_def Let_def split: if_splits)

lemma scan_x_digits:
  assumes "ds \<noteq> []" and "\<And>c. c \<in> set ds \<Longrightarrow> xdigit c \<noteq> None"
    and "xdigit e = None" and "e \<noteq> CHR ''x''" and "e \<noteq> CHR ''X''"
    and "width = None \<or> width = Some (length ds)"
  shows "scan_x width (ds @ e # r) = Some (strtoul32 False ds, e # r)"
proof -
  let ?s = "ds @ e # r"
  let ?item = "case width of None \<Rightarrow> ?s | Some w \<Rightarrow> take w ?s"
  obtain d ds' where ds: "ds = d # ds'" using assms(1) by (cases ds) auto
  have d: "xdigit d \<noteq> None" using assms(2) ds by simp
  have white: "dropWhile isspace_c ?s = ?s" using xdigit_plain(1) [OF d] ds by simp
  have item: "?item = ?s \<or> ?item = ds" using assms(6) by auto
  have sign: "scan_sign ?item = (False, 0)"
    using item ds xdigit_plain(2,3) [OF d] by (auto simp: scan_sign_def)
  have pre: "scan_0x ?item = 0"
  proof (cases ds')
    case Nil
    then show ?thesis using item ds assms(4,5) by (auto simp: scan_0x_def)
  next
    case (Cons d2 ds2)
    then have "d2 \<noteq> CHR ''x''" "d2 \<noteq> CHR ''X''" using xdigit_plain(4,5) assms(2) ds by auto
    then show ?thesis using item ds Cons by (auto simp: scan_0x_def)
  qed
  have all: "takeWhile (\<lambda>c. xdigit c \<noteq> None) ds = ds" using assms(2) by simp
  have "takeWhile (\<lambda>c. xdigit c \<noteq> None) ?s = ds @ takeWhile (\<lambda>c. xdigit c \<noteq> None) (e # r)"
    using assms(2) by (intro takeWhile_append2) auto
  then have run: "takeWhile (\<lambda>c. xdigit c \<noteq> None) ?item = ds" using item all assms(3) by auto
  show ?thesis
    using white sign pre run assms(1) by (simp add: scan_x_def Let_def)
qed

lemma strtoul32_hex4: "n < 65536 \<Longrightarrow> strtoul32 False (hex4 n) = n"
  by (simp add: strtoul32_def hex_num_hex4 size_mod_def)

lemma scan_x_hex4:
  assumes "n < 65536" and "xdigit e = None" and "e \<noteq> CHR ''x''" and "e \<noteq> CHR ''X''"
    and "width = None \<or> width = Some 4"
  shows "scan_x width (hex4 n @ e # r) = Some (n, e # r)"
proof -
  have "hex4 n \<noteq> []" using hex4_length [OF assms(1)] by (metis list.size(3) zero_neq_numeral)
  then show ?thesis
    using scan_x_digits [of "hex4 n" e width r] hex4_digits assms hex4_length [OF assms(1)]
      strtoul32_hex4 [OF assms(1)] by auto
qed

subsection \<open>Decimal numbers\<close>

fun dec_string :: "nat \<Rightarrow> string" where
  "dec_string n = (if n < 10 then [char_of (48 + n)] else dec_string (n div 10) @ [char_of (48 + n mod 10)])"

declare dec_string.simps [simp del]

text \<open>\<open>%d\<close>\<close>

definition print_d :: "int \<Rightarrow> string" where
  "print_d i = (if i < 0 then CHR ''-'' # dec_string (nat (- i)) else dec_string (nat i))"

text \<open>\<open>atoi\<close>\<close>

definition atoi_c :: "string \<Rightarrow> int" where
  "atoi_c s = (case scan_d s of None \<Rightarrow> 0 | Some (n, _) \<Rightarrow> n)"

lemma dec_num_append: "dec_num a (xs @ ys) = dec_num (dec_num a xs) ys"
  by (induction xs arbitrary: a) auto

lemma isdigit_dec_digit: "(n :: nat) < 10 \<Longrightarrow> isdigit_c (char_of (48 + n))"
  by (simp add: isdigit_c_def code_def)

lemma dec_string_digits: "c \<in> set (dec_string n) \<Longrightarrow> isdigit_c c"
proof (induction n rule: dec_string.induct)
  case (1 n)
  show ?case
  proof (cases "n < 10")
    case True
    then show ?thesis using 1 isdigit_dec_digit by (simp add: dec_string.simps [of n])
  next
    case False
    then show ?thesis using 1 isdigit_dec_digit [of "n mod 10"] by (auto simp: dec_string.simps [of n])
  qed
qed

lemma dec_num_dec_string: "dec_num 0 (dec_string n) = n"
proof (induction n rule: dec_string.induct)
  case (1 n)
  then show ?case by (cases "n < 10") (simp_all add: dec_string.simps [of n] dec_num_append code_def)
qed

lemma dec_string_nonempty [simp]: "dec_string n \<noteq> []"
  by (simp add: dec_string.simps [of n])

lemma dec_string_length: "n < 10 ^ k \<Longrightarrow> 0 < k \<Longrightarrow> length (dec_string n) \<le> k"
proof (induction k arbitrary: n)
  case (Suc k)
  show ?case
  proof (cases "n < 10")
    case True
    then show ?thesis by (simp add: dec_string.simps [of n])
  next
    case False
    then have "0 < k" using Suc.prems by (cases k) auto
    moreover have "n div 10 < 10 ^ k" using Suc.prems by (simp add: less_mult_imp_div_less mult.commute)
    ultimately show ?thesis using Suc.IH [of "n div 10"] False by (simp add: dec_string.simps [of n])
  qed
qed simp

lemma isdigit_plain: "isdigit_c c \<Longrightarrow> \<not> isspace_c c \<and> c \<noteq> CHR ''-'' \<and> c \<noteq> CHR ''+''"
  by (auto simp: isdigit_c_def isspace_c_def code_def)

lemma atoi_digits:
  assumes "ds \<noteq> []" and "\<And>c. c \<in> set ds \<Longrightarrow> isdigit_c c"
  shows "atoi_c ds = strtol32 False ds"
proof -
  obtain d ds' where ds: "ds = d # ds'" using assms(1) by (cases ds) auto
  have "isdigit_c d" using assms(2) ds by simp
  then have "dropWhile isspace_c ds = ds" "scan_sign ds = (False, 0)"
    using isdigit_plain [of d] by (auto simp: ds scan_sign_def)
  moreover have "takeWhile isdigit_c ds = ds" using assms(2) by simp
  ultimately show ?thesis using assms(1) by (simp add: atoi_c_def scan_d_def Let_def del: takeWhile_eq_all_conv)
qed

lemma atoi_dec_string: "n < 2 ^ 31 \<Longrightarrow> atoi_c (dec_string n) = int n"
  by (simp add: atoi_digits dec_string_digits strtol32_def dec_num_dec_string to_int32_def)

end
