(* ===== verification/Errx.thy ===== *)
theory Errx
  imports Registry Cx_Stdio
begin

text \<open>
  The table of error messages (\<open>err.c\<close>, \<open>err.h\<close>): a hash table of 919 buckets keyed by the error
  number, and a list of all entries. Each bucket is the list of the entries on its \<open>hlist\<close>, first
  one first, and \<open>err_list\<close> that of the entries on the list, as justified by \<open>Cx_Hlist\<close> and \<open>Cx_List\<close>.
  The table is shown to implement a finite map from error numbers to messages in which the first
  registration of a number stays.
\<close>

subsection \<open>State and operations\<close>

definition NR_SERVICE :: nat where
  "NR_SERVICE = 919"

record errx =
  ex_errno :: int
  ex_errmsg :: string

record err_state =
  es_hlist :: "errx list list"
  es_list :: "errx list"

text \<open>The four bytes of \<open>retval\<close>, the one with the lowest address first, and the loop over the text.\<close>

fun calc_tag_loop :: "8 word list \<Rightarrow> nat \<Rightarrow> string \<Rightarrow> 8 word list" where
  "calc_tag_loop tag i [] = tag"
| "calc_tag_loop tag i (c # cs) =
     calc_tag_loop (tag[i mod 4 := xor (tag ! (i mod 4)) (of_char c)]) (Suc i) cs"

definition le_bytes :: "8 word list \<Rightarrow> nat" where
  "le_bytes bs = foldr (\<lambda>b acc. unat b + 256 * acc) bs 0"

definition calc_tag :: "string \<Rightarrow> nat" where
  "calc_tag buf = le_bytes (calc_tag_loop [0xff, 0xff, 0xff, 0xff] 0 buf)"

definition tag_hash_fn :: "nat \<Rightarrow> nat" where
  "tag_hash_fn tag = tag mod NR_SERVICE"

definition err_bucket :: "int \<Rightarrow> nat" where
  "err_bucket e = tag_hash_fn (calc_tag (snprintf_s 32 (print_d e)))"

fun find_in_bucket :: "errx list \<Rightarrow> int \<Rightarrow> errx option" where
  "find_in_bucket [] e = None"
| "find_in_bucket (pos # rest) e = (if ex_errno pos = e then Some pos else find_in_bucket rest e)"

definition find_errx :: "err_state \<Rightarrow> int \<Rightarrow> errx option" where
  "find_errx s e = find_in_bucket (es_hlist s ! err_bucket e) e"

definition errx_register :: "allocator \<Rightarrow> err_state \<Rightarrow> int \<Rightarrow> string \<Rightarrow> (int \<times> err_state) res" where
  "errx_register al s e msg =
     (if find_errx s e \<noteq> None then Inr (- 1, s)
      else if \<not> grant al 56 then Inl NullDeref
      else let err = \<lparr>ex_errno = e, ex_errmsg = msg\<rparr>; b = err_bucket e
           in Inr (0, s\<lparr>es_hlist := (es_hlist s)[b := err # es_hlist s ! b], es_list := err # es_list s\<rparr>))"

definition errx_strerr :: "err_state \<Rightarrow> int \<Rightarrow> string" where
  "errx_strerr s e = (case find_errx s e of Some err \<Rightarrow> ex_errmsg err | None \<Rightarrow> ''Unknown errno'')"

text \<open>\<open>errx_fini\<close>: each entry leaves its bucket and the list.\<close>

fun errx_fini_loop :: "err_state \<Rightarrow> errx list \<Rightarrow> err_state" where
  "errx_fini_loop s [] = s"
| "errx_fini_loop s (pos # rest) =
     errx_fini_loop
       (s\<lparr>es_hlist := map (remove1 pos) (es_hlist s), es_list := remove1 pos (es_list s)\<rparr>) rest"

definition errx_fini :: "err_state \<Rightarrow> err_state" where
  "errx_fini s = errx_fini_loop s (es_list s)"

text \<open>The macro \<open>ERRX_ERRNO_MAP\<close>, its enumeration, and the two expansions of it.\<close>

definition ERRX_ERRNO_MAP :: "(int \<times> string) list" where
  "ERRX_ERRNO_MAP =
     [(0, ''OK''), (1, ''no permission''), (2, ''invalid argument''), (3, ''operation failed''),
      (4, ''operation timeout''), (5, ''object exist''), (6, ''object is busy'')]"

definition errx_static :: err_state where
  "errx_static = \<lparr>es_hlist = replicate NR_SERVICE [], es_list = []\<rparr>"

definition errx_init :: "allocator \<Rightarrow> err_state res" where
  "errx_init al = register_all (errx_register al) errx_static ERRX_ERRNO_MAP"

definition errx_strerr_base :: "int \<Rightarrow> string" where
  "errx_strerr_base e = (case map_of ERRX_ERRNO_MAP e of Some msg \<Rightarrow> msg | None \<Rightarrow> ''Unknown errno'')"

subsection \<open>The table is a map\<close>

definition err_inv :: "err_state \<Rightarrow> bool" where
  "err_inv s \<longleftrightarrow> length (es_hlist s) = NR_SERVICE \<and> distinct (map ex_errno (es_list s)) \<and>
     (\<forall>b < NR_SERVICE. es_hlist s ! b = filter (\<lambda>x. err_bucket (ex_errno x) = b) (es_list s))"

definition err_map :: "err_state \<Rightarrow> int \<rightharpoonup> string" where
  "err_map s = map_of (map (\<lambda>x. (ex_errno x, ex_errmsg x)) (es_list s))"

lemma err_bucket_less: "err_bucket e < NR_SERVICE"
  by (simp add: err_bucket_def tag_hash_fn_def NR_SERVICE_def)

lemma find_in_bucket_filter:
  "find_in_bucket (filter (\<lambda>x. err_bucket (ex_errno x) = err_bucket e) xs) e = find_in_bucket xs e"
  by (induction xs) auto

lemma find_in_bucket_map_of:
  "map_option ex_errmsg (find_in_bucket xs e) = map_of (map (\<lambda>x. (ex_errno x, ex_errmsg x)) xs) e"
  by (induction xs) auto

lemma find_errx_map: "err_inv s \<Longrightarrow> map_option ex_errmsg (find_errx s e) = err_map s e"
  using find_in_bucket_filter [of e "es_list s"] find_in_bucket_map_of [of "es_list s" e] err_bucket_less [of e]
  by (simp add: find_errx_def err_inv_def err_map_def)

lemma errx_strerr_map:
  assumes "err_inv s"
  shows "errx_strerr s e = (case err_map s e of Some msg \<Rightarrow> msg | None \<Rightarrow> ''Unknown errno'')"
  by (cases "find_errx s e") (simp_all add: errx_strerr_def find_errx_map [OF assms, of e, symmetric])

lemma err_inv_static: "err_inv errx_static" "err_map errx_static = Map.empty"
  by (simp_all add: err_inv_def err_map_def errx_static_def)

lemma errx_register_new:
  assumes "err_inv s" and "err_map s e = None" and "grant al 56"
  shows "\<exists>s'. errx_register al s e msg = Inr (0, s') \<and> err_inv s' \<and> err_map s' = (err_map s)(e \<mapsto> msg)"
proof -
  let ?err = "\<lparr>ex_errno = e, ex_errmsg = msg\<rparr>" and ?b = "err_bucket e"
  let ?s = "s\<lparr>es_hlist := (es_hlist s)[?b := ?err # es_hlist s ! ?b], es_list := ?err # es_list s\<rparr>"
  have "find_errx s e = None" using find_errx_map [OF assms(1), of e] assms(2) by simp
  then have run: "errx_register al s e msg = Inr (0, ?s)" using assms(3) by (simp add: errx_register_def Let_def)
  have "e \<notin> ex_errno ` set (es_list s)"
    using assms(2) by (auto simp: err_map_def map_of_eq_None_iff image_image)
  then have "err_inv ?s" using assms(1) by (auto simp: err_inv_def nth_list_update)
  moreover have "err_map ?s = (err_map s)(e \<mapsto> msg)" by (simp add: err_map_def)
  ultimately show ?thesis using run by blast
qed

lemma errx_register_again:
  assumes "err_inv s" and "err_map s e = Some w"
  shows "errx_register al s e msg = Inr (- 1, s)"
  using find_errx_map [OF assms(1), of e] assms(2) by (auto simp: errx_register_def)

text \<open>With an allocator that grants the 56 bytes of an entry the table provides the registry.\<close>

definition err_ready :: "allocator \<Rightarrow> err_state \<Rightarrow> bool" where
  "err_ready al s \<longleftrightarrow> grant al 56 \<and> err_inv s"

interpretation er: registry "err_ready al" err_map "errx_register al"
  by unfold_locales (auto simp: err_ready_def intro: errx_register_new errx_register_again)

lemma errx_fini_loop_list:
  assumes "es_list s = xs" and "err_inv s"
  shows "es_list (errx_fini_loop s xs) = [] \<and> es_hlist (errx_fini_loop s xs) = replicate NR_SERVICE []"
  using assms
proof (induction xs arbitrary: s)
  case Nil
  then have "es_hlist s = replicate NR_SERVICE []" by (intro nth_equalityI) (simp_all add: err_inv_def)
  then show ?case using Nil.prems(1) by simp
next
  case (Cons x xs)
  let ?s = "s\<lparr>es_hlist := map (remove1 x) (es_hlist s), es_list := remove1 x (es_list s)\<rparr>"
  have "x \<notin> set xs" using Cons.prems by (auto simp: err_inv_def)
  then have "remove1 x (filter P xs) = filter P xs" for P by (simp add: remove1_idem)
  then have "err_inv ?s" using Cons.prems by (auto simp: err_inv_def)
  then show ?case using Cons.IH [of ?s] Cons.prems(1) by simp
qed

subsection \<open>Properties\<close>

text \<open>C34: registering messages one after the other leaves a table in which every number has the
  message of its first registration, numbers registered before keeping theirs, and every other number
  is unknown.\<close>

theorem errx_registrations:
  assumes "err_inv s" and "grant al 56"
  shows "\<exists>s'. register_all (errx_register al) s kvs = Inr s' \<and> err_inv s' \<and>
    (\<forall>e. errx_strerr s' e =
      (case err_map s e of Some msg \<Rightarrow> msg
       | None \<Rightarrow> (case map_of kvs e of Some msg \<Rightarrow> msg | None \<Rightarrow> ''Unknown errno'')))"
proof -
  obtain s' where s': "register_all (errx_register al) s kvs = Inr s'" "err_ready al s'"
    "err_map s' = map_of kvs ++ err_map s"
    using er.register_all_spec [of al s kvs] assms by (auto simp: err_ready_def)
  then have "errx_strerr s' e = (case err_map s e of Some msg \<Rightarrow> msg
       | None \<Rightarrow> (case map_of kvs e of Some msg \<Rightarrow> msg | None \<Rightarrow> ''Unknown errno''))" for e
    by (cases "err_map s e") (auto simp: errx_strerr_map err_ready_def map_add_def)
  with s' show ?thesis by (auto simp: err_ready_def)
qed

theorem errx_registrations_witness:
  "\<exists>s'. register_all (errx_register generous) errx_static [(10010, ''a''), (10010, ''b''), (- 7, ''c'')] = Inr s' \<and>
     errx_strerr s' 10010 = ''a'' \<and> errx_strerr s' (- 7) = ''c'' \<and> errx_strerr s' 3 = ''Unknown errno''"
  using errx_registrations [OF err_inv_static(1), of generous "[(10010, ''a''), (10010, ''b''), (- 7, ''c'')]"]
  by (auto simp: generous_def err_inv_static(2))

text \<open>when the program has been loaded the table answers every error number as the \<open>switch\<close> of
  the header file does, and when it is unloaded no entry is left.\<close>

theorem errx_init_fini:
  assumes "grant al 56"
  shows "\<exists>s. errx_init al = Inr s \<and> (\<forall>e. errx_strerr s e = errx_strerr_base e) \<and> errx_fini s = errx_static"
proof -
  obtain s where s: "register_all (errx_register al) errx_static ERRX_ERRNO_MAP = Inr s" "err_ready al s"
    "err_map s = map_of ERRX_ERRNO_MAP ++ err_map errx_static"
    using er.register_all_spec [of al errx_static ERRX_ERRNO_MAP] assms err_inv_static by (auto simp: err_ready_def)
  then have "errx_strerr s e = errx_strerr_base e" for e
    by (simp add: errx_strerr_map err_ready_def err_inv_static(2) errx_strerr_base_def)
  moreover have "errx_fini s = errx_static"
    using errx_fini_loop_list [of s "es_list s"] s(2) by (simp add: errx_fini_def err_ready_def errx_static_def)
  ultimately show ?thesis using s(1) by (simp add: errx_init_def)
qed

theorem errx_init_fini_witness:
  "\<exists>s. errx_init generous = Inr s \<and> errx_strerr s 1 = ''no permission'' \<and> errx_fini s = errx_static"
  using errx_init_fini [of generous] by (auto simp: generous_def errx_strerr_base_def ERRX_ERRNO_MAP_def)

end
