(* ===== verification/Srrp.thy ===== *)
theory Srrp
  imports Cx_Stdio
begin

text \<open>
  The simple request response protocol (\<open>srrp.c\<close>): writing and reading one packet, and finding the
  start of the next packet in a stream. A buffer is the bytes from the pointer to the end of its
  block, so that a read past the end is \<open>OutOfBounds\<close>; the packet's \<open>raw\<close> bytes are the \<open>len\<close> bytes
  that are allocated for them, and its \<open>data\<close> pointer is an offset into \<open>raw\<close>. The texts given to the
  writers are shorter than \<open>2 ^ 31\<close> bytes together, so that \<open>int len\<close> holds their length. The main
  result is that reading what a writer wrote gives the very packet the writer returned.
\<close>

subsection \<open>Packets\<close>

definition SRRP_REQUEST_LEADER :: char where "SRRP_REQUEST_LEADER = CHR ''>''"
definition SRRP_RESPONSE_LEADER :: char where "SRRP_RESPONSE_LEADER = CHR ''<''"
definition SRRP_SUBSCRIBE_LEADER :: char where "SRRP_SUBSCRIBE_LEADER = CHR ''#''"
definition SRRP_UNSUBSCRIBE_LEADER :: char where "SRRP_UNSUBSCRIBE_LEADER = CHR 0x25"
definition SRRP_PUBLISH_LEADER :: char where "SRRP_PUBLISH_LEADER = CHR ''@''"

definition SRRP_HEADER_LEN :: nat where "SRRP_HEADER_LEN = 128"
definition SRRP_LENGTH_MAX :: nat where "SRRP_LENGTH_MAX = 4096"

lemmas srrp_consts [cx] = SRRP_REQUEST_LEADER_def SRRP_RESPONSE_LEADER_def SRRP_SUBSCRIBE_LEADER_def
  SRRP_UNSUBSCRIBE_LEADER_def SRRP_PUBLISH_LEADER_def SRRP_HEADER_LEN_def SRRP_LENGTH_MAX_def

record srrp_packet =
  pk_leader :: char
  pk_seat :: char
  pk_seqno :: "16 word"
  pk_len :: "16 word"
  pk_srcid :: "16 word"
  pk_reqcrc16 :: "16 word"
  pk_header :: mem
  pk_header_len :: nat
  pk_data :: nat
  pk_data_len :: nat
  pk_raw :: mem

definition sizeof_srrp_packet :: nat where "sizeof_srrp_packet = 160"

text \<open>An array of \<open>sz\<close> bytes, zeroed by \<open>calloc\<close>, after \<open>s\<close> was copied to its start.\<close>

definition padded :: "nat \<Rightarrow> string \<Rightarrow> mem" where
  "padded sz s = s @ replicate (sz - length s) NUL"

definition u32 :: "int \<Rightarrow> nat" where
  "u32 i = nat (i mod 2 ^ 32)"

subsection \<open>Reading\<close>

text \<open>
  The part that the three readers share once the fixed fields are scanned: the delimiters, the copy
  of \<open>len\<close> bytes, the copy of the header into its array of 128 bytes, and the comparison of the
  \<open>len\<close> field with the length computed from the header, the data and the \<open>fixed\<close> part.
\<close>

definition srrp_read_body ::
  "allocator \<Rightarrow> mem \<Rightarrow> nat \<Rightarrow> char \<Rightarrow> char \<Rightarrow> nat \<Rightarrow> nat \<Rightarrow> nat \<Rightarrow> nat \<Rightarrow> srrp_packet option res"
where
  "srrp_read_body al buf fixed leader seat seqno len srcid crc =
     (case (strstr_c (cstr buf) '':/'', strstr_c (cstr buf) ''?{'') of
        (Some hp, Some dp) \<Rightarrow>
          if \<not> grant al (sizeof_srrp_packet + len) then Inl NullDeref
          else bindR (mem_read buf 0 len) (\<lambda>raw.
            let header_len = u32 (int dp - (int hp + 1));
                data_len = u32 (int (length (cstr buf)) - (int dp + 1))
            in if SRRP_HEADER_LEN < header_len then Inl OutOfBounds
               else bindR (mem_read buf (hp + 1) header_len) (\<lambda>header.
                 let pac = \<lparr>pk_leader = leader, pk_seat = seat, pk_seqno = of_nat seqno,
                            pk_len = of_nat len, pk_srcid = of_nat srcid, pk_reqcrc16 = of_nat crc,
                            pk_header = padded SRRP_HEADER_LEN header, pk_header_len = header_len,
                            pk_data = dp + 1, pk_data_len = data_len, pk_raw = raw\<rparr>
                 in if u32 (int (fixed + header_len + 1 + data_len + 1)) \<noteq> unat (pk_len pac)
                    then Inr None else Inr (Some pac)))
      | _ \<Rightarrow> Inr None)"

definition srrp_read_one_request :: "allocator \<Rightarrow> mem \<Rightarrow> srrp_packet option res" where
  "srrp_read_one_request al buf =
     bindR (mem_read buf 0 1) (\<lambda>b0.
     assertR (b0 = [SRRP_REQUEST_LEADER])
       (if \<not> terminated buf then Inl OutOfBounds
        else case sscanf [Conv_c, Conv_x None, Lit (CHR '',''), Conv_c, Lit (CHR '',''),
                          Conv_x (Some 4), Lit (CHR '',''), Conv_x (Some 4), Lit (CHR '':'')] (cstr buf) of
               [CharV leader, HexV seqno, CharV seat, HexV len, HexV srcid] \<Rightarrow>
                 srrp_read_body al buf (3 + 2 + 5 + 5) leader seat seqno len srcid 0
             | _ \<Rightarrow> Inr None))"

definition srrp_read_one_response :: "allocator \<Rightarrow> mem \<Rightarrow> srrp_packet option res" where
  "srrp_read_one_response al buf =
     bindR (mem_read buf 0 1) (\<lambda>b0.
     assertR (b0 = [SRRP_RESPONSE_LEADER])
       (if \<not> terminated buf then Inl OutOfBounds
        else case sscanf [Conv_c, Conv_x None, Lit (CHR '',''), Conv_c, Lit (CHR '',''),
                          Conv_x (Some 4), Lit (CHR '',''), Conv_x (Some 4), Lit (CHR '',''),
                          Conv_x None, Lit (CHR '':''), Lit (CHR ''/'')] (cstr buf) of
               [CharV leader, HexV seqno, CharV seat, HexV len, HexV srcid, HexV reqcrc16] \<Rightarrow>
                 srrp_read_body al buf (3 + 2 + 5 + 5 + 5) leader seat seqno len srcid reqcrc16
             | _ \<Rightarrow> Inr None))"

definition srrp_read_one_subpub :: "allocator \<Rightarrow> mem \<Rightarrow> srrp_packet option res" where
  "srrp_read_one_subpub al buf =
     bindR (mem_read buf 0 1) (\<lambda>b0.
     assertR (b0 = [SRRP_SUBSCRIBE_LEADER] \<or> b0 = [SRRP_UNSUBSCRIBE_LEADER] \<or> b0 = [SRRP_PUBLISH_LEADER])
       (if \<not> terminated buf then Inl OutOfBounds
        else case sscanf [Conv_c, Conv_x None, Lit (CHR '',''), Conv_c, Lit (CHR '',''),
                          Conv_x (Some 4), Lit (CHR '':'')] (cstr buf) of
               [CharV leader, HexV seqno, CharV seat, HexV len] \<Rightarrow>
                 srrp_read_body al buf (3 + 2 + 5) leader seat seqno len 0 0
             | _ \<Rightarrow> Inr None))"

definition srrp_read_one_packet :: "allocator \<Rightarrow> mem \<Rightarrow> srrp_packet option res" where
  "srrp_read_one_packet al buf =
     bindR (mem_read buf 0 1) (\<lambda>b0.
       if b0 = [SRRP_REQUEST_LEADER] then srrp_read_one_request al buf
       else if b0 = [SRRP_RESPONSE_LEADER] then srrp_read_one_response al buf
       else if b0 = [SRRP_SUBSCRIBE_LEADER] \<or> b0 = [SRRP_UNSUBSCRIBE_LEADER] \<or> b0 = [SRRP_PUBLISH_LEADER]
       then srrp_read_one_subpub al buf
       else Inr None)"

subsection \<open>Writing\<close>

text \<open>
  The part that the five writers share: \<open>txt\<close> is the formatted text, \<open>len\<close> the length computed in
  advance. \<open>snprintf\<close> stores at most \<open>len - 1\<close> bytes of it and a terminator, and returns the length
  of the whole text.
\<close>

definition srrp_write_body ::
  "allocator \<Rightarrow> nat \<Rightarrow> string \<Rightarrow> char \<Rightarrow> 16 word \<Rightarrow> 16 word \<Rightarrow> string \<Rightarrow> nat \<Rightarrow> srrp_packet res"
where
  "srrp_write_body al len txt leader srcid crc header data_len =
     assertR (len < SRRP_LENGTH_MAX - 4)
       (assertR (grant al (sizeof_srrp_packet + len))
         (assertR (length txt + 1 = len)
           (Inr \<lparr>pk_leader = leader, pk_seat = CHR ''$'', pk_seqno = 0, pk_len = of_nat len,
                 pk_srcid = srcid, pk_reqcrc16 = crc,
                 pk_header = padded SRRP_HEADER_LEN (snprintf_s SRRP_HEADER_LEN header),
                 pk_header_len = length header, pk_data = len - data_len - 1,
                 pk_data_len = data_len, pk_raw = padded len (snprintf_s len txt)\<rparr>)))"

definition srrp_write_request :: "allocator \<Rightarrow> 16 word \<Rightarrow> string \<Rightarrow> string \<Rightarrow> srrp_packet res" where
  "srrp_write_request al srcid header data =
     (let len = 15 + length header + 1 + length data + 1
      in srrp_write_body al len
           (''>0,$,'' @ hex4 len @ '','' @ hex4 (unat srcid) @ '':'' @ header @ ''?'' @ data)
           SRRP_REQUEST_LEADER srcid 0 header (length data))"

definition srrp_write_response ::
  "allocator \<Rightarrow> 16 word \<Rightarrow> 16 word \<Rightarrow> string \<Rightarrow> string \<Rightarrow> srrp_packet res" where
  "srrp_write_response al srcid reqcrc16 header data =
     (let len = 15 + 5 + length header + 1 + length data + 1
      in srrp_write_body al len
           (''<0,$,'' @ hex4 len @ '','' @ hex4 (unat srcid) @ '','' @ hex4 (unat reqcrc16) @ '':'' @ header @ ''?'' @ data)
           SRRP_RESPONSE_LEADER srcid reqcrc16 header (length data))"

definition srrp_write_subscribe :: "allocator \<Rightarrow> string \<Rightarrow> string \<Rightarrow> srrp_packet res" where
  "srrp_write_subscribe al header ctrl =
     (let len = 10 + length header + 1 + length ctrl + 1
      in srrp_write_body al len
           (''#0,$,'' @ hex4 len @ '':'' @ header @ ''?'' @ ctrl)
           SRRP_SUBSCRIBE_LEADER 0 0 header (length ctrl))"

definition srrp_write_unsubscribe :: "allocator \<Rightarrow> string \<Rightarrow> srrp_packet res" where
  "srrp_write_unsubscribe al header =
     (let len = 10 + length header + 1 + 2 + 1
      in srrp_write_body al len
           ([CHR 0x25] @ ''0,$,'' @ hex4 len @ '':'' @ header @ ''?{}'')
           SRRP_UNSUBSCRIBE_LEADER 0 0 header 2)"

definition srrp_write_publish :: "allocator \<Rightarrow> string \<Rightarrow> string \<Rightarrow> srrp_packet res" where
  "srrp_write_publish al header data =
     (let len = 10 + length header + 1 + length data + 1
      in srrp_write_body al len
           (''@0,$,'' @ hex4 len @ '':'' @ header @ ''?'' @ data)
           SRRP_PUBLISH_LEADER 0 0 header (length data))"

subsection \<open>Resynchronisation\<close>

text \<open>
  \<open>srrp_next_packet_offset\<close> also looks at the byte before the leader it finds. \<open>before\<close> is the byte
  before \<open>buf\<close>, \<open>None\<close> when \<open>buf\<close> points to the start of its block. One \<open>strchr\<close> step per leader.
\<close>

definition srrp_find_leader :: "char option \<Rightarrow> mem \<Rightarrow> char \<Rightarrow> int option res" where
  "srrp_find_leader before buf l =
     (case strchr_c (cstr buf) l of
        None \<Rightarrow> Inr None
      | Some i \<Rightarrow>
          (case (if i = 0 then before else Some (buf ! (i - 1))) of
             None \<Rightarrow> Inl OutOfBounds
           | Some c \<Rightarrow>
               if c = l then Inr None
               else bindR (mem_read buf (i + 1) 1) (\<lambda>d.
                 if isdigit_c (d ! 0) then Inr (Some (int i)) else Inr None)))"

fun srrp_try_leaders :: "char option \<Rightarrow> mem \<Rightarrow> char list \<Rightarrow> int res" where
  "srrp_try_leaders before buf [] = Inr (- 1)"
| "srrp_try_leaders before buf (l # ls) =
     bindR (srrp_find_leader before buf l) (\<lambda>r.
       case r of Some i \<Rightarrow> Inr i | None \<Rightarrow> srrp_try_leaders before buf ls)"

definition srrp_leaders :: "char list" where
  "srrp_leaders = [SRRP_REQUEST_LEADER, SRRP_RESPONSE_LEADER, SRRP_SUBSCRIBE_LEADER,
     SRRP_UNSUBSCRIBE_LEADER, SRRP_PUBLISH_LEADER]"

definition srrp_next_packet_offset :: "char option \<Rightarrow> mem \<Rightarrow> int res" where
  "srrp_next_packet_offset before buf =
     bindR (mem_read buf 1 1) (\<lambda>b1.
     bindR (mem_read buf 0 1) (\<lambda>b0.
       if isdigit_c (b1 ! 0) \<and> b0 ! 0 \<in> set srrp_leaders then Inr 0
       else if \<not> terminated buf then Inl OutOfBounds
       else srrp_try_leaders before buf srrp_leaders))"

subsection \<open>Well-formed texts\<close>

definition srrp_header_ok :: "string \<Rightarrow> bool" where
  "srrp_header_ok header \<longleftrightarrow> prefix ''/'' header \<and> NUL \<notin> set header \<and> \<not> sublist ''?{'' header"

definition srrp_data_ok :: "string \<Rightarrow> bool" where
  "srrp_data_ok data \<longleftrightarrow> prefix ''{'' data \<and> NUL \<notin> set data"

lemma strstr_c_skip:
  "c \<notin> set a \<Longrightarrow> strstr_c (a @ b) (c # p) = map_option (\<lambda>i. length a + i) (strstr_c b (c # p))"
  by (cases "strstr_c b (c # p)"; induction a) auto

lemma strstr_c_data:
  "\<not> sublist ''?{'' header \<Longrightarrow> strstr_c (header @ CHR ''?'' # CHR ''{'' # d) ''?{'' = Some (length header)"
proof (induction header)
  case (Cons x xs)
  then have "\<not> sublist ''?{'' xs" by (simp add: sublist_Cons_right)
  moreover have "\<not> prefix ''?{'' (x # xs @ CHR ''?'' # CHR ''{'' # d)"
    using Cons.prems by (cases xs) (auto simp: sublist_Cons_right)
  ultimately show ?case using Cons.IH by simp
qed simp

text \<open>Where the two delimiters of a written text are found.\<close>

lemma srrp_delimiters:
  assumes "srrp_header_ok header" and "srrp_data_ok data"
    and "CHR '':'' \<notin> set p0" and "CHR ''?'' \<notin> set p0"
  shows "strstr_c (p0 @ '':'' @ header @ ''?'' @ data) '':/'' = Some (length p0)"
    and "strstr_c (p0 @ '':'' @ header @ ''?'' @ data) ''?{'' = Some (length p0 + 1 + length header)"
proof -
  obtain h where h: "header = CHR ''/'' # h" using assms(1) by (auto simp: srrp_header_ok_def prefix_def)
  obtain d where d: "data = CHR ''{'' # d" using assms(2) by (auto simp: srrp_data_ok_def prefix_def)
  show "strstr_c (p0 @ '':'' @ header @ ''?'' @ data) '':/'' = Some (length p0)"
    using strstr_c_skip [OF assms(3), of "'':'' @ header @ ''?'' @ data" "''/''"] h by simp
  have "strstr_c (header @ ''?'' @ data) ''?{'' = Some (length header)"
    using strstr_c_data [of header d] assms(1) d by (simp add: srrp_header_ok_def)
  then show "strstr_c (p0 @ '':'' @ header @ ''?'' @ data) ''?{'' = Some (length p0 + 1 + length header)"
    using strstr_c_skip [of "CHR ''?''" "p0 @ '':''" "header @ ''?'' @ data" "''{''"] assms(4) by simp
qed

lemma u32_small: "0 \<le> i \<Longrightarrow> i < 2 ^ 32 \<Longrightarrow> u32 i = nat i"
  by (simp add: u32_def)

lemma u32_nat: "n < 2 ^ 32 \<Longrightarrow> u32 (int n) = n"
  by (simp add: u32_def)

lemma unat_of_nat16: "n < 65536 \<Longrightarrow> unat (of_nat n :: 16 word) = n"
  by (simp add: unat_of_nat take_bit_eq_mod)

text \<open>The common part of the readers on a written text followed by anything.\<close>

lemma srrp_read_body_ok:
  fixes header data p0 rest :: string
  defines "t \<equiv> p0 @ '':'' @ header @ ''?'' @ data"
  assumes "srrp_header_ok header" and "srrp_data_ok data"
    and "CHR '':'' \<notin> set p0" and "CHR ''?'' \<notin> set p0" and "NUL \<notin> set p0"
    and "length t + 1 < 65536" and "grant al (sizeof_srrp_packet + (length t + 1))" and "fixed < 32"
  shows "srrp_read_body al (t @ NUL # rest) fixed leader seat seqno (length t + 1) srcid crc =
    (if SRRP_HEADER_LEN < length header then Inl OutOfBounds
     else if fixed \<noteq> length p0 + 1 then Inr None
     else Inr (Some \<lparr>pk_leader = leader, pk_seat = seat, pk_seqno = of_nat seqno,
       pk_len = of_nat (length t + 1), pk_srcid = of_nat srcid, pk_reqcrc16 = of_nat crc,
       pk_header = padded SRRP_HEADER_LEN header, pk_header_len = length header,
       pk_data = length p0 + length header + 2, pk_data_len = length data, pk_raw = t @ [NUL]\<rparr>))"
proof -
  let ?buf = "t @ NUL # rest"
  have "NUL \<notin> set t" using assms by (simp add: t_def srrp_header_ok_def srrp_data_ok_def)
  then have str: "cstr ?buf = t" by simp
  have lt: "length t = length p0 + 2 + length header + length data" by (simp add: t_def)
  have raw: "mem_read ?buf 0 (length t + 1) = Inr (t @ [NUL])" by (simp add: mem_read_def)
  have header: "mem_read ?buf (length p0 + 1) (length header) = Inr header"
    by (simp add: mem_read_def t_def)
  have hl: "u32 (int (length p0 + 1 + length header) - (int (length p0) + 1)) = length header"
    using assms(7) lt by (subst u32_small) auto
  have dl: "u32 (int (length t) - (int (length p0 + 1 + length header) + 1)) = length data"
    using assms(7) lt by (subst u32_small) auto
  have total: "u32 (int (fixed + length header + 1 + length data + 1)) = length t + 1 \<longleftrightarrow> fixed = length p0 + 1"
    using assms(7,9) lt by (subst u32_nat) auto
  have u: "unat (of_nat (length t + 1) :: 16 word) = length t + 1"
    using assms(7) by (rule unat_of_nat16)
  note delim = srrp_delimiters [OF assms(2-5), folded t_def]
  show ?thesis
    unfolding srrp_read_body_def str delim prod.case option.case
    using assms(8) by (simp add: raw [unfolded Suc_eq_plus1 [symmetric]] header [simplified] hl [simplified]
        dl [simplified] total [simplified] u [simplified] Let_def)
qed

subsection \<open>What the writers write\<close>

lemma scan_x_zero: "scan_x None (CHR ''0'' # CHR '','' # r) = Some (0, CHR '','' # r)"
  using scan_x_digits [of "''0''" "CHR '',''" None r]
  by (simp add: xdigit_def code_def strtoul32_def)

lemma xdigit_delimiters: "xdigit (CHR '','') = None" "xdigit (CHR '':'') = None"
  by (simp_all add: xdigit_def code_def)

lemma sscanf_request:
  assumes "n < 65536" and "i < 65536"
  shows "sscanf [Conv_c, Conv_x None, Lit (CHR '',''), Conv_c, Lit (CHR '',''),
      Conv_x (Some 4), Lit (CHR '',''), Conv_x (Some 4), Lit (CHR '':'')]
      (l # CHR ''0'' # CHR '','' # CHR ''$'' # CHR '','' # hex4 n @ CHR '','' # hex4 i @ CHR '':'' # r) =
    [CharV l, HexV 0, CharV (CHR ''$''), HexV n, HexV i]"
  using assms by (simp add: scan_x_zero scan_x_hex4 xdigit_delimiters)

lemma sscanf_response:
  assumes "n < 65536" and "i < 65536" and "k < 65536"
  shows "sscanf [Conv_c, Conv_x None, Lit (CHR '',''), Conv_c, Lit (CHR '',''),
      Conv_x (Some 4), Lit (CHR '',''), Conv_x (Some 4), Lit (CHR '',''),
      Conv_x None, Lit (CHR '':''), Lit (CHR ''/'')]
      (l # CHR ''0'' # CHR '','' # CHR ''$'' # CHR '','' # hex4 n @ CHR '','' # hex4 i @ CHR '','' # hex4 k @ CHR '':'' # r) =
    [CharV l, HexV 0, CharV (CHR ''$''), HexV n, HexV i, HexV k]"
  using assms by (simp add: scan_x_zero scan_x_hex4 xdigit_delimiters split: list.split)

lemma sscanf_subpub:
  assumes "n < 65536"
  shows "sscanf [Conv_c, Conv_x None, Lit (CHR '',''), Conv_c, Lit (CHR '',''), Conv_x (Some 4), Lit (CHR '':'')]
      (l # CHR ''0'' # CHR '','' # CHR ''$'' # CHR '','' # hex4 n @ CHR '':'' # r) =
    [CharV l, HexV 0, CharV (CHR ''$''), HexV n]"
  using assms by (simp add: scan_x_zero scan_x_hex4 xdigit_delimiters)

lemma hex4_plain: "CHR '':'' \<notin> set (hex4 n)" "CHR ''?'' \<notin> set (hex4 n)" "NUL \<notin> set (hex4 n)"
proof -
  have "xdigit (CHR '':'') = None" "xdigit (CHR ''?'') = None" "xdigit NUL = None"
    by (simp_all add: xdigit_def code_def)
  then show "CHR '':'' \<notin> set (hex4 n)" "CHR ''?'' \<notin> set (hex4 n)" "NUL \<notin> set (hex4 n)"
    using hex4_digits by blast+
qed

lemma unat_16_less: "unat (w :: 16 word) < 65536"
  using unsigned_less [of w] by simp

lemma srrp_write_body_eq:
  assumes "length s + 1 = len"
  shows "srrp_write_body al len s l srcid crc header dn =
    (if len < SRRP_LENGTH_MAX - 4 \<and> grant al (sizeof_srrp_packet + len)
     then Inr \<lparr>pk_leader = l, pk_seat = CHR ''$'', pk_seqno = 0, pk_len = of_nat len,
       pk_srcid = srcid, pk_reqcrc16 = crc, pk_header = padded SRRP_HEADER_LEN (take 127 header),
       pk_header_len = length header, pk_data = len - dn - 1, pk_data_len = dn, pk_raw = s @ [NUL]\<rparr>
     else Inl AssertFail)"
  using assms by (auto simp: srrp_write_body_def snprintf_s_def padded_def SRRP_HEADER_LEN_def assertR_def)

text \<open>The texts, with the prefix before the colon separated.\<close>

definition request_prefix :: "nat \<Rightarrow> nat \<Rightarrow> string" where
  "request_prefix n i = ''>0,$,'' @ hex4 n @ '','' @ hex4 i"

definition response_prefix :: "nat \<Rightarrow> nat \<Rightarrow> nat \<Rightarrow> string" where
  "response_prefix n i k = ''<0,$,'' @ hex4 n @ '','' @ hex4 i @ '','' @ hex4 k"

definition subpub_prefix :: "char \<Rightarrow> nat \<Rightarrow> string" where
  "subpub_prefix l n = [l] @ ''0,$,'' @ hex4 n"

lemma prefix_lengths:
  assumes "n < 65536" and "i < 65536" and "k < 65536"
  shows "length (request_prefix n i) = 14" "length (response_prefix n i k) = 19" "length (subpub_prefix l n) = 9"
  using assms by (simp_all add: request_prefix_def response_prefix_def subpub_prefix_def hex4_length)

lemma prefix_plain:
  "CHR '':'' \<notin> set (request_prefix n i)" "CHR ''?'' \<notin> set (request_prefix n i)" "NUL \<notin> set (request_prefix n i)"
  "CHR '':'' \<notin> set (response_prefix n i k)" "CHR ''?'' \<notin> set (response_prefix n i k)" "NUL \<notin> set (response_prefix n i k)"
  "l \<in> {CHR ''#'', CHR 0x25, CHR ''@''} \<Longrightarrow> CHR '':'' \<notin> set (subpub_prefix l n)"
  "l \<in> {CHR ''#'', CHR 0x25, CHR ''@''} \<Longrightarrow> CHR ''?'' \<notin> set (subpub_prefix l n)"
  "l \<in> {CHR ''#'', CHR 0x25, CHR ''@''} \<Longrightarrow> NUL \<notin> set (subpub_prefix l n)"
  by (auto simp: request_prefix_def response_prefix_def subpub_prefix_def hex4_plain)

text \<open>
  Each kind of packet: the writer returns a packet whose raw bytes are the text and its terminator,
  and the reader applied to it, whatever follows, returns that packet, or overflows the array for
  the header. First what is common, from the text a writer formats and the call its reader makes.
\<close>

definition srrp_reads_back :: "allocator \<Rightarrow> srrp_packet \<Rightarrow> string \<Rightarrow> bool" where
  "srrp_reads_back al p header \<longleftrightarrow> (\<forall>rest. srrp_read_one_packet al (pk_raw p @ rest) =
    (if SRRP_HEADER_LEN < length header then Inl OutOfBounds
     else Inr (Some (p\<lparr>pk_header := padded SRRP_HEADER_LEN header\<rparr>))))"

lemma srrp_io:
  fixes header data p0 :: string
  defines "t \<equiv> p0 @ '':'' @ header @ ''?'' @ data"
  assumes "srrp_write_body al n t l srcid crc header (length data) = Inr p"
    and "srrp_header_ok header" and "srrp_data_ok data"
    and "CHR '':'' \<notin> set p0" and "CHR ''?'' \<notin> set p0" and "NUL \<notin> set p0"
    and "n < 65536 \<Longrightarrow> length t + 1 = n" and "n < 65536 \<Longrightarrow> length p0 < 31"
    and "\<And>rest. n < 65536 \<Longrightarrow> cstr (t @ NUL # rest) = t \<Longrightarrow>
      srrp_read_one_packet al (t @ NUL # rest) =
      srrp_read_body al (t @ NUL # rest) (length p0 + 1) l (CHR ''$'') 0 n (unat srcid) (unat crc)"
  shows "srrp_reads_back al p header"
  unfolding srrp_reads_back_def
proof
  fix rest
  have "n < SRRP_LENGTH_MAX - 4"
    using assms(2) by (rule_tac ccontr) (simp add: srrp_write_body_def assertR_def)
  then have n: "n < 65536" by (simp add: SRRP_LENGTH_MAX_def)
  have lt: "length t + 1 = n" by (rule assms(8) [OF n])
  have g: "grant al (sizeof_srrp_packet + n)"
    and p: "p = \<lparr>pk_leader = l, pk_seat = CHR ''$'', pk_seqno = 0, pk_len = of_nat n,
       pk_srcid = srcid, pk_reqcrc16 = crc, pk_header = padded SRRP_HEADER_LEN (take 127 header),
       pk_header_len = length header, pk_data = n - length data - 1, pk_data_len = length data, pk_raw = t @ [NUL]\<rparr>"
    using assms(2) unfolding srrp_write_body_eq [OF lt] by (simp_all split: if_splits)
  have "NUL \<notin> set t" using assms(3,4,7) by (simp add: t_def srrp_header_ok_def srrp_data_ok_def)
  then have str: "cstr (t @ NUL # rest) = t" by simp
  have "n - length data - 1 = length p0 + length header + 2" using lt by (simp add: t_def)
  then show "srrp_read_one_packet al (pk_raw p @ rest) =
    (if SRRP_HEADER_LEN < length header then Inl OutOfBounds
     else Inr (Some (p\<lparr>pk_header := padded SRRP_HEADER_LEN header\<rparr>)))"
    using srrp_read_body_ok [OF assms(3-7), of al "length p0 + 1" rest l "CHR ''$''" 0 "unat srcid" "unat crc", folded t_def] n g
    unfolding p using assms(10) [OF n str] assms(9) [OF n] by (simp add: lt [simplified])
qed

lemma srrp_request_reads_back:
  assumes "srrp_write_request al srcid header data = Inr p"
    and "srrp_header_ok header" and "srrp_data_ok data"
  shows "srrp_reads_back al p header"
proof -
  let ?n = "15 + length header + 1 + length data + 1"
  let ?p0 = "request_prefix ?n (unat srcid)"
  let ?t = "?p0 @ '':'' @ header @ ''?'' @ data"
  have id: "unat srcid < 65536" by (rule unat_16_less)
  have w: "srrp_write_body al ?n ?t SRRP_REQUEST_LEADER srcid 0 header (length data) = Inr p"
    using assms(1) by (simp add: srrp_write_request_def Let_def request_prefix_def)
  show ?thesis
  proof (rule srrp_io [OF w assms(2,3) prefix_plain(1-3)])
    assume n: "?n < 65536"
    note lp = prefix_lengths(1) [OF n id id]
    then show "length ?t + 1 = ?n" "length ?p0 < 31" by simp_all
    fix rest assume str: "cstr (?t @ NUL # rest) = ?t"
    have scan: "sscanf [Conv_c, Conv_x None, Lit (CHR '',''), Conv_c, Lit (CHR '',''),
        Conv_x (Some 4), Lit (CHR '',''), Conv_x (Some 4), Lit (CHR '':'')] ?t =
      [CharV SRRP_REQUEST_LEADER, HexV 0, CharV (CHR ''$''), HexV ?n, HexV (unat srcid)]"
      using sscanf_request [OF n id, of "CHR ''>''" "header @ ''?'' @ data"]
      by (simp add: request_prefix_def SRRP_REQUEST_LEADER_def)
    have first: "mem_read (?t @ NUL # rest) 0 1 = Inr [SRRP_REQUEST_LEADER]"
      by (simp add: mem_read_def request_prefix_def SRRP_REQUEST_LEADER_def)
    show "srrp_read_one_packet al (?t @ NUL # rest) =
      srrp_read_body al (?t @ NUL # rest) (length ?p0 + 1) SRRP_REQUEST_LEADER (CHR ''$'') 0 ?n (unat srcid) (unat (0 :: 16 word))"
      unfolding srrp_read_one_packet_def srrp_read_one_request_def first bindR_simps str scan lp
      by (simp add: terminated_def)
  qed
qed

lemma srrp_response_reads_back:
  assumes "srrp_write_response al srcid crc header data = Inr p"
    and "srrp_header_ok header" and "srrp_data_ok data"
  shows "srrp_reads_back al p header"
proof -
  let ?n = "15 + 5 + length header + 1 + length data + 1"
  let ?p0 = "response_prefix ?n (unat srcid) (unat crc)"
  let ?t = "?p0 @ '':'' @ header @ ''?'' @ data"
  have id: "unat srcid < 65536" "unat crc < 65536" by (rule unat_16_less)+
  have w: "srrp_write_body al ?n ?t SRRP_RESPONSE_LEADER srcid crc header (length data) = Inr p"
    using assms(1) by (simp add: srrp_write_response_def Let_def response_prefix_def)
  show ?thesis
  proof (rule srrp_io [OF w assms(2,3) prefix_plain(4-6)])
    assume n: "?n < 65536"
    note lp = prefix_lengths(2) [OF n id]
    then show "length ?t + 1 = ?n" "length ?p0 < 31" by simp_all
    fix rest assume str: "cstr (?t @ NUL # rest) = ?t"
    have scan: "sscanf [Conv_c, Conv_x None, Lit (CHR '',''), Conv_c, Lit (CHR '',''),
        Conv_x (Some 4), Lit (CHR '',''), Conv_x (Some 4), Lit (CHR '',''),
        Conv_x None, Lit (CHR '':''), Lit (CHR ''/'')] ?t =
      [CharV SRRP_RESPONSE_LEADER, HexV 0, CharV (CHR ''$''), HexV ?n, HexV (unat srcid), HexV (unat crc)]"
      using sscanf_response [OF n id, of "CHR ''<''" "header @ ''?'' @ data"]
      by (simp add: response_prefix_def SRRP_RESPONSE_LEADER_def)
    have first: "mem_read (?t @ NUL # rest) 0 1 = Inr [SRRP_RESPONSE_LEADER]"
      by (simp add: mem_read_def response_prefix_def SRRP_RESPONSE_LEADER_def)
    have other: "SRRP_RESPONSE_LEADER \<noteq> SRRP_REQUEST_LEADER" by (simp add: srrp_consts)
    show "srrp_read_one_packet al (?t @ NUL # rest) =
      srrp_read_body al (?t @ NUL # rest) (length ?p0 + 1) SRRP_RESPONSE_LEADER (CHR ''$'') 0 ?n (unat srcid) (unat crc)"
      unfolding srrp_read_one_packet_def srrp_read_one_response_def first bindR_simps str scan lp
      using other by (simp add: terminated_def)
  qed
qed

lemma srrp_subpub_reads_back:
  fixes header data l
  defines "n \<equiv> 10 + length header + 1 + length data + 1"
  assumes "srrp_write_body al n (subpub_prefix l n @ '':'' @ header @ ''?'' @ data) l 0 0 header (length data) = Inr p"
    and "srrp_header_ok header" and "srrp_data_ok data"
    and l: "l \<in> {SRRP_SUBSCRIBE_LEADER, SRRP_UNSUBSCRIBE_LEADER, SRRP_PUBLISH_LEADER}"
  shows "srrp_reads_back al p header"
proof -
  let ?p0 = "subpub_prefix l n"
  let ?t = "?p0 @ '':'' @ header @ ''?'' @ data"
  have plain: "l \<in> {CHR ''#'', CHR 0x25, CHR ''@''}" using l by (simp add: srrp_consts)
  show ?thesis
  proof (rule srrp_io [OF assms(2-4) prefix_plain(7-9) [OF plain]])
    assume n: "n < 65536"
    note lp = prefix_lengths(3) [OF n n n, of l]
    then show "length ?t + 1 = n" "length ?p0 < 31" by (simp_all add: n_def)
    fix rest assume str: "cstr (?t @ NUL # rest) = ?t"
    have scan: "sscanf [Conv_c, Conv_x None, Lit (CHR '',''), Conv_c, Lit (CHR '',''),
        Conv_x (Some 4), Lit (CHR '':'')] ?t = [CharV l, HexV 0, CharV (CHR ''$''), HexV n]"
      using sscanf_subpub [OF n, of l "header @ ''?'' @ data"] by (simp add: subpub_prefix_def)
    have first: "mem_read (?t @ NUL # rest) 0 1 = Inr [l]"
      by (simp add: mem_read_def subpub_prefix_def)
    have other: "l \<noteq> SRRP_REQUEST_LEADER" "l \<noteq> SRRP_RESPONSE_LEADER" using plain by (auto simp: srrp_consts)
    show "srrp_read_one_packet al (?t @ NUL # rest) =
      srrp_read_body al (?t @ NUL # rest) (length ?p0 + 1) l (CHR ''$'') 0 n (unat (0 :: 16 word)) (unat (0 :: 16 word))"
      unfolding srrp_read_one_packet_def srrp_read_one_subpub_def first bindR_simps str scan lp
      using other l by (auto simp: terminated_def)
  qed
qed

lemma srrp_write_body_header:
  "srrp_write_body al len s l srcid crc header dn = Inr p \<Longrightarrow>
     pk_header p = padded SRRP_HEADER_LEN (take (SRRP_HEADER_LEN - 1) header)"
  by (auto simp: srrp_write_body_def assertR_def snprintf_s_def split: if_splits)

lemma srrp_reads_back_short:
  assumes "srrp_reads_back al p header" and "length header < SRRP_HEADER_LEN"
    and "pk_header p = padded SRRP_HEADER_LEN (take (SRRP_HEADER_LEN - 1) header)"
  shows "srrp_read_one_packet al (pk_raw p @ rest) = Inr (Some p)"
proof -
  have "take (SRRP_HEADER_LEN - 1) header = header" using assms(2) by simp
  then have "p\<lparr>pk_header := padded SRRP_HEADER_LEN header\<rparr> = p" using assms(3) by simp
  then show ?thesis using assms(1,2) by (simp add: srrp_reads_back_def)
qed

subsection \<open>Properties: writing and reading back\<close>

text \<open>C10: a request written by \<open>srrp_write_request\<close> with a header of fewer than 128 bytes is read
  back by \<open>srrp_read_one_packet\<close> as the same packet, field for field, whatever follows it.\<close>

theorem srrp_request_roundtrip:
  assumes "srrp_write_request al srcid header data = Inr p"
    and "srrp_header_ok header" and "srrp_data_ok data" and "length header < SRRP_HEADER_LEN"
  shows "srrp_read_one_packet al (pk_raw p @ rest) = Inr (Some p)"
  using assms srrp_write_body_header
  by (intro srrp_reads_back_short [OF srrp_request_reads_back]) (auto simp: srrp_write_request_def Let_def)

theorem srrp_request_roundtrip_witness:
  "\<exists>p. srrp_write_request generous 0x8888 ''/hello/x'' ''{age:18}'' = Inr p \<and>
     srrp_read_one_packet generous (pk_raw p @ ''>0,'') = Inr (Some p)"
proof -
  have "\<exists>p. srrp_write_request generous 0x8888 ''/hello/x'' ''{age:18}'' = Inr p"
    by (simp add: srrp_write_request_def srrp_write_body_def Let_def hex4_length assertR_def generous_def srrp_consts)
  moreover have "srrp_header_ok ''/hello/x''" "srrp_data_ok ''{age:18}''"
    by (simp_all add: srrp_header_ok_def srrp_data_ok_def sublist_code)
  ultimately show ?thesis
    using srrp_request_roundtrip [where header = "''/hello/x''" and data = "''{age:18}''"]
    by (auto simp: SRRP_HEADER_LEN_def)
qed

lemmas srrp_write_evals = srrp_write_request_def srrp_write_response_def srrp_write_subscribe_def
  srrp_write_unsubscribe_def srrp_write_publish_def srrp_write_body_def Let_def hex4_length assertR_def
  generous_def srrp_consts

lemma srrp_sample_texts:
  "srrp_header_ok ''/hello/x''" "srrp_data_ok ''{age:18}''" "length ''/hello/x'' < SRRP_HEADER_LEN"
  by (simp_all add: srrp_header_ok_def srrp_data_ok_def sublist_code(3) SRRP_HEADER_LEN_def)

text \<open>C11: the same for a response, with the checksum of the request it answers.\<close>

theorem srrp_response_roundtrip:
  assumes "srrp_write_response al srcid reqcrc16 header data = Inr p"
    and "srrp_header_ok header" and "srrp_data_ok data" and "length header < SRRP_HEADER_LEN"
  shows "srrp_read_one_packet al (pk_raw p @ rest) = Inr (Some p)"
  using assms srrp_write_body_header
  by (intro srrp_reads_back_short [OF srrp_response_reads_back]) (auto simp: srrp_write_response_def Let_def)

theorem srrp_response_roundtrip_witness:
  "\<exists>p. srrp_write_response generous 0x8888 0x00ab ''/hello/x'' ''{age:18}'' = Inr p \<and>
     srrp_read_one_packet generous (pk_raw p) = Inr (Some p)"
proof -
  have "\<exists>p. srrp_write_response generous 0x8888 0x00ab ''/hello/x'' ''{age:18}'' = Inr p"
    by (simp add: srrp_write_evals)
  then show ?thesis
    using srrp_response_roundtrip [OF _ srrp_sample_texts, where rest = "[]"] by auto
qed

text \<open>C12: the same for the three packets of the publish-subscribe side.\<close>

theorem srrp_subpub_roundtrip:
  assumes "srrp_write_subscribe al header data = Inr p \<or> srrp_write_publish al header data = Inr p \<or>
      srrp_write_unsubscribe al header = Inr p \<and> data = ''{}''"
    and "srrp_header_ok header" and "srrp_data_ok data" and "length header < SRRP_HEADER_LEN"
  shows "srrp_read_one_packet al (pk_raw p @ rest) = Inr (Some p)"
proof -
  let ?n = "10 + length header + 1 + length data + 1"
  have "\<exists>l \<in> {SRRP_SUBSCRIBE_LEADER, SRRP_UNSUBSCRIBE_LEADER, SRRP_PUBLISH_LEADER}.
    srrp_write_body al ?n (subpub_prefix l ?n @ '':'' @ header @ ''?'' @ data) l 0 0 header (length data) = Inr p"
    using assms(1)
    by (auto simp: srrp_write_subscribe_def srrp_write_publish_def srrp_write_unsubscribe_def Let_def
        subpub_prefix_def srrp_consts numeral_2_eq_2)
  then show ?thesis
    using srrp_subpub_reads_back [OF _ assms(2,3)] srrp_write_body_header srrp_reads_back_short assms(4)
    by blast
qed

theorem srrp_subpub_roundtrip_witness:
  "\<exists>p. srrp_write_publish generous ''/hello/x'' ''{age:18}'' = Inr p \<and>
     srrp_read_one_packet generous (pk_raw p) = Inr (Some p)"
proof -
  have "\<exists>p. srrp_write_publish generous ''/hello/x'' ''{age:18}'' = Inr p"
    by (simp add: srrp_write_evals)
  then show ?thesis
    using srrp_subpub_roundtrip [OF _ srrp_sample_texts, where rest = "[]"] by auto
qed

definition srrp_writes :: "allocator \<Rightarrow> nat \<Rightarrow> srrp_packet res \<Rightarrow> bool" where
  "srrp_writes al n w \<longleftrightarrow>
     (if n < 4092 \<and> grant al (sizeof_srrp_packet + n) then \<exists>p. w = Inr p \<and> length (pk_raw p) = n
      else w = Inl AssertFail)"

lemma srrp_write_body_total:
  assumes "n < 65536 \<Longrightarrow> length s + 1 = n"
  shows "srrp_writes al n (srrp_write_body al n s l srcid crc header dn)"
proof (cases "n < 65536")
  case True
  have "srrp_write_body al n s l srcid crc header dn = Inr p \<Longrightarrow> length (pk_raw p) = n" for p
    using srrp_write_body_eq [OF assms [OF True]] assms [OF True] by (auto split: if_splits)
  then show ?thesis
    by (simp add: srrp_writes_def srrp_write_body_eq [OF assms [OF True]] SRRP_LENGTH_MAX_def assms [OF True, simplified])
next
  case False
  then show ?thesis by (simp add: srrp_writes_def srrp_write_body_def assertR_def SRRP_LENGTH_MAX_def)
qed

text \<open>a writer never fails its own check of the formatted length: it returns a packet of exactly
  the length it computed when that is below 4092 and memory is granted, and aborts otherwise.\<close>

theorem srrp_writers_total:
  "srrp_writes al (15 + length header + 1 + length data + 1) (srrp_write_request al srcid header data) \<and>
   srrp_writes al (15 + 5 + length header + 1 + length data + 1) (srrp_write_response al srcid crc header data) \<and>
   srrp_writes al (10 + length header + 1 + length data + 1) (srrp_write_subscribe al header data) \<and>
   srrp_writes al (10 + length header + 1 + 2 + 1) (srrp_write_unsubscribe al header) \<and>
   srrp_writes al (10 + length header + 1 + length data + 1) (srrp_write_publish al header data)"
  unfolding srrp_write_request_def srrp_write_response_def srrp_write_subscribe_def
    srrp_write_unsubscribe_def srrp_write_publish_def Let_def
  by (intro conjI srrp_write_body_total) (auto simp: hex4_length unat_16_less)

text \<open>the writers accept a header of more than 128 bytes, but reading such a packet copies the
  header past the end of its array.\<close>

theorem srrp_long_header_overflows:
  assumes "srrp_write_request al srcid header data = Inr p"
    and "srrp_header_ok header" and "srrp_data_ok data" and "SRRP_HEADER_LEN < length header"
  shows "srrp_read_one_packet al (pk_raw p @ rest) = Inl OutOfBounds"
  using srrp_request_reads_back [OF assms(1-3)] assms(4) by (simp add: srrp_reads_back_def)

theorem srrp_long_header_overflows_witness:
  "\<exists>p. srrp_write_request generous 1 (CHR ''/'' # replicate 128 (CHR ''a'')) ''{}'' = Inr p \<and>
     srrp_read_one_packet generous (pk_raw p) = Inl OutOfBounds"
proof -
  let ?h = "CHR ''/'' # replicate 128 (CHR ''a'')"
  have "\<not> sublist ''?{'' ?h"
  proof
    assume "sublist ''?{'' ?h"
    then have "set ''?{'' \<subseteq> set ?h" by (rule set_mono_sublist)
    then show False by simp
  qed
  then have "srrp_header_ok ?h" "srrp_data_ok ''{}''" "SRRP_HEADER_LEN < length ?h"
    by (simp_all add: srrp_header_ok_def srrp_data_ok_def SRRP_HEADER_LEN_def)
  moreover have "\<exists>p. srrp_write_request generous 1 ?h ''{}'' = Inr p" by (simp add: srrp_write_evals)
  ultimately show ?thesis
    using srrp_long_header_overflows [where header = ?h and data = "''{}''" and rest = "[]"] by auto
qed

subsection \<open>What the readers accept\<close>

text \<open>\<open>srrp_frames buf fixed n p\<close>: the text of \<open>buf\<close> splits at the two delimiters into the header and
  the data of \<open>p\<close>, and the lengths add up to its \<open>len\<close> field.\<close>

definition srrp_frames :: "mem \<Rightarrow> nat \<Rightarrow> srrp_packet \<Rightarrow> bool" where
  "srrp_frames buf fixed p \<longleftrightarrow> (\<exists>a h d n. cstr buf = a @ '':'' @ h @ ''?'' @ d \<and>
     prefix ''/'' h \<and> prefix ''{'' d \<and> length h \<le> SRRP_HEADER_LEN \<and>
     pk_header p = padded SRRP_HEADER_LEN h \<and> pk_header_len p = length h \<and>
     drop (pk_data p) (cstr buf) = d \<and> pk_data_len p = length d \<and>
     n \<le> length buf \<and> pk_raw p = take n buf \<and> pk_len p = of_nat n \<and>
     unat (pk_len p) = fixed + length h + 1 + length d + 1)"

lemma u32_negative: "i < 0 \<Longrightarrow> - (2 ^ 31) \<le> i \<Longrightarrow> 2 ^ 31 \<le> u32 i"
proof -
  assume i: "i < 0" "- (2 ^ 31) \<le> i"
  have "i mod 2 ^ 32 = (i + 2 ^ 32) mod 2 ^ 32" by simp
  also have "\<dots> = i + 2 ^ 32" using i by (intro mod_pos_pos_trivial) auto
  finally show ?thesis using i by (simp add: u32_def)
qed

lemma srrp_split:
  assumes "prefix '':/'' (drop hp t)" and "prefix ''?{'' (drop dp t)" and "hp < dp"
  shows "t = take hp t @ '':'' @ take (dp - hp - 1) (drop (hp + 1) t) @ ''?'' @ drop (dp + 1) t"
    and "prefix ''/'' (take (dp - hp - 1) (drop (hp + 1) t))" and "prefix ''{'' (drop (dp + 1) t)"
proof -
  obtain r where r: "drop hp t = CHR '':'' # CHR ''/'' # r" using assms(1) by (auto simp: prefix_def)
  obtain q where q: "drop dp t = CHR ''?'' # CHR ''{'' # q" using assms(2) by (auto simp: prefix_def)
  have hp: "drop (hp + 1) t = CHR ''/'' # r" using r by (metis drop_drop drop0 drop_Suc_Cons One_nat_def add.commute)
  have dp: "drop (dp + 1) t = CHR ''{'' # q" using q by (metis drop_drop drop0 drop_Suc_Cons One_nat_def add.commute)
  have ne: "hp + 1 \<noteq> dp" using hp q by auto
  have "drop (dp - hp - 1) (drop (hp + 1) t) = drop dp t" using assms(3) by simp
  then have "drop (hp + 1) t = take (dp - hp - 1) (drop (hp + 1) t) @ drop dp t" by (metis append_take_drop_id)
  then have "drop hp t = '':'' @ take (dp - hp - 1) (drop (hp + 1) t) @ drop dp t" using r hp by simp
  moreover have "drop dp t = ''?'' @ drop (dp + 1) t" using q dp by simp
  ultimately show "t = take hp t @ '':'' @ take (dp - hp - 1) (drop (hp + 1) t) @ ''?'' @ drop (dp + 1) t"
    by (metis append_take_drop_id)
  show "prefix ''/'' (take (dp - hp - 1) (drop (hp + 1) t))"
    using ne assms(3) unfolding hp by (cases "dp - hp - 1") auto
  show "prefix ''{'' (drop (dp + 1) t)" unfolding dp by simp
qed

lemma srrp_read_body_frames:
  assumes "terminated buf" and "length buf < 2 ^ 31" and "fixed < 32"
    and "srrp_read_body al buf fixed l s q n i c = Inr (Some p)"
  shows "srrp_frames buf fixed p \<and> pk_leader p = l"
proof -
  let ?t = "cstr buf"
  obtain hp dp where hp: "strstr_c ?t '':/'' = Some hp" and dp: "strstr_c ?t ''?{'' = Some dp"
    using assms(4) by (auto simp: srrp_read_body_def split: option.splits)
  have lt: "length ?t < length buf" by (rule terminated_length) (rule assms(1))
  let ?hl = "u32 (int dp - (int hp + 1))" and ?dl = "u32 (int (length ?t) - (int dp + 1))"
  have read: "n \<le> length buf" "pk_raw p = take n buf" "?hl \<le> SRRP_HEADER_LEN"
    "pk_header p = padded SRRP_HEADER_LEN (take ?hl (drop (hp + 1) buf))" "pk_header_len p = ?hl"
    "pk_data p = dp + 1" "pk_data_len p = ?dl" "pk_len p = of_nat n" "pk_leader p = l"
    "u32 (int (fixed + ?hl + 1 + ?dl + 1)) = unat (pk_len p)"
    using assms(4) unfolding srrp_read_body_def hp dp
    by (auto simp: Let_def bindR_eq_Inr_iff mem_read_def split: if_splits)
  note at = strstr_c_Some [OF hp] strstr_c_Some [OF dp]
  have "hp < dp"
  proof (rule ccontr)
    assume "\<not> hp < dp"
    then have "2 ^ 31 \<le> ?hl" using at lt assms(2) by (intro u32_negative) auto
    then show False using read(3) by (simp add: SRRP_HEADER_LEN_def)
  qed
  note split = srrp_split [OF at(1) [THEN conjunct2] at(2) [THEN conjunct2] this]
  have dpl: "dp < length ?t" using at(2) by (cases "dp = length ?t") auto
  have hl: "?hl = dp - hp - 1" using \<open>hp < dp\<close> dpl lt assms(2) by (subst u32_small) auto
  have dl: "?dl = length ?t - (dp + 1)" using dpl lt assms(2) by (subst u32_small) auto
  obtain r where r: "buf = ?t @ r" using cstr_decomp [OF assms(1)] by auto
  have header: "take ?hl (drop (hp + 1) buf) = take (dp - hp - 1) (drop (hp + 1) ?t)"
    unfolding hl using dpl \<open>hp < dp\<close> by (subst r) simp
  have len: "length (take (dp - hp - 1) (drop (hp + 1) ?t)) = ?hl" "length (drop (dp + 1) ?t) = ?dl"
    unfolding hl dl using dpl \<open>hp < dp\<close> by auto
  have "unat (pk_len p) = fixed + ?hl + 1 + ?dl + 1"
    unfolding read(10) [symmetric] by (rule u32_nat) (use hl dl dpl lt assms(2,3) in auto)
  then have "srrp_frames buf fixed p"
    unfolding srrp_frames_def using read(1-3)
    by (intro exI [of _ "take hp ?t"] exI [of _ "take (dp - hp - 1) (drop (hp + 1) ?t)"]
        exI [of _ "drop (dp + 1) ?t"] exI [of _ n] conjI split)
      (simp_all only: len read(4-8) header)
  then show ?thesis using read(9) by simp
qed

definition srrp_fixed :: "char \<Rightarrow> nat" where
  "srrp_fixed l = (if l = SRRP_REQUEST_LEADER then 15 else if l = SRRP_RESPONSE_LEADER then 20 else 10)"

lemma srrp_read_one_packet_body:
  assumes "srrp_read_one_packet al buf = Inr (Some p)"
  shows "terminated buf \<and> (\<exists>l s q n i c. srrp_read_body al buf (srrp_fixed l) l s q n i c = Inr (Some p))"
proof -
  obtain b bs where buf: "buf = b # bs"
    using assms by (cases buf) (auto simp: srrp_read_one_packet_def mem_read_def)
  then have first: "mem_read buf 0 1 = Inr [b]" by (simp add: mem_read_def)
  have b: "b \<noteq> NUL" using assms first by (auto simp: srrp_read_one_packet_def srrp_consts)
  then have str: "cstr buf = b # cstr bs" by (simp add: buf cstr_def)
  consider "srrp_read_one_request al buf = Inr (Some p)" "b = SRRP_REQUEST_LEADER"
    | "srrp_read_one_response al buf = Inr (Some p)" "b = SRRP_RESPONSE_LEADER"
    | "srrp_read_one_subpub al buf = Inr (Some p)" "b \<noteq> SRRP_REQUEST_LEADER" "b \<noteq> SRRP_RESPONSE_LEADER"
    using assms first by (auto simp: srrp_read_one_packet_def split: if_splits)
  then have "terminated buf \<and> (\<exists>s q n i c. srrp_read_body al buf (srrp_fixed b) b s q n i c = Inr (Some p))"
  proof cases
    case 1
    then have "srrp_fixed b = 3 + 2 + 5 + 5" by (simp add: srrp_fixed_def)
    with 1(1) show ?thesis
      unfolding srrp_read_one_request_def first bindR_simps str
      by (auto simp: assertR_def split: if_splits list.splits sval.splits; blast)
  next
    case 2
    then have "srrp_fixed b = 3 + 2 + 5 + 5 + 5" by (simp add: srrp_fixed_def srrp_consts)
    with 2(1) show ?thesis
      unfolding srrp_read_one_response_def first bindR_simps str
      by (auto simp: assertR_def split: if_splits list.splits sval.splits; blast)
  next
    case 3
    then have "srrp_fixed b = 3 + 2 + 5" by (simp add: srrp_fixed_def)
    with 3(1) show ?thesis
      unfolding srrp_read_one_subpub_def first bindR_simps str
      by (auto simp: assertR_def split: if_splits list.splits sval.splits; blast)
  qed
  then show ?thesis by blast
qed

lemma srrp_sample_publish:
  "\<exists>p. srrp_read_one_packet generous (pk_raw p) = Inr (Some p) \<and> length (pk_raw p) = 28"
proof -
  let ?h = "''/hello/x''" and ?d = "''{age:18}''" and ?l = "SRRP_PUBLISH_LEADER"
  let ?n = "10 + length ?h + 1 + length ?d + 1"
  obtain p where p: "srrp_write_body generous ?n (subpub_prefix ?l ?n @ '':'' @ ?h @ ''?'' @ ?d) ?l 0 0 ?h (length ?d) = Inr p"
    by (simp add: srrp_write_body_def assertR_def generous_def srrp_consts subpub_prefix_def hex4_length)
  have "srrp_reads_back generous p ?h" by (rule srrp_subpub_reads_back [OF p srrp_sample_texts(1,2)]) simp
  then have "srrp_read_one_packet generous (pk_raw p @ []) = Inr (Some p)"
    by (rule srrp_reads_back_short [OF _ srrp_sample_texts(3) srrp_write_body_header [OF p]])
  moreover have "length (pk_raw p) = 28"
    using p by (auto simp: srrp_write_body_def assertR_def padded_def snprintf_s_def split: if_splits)
  ultimately show ?thesis by auto
qed

lemma srrp_read_frames:
  assumes "srrp_read_one_packet al buf = Inr (Some p)" and "length buf < 2 ^ 31"
  shows "srrp_frames buf (srrp_fixed (pk_leader p)) p"
proof -
  obtain l s q n i c where t: "terminated buf"
    and r: "srrp_read_body al buf (srrp_fixed l) l s q n i c = Inr (Some p)"
    using srrp_read_one_packet_body [OF assms(1)] by blast
  have "srrp_fixed l < 32" by (simp add: srrp_fixed_def)
  then show ?thesis using srrp_read_body_frames [OF t assms(2) _ r] by simp
qed

text \<open>C28: a packet that is accepted frames its buffer: header and data are the exact pieces of the
  text at the delimiters, the raw bytes are a prefix of the buffer, and the lengths of the parts add
  up to the \<open>len\<close> field.\<close>

theorem srrp_read_sound:
  assumes "srrp_read_one_packet al buf = Inr (Some p)" and "length buf < 2 ^ 31"
  shows "srrp_frames buf (srrp_fixed (pk_leader p)) p"
  by (rule srrp_read_frames) (fact assms)+

theorem srrp_read_sound_witness:
  "\<exists>p. srrp_read_one_packet generous (pk_raw p) = Inr (Some p) \<and>
     srrp_frames (pk_raw p) (srrp_fixed (pk_leader p)) p"
proof -
  obtain p where p: "srrp_read_one_packet generous (pk_raw p) = Inr (Some p)" "length (pk_raw p) = 28"
    using srrp_sample_publish by blast
  then show ?thesis using srrp_read_sound [OF p(1)] by auto
qed

lemma srrp_read_body_overread:
  assumes "strstr_c (cstr buf) '':/'' = Some hp" and "strstr_c (cstr buf) ''?{'' = Some dp"
    and "grant al (sizeof_srrp_packet + n)" and "length buf < n"
  shows "srrp_read_body al buf fixed l s q n i c = Inl OutOfBounds"
  using assms by (simp add: srrp_read_body_def mem_read_fault)

text \<open>the readers copy as many bytes as the \<open>len\<close> field says before they compare it with the
  text: a packet whose field exceeds what the block holds is read out of bounds.\<close>

theorem srrp_read_past_block:
  assumes "srrp_header_ok header" and "srrp_data_ok data" and "n < 65536"
    and "length (request_prefix n (unat srcid) @ '':'' @ header @ ''?'' @ data) + 1 + length rest < n"
    and "grant al (sizeof_srrp_packet + n)"
  shows "srrp_read_one_packet al
    ((request_prefix n (unat (srcid :: 16 word)) @ '':'' @ header @ ''?'' @ data) @ NUL # rest) = Inl OutOfBounds"
proof -
  let ?p0 = "request_prefix n (unat srcid)"
  let ?t = "?p0 @ '':'' @ header @ ''?'' @ data"
  have "NUL \<notin> set ?t" using assms(1,2) by (simp add: srrp_header_ok_def srrp_data_ok_def prefix_plain)
  then have str: "cstr (?t @ NUL # rest) = ?t" by (rule cstr_id [THEN trans [OF cstr_append_NUL]])
  have scan: "sscanf [Conv_c, Conv_x None, Lit (CHR '',''), Conv_c, Lit (CHR '',''),
      Conv_x (Some 4), Lit (CHR '',''), Conv_x (Some 4), Lit (CHR '':'')] ?t =
    [CharV SRRP_REQUEST_LEADER, HexV 0, CharV (CHR ''$''), HexV n, HexV (unat srcid)]"
    using sscanf_request [OF assms(3) unat_16_less, of "CHR ''>''" srcid "header @ ''?'' @ data"]
    by (simp add: request_prefix_def SRRP_REQUEST_LEADER_def)
  have first: "mem_read (?t @ NUL # rest) 0 1 = Inr [SRRP_REQUEST_LEADER]"
    by (simp add: mem_read_def request_prefix_def SRRP_REQUEST_LEADER_def)
  have "srrp_read_body al (?t @ NUL # rest) (3 + 2 + 5 + 5) SRRP_REQUEST_LEADER (CHR ''$'') 0 n (unat srcid) 0 = Inl OutOfBounds"
  proof (rule srrp_read_body_overread)
    show "strstr_c (cstr (?t @ NUL # rest)) '':/'' = Some (length ?p0)"
      "strstr_c (cstr (?t @ NUL # rest)) ''?{'' = Some (length ?p0 + 1 + length header)"
      unfolding str by (rule srrp_delimiters [OF assms(1,2) prefix_plain(1,2)])+
  qed (use assms(4,5) in auto)
  then show ?thesis
    unfolding srrp_read_one_packet_def srrp_read_one_request_def first bindR_simps str scan
    by (simp add: terminated_def)
qed

theorem srrp_read_past_block_witness:
  "srrp_read_one_packet generous ((request_prefix 4095 (unat (1 :: 16 word)) @ '':'' @ ''/a'' @ ''?'' @ ''{}'') @ NUL # []) =
     Inl OutOfBounds"
  by (rule srrp_read_past_block)
    (simp_all add: srrp_header_ok_def srrp_data_ok_def sublist_code(3) prefix_lengths(1) [of 4095 "Suc 0" 0] generous_def)

text \<open>the documented format has a hexadecimal sequence number, but the length the reader expects
  counts one digit: a request with a longer number and the right \<open>len\<close> field is rejected.\<close>

theorem srrp_long_seqno_rejected:
  fixes srcid :: "16 word" and seqno header data :: string
  assumes "n = 16 + length seqno + length header + length data"
    and "1 < length seqno" and "list_all (\<lambda>c. xdigit c \<noteq> None) seqno"
    and "srrp_header_ok header" and "srrp_data_ok data" and "length header \<le> SRRP_HEADER_LEN"
    and "n < 65536" and "grant al (sizeof_srrp_packet + n)"
  shows "srrp_read_one_packet al ((''>'' @ seqno @ '',$,'' @ hex4 n @ '','' @ hex4 (unat srcid) @ '':'' @
    header @ ''?'' @ data) @ NUL # rest) = Inr None"
proof -
  let ?p0 = "''>'' @ seqno @ '',$,'' @ hex4 n @ '','' @ hex4 (unat srcid)"
  let ?t = "?p0 @ '':'' @ header @ ''?'' @ data"
  have digit: "xdigit (CHR '':'') = None" "xdigit (CHR ''?'') = None" "xdigit NUL = None"
    by (simp_all add: xdigit_def code_def)
  have plain: "CHR '':'' \<notin> set ?p0" "CHR ''?'' \<notin> set ?p0" "NUL \<notin> set ?p0"
    using assms(3) digit hex4_plain by (auto simp: list_all_iff)
  have lp: "length ?p0 = 13 + length seqno" using assms(7) by (simp add: hex4_length unat_16_less)
  have lt: "length ?t + 1 = n" using lp assms(1) by simp
  have "NUL \<notin> set ?t" using assms(4,5) plain(3) by (simp add: srrp_header_ok_def srrp_data_ok_def)
  then have str: "cstr (?t @ NUL # rest) = ?t" by (rule cstr_id [THEN trans [OF cstr_append_NUL]])
  have sq: "scan_x None (seqno @ CHR '','' # r) = Some (strtoul32 False seqno, CHR '','' # r)" for r
    using scan_x_digits [of seqno "CHR '',''" None r] assms(2,3) xdigit_delimiters(1) by (fastforce simp: list_all_iff)
  have scan: "sscanf [Conv_c, Conv_x None, Lit (CHR '',''), Conv_c, Lit (CHR '',''),
      Conv_x (Some 4), Lit (CHR '',''), Conv_x (Some 4), Lit (CHR '':'')] ?t =
    [CharV SRRP_REQUEST_LEADER, HexV (strtoul32 False seqno), CharV (CHR ''$''), HexV n, HexV (unat srcid)]"
    using assms(7) unat_16_less [of srcid]
    by (simp add: sq scan_x_hex4 xdigit_delimiters SRRP_REQUEST_LEADER_def)
  have first: "mem_read (?t @ NUL # rest) 0 1 = Inr [SRRP_REQUEST_LEADER]"
    by (simp add: mem_read_def SRRP_REQUEST_LEADER_def)
  have "srrp_read_body al (?t @ NUL # rest) (3 + 2 + 5 + 5) SRRP_REQUEST_LEADER (CHR ''$'')
      (strtoul32 False seqno) (length ?t + 1) (unat srcid) 0 = Inr None"
    by (subst srrp_read_body_ok [OF assms(4,5) plain])
      (use assms(2,6-8) lt lp in \<open>simp_all only: lt, auto\<close>)
  then show ?thesis
    unfolding srrp_read_one_packet_def srrp_read_one_request_def lt
    using first [simplified] str [simplified] scan [simplified]
    by (simp add: terminated_def)
qed

theorem srrp_long_seqno_rejected_witness:
  "srrp_read_one_packet generous ((''>'' @ ''12'' @ '',$,'' @ hex4 23 @ '','' @ hex4 (unat (1 :: 16 word)) @ '':'' @
     ''/a'' @ ''?'' @ ''{b}'') @ NUL # []) = Inr None"
  by (rule srrp_long_seqno_rejected)
    (simp_all add: srrp_header_ok_def srrp_data_ok_def sublist_code(3) generous_def SRRP_HEADER_LEN_def
      xdigit_def code_def)

subsection \<open>Properties: resynchronisation\<close>

definition srrp_starts_at :: "mem \<Rightarrow> nat \<Rightarrow> bool" where
  "srrp_starts_at buf i \<longleftrightarrow> i + 1 < length buf \<and> buf ! i \<in> set srrp_leaders \<and> isdigit_c (buf ! (i + 1))"

lemma srrp_find_leader_sound:
  assumes "terminated buf" and "l \<in> set srrp_leaders"
  shows "srrp_find_leader (Some c) buf l = Inr None \<or>
    (\<exists>i. srrp_find_leader (Some c) buf l = Inr (Some (int i)) \<and> srrp_starts_at buf i)"
proof (cases "strchr_c (cstr buf) l")
  case None
  then show ?thesis by (simp add: srrp_find_leader_def)
next
  case (Some i)
  have i: "i < length (cstr buf)" "cstr buf ! i = l" using strchr_c_Some [OF Some] by auto
  obtain r where r: "buf = cstr buf @ NUL # r" using cstr_decomp [OF assms(1)] by blast
  have inside: "i + 1 < length buf" using i(1) terminated_length [OF assms(1)] by simp
  have at: "buf ! i = l" using i by (subst r) (simp add: nth_append)
  let ?c = "if i = 0 then c else buf ! (i - 1)"
  have "srrp_find_leader (Some c) buf l =
    (if ?c = l then Inr None else if isdigit_c (buf ! (i + 1)) then Inr (Some (int i)) else Inr None)"
    using mem_read_1 [OF inside] Some by (cases "i = 0") (simp_all add: srrp_find_leader_def)
  then show ?thesis
    using inside at assms(2) by (simp add: srrp_starts_at_def)
qed

lemma srrp_try_leaders_sound:
  assumes "terminated buf" and "set ls \<subseteq> set srrp_leaders"
  shows "srrp_try_leaders (Some c) buf ls = Inr (- 1) \<or>
    (\<exists>i. srrp_try_leaders (Some c) buf ls = Inr (int i) \<and> srrp_starts_at buf i)"
  using assms(2)
proof (induction ls)
  case (Cons l ls)
  then show ?case using srrp_find_leader_sound [OF assms(1), of l c] by auto
qed simp

text \<open>in a terminated buffer that has a byte before it, \<open>srrp_next_packet_offset\<close> reads no byte
  out of bounds and returns -1 or a position where a leader is followed by a digit; it returns 0 when
  the buffer starts with these.\<close>

theorem srrp_next_packet_offset_sound:
  assumes "terminated buf" and "2 \<le> length buf"
  shows "(srrp_next_packet_offset (Some c) buf = Inr (- 1) \<or>
      (\<exists>i. srrp_next_packet_offset (Some c) buf = Inr (int i) \<and> srrp_starts_at buf i)) \<and>
    (srrp_starts_at buf 0 \<longrightarrow> srrp_next_packet_offset (Some c) buf = Inr 0)"
proof -
  have b: "mem_read buf 1 1 = Inr [buf ! 1]" "mem_read buf 0 1 = Inr [buf ! 0]"
    by (rule mem_read_1, use assms(2) in linarith)+
  show ?thesis
    using srrp_try_leaders_sound [OF assms(1), of srrp_leaders c] assms b
    by (auto simp: srrp_next_packet_offset_def srrp_starts_at_def intro: exI [of _ 0])
qed

theorem srrp_next_packet_offset_sound_witness:
  "srrp_next_packet_offset (Some NUL) (''xx@7,'' @ [NUL]) = Inr 2 \<and> srrp_starts_at (''xx@7,'' @ [NUL]) 2"
  using srrp_next_packet_offset_sound [of "''xx@7,'' @ [NUL]" NUL]
  by (simp add: terminated_def srrp_next_packet_offset_def mem_read_def isdigit_c_def code_def srrp_leaders_def
      srrp_consts srrp_find_leader_def cstr_def srrp_starts_at_def)

text \<open>at the start of its block a buffer that begins with a request leader but no digit makes
  \<open>srrp_next_packet_offset\<close> read the byte before the block.\<close>

theorem srrp_next_packet_offset_underread:
  assumes "terminated r" and "\<not> isdigit_c c"
  shows "srrp_next_packet_offset None (SRRP_REQUEST_LEADER # c # r) = Inl OutOfBounds"
proof -
  have "cstr (SRRP_REQUEST_LEADER # c # r) = SRRP_REQUEST_LEADER # cstr (c # r)"
    by (simp add: cstr_def SRRP_REQUEST_LEADER_def)
  then show ?thesis
    using assms by (simp add: srrp_next_packet_offset_def mem_read_def srrp_leaders_def
        srrp_find_leader_def terminated_def)
qed

theorem srrp_next_packet_offset_underread_witness:
  "srrp_next_packet_offset None (SRRP_REQUEST_LEADER # CHR ''x'' # [NUL]) = Inl OutOfBounds"
  by (rule srrp_next_packet_offset_underread) (simp_all add: terminated_def isdigit_c_def code_def)

end
