(* ===== verification/Crc16.thy ===== *)
theory Crc16
  imports Cx_Prelude
begin

text \<open>
  \<open>src/crc16.c\<close>: the table-driven CRC-16/XMODEM checksum. The model keeps the table as the source
  has it and the C arithmetic of one step: \<open>crc\<close> is promoted to a 32-bit \<open>int\<close>, the byte is a
  signed \<open>char\<close> and is sign-extended, the index is masked to eight bits, and the result is cut
  back to 16 bits. The reference is the bit-serial division by \<open>x^16 + x^12 + x^5 + 1\<close> that the
  comment at the top of the file names; the lemmas show that the table, one step and the whole
  loop compute it, that checksums chain, and which transmission errors the checksum detects.
\<close>

unbundle bit_operations_syntax

subsection \<open>The code\<close>

definition crc16tab :: "16 word list" where
  "crc16tab = [
    0x0000, 0x1021, 0x2042, 0x3063, 0x4084, 0x50a5, 0x60c6, 0x70e7,
    0x8108, 0x9129, 0xa14a, 0xb16b, 0xc18c, 0xd1ad, 0xe1ce, 0xf1ef,
    0x1231, 0x0210, 0x3273, 0x2252, 0x52b5, 0x4294, 0x72f7, 0x62d6,
    0x9339, 0x8318, 0xb37b, 0xa35a, 0xd3bd, 0xc39c, 0xf3ff, 0xe3de,
    0x2462, 0x3443, 0x0420, 0x1401, 0x64e6, 0x74c7, 0x44a4, 0x5485,
    0xa56a, 0xb54b, 0x8528, 0x9509, 0xe5ee, 0xf5cf, 0xc5ac, 0xd58d,
    0x3653, 0x2672, 0x1611, 0x0630, 0x76d7, 0x66f6, 0x5695, 0x46b4,
    0xb75b, 0xa77a, 0x9719, 0x8738, 0xf7df, 0xe7fe, 0xd79d, 0xc7bc,
    0x48c4, 0x58e5, 0x6886, 0x78a7, 0x0840, 0x1861, 0x2802, 0x3823,
    0xc9cc, 0xd9ed, 0xe98e, 0xf9af, 0x8948, 0x9969, 0xa90a, 0xb92b,
    0x5af5, 0x4ad4, 0x7ab7, 0x6a96, 0x1a71, 0x0a50, 0x3a33, 0x2a12,
    0xdbfd, 0xcbdc, 0xfbbf, 0xeb9e, 0x9b79, 0x8b58, 0xbb3b, 0xab1a,
    0x6ca6, 0x7c87, 0x4ce4, 0x5cc5, 0x2c22, 0x3c03, 0x0c60, 0x1c41,
    0xedae, 0xfd8f, 0xcdec, 0xddcd, 0xad2a, 0xbd0b, 0x8d68, 0x9d49,
    0x7e97, 0x6eb6, 0x5ed5, 0x4ef4, 0x3e13, 0x2e32, 0x1e51, 0x0e70,
    0xff9f, 0xefbe, 0xdfdd, 0xcffc, 0xbf1b, 0xaf3a, 0x9f59, 0x8f78,
    0x9188, 0x81a9, 0xb1ca, 0xa1eb, 0xd10c, 0xc12d, 0xf14e, 0xe16f,
    0x1080, 0x00a1, 0x30c2, 0x20e3, 0x5004, 0x4025, 0x7046, 0x6067,
    0x83b9, 0x9398, 0xa3fb, 0xb3da, 0xc33d, 0xd31c, 0xe37f, 0xf35e,
    0x02b1, 0x1290, 0x22f3, 0x32d2, 0x4235, 0x5214, 0x6277, 0x7256,
    0xb5ea, 0xa5cb, 0x95a8, 0x8589, 0xf56e, 0xe54f, 0xd52c, 0xc50d,
    0x34e2, 0x24c3, 0x14a0, 0x0481, 0x7466, 0x6447, 0x5424, 0x4405,
    0xa7db, 0xb7fa, 0x8799, 0x97b8, 0xe75f, 0xf77e, 0xc71d, 0xd73c,
    0x26d3, 0x36f2, 0x0691, 0x16b0, 0x6657, 0x7676, 0x4615, 0x5634,
    0xd94c, 0xc96d, 0xf90e, 0xe92f, 0x99c8, 0x89e9, 0xb98a, 0xa9ab,
    0x5844, 0x4865, 0x7806, 0x6827, 0x18c0, 0x08e1, 0x3882, 0x28a3,
    0xcb7d, 0xdb5c, 0xeb3f, 0xfb1e, 0x8bf9, 0x9bd8, 0xabbb, 0xbb9a,
    0x4a75, 0x5a54, 0x6a37, 0x7a16, 0x0af1, 0x1ad0, 0x2ab3, 0x3a92,
    0xfd2e, 0xed0f, 0xdd6c, 0xcd4d, 0xbdaa, 0xad8b, 0x9de8, 0x8dc9,
    0x7c26, 0x6c07, 0x5c64, 0x4c45, 0x3ca2, 0x2c83, 0x1ce0, 0x0cc1,
    0xef1f, 0xff3e, 0xcf5d, 0xdf7c, 0xaf9b, 0xbfba, 0x8fd9, 0x9ff8,
    0x6e17, 0x7e36, 0x4e55, 0x5e74, 0x2e93, 0x3eb2, 0x0ed1, 0x1ef0]"

definition crc16_step :: "16 word \<Rightarrow> char \<Rightarrow> 16 word" where
  "crc16_step crc c =
     (let b = (of_char c :: 8 word);
          i = ((ucast (drop_bit 8 crc) :: 32 word) XOR (scast b :: 32 word)) AND 0x00FF
      in ucast (push_bit 8 (ucast crc :: 32 word) XOR ucast (crc16tab ! unat i)))"

fun crc16_loop :: "16 word \<Rightarrow> mem \<Rightarrow> nat \<Rightarrow> 16 word res" where
  "crc16_loop crc buf 0 = Inr crc"
| "crc16_loop crc [] (Suc n) = Inl OutOfBounds"
| "crc16_loop crc (c # buf) (Suc n) = crc16_loop (crc16_step crc c) buf n"

definition crc16 :: "mem \<Rightarrow> int \<Rightarrow> 16 word res" where
  "crc16 buf len = crc16_loop 0 buf (nat len)"

definition crc16_crc :: "16 word \<Rightarrow> mem \<Rightarrow> int \<Rightarrow> 16 word res" where
  "crc16_crc crc buf len = crc16_loop crc buf (nat len)"

subsection \<open>The reference: bit-serial division\<close>

definition crc_shift :: "16 word \<Rightarrow> 16 word" where
  "crc_shift c = (if bit c 15 then push_bit 1 c XOR 0x1021 else push_bit 1 c)"

definition crc_byte :: "16 word \<Rightarrow> 8 word \<Rightarrow> 16 word" where
  "crc_byte c b = (crc_shift ^^ 8) (c XOR push_bit 8 (ucast b))"

definition crc_ref :: "16 word \<Rightarrow> string \<Rightarrow> 16 word" where
  "crc_ref c s = foldl crc_byte c (map of_char s)"

text \<open>
  The table is built by doubling: entry \<open>2n\<close> is entry \<open>n\<close> shifted once, entry \<open>2n + 1\<close> adds the
  polynomial. \<open>pairs_ok\<close> checks this relation along the list.
\<close>

fun pairs_ok :: "16 word list \<Rightarrow> 16 word list \<Rightarrow> bool" where
  "pairs_ok (t # ts) (x # y # us) = (x = crc_shift t \<and> y = x XOR 0x1021 \<and> pairs_ok ts us)"
| "pairs_ok ts us = (us = [])"

subsection \<open>Linearity and injectivity of the division step\<close>

lemma xor_word_0_iff: "x XOR y = 0 \<longleftrightarrow> x = (y :: 'a::len word)"
proof
  assume "x XOR y = 0"
  then have "(x XOR y) XOR y = y" by simp
  then show "x = y" by (simp add: xor.assoc)
qed simp

lemma crc_shift_XOR: "crc_shift (a XOR b) = crc_shift a XOR crc_shift b"
  by (auto simp: crc_shift_def bit_xor_iff xor.assoc xor.left_commute xor.commute)

lemma crc_shifts_XOR: "(crc_shift ^^ k) (a XOR b) = (crc_shift ^^ k) a XOR (crc_shift ^^ k) b"
  by (induction k) (simp_all add: crc_shift_XOR)

lemma crc_shift_bit: "n < 16 \<Longrightarrow>
    bit (crc_shift z) n \<longleftrightarrow> (0 < n \<and> bit z (n - 1)) \<noteq> (bit z 15 \<and> bit (0x1021 :: 16 word) n)"
  by (auto simp: crc_shift_def bit_xor_iff bit_push_bit_iff simp del: push_bit_of_1
      push_bit_numeral One_nat_def)

lemma crc_shift_kernel: "crc_shift z = 0 \<Longrightarrow> z = 0"
proof -
  assume "crc_shift z = 0"
  then have low: "\<not> bit (crc_shift z) n" for n by simp
  from low [of 0] have top: "\<not> bit z 15" by (simp add: crc_shift_bit)
  show "z = 0"
  proof (rule bit_word_eqI)
    fix n :: nat
    assume "n < LENGTH(16)"
    then have "n = 15 \<or> Suc n < 16" by auto
    then show "bit z n \<longleftrightarrow> bit 0 n"
      using top low [of "Suc n"] by (auto simp: crc_shift_bit)
  qed
qed

lemma crc_shift_inj: "crc_shift x = crc_shift y \<Longrightarrow> x = y"
  using crc_shift_kernel [of "x XOR y"] by (simp add: crc_shift_XOR xor_word_0_iff)

lemma crc_shifts_inj: "(crc_shift ^^ k) x = (crc_shift ^^ k) y \<Longrightarrow> x = y"
  by (induction k) (auto dest: crc_shift_inj)

text \<open>Shifting a value whose top bits are clear is a plain shift.\<close>

lemma crc_shifts_small:
  assumes "k \<le> 8" and "\<And>n. bit w n \<Longrightarrow> n < 8"
  shows "(crc_shift ^^ k) w = push_bit k w"
  using assms(1)
proof (induction k)
  case 0
  then show ?case by simp
next
  case (Suc k)
  then have IH: "(crc_shift ^^ k) w = push_bit k w" by simp
  have "\<not> bit (push_bit k w) 15"
    using assms(2) [of "15 - k"] Suc.prems by (auto simp: bit_push_bit_iff)
  then have "crc_shift (push_bit k w) = push_bit (Suc k) w" by (simp add: crc_shift_def)
  then show ?case by (simp add: IH)
qed

subsection \<open>The table\<close>

lemma pairs_ok_nth:
  "pairs_ok ts us \<Longrightarrow> n < length ts \<Longrightarrow> Suc (2 * n) < length us \<Longrightarrow>
     us ! (2 * n) = crc_shift (ts ! n) \<and> us ! Suc (2 * n) = us ! (2 * n) XOR 0x1021"
proof (induction ts us arbitrary: n rule: pairs_ok.induct)
  case (1 t ts x y us)
  then show ?case by (cases n) auto
qed auto

lemma pairs_ok_crc16tab: "pairs_ok crc16tab crc16tab"
  by (simp add: crc16tab_def crc_shift_def)

lemma length_crc16tab: "length crc16tab = 256"
  by (simp add: crc16tab_def)

lemma crc16tab_0: "crc16tab ! 0 = 0"
  by (simp add: crc16tab_def)

lemma crc_shifts_8:
  "(crc_shift ^^ 8) c = crc_shift (crc_shift (crc_shift (crc_shift
     (crc_shift (crc_shift (crc_shift (crc_shift c)))))))"
  by (simp add: eval_nat_numeral)

lemma crc_shifts_8_256: "(crc_shift ^^ 8) 256 = 0x1021"
  by (simp add: crc_shifts_8 crc_shift_def)

lemma crc16tab_nth: "n < 256 \<Longrightarrow> crc16tab ! n = (crc_shift ^^ 8) (push_bit 8 (of_nat n))"
proof (induction n rule: less_induct)
  case (less n)
  show ?case
  proof (cases "n = 0")
    case True
    have "(crc_shift ^^ 8) 0 = 0" by (rule crc_shifts_small [of 8 0, simplified])
    with True show ?thesis by (simp add: crc16tab_0)
  next
    case False
    define m where "m = n div 2"
    have m: "m < n" "m < 128" using False less.prems by (auto simp: m_def)
    have IH: "crc16tab ! m = (crc_shift ^^ 8) (push_bit 8 (of_nat m))" using less.IH m by simp
    have top: "\<not> bit (push_bit 8 (of_nat m) :: 16 word) 15"
      using m by (simp add: bit_push_bit_iff bit_of_nat_iff bit_nat_def)
    have even: "crc16tab ! (2 * m) = crc_shift ((crc_shift ^^ 8) (push_bit 8 (of_nat m)))"
      and odd: "crc16tab ! Suc (2 * m) = crc16tab ! (2 * m) XOR 0x1021"
      using pairs_ok_nth [OF pairs_ok_crc16tab, of m] m IH by (auto simp: length_crc16tab)
    have two: "crc_shift (push_bit 8 (of_nat m)) = push_bit 8 (of_nat (2 * m))"
      using top by (simp add: crc_shift_def push_bit_eq_mult)
    have e: "crc16tab ! (2 * m) = (crc_shift ^^ 8) (push_bit 8 (of_nat (2 * m)))"
      using even two by (metis funpow_swap1)
    have one: "(push_bit 8 (of_nat (Suc (2 * m))) :: 16 word) = push_bit 8 (of_nat (2 * m)) XOR 256"
    proof -
      have "even (of_nat (2 * m) :: 16 word)" by simp
      then have "(of_nat (Suc (2 * m)) :: 16 word) = of_nat (2 * m) XOR 1"
        by (simp add: xor_one_eq)
      then show ?thesis by (simp only: push_bit_xor) simp
    qed
    have o: "crc16tab ! Suc (2 * m) = (crc_shift ^^ 8) (push_bit 8 (of_nat (Suc (2 * m))))"
      using odd e by (simp only: one crc_shifts_XOR crc_shifts_8_256)
    have "n = 2 * m \<or> n = Suc (2 * m)" by (auto simp: m_def)
    with e o show ?thesis by auto
  qed
qed


subsection \<open>One step of the loop is eight steps of the division\<close>

lemma crc16_index:
  fixes crc :: "16 word" and b :: "8 word"
  shows "((ucast (drop_bit 8 crc) :: 32 word) XOR (scast b :: 32 word)) AND 0x00FF =
         ucast (ucast (drop_bit 8 crc) XOR b)"
proof -
  have low: "y AND 0x00FF = take_bit 8 y" for y :: "32 word"
    by (simp add: take_bit_eq_mask mask_eq_exp_minus_1)
  show ?thesis
  proof (unfold low, rule bit_word_eqI)
    fix n
    have "\<not> bit b n" if "8 \<le> n" using that bit_imp_le_length [of b n] by auto
    moreover have "min 7 n = n" if "n < 8" using that by simp
    ultimately show "bit (take_bit 8 ((ucast (drop_bit 8 crc) :: 32 word) XOR scast b)) n =
        bit (ucast (ucast (drop_bit 8 crc) XOR b) :: 32 word) n"
      by (cases "n < 8") (auto simp: bit_simps)
  qed
qed

lemma word_split_8: "crc = push_bit 8 (drop_bit 8 crc) XOR take_bit 8 (crc :: 16 word)"
  by (rule bit_word_eqI) (auto simp: bit_simps)

lemma crc16_step_eq_crc_byte: "crc16_step crc c = crc_byte crc (of_char c)"
proof -
  define b where "b = (of_char c :: 8 word)"
  define x where "x = (ucast (drop_bit 8 crc) XOR b :: 8 word)"
  have x: "unat x < 256" using unsigned_less [of x, where 'a = nat] by simp
  then have "take_bit 32 (unat x) = unat x" by (simp add: take_bit_nat_eq_self_iff)
  with x have lt: "unat (ucast x :: 32 word) < 256"
    and ix: "(of_nat (unat (ucast x :: 32 word)) :: 16 word) = ucast x"
    by (simp_all add: unsigned_ucast_eq)
  have hi: "push_bit 8 (ucast x :: 16 word) = push_bit 8 (drop_bit 8 crc) XOR push_bit 8 (ucast b)"
    by (rule bit_word_eqI) (auto simp: x_def bit_simps)
  have small: "(crc_shift ^^ 8) (take_bit 8 crc) = push_bit 8 (take_bit 8 crc)"
    by (rule crc_shifts_small) (auto simp: bit_simps)
  have lo: "push_bit 8 (take_bit 8 crc) = push_bit 8 crc"
    by (rule bit_word_eqI) (auto simp: bit_simps)
  have "crc16_step crc c =
      ucast (push_bit 8 (ucast crc :: 32 word) XOR ucast (crc16tab ! unat (ucast x :: 32 word)))"
    by (simp add: crc16_step_def Let_def crc16_index b_def x_def)
  also have "\<dots> = push_bit 8 crc XOR crc16tab ! unat (ucast x :: 32 word)"
    by (rule bit_word_eqI) (auto simp: bit_simps)
  also have "\<dots> = push_bit 8 crc XOR (crc_shift ^^ 8) (push_bit 8 (ucast x))"
    by (simp only: crc16tab_nth [OF lt] ix)
  also have "\<dots> = (crc_shift ^^ 8) (take_bit 8 crc) XOR (crc_shift ^^ 8) (push_bit 8 (ucast x))"
    by (simp add: small lo)
  also have "\<dots> = (crc_shift ^^ 8) ((push_bit 8 (drop_bit 8 crc) XOR take_bit 8 crc) XOR push_bit 8 (ucast b))"
    by (simp add: crc_shifts_XOR hi ac_simps)
  also have "\<dots> = crc_byte crc b"
    by (simp only: crc_byte_def word_split_8 [symmetric])
  finally show ?thesis by (simp add: b_def)
qed

lemma crc16_loop_eq:
  "crc16_loop crc buf n =
     (if n \<le> length buf then Inr (crc_ref crc (take n buf)) else Inl OutOfBounds)"
  by (induction crc buf n rule: crc16_loop.induct)
     (auto simp: crc_ref_def crc16_step_eq_crc_byte)

lemma crc16_whole: "crc16 s (int (length s)) = Inr (crc_ref 0 s)"
  by (simp add: crc16_def crc16_loop_eq)

lemma crc_ref_append: "crc_ref c (a @ b) = crc_ref (crc_ref c a) b"
  by (simp add: crc_ref_def)

subsection \<open>Error detection\<close>

lemma of_char_word_inj: "(of_char a :: 8 word) = of_char b \<longleftrightarrow> a = b"
proof -
  have "unat (of_char c :: 8 word) = of_char c" for c
  proof -
    have "(of_char c :: nat) < 2 ^ 8" by simp
    then have "take_bit 8 (of_char c :: nat) = of_char c" by (simp only: take_bit_nat_eq_self_iff)
    moreover have "(of_char c :: 8 word) = of_nat (of_char c)" by (simp only: of_nat_of_char)
    ultimately show ?thesis by (simp add: unsigned_of_nat)
  qed
  then show ?thesis by (metis of_char_eq_iff)
qed

lemma xor_right_cancel: "x XOR k = y XOR k \<longleftrightarrow> x = (y :: 'a::len word)"
proof
  assume "x XOR k = y XOR k"
  then have "(x XOR k) XOR k = (y XOR k) XOR k" by simp
  then show "x = y" by (simp add: xor.assoc)
qed simp

lemma crc_byte_inj: "crc_byte c a = crc_byte d a \<Longrightarrow> c = d"
  unfolding crc_byte_def by (drule crc_shifts_inj) (simp add: xor_right_cancel)

lemma crc_ref_inj: "crc_ref c s = crc_ref d s \<Longrightarrow> c = d"
  by (induction s arbitrary: c d) (auto simp: crc_ref_def dest: crc_byte_inj)

text \<open>Two bytes enter the register as one 16-bit value.\<close>

lemma crc_two_bytes:
  "crc_byte (crc_byte c a) b = (crc_shift ^^ 16) (c XOR (push_bit 8 (ucast a) XOR ucast b))"
proof -
  have "push_bit 8 (ucast b) = (crc_shift ^^ 8) (ucast b :: 16 word)"
    by (rule crc_shifts_small [symmetric]) (auto simp: bit_simps dest: bit_imp_le_length)
  then have "crc_byte (crc_byte c a) b =
      (crc_shift ^^ 8) ((crc_shift ^^ 8) ((c XOR push_bit 8 (ucast a)) XOR ucast b))"
    by (simp add: crc_byte_def crc_shifts_XOR)
  also have "\<dots> = (crc_shift ^^ (8 + 8)) ((c XOR push_bit 8 (ucast a)) XOR ucast b)"
    by (simp only: funpow_add o_apply)
  finally show ?thesis by (simp add: xor.assoc)
qed

lemma two_bytes_inj:
  fixes a b a' b' :: "8 word"
  assumes "(push_bit 8 (ucast a) XOR ucast b :: 16 word) = push_bit 8 (ucast a') XOR ucast b'"
  shows "a = a' \<and> b = b'"
proof
  have *: "bit (push_bit 8 (ucast a) XOR ucast b :: 16 word) n =
      bit (push_bit 8 (ucast a') XOR ucast b' :: 16 word) n" for n using assms by simp
  show "b = b'"
  proof (rule bit_word_eqI)
    fix n assume "n < LENGTH(8)"
    then show "bit b n = bit b' n" using * [of n] by (simp add: bit_simps)
  qed
  show "a = a'"
  proof (rule bit_word_eqI)
    fix n assume "n < LENGTH(8)"
    then show "bit a n = bit a' n" using * [of "8 + n"] bit_imp_le_length [of b "8 + n"] bit_imp_le_length [of b' "8 + n"]
      by (auto simp: bit_simps)
  qed
qed

subsection \<open>Properties\<close>

text \<open>C14: \<open>crc16\<close> of the first \<open>len\<close> bytes of a buffer is the remainder that the bit-serial
  division by 0x1021 with initial value 0 computes for these bytes; it reads outside the buffer
  exactly when \<open>len\<close> exceeds it.\<close>

theorem crc16_is_division:
  "crc16 buf len =
     (if nat len \<le> length buf then Inr (crc_ref 0 (take (nat len) buf)) else Inl OutOfBounds)"
  by (simp add: crc16_def crc16_loop_eq)

text \<open>a checksum taken over a header and continued over the data, as the bus and the
  responders do, is the checksum of the header followed by the data.\<close>

theorem crc16_chains:
  "bindR (crc16 h (int (length h))) (\<lambda>c. crc16_crc c d (int (length d))) =
     crc16 (h @ d) (int (length h + length d))"
  by (simp add: crc16_def crc16_crc_def crc16_loop_eq crc_ref_append nat_int_add)

text \<open>any corruption confined to two adjacent bytes of a message changes its checksum,
  whatever precedes and follows them.\<close>

theorem crc16_detects_two_bytes:
  assumes "(a, b) \<noteq> (a', b')"
  shows "crc16 (p @ [a, b] @ s) (int (length (p @ [a, b] @ s))) \<noteq>
         crc16 (p @ [a', b'] @ s) (int (length (p @ [a', b'] @ s)))"
proof
  assume "crc16 (p @ [a, b] @ s) (int (length (p @ [a, b] @ s))) =
          crc16 (p @ [a', b'] @ s) (int (length (p @ [a', b'] @ s)))"
  then have "crc_ref 0 (p @ [a, b] @ s) = crc_ref 0 (p @ [a', b'] @ s)"
    by (simp only: crc16_whole sum.inject)
  then have "crc_ref (crc_ref 0 p) [a, b] = crc_ref (crc_ref 0 p) [a', b']"
    unfolding crc_ref_append by (rule crc_ref_inj)
  then have "(crc_shift ^^ 16) (crc_ref 0 p XOR (push_bit 8 (ucast (of_char a :: 8 word)) XOR ucast (of_char b :: 8 word))) =
             (crc_shift ^^ 16) (crc_ref 0 p XOR (push_bit 8 (ucast (of_char a' :: 8 word)) XOR ucast (of_char b' :: 8 word)))"
    by (simp only: crc_ref_def foldl.simps list.map crc_two_bytes)
  then have "(of_char a :: 8 word) = of_char a' \<and> (of_char b :: 8 word) = of_char b'"
    by (intro two_bytes_inj) (drule crc_shifts_inj, simp add: xor.commute [of "crc_ref 0 p"] xor_right_cancel)
  with assms show False by (simp add: of_char_word_inj)
qed

theorem crc16_detects_two_bytes_witness:
  "crc16 ''123456789'' 9 \<noteq> crc16 ''123456798'' 9 \<and> crc16 ''123456789'' 9 = Inr 0x31C3"
proof
  show "crc16 ''123456789'' 9 \<noteq> crc16 ''123456798'' 9"
    using crc16_detects_two_bytes [of "CHR ''8''" "CHR ''9''" "CHR ''9''" "CHR ''8''" "''1234567''" "[]"]
    by simp
  show "crc16 ''123456789'' 9 = Inr 0x31C3"
    by (simp add: crc16_def crc16_loop_eq crc_ref_def crc_byte_def crc_shifts_8 crc_shift_def)
qed

end
