(* ===== verification/Svcx.thy ===== *)
theory Svcx
  imports Srrp Crc16
begin

text \<open>
  The service hub (\<open>svcx.c\<close>): services with a header and a handler on a list, newest first, and the
  dispatch of a request to the first service whose header is a prefix of the request's. The list of
  \<open>struct service\<close> is the list of the entries on it in order, as justified by \<open>Cx_List\<close>. A handler is
  a function of the request and of the response pointer, which it may set.
\<close>

subsection \<open>State and operations\<close>

definition SERVICE_HEADER_LEN :: nat where
  "SERVICE_HEADER_LEN = 64"

type_synonym svc_handle_func = "srrp_packet \<Rightarrow> srrp_packet option \<Rightarrow> int \<times> srrp_packet option"

record service =
  sv_header :: string
  sv_func :: svc_handle_func

record svchub =
  hub_services :: "service list"

definition svchub_new :: "allocator \<Rightarrow> svchub res" where
  "svchub_new al = assertR (grant al 16) (Inr \<lparr>hub_services = []\<rparr>)"

fun svchub_destroy_loop :: "service list \<Rightarrow> service list" where
  "svchub_destroy_loop [] = []"
| "svchub_destroy_loop (pos # rest) = svchub_destroy_loop rest"

definition svchub_destroy :: "svchub \<Rightarrow> svchub" where
  "svchub_destroy hub = hub\<lparr>hub_services := svchub_destroy_loop (hub_services hub)\<rparr>"

definition svchub_add_service :: "allocator \<Rightarrow> svchub \<Rightarrow> string \<Rightarrow> svc_handle_func \<Rightarrow> (int \<times> svchub) res" where
  "svchub_add_service al hub header func =
     assertR (grant al 88)
       (Inr (0, hub\<lparr>hub_services :=
          \<lparr>sv_header = snprintf_s SERVICE_HEADER_LEN header, sv_func = func\<rparr> # hub_services hub\<rparr>))"

text \<open>The loop of \<open>svchub_del_service\<close>: the list without the first match, \<open>None\<close> when there is none.\<close>

fun svchub_del_loop :: "service list \<Rightarrow> string \<Rightarrow> service list option" where
  "svchub_del_loop [] header = None"
| "svchub_del_loop (pos # rest) header =
     (if strncmp_eq (sv_header pos) header (length (sv_header pos)) then Some rest
      else map_option ((#) pos) (svchub_del_loop rest header))"

definition svchub_del_service :: "svchub \<Rightarrow> string \<Rightarrow> int \<times> svchub" where
  "svchub_del_service hub header =
     (case svchub_del_loop (hub_services hub) header of
        Some rest \<Rightarrow> (0, hub\<lparr>hub_services := rest\<rparr>)
      | None \<Rightarrow> (- 1, hub))"

fun svchub_deal_loop :: "service list \<Rightarrow> srrp_packet \<Rightarrow> srrp_packet option \<Rightarrow> int \<times> srrp_packet option" where
  "svchub_deal_loop [] req resp = (- 1, resp)"
| "svchub_deal_loop (pos # rest) req resp =
     (if strncmp_eq (sv_header pos) (cstr (pk_header req)) (length (sv_header pos)) then sv_func pos req resp
      else svchub_deal_loop rest req resp)"

definition svchub_deal :: "svchub \<Rightarrow> srrp_packet \<Rightarrow> srrp_packet option \<Rightarrow> int \<times> srrp_packet option" where
  "svchub_deal hub req resp = svchub_deal_loop (hub_services hub) req resp"

subsection \<open>Dispatch\<close>

text \<open>The service that a header is dispatched to.\<close>

definition svc_select :: "service list \<Rightarrow> string \<Rightarrow> service option" where
  "svc_select svs header = find (\<lambda>s. prefix (sv_header s) header) svs"

lemma svchub_deal_select:
  "svchub_deal hub req resp =
     (case svc_select (hub_services hub) (cstr (pk_header req)) of
        Some s \<Rightarrow> sv_func s req resp | None \<Rightarrow> (- 1, resp))"
proof -
  have "svchub_deal_loop svs req resp =
     (case svc_select svs (cstr (pk_header req)) of Some s \<Rightarrow> sv_func s req resp | None \<Rightarrow> (- 1, resp))" for svs
    by (induction svs) (simp_all add: svc_select_def strncmp_full_prefix)
  then show ?thesis by (simp add: svchub_deal_def)
qed

lemma svchub_del_select:
  "svchub_del_service hub header =
     (case svc_select (hub_services hub) header of
        Some s \<Rightarrow> (0, hub\<lparr>hub_services := remove1 s (hub_services hub)\<rparr>) | None \<Rightarrow> (- 1, hub))"
proof -
  have "svchub_del_loop svs header = map_option (\<lambda>s. remove1 s svs) (svc_select svs header)" for svs
  proof (induction svs)
    case (Cons s svs)
    have "svc_select svs header = Some x \<Longrightarrow> prefix (sv_header x) header" for x
      by (auto simp: svc_select_def find_Some_iff)
    with Cons show ?case
      by (cases "svc_select svs header"; cases "prefix (sv_header s) header")
        (auto simp: svc_select_def strncmp_full_prefix)
  qed (simp add: svc_select_def)
  then show ?thesis by (simp add: svchub_del_service_def split: option.split)
qed

subsection \<open>Properties\<close>

text \<open>C33: after a service is added, requests whose header starts with its header (its first 63 bytes)
  go to it, every other request goes where it went before, and deleting with a header that starts so
  restores the previous hub.\<close>

theorem svchub_add_deal_del:
  assumes "grant al 88"
  shows "\<exists>hub'. svchub_add_service al hub header func = Inr (0, hub') \<and>
    (\<forall>req resp. svchub_deal hub' req resp =
      (if prefix (take 63 header) (cstr (pk_header req)) then func req resp else svchub_deal hub req resp)) \<and>
    (\<forall>h. prefix (take 63 header) h \<longrightarrow> svchub_del_service hub' h = (0, hub))"
proof -
  let ?hub = "hub\<lparr>hub_services := \<lparr>sv_header = take 63 header, sv_func = func\<rparr> # hub_services hub\<rparr>"
  have "svchub_add_service al hub header func = Inr (0, ?hub)"
    using assms by (simp add: svchub_add_service_def snprintf_s_def SERVICE_HEADER_LEN_def)
  moreover have "svchub_deal ?hub req resp =
      (if prefix (take 63 header) (cstr (pk_header req)) then func req resp else svchub_deal hub req resp)" for req resp
    by (simp add: svchub_deal_select svc_select_def)
  moreover have "svchub_del_service ?hub h = (0, hub)" if "prefix (take 63 header) h" for h
    using that by (simp add: svchub_del_select svc_select_def)
  ultimately show ?thesis by blast
qed

theorem svchub_add_deal_del_witness:
  "\<exists>hub'. svchub_add_service generous \<lparr>hub_services = []\<rparr> ''/0007/echo'' (\<lambda>req resp. (7, Some req)) = Inr (0, hub') \<and>
     svchub_del_service hub' ''/0007/echo'' = (0, \<lparr>hub_services = []\<rparr>)"
  using svchub_add_deal_del [of generous "\<lparr>hub_services = []\<rparr>" "''/0007/echo''" "\<lambda>req resp. (7, Some req)"]
  by (auto simp: generous_def)

text \<open>a request is dispatched to the most recently added service whose header is a prefix of its
  header; deleting by a header that was never added removes a service whose header is a prefix of it,
  although that service was not named.\<close>

theorem svchub_del_by_prefix:
  assumes "s \<in> set (hub_services hub)" and "prefix (sv_header s) header"
  shows "\<exists>hub' s'. svchub_del_service hub header = (0, hub') \<and> s' \<in> set (hub_services hub) \<and>
    prefix (sv_header s') header \<and> hub_services hub' = remove1 s' (hub_services hub) \<and>
    (\<forall>req resp. cstr (pk_header req) = header \<longrightarrow> svchub_deal hub req resp = sv_func s' req resp)"
proof -
  obtain s' where s': "svc_select (hub_services hub) header = Some s'"
    using assms by (cases "svc_select (hub_services hub) header") (auto simp: svc_select_def find_None_iff)
  then have "s' \<in> set (hub_services hub)" "prefix (sv_header s') header"
    by (auto simp: svc_select_def find_Some_iff)
  with s' show ?thesis
    by (auto simp: svchub_del_select svchub_deal_select)
qed

theorem svchub_del_by_prefix_witness:
  "\<exists>hub'. svchub_del_service \<lparr>hub_services = [\<lparr>sv_header = ''/a'', sv_func = \<lambda>req resp. (0, resp)\<rparr>]\<rparr> ''/ab'' = (0, hub') \<and>
     hub_services hub' = []"
  using svchub_del_by_prefix [of "\<lparr>sv_header = ''/a'', sv_func = \<lambda>req resp. (0, resp)\<rparr>"
      "\<lparr>hub_services = [\<lparr>sv_header = ''/a'', sv_func = \<lambda>req resp. (0, resp)\<rparr>]\<rparr>" "''/ab''"]
  by auto

end
