(* ===== verification/Byte_Fifo.thy ===== *)
theory Byte_Fifo
  imports Cx_Prelude
begin

text \<open>
  The contract that both byte buffers of the library promise their clients: bytes come out in the
  order they went in. \<open>content\<close> is the abstraction to the list of the stored bytes, \<open>room\<close> a bound
  below which a write is taken whole, \<open>put\<close> and \<open>get\<close> the write and read calls. The locale derives
  once what a client needs of a sequence of writes; \<open>Atbuf\<close> and \<open>Ringbuf\<close> interpret it.
\<close>

primrec puts :: "('b \<Rightarrow> string \<Rightarrow> (nat \<times> 'b) res) \<Rightarrow> 'b \<Rightarrow> string list \<Rightarrow> 'b res" where
  "puts put b [] = Inr b"
| "puts put b (xs # xss) = bindR (put b xs) (\<lambda>(_, b'). puts put b' xss)"

locale byte_fifo =
  fixes invar :: "'b \<Rightarrow> bool"
    and content :: "'b \<Rightarrow> string"
    and room :: "'b \<Rightarrow> nat"
    and put :: "'b \<Rightarrow> string \<Rightarrow> (nat \<times> 'b) res"
    and get :: "'b \<Rightarrow> nat \<Rightarrow> (string \<times> 'b) res"
  assumes put_ok: "invar b \<Longrightarrow> length xs < room b \<Longrightarrow>
      \<exists>b'. put b xs = Inr (length xs, b') \<and> invar b' \<and> content b' = content b @ xs \<and>
           room b \<le> room b' + length xs"
    and get_all: "invar b \<Longrightarrow> length (content b) \<le> n \<Longrightarrow>
      \<exists>b'. get b n = Inr (content b, b') \<and> invar b' \<and> content b' = []"
begin

lemma puts_ok:
  "invar b \<Longrightarrow> length (concat xss) < room b \<Longrightarrow>
     \<exists>b'. puts put b xss = Inr b' \<and> invar b' \<and> content b' = content b @ concat xss"
proof (induction xss arbitrary: b)
  case Nil
  then show ?case by simp
next
  case (Cons xs xss)
  from Cons.prems put_ok [of b xs] obtain b1 where
    b1: "put b xs = Inr (length xs, b1)" "invar b1" "content b1 = content b @ xs"
      "room b \<le> room b1 + length xs" by auto
  with Cons.prems have "length (concat xss) < room b1" by simp
  from Cons.IH [OF b1(2) this] b1 show ?case by auto
qed

text \<open>Whatever is written in pieces is read back whole, in order.\<close>

lemma puts_then_get:
  assumes "invar b" and "content b = []" and "length (concat xss) < room b"
    and "length (concat xss) \<le> n"
  shows "\<exists>b'. bindR (puts put b xss) (\<lambda>b1. get b1 n) = Inr (concat xss, b') \<and>
     invar b' \<and> content b' = []"
proof -
  from puts_ok [OF assms(1,3)] assms(2) obtain b1 where
    b1: "puts put b xss = Inr b1" "invar b1" "content b1 = concat xss" by auto
  with get_all [OF b1(2), of n] assms(4) show ?thesis by auto
qed

end

end
