(* ===== verification/Atbuf.thy ===== *)
theory Atbuf
  imports Byte_Fifo
begin

text \<open>
  \<open>src/atbuf.c\<close>: the growing byte buffer behind every receive queue. The record is the C struct;
  \<open>rawbuf\<close> is the allocated block, so that its length is what was really allocated and every access
  is checked against it. The lemmas show the struct invariant, that the stored bytes are a FIFO,
  that tidying never loses a byte and always leaves a terminator, and exactly which writes abort.
\<close>

subsection \<open>State and operations\<close>

record atbuf =
  ab_rawbuf :: mem
  ab_size :: nat
  ab_offset_in :: nat
  ab_offset_out :: nat

definition ATBUF_DEFAULT_SIZE :: nat where
  "ATBUF_DEFAULT_SIZE = 4096"

definition atbuf_new :: "allocator \<Rightarrow> nat \<Rightarrow> atbuf option" where
  "atbuf_new al sz0 =
     (let sz = (if sz0 = 0 then ATBUF_DEFAULT_SIZE else sz0)
      in if \<not> grant al 32 then None
         else case calloc_c al sz of
           None \<Rightarrow> None
         | Some raw \<Rightarrow> Some \<lparr>ab_rawbuf = raw, ab_size = sz, ab_offset_in = 0, ab_offset_out = 0\<rparr>)"

definition atbuf_realloc :: "allocator \<Rightarrow> atbuf \<Rightarrow> nat \<Rightarrow> int \<times> atbuf" where
  "atbuf_realloc al b len =
     (case realloc_c al (ab_rawbuf b) len of
        Some newbuf \<Rightarrow> (0, b\<lparr>ab_rawbuf := newbuf, ab_size := len\<rparr>)
      | None \<Rightarrow> (-1, b))"

definition atbuf_read_pos :: "atbuf \<Rightarrow> nat" where
  "atbuf_read_pos b = ab_offset_out b"

definition atbuf_write_pos :: "atbuf \<Rightarrow> nat" where
  "atbuf_write_pos b = ab_offset_in b"

definition atbuf_size :: "atbuf \<Rightarrow> nat" where
  "atbuf_size b = ab_size b"

definition atbuf_garbage :: "atbuf \<Rightarrow> nat" where
  "atbuf_garbage b = ab_offset_out b"

definition atbuf_used :: "atbuf \<Rightarrow> nat" where
  "atbuf_used b = size_sub (ab_offset_in b) (ab_offset_out b)"

definition atbuf_spare :: "atbuf \<Rightarrow> nat" where
  "atbuf_spare b = size_sub (ab_size b) (ab_offset_in b)"

text \<open>\<open>atbuf_tidy\<close>: rewind, or move the pending bytes to the front, then store the terminator.\<close>

definition atbuf_compact :: "atbuf \<Rightarrow> atbuf res" where
  "atbuf_compact b =
     (if atbuf_used b = 0 then Inr (b\<lparr>ab_offset_in := 0, ab_offset_out := 0\<rparr>)
      else if atbuf_spare b < size_shr (ab_size b) 2 \<or> atbuf_garbage b > size_shr (ab_size b) 2
      then bindR (mem_read (ab_rawbuf b) (atbuf_read_pos b) (atbuf_used b)) (\<lambda>moved.
           bindR (mem_write (ab_rawbuf b) 0 moved) (\<lambda>raw.
             Inr (b\<lparr>ab_rawbuf := raw, ab_offset_in := atbuf_used b, ab_offset_out := 0\<rparr>)))
      else Inr b)"

definition atbuf_tidy :: "atbuf \<Rightarrow> (nat \<times> atbuf) res" where
  "atbuf_tidy b =
     bindR (atbuf_compact b) (\<lambda>b1.
     bindR (mem_write (ab_rawbuf b1) (ab_offset_in b1) [NUL]) (\<lambda>raw.
       let b2 = b1\<lparr>ab_rawbuf := raw\<rparr> in Inr (atbuf_spare b2, b2)))"

definition atbuf_read_advance :: "atbuf \<Rightarrow> nat \<Rightarrow> (nat \<times> atbuf) res" where
  "atbuf_read_advance b len =
     (let b1 = (if size_add (ab_offset_out b) len > ab_offset_in b
                then b\<lparr>ab_offset_out := ab_offset_in b\<rparr>
                else b\<lparr>ab_offset_out := size_add (ab_offset_out b) len\<rparr>)
      in bindR (atbuf_tidy b1) (\<lambda>(_, b2). Inr (atbuf_used b2, b2)))"

definition atbuf_write_advance :: "atbuf \<Rightarrow> nat \<Rightarrow> (nat \<times> atbuf) res" where
  "atbuf_write_advance b len =
     assertR (size_add (ab_offset_in b) len < ab_size b)
       (let b1 = b\<lparr>ab_offset_in := size_add (ab_offset_in b) len\<rparr>
        in bindR (atbuf_tidy b1) (\<lambda>(_, b2). Inr (atbuf_spare b2, b2)))"

definition atbuf_peek :: "atbuf \<Rightarrow> nat \<Rightarrow> (nat \<times> mem) res" where
  "atbuf_peek b len =
     (let n = (if len \<le> atbuf_used b then len else atbuf_used b)
      in bindR (mem_read (ab_rawbuf b) (atbuf_read_pos b) n) (\<lambda>out. Inr (n, out)))"

text \<open>\<open>int nread\<close>: the count passes through a 32-bit signed integer before it is used again.\<close>

definition size_via_int :: "nat \<Rightarrow> nat" where
  "size_via_int n = (let m = n mod 2 ^ 32 in if m < 2 ^ 31 then m else m + (size_mod - 2 ^ 32))"

definition atbuf_read :: "atbuf \<Rightarrow> nat \<Rightarrow> (nat \<times> mem \<times> atbuf) res" where
  "atbuf_read b len =
     bindR (atbuf_peek b len) (\<lambda>(n, out).
     bindR (atbuf_read_advance b (size_via_int n)) (\<lambda>(_, b1).
       Inr (size_via_int n, out, b1)))"

text \<open>\<open>atbuf_write\<close>: first its growing branch, then the copy of what fits.\<close>

definition atbuf_make_room :: "allocator \<Rightarrow> atbuf \<Rightarrow> nat \<Rightarrow> atbuf res" where
  "atbuf_make_room al b len =
     (if len > atbuf_spare b
      then bindR (atbuf_tidy b) (\<lambda>(_, b1).
           Inr (snd (atbuf_realloc al b1
             (if ab_size b1 > len then size_shl (ab_size b1) 1 else size_shl len 1))))
      else Inr b)"

definition atbuf_write :: "allocator \<Rightarrow> atbuf \<Rightarrow> mem \<Rightarrow> nat \<Rightarrow> (nat \<times> atbuf) res" where
  "atbuf_write al b ptr len =
     bindR (atbuf_make_room al b len) (\<lambda>b2.
     let n = (if len \<le> atbuf_spare b2 then len else atbuf_spare b2)
     in bindR (mem_read ptr 0 n) (\<lambda>src.
        bindR (mem_write (ab_rawbuf b2) (atbuf_write_pos b2) src) (\<lambda>raw.
        bindR (atbuf_write_advance (b2\<lparr>ab_rawbuf := raw\<rparr>) n) (\<lambda>(_, b3).
          Inr (n, b3)))))"

subsection \<open>Invariant and abstraction\<close>

text \<open>
  The offsets lie inside the block and the write offset leaves room for the terminator. The
  stored bytes are those between the offsets.
\<close>

definition atbuf_inv :: "atbuf \<Rightarrow> bool" where
  "atbuf_inv b \<longleftrightarrow> length (ab_rawbuf b) = ab_size b \<and> ab_offset_out b \<le> ab_offset_in b \<and>
     ab_offset_in b < ab_size b \<and> ab_size b < size_mod"

definition atbuf_content :: "atbuf \<Rightarrow> string" where
  "atbuf_content b = take (ab_offset_in b - ab_offset_out b) (drop (ab_offset_out b) (ab_rawbuf b))"

definition atbuf_ended :: "atbuf \<Rightarrow> bool" where
  "atbuf_ended b \<longleftrightarrow> ab_offset_in b < length (ab_rawbuf b) \<and> ab_rawbuf b ! ab_offset_in b = NUL"

lemma atbuf_used_eq: "atbuf_inv b \<Longrightarrow> atbuf_used b = length (atbuf_content b)"
  by (auto simp: atbuf_inv_def atbuf_used_def atbuf_content_def size_sub_exact)

lemma atbuf_used_offsets: "atbuf_inv b \<Longrightarrow> atbuf_used b = ab_offset_in b - ab_offset_out b"
  by (simp add: atbuf_inv_def atbuf_used_def size_sub_exact)

lemma atbuf_spare_eq: "atbuf_inv b \<Longrightarrow> atbuf_spare b = ab_size b - ab_offset_in b"
  by (simp add: atbuf_inv_def atbuf_spare_def size_sub_exact)

lemma atbuf_store_end:
  assumes "atbuf_inv b"
  obtains raw where "mem_write (ab_rawbuf b) (ab_offset_in b) [NUL] = Inr raw"
    and "atbuf_inv (b\<lparr>ab_rawbuf := raw\<rparr>)" and "atbuf_content (b\<lparr>ab_rawbuf := raw\<rparr>) = atbuf_content b"
    and "atbuf_ended (b\<lparr>ab_rawbuf := raw\<rparr>)"
proof
  let ?raw = "take (ab_offset_in b) (ab_rawbuf b) @ [NUL] @ drop (Suc (ab_offset_in b)) (ab_rawbuf b)"
  show "mem_write (ab_rawbuf b) (ab_offset_in b) [NUL] = Inr ?raw"
    using assms by (simp add: atbuf_inv_def mem_write_ok)
  show "atbuf_inv (b\<lparr>ab_rawbuf := ?raw\<rparr>)" "atbuf_ended (b\<lparr>ab_rawbuf := ?raw\<rparr>)"
    using assms by (auto simp: atbuf_inv_def atbuf_ended_def nth_append)
  show "atbuf_content (b\<lparr>ab_rawbuf := ?raw\<rparr>) = atbuf_content b"
    using assms by (auto simp: atbuf_inv_def atbuf_content_def drop_take)
qed

lemma atbuf_compact_spec:
  assumes inv: "atbuf_inv b"
  obtains b1 where "atbuf_compact b = Inr b1" and "atbuf_inv b1"
    and "atbuf_content b1 = atbuf_content b" and "ab_size b1 = ab_size b"
    and "ab_offset_in b1 \<le> ab_offset_in b"
proof -
  have le: "length (atbuf_content b) \<le> ab_offset_in b" by (simp add: atbuf_content_def)
  let ?front = "b\<lparr>ab_rawbuf := atbuf_content b @ drop (length (atbuf_content b)) (ab_rawbuf b),
    ab_offset_in := length (atbuf_content b), ab_offset_out := 0\<rparr>"
  have rd: "mem_read (ab_rawbuf b) (atbuf_read_pos b) (length (atbuf_content b)) = Inr (atbuf_content b)"
    using inv by (auto simp: mem_read_ok atbuf_read_pos_def atbuf_inv_def atbuf_content_def)
  have front: "atbuf_inv ?front" "atbuf_content ?front = atbuf_content b"
    using inv le by (auto simp: atbuf_inv_def) (simp add: atbuf_content_def)
  have rewind: "atbuf_inv (b\<lparr>ab_offset_in := 0, ab_offset_out := 0\<rparr>)"
    "atbuf_content (b\<lparr>ab_offset_in := 0, ab_offset_out := 0\<rparr>) = []"
    using inv by (auto simp: atbuf_inv_def atbuf_content_def)
  have wr: "mem_write (ab_rawbuf b) 0 (atbuf_content b) =
      Inr (atbuf_content b @ drop (length (atbuf_content b)) (ab_rawbuf b))"
    using inv le by (auto simp: mem_write_ok atbuf_inv_def)
  define b1 where "b1 = (if atbuf_content b = [] then b\<lparr>ab_offset_in := 0, ab_offset_out := 0\<rparr>
      else if atbuf_spare b < size_shr (ab_size b) 2 \<or> atbuf_garbage b > size_shr (ab_size b) 2
      then ?front else b)"
  have "atbuf_compact b = Inr b1"
    using inv by (simp add: atbuf_compact_def atbuf_used_eq rd wr b1_def)
  moreover have "atbuf_inv b1" "atbuf_content b1 = atbuf_content b" "ab_size b1 = ab_size b"
    "ab_offset_in b1 \<le> ab_offset_in b"
    using inv front rewind le by (simp_all add: b1_def)
  ultimately show thesis by (rule that)
qed

text \<open>Tidying changes where the bytes lie, never which bytes are stored.\<close>

lemma atbuf_tidy_spec:
  assumes "atbuf_inv b"
  obtains b' where "atbuf_tidy b = Inr (atbuf_spare b', b')" and "atbuf_inv b'"
    and "atbuf_content b' = atbuf_content b" and "atbuf_ended b'" and "ab_size b' = ab_size b"
    and "ab_offset_in b' \<le> ab_offset_in b"
proof -
  obtain b1 where b1: "atbuf_compact b = Inr b1" "atbuf_inv b1" "atbuf_content b1 = atbuf_content b"
    "ab_size b1 = ab_size b" "ab_offset_in b1 \<le> ab_offset_in b"
    using atbuf_compact_spec [OF assms] .
  obtain raw where "mem_write (ab_rawbuf b1) (ab_offset_in b1) [NUL] = Inr raw"
    "atbuf_inv (b1\<lparr>ab_rawbuf := raw\<rparr>)" "atbuf_content (b1\<lparr>ab_rawbuf := raw\<rparr>) = atbuf_content b1"
    "atbuf_ended (b1\<lparr>ab_rawbuf := raw\<rparr>)" using atbuf_store_end [OF b1(2)] .
  with b1 show thesis
    by (intro that [of "b1\<lparr>ab_rawbuf := raw\<rparr>"]) (simp_all add: atbuf_tidy_def Let_def)
qed

text \<open>Advancing the read offset drops a prefix, advancing the write offset admits what was stored.\<close>

lemma atbuf_read_advance_spec:
  assumes inv: "atbuf_inv b" and len: "ab_offset_out b + len < size_mod"
  obtains b' where "atbuf_read_advance b len = Inr (atbuf_used b', b')" and "atbuf_inv b'"
    and "atbuf_content b' = drop len (atbuf_content b)" and "atbuf_ended b'"
    and "ab_size b' = ab_size b"
proof -
  let ?out = "if ab_offset_in b < ab_offset_out b + len then ab_offset_in b else ab_offset_out b + len"
  let ?b1 = "b\<lparr>ab_offset_out := ?out\<rparr>"
  have "atbuf_inv ?b1" using inv by (auto simp: atbuf_inv_def)
  moreover have "atbuf_content ?b1 = drop len (atbuf_content b)"
    using inv by (auto simp: atbuf_inv_def atbuf_content_def drop_take add.commute)
  moreover obtain b' where "atbuf_tidy ?b1 = Inr (atbuf_spare b', b')" "atbuf_inv b'"
    "atbuf_content b' = atbuf_content ?b1" "atbuf_ended b'" "ab_size b' = ab_size ?b1"
    using atbuf_tidy_spec [OF \<open>atbuf_inv ?b1\<close>] by blast
  moreover have "atbuf_read_advance b len = bindR (atbuf_tidy ?b1) (\<lambda>(_, b2). Inr (atbuf_used b2, b2))"
    using len by (auto simp: atbuf_read_advance_def Let_def size_add_exact)
  ultimately show thesis by (intro that [of b']) auto
qed

lemma atbuf_write_advance_spec:
  assumes inv: "atbuf_inv b" and len: "ab_offset_in b + len < ab_size b"
  obtains b' where "atbuf_write_advance b len = Inr (atbuf_spare b', b')" and "atbuf_inv b'"
    and "atbuf_content b' = atbuf_content b @ take len (drop (ab_offset_in b) (ab_rawbuf b))"
    and "atbuf_ended b'" and "ab_size b' = ab_size b" and "ab_offset_in b' \<le> ab_offset_in b + len"
proof -
  let ?b1 = "b\<lparr>ab_offset_in := ab_offset_in b + len\<rparr>"
  have "atbuf_inv ?b1" using inv len by (auto simp: atbuf_inv_def)
  moreover have "atbuf_content ?b1 = atbuf_content b @ take len (drop (ab_offset_in b) (ab_rawbuf b))"
  proof -
    obtain k where "ab_offset_in b = ab_offset_out b + k"
      using inv by (auto simp: atbuf_inv_def dest: le_Suc_ex)
    then show ?thesis by (simp add: atbuf_content_def take_add add.commute)
  qed
  moreover obtain b' where "atbuf_tidy ?b1 = Inr (atbuf_spare b', b')" "atbuf_inv b'"
    "atbuf_content b' = atbuf_content ?b1" "atbuf_ended b'" "ab_size b' = ab_size ?b1"
    "ab_offset_in b' \<le> ab_offset_in ?b1"
    using atbuf_tidy_spec [OF \<open>atbuf_inv ?b1\<close>] by blast
  moreover have "size_add (ab_offset_in b) len = ab_offset_in b + len"
    using inv len by (simp add: atbuf_inv_def size_add_exact)
  ultimately show thesis using len
    by (intro that [of b']) (auto simp: atbuf_write_advance_def Let_def)
qed

lemma atbuf_new_spec:
  assumes "atbuf_new al sz = Some b" and "sz < size_mod"
  shows "atbuf_inv b \<and> atbuf_content b = [] \<and> atbuf_ended b \<and>
    ab_size b = (if sz = 0 then 4096 else sz)"
  using assms by (auto simp: atbuf_new_def Let_def atbuf_inv_def atbuf_content_def atbuf_ended_def
      calloc_c_def ATBUF_DEFAULT_SIZE_def size_mod_def split: if_splits option.splits)

lemma atbuf_peek_spec:
  assumes "atbuf_inv b"
  shows "atbuf_peek b len = Inr (length (take len (atbuf_content b)), take len (atbuf_content b))"
proof -
  let ?n = "if len \<le> length (atbuf_content b) then len else length (atbuf_content b)"
  have "mem_read (ab_rawbuf b) (ab_offset_out b) ?n = Inr (take len (atbuf_content b))"
    using assms by (auto simp: mem_read_def atbuf_inv_def atbuf_content_def min_def)
  then show ?thesis using assms
    by (auto simp: atbuf_peek_def Let_def atbuf_used_eq atbuf_read_pos_def)
qed

lemma size_via_int_small: "n < 2 ^ 31 \<Longrightarrow> size_via_int n = n"
  by (simp add: size_via_int_def)

lemma atbuf_read_spec:
  assumes inv: "atbuf_inv b" and small: "ab_size b \<le> 2 ^ 31"
  obtains b' where "atbuf_read b len =
      Inr (length (take len (atbuf_content b)), take len (atbuf_content b), b')"
    and "atbuf_inv b'" and "atbuf_content b' = drop len (atbuf_content b)" and "atbuf_ended b'"
    and "ab_size b' = ab_size b"
proof -
  let ?n = "length (take len (atbuf_content b))"
  have "length (atbuf_content b) < ab_size b" using inv
    by (auto simp: atbuf_inv_def atbuf_content_def)
  then have n: "?n < 2 ^ 31" using small by simp
  have "ab_offset_out b + ?n < size_mod" using inv by (auto simp: atbuf_inv_def atbuf_content_def)
  then obtain b' where b': "atbuf_read_advance b ?n = Inr (atbuf_used b', b')" "atbuf_inv b'"
    "atbuf_content b' = drop ?n (atbuf_content b)" "atbuf_ended b'" "ab_size b' = ab_size b"
    using atbuf_read_advance_spec [OF inv] by blast
  have "drop ?n (atbuf_content b) = drop len (atbuf_content b)" by (simp add: min_def)
  with b' show thesis
    by (intro that [of b']) (simp_all only: atbuf_read_def atbuf_peek_spec [OF inv] bindR_simps
        prod.case size_via_int_small [OF n])
qed

text \<open>The growing branch keeps the bytes; when the allocator grants it, more than \<open>len\<close> fit.\<close>

lemma atbuf_make_room_spec:
  assumes inv: "atbuf_inv b" and small: "ab_size b < 2 ^ 62" "len < 2 ^ 62"
  obtains b' where "atbuf_make_room al b len = Inr b'" and "atbuf_inv b'"
    and "atbuf_content b' = atbuf_content b"
    and "atbuf_spare b < len \<Longrightarrow> grant al (if ab_size b > len then 2 * ab_size b else 2 * len) \<Longrightarrow>
         len < atbuf_spare b'"
    and "len \<le> atbuf_spare b \<Longrightarrow> b' = b"
proof (cases "len > atbuf_spare b")
  case False
  with inv show thesis by (intro that [of b]) (auto simp: atbuf_make_room_def)
next
  case True
  obtain b1 where b1: "atbuf_tidy b = Inr (atbuf_spare b1, b1)" "atbuf_inv b1"
    "atbuf_content b1 = atbuf_content b" "ab_size b1 = ab_size b"
    using atbuf_tidy_spec [OF inv] by blast
  let ?sz = "if ab_size b > len then 2 * ab_size b else 2 * len"
  have sz: "?sz = (if ab_size b1 > len then size_shl (ab_size b1) 1 else size_shl len 1)"
    using small by (auto simp: b1(4) size_shl_def size_mod_def)
  have room: "atbuf_make_room al b len = Inr (snd (atbuf_realloc al b1 ?sz))"
    using True by (simp add: atbuf_make_room_def b1(1) sz)
  show thesis
  proof (cases "grant al ?sz")
    case False
    then have "atbuf_make_room al b len = Inr b1"
      using room by (simp add: atbuf_realloc_def realloc_c_def)
    then show thesis using b1 False True by (intro that [of b1]) auto
  next
    case g: True
    let ?b2 = "b1\<lparr>ab_rawbuf := ab_rawbuf b1 @ map (junk al) [length (ab_rawbuf b1)..<?sz], ab_size := ?sz\<rparr>"
    have ge: "ab_size b1 < ?sz" "ab_offset_in b1 < ab_size b1" "length (ab_rawbuf b1) = ab_size b1"
      using b1(2,4) by (auto simp: atbuf_inv_def)
    have eq: "atbuf_make_room al b len = Inr ?b2"
      using g ge room by (auto simp: atbuf_realloc_def realloc_c_def)
    have inv2: "atbuf_inv ?b2" using b1(2) ge small
      by (auto simp: atbuf_inv_def size_mod_def)
    moreover have "atbuf_content ?b2 = atbuf_content b"
      using b1(2,3) by (auto simp: atbuf_content_def atbuf_inv_def)
    moreover have "len < atbuf_spare ?b2"
      using ge b1(4) inv2 by (auto simp: atbuf_spare_eq)
    ultimately show thesis using True eq by (intro that [of ?b2]) auto
  qed
qed

text \<open>The copying branch appends when it leaves room for the terminator and aborts otherwise.\<close>

lemma atbuf_copy_spec:
  assumes inv: "atbuf_inv b" and n: "n < atbuf_spare b" and src: "length src = n"
  obtains raw b' where "mem_write (ab_rawbuf b) (atbuf_write_pos b) src = Inr raw"
    and "atbuf_write_advance (b\<lparr>ab_rawbuf := raw\<rparr>) n = Inr (atbuf_spare b', b')" and "atbuf_inv b'"
    and "atbuf_content b' = atbuf_content b @ src" and "atbuf_ended b'"
    and "ab_size b' = ab_size b" and "ab_offset_in b' \<le> ab_offset_in b + n"
proof -
  let ?raw = "take (ab_offset_in b) (ab_rawbuf b) @ src @ drop (ab_offset_in b + n) (ab_rawbuf b)"
  let ?b1 = "b\<lparr>ab_rawbuf := ?raw\<rparr>"
  have len: "ab_offset_in b + n < ab_size b" using inv n by (simp add: atbuf_spare_eq)
  have w: "mem_write (ab_rawbuf b) (atbuf_write_pos b) src = Inr ?raw"
    using inv len src by (simp add: mem_write_ok atbuf_inv_def atbuf_write_pos_def)
  have inv1: "atbuf_inv ?b1" using inv len src by (auto simp: atbuf_inv_def)
  have c1: "atbuf_content ?b1 = atbuf_content b"
    using inv by (auto simp: atbuf_inv_def atbuf_content_def drop_take)
  obtain b' where b': "atbuf_write_advance ?b1 n = Inr (atbuf_spare b', b')" "atbuf_inv b'"
    "atbuf_content b' = atbuf_content ?b1 @ take n (drop (ab_offset_in ?b1) (ab_rawbuf ?b1))"
    "atbuf_ended b'" "ab_size b' = ab_size ?b1" "ab_offset_in b' \<le> ab_offset_in ?b1 + n"
    using atbuf_write_advance_spec [OF inv1, of n] len by auto
  have "take n (drop (ab_offset_in ?b1) (ab_rawbuf ?b1)) = src"
    using inv src by (auto simp: atbuf_inv_def)
  with b' c1 w show thesis by (intro that [of ?raw b']) simp_all
qed

lemma atbuf_write_unfold:
  assumes "atbuf_make_room al b len = Inr b2" and "len \<le> length ptr"
  shows "atbuf_write al b ptr len =
     (let n = min len (atbuf_spare b2)
      in bindR (mem_write (ab_rawbuf b2) (atbuf_write_pos b2) (take n ptr)) (\<lambda>raw.
         bindR (atbuf_write_advance (b2\<lparr>ab_rawbuf := raw\<rparr>) n) (\<lambda>(_, b3). Inr (n, b3))))"
  using assms by (simp add: atbuf_write_def Let_def mem_read_def min_def)

lemma atbuf_write_fits:
  assumes "atbuf_make_room al b len = Inr b2" and "atbuf_inv b2"
    and "len \<le> length ptr" and "len < atbuf_spare b2"
  obtains b' where "atbuf_write al b ptr len = Inr (len, b')" and "atbuf_inv b'"
    and "atbuf_content b' = atbuf_content b2 @ take len ptr" and "atbuf_ended b'"
    and "ab_size b' = ab_size b2" and "ab_offset_in b' \<le> ab_offset_in b2 + len"
proof -
  have src: "length (take len ptr) = len" and m: "min len (atbuf_spare b2) = len"
    using assms by simp_all
  from atbuf_copy_spec [OF assms(2,4) src] obtain raw b' where
    "mem_write (ab_rawbuf b2) (atbuf_write_pos b2) (take len ptr) = Inr raw"
    "atbuf_write_advance (b2\<lparr>ab_rawbuf := raw\<rparr>) len = Inr (atbuf_spare b', b')" "atbuf_inv b'"
    "atbuf_content b' = atbuf_content b2 @ take len ptr" "atbuf_ended b'"
    "ab_size b' = ab_size b2" "ab_offset_in b' \<le> ab_offset_in b2 + len" .
  then show thesis
    by (intro that [of b']) (simp_all only: atbuf_write_unfold [OF assms(1,3)] m Let_def bindR_simps prod.case)
qed

lemma atbuf_write_full_aborts:
  assumes "atbuf_make_room al b len = Inr b2" and "atbuf_inv b2"
    and "len \<le> length ptr" and "atbuf_spare b2 \<le> len"
  shows "atbuf_write al b ptr len = Inl AssertFail"
proof -
  have m: "min len (atbuf_spare b2) = atbuf_spare b2" using assms(4) by simp
  have "ab_offset_in b2 + atbuf_spare b2 = ab_size b2" "ab_size b2 < size_mod"
    using assms(2) by (auto simp: atbuf_spare_eq atbuf_inv_def)
  then have "size_add (ab_offset_in b2) (atbuf_spare b2) = ab_size b2" by (simp add: size_add_exact)
  then show ?thesis
    unfolding atbuf_write_unfold [OF assms(1,3)] m Let_def
    using assms by (simp add: mem_write_def atbuf_inv_def atbuf_write_pos_def atbuf_spare_eq
        atbuf_write_advance_def)
qed

subsection \<open>The buffer is a byte FIFO\<close>

definition atbuf_put :: "allocator \<Rightarrow> atbuf \<Rightarrow> string \<Rightarrow> (nat \<times> atbuf) res" where
  "atbuf_put al b xs = atbuf_write al b xs (length xs)"

definition atbuf_get :: "atbuf \<Rightarrow> nat \<Rightarrow> (string \<times> atbuf) res" where
  "atbuf_get b n = bindR (atbuf_read b n) (\<lambda>(_, out, b'). Inr (out, b'))"

definition atbuf_usable :: "atbuf \<Rightarrow> bool" where
  "atbuf_usable b \<longleftrightarrow> atbuf_inv b \<and> ab_size b \<le> 2 ^ 31"

interpretation afifo: byte_fifo atbuf_usable atbuf_content atbuf_spare "atbuf_put al" atbuf_get
proof
  fix b :: atbuf and xs :: string
  assume b: "atbuf_usable b" and xs: "length xs < atbuf_spare b"
  then have room: "atbuf_make_room al b (length xs) = Inr b" by (simp add: atbuf_make_room_def)
  from b have inv: "atbuf_inv b" by (simp add: atbuf_usable_def)
  obtain b' where b': "atbuf_write al b xs (length xs) = Inr (length xs, b')" "atbuf_inv b'"
    "atbuf_content b' = atbuf_content b @ xs" "ab_size b' = ab_size b"
    "ab_offset_in b' \<le> ab_offset_in b + length xs"
    using atbuf_write_fits [OF room inv, of xs] xs by (metis order_refl take_all)
  moreover have "atbuf_spare b \<le> atbuf_spare b' + length xs"
    using inv b' by (simp add: atbuf_spare_eq)
  ultimately show "\<exists>b'. atbuf_put al b xs = Inr (length xs, b') \<and> atbuf_usable b' \<and>
      atbuf_content b' = atbuf_content b @ xs \<and> atbuf_spare b \<le> atbuf_spare b' + length xs"
    using b by (auto simp: atbuf_put_def atbuf_usable_def)
next
  fix b :: atbuf and n :: nat
  assume b: "atbuf_usable b" and n: "length (atbuf_content b) \<le> n"
  then have "atbuf_inv b" "ab_size b \<le> 2 ^ 31" by (auto simp: atbuf_usable_def)
  from atbuf_read_spec [OF this, of n] obtain b' where
    "atbuf_read b n = Inr (length (take n (atbuf_content b)), take n (atbuf_content b), b')"
    "atbuf_inv b'" "atbuf_content b' = drop n (atbuf_content b)" "ab_size b' = ab_size b" .
  with b n show "\<exists>b'. atbuf_get b n = Inr (atbuf_content b, b') \<and> atbuf_usable b' \<and>
      atbuf_content b' = []"
    by (auto simp: atbuf_get_def atbuf_usable_def)
qed

subsection \<open>Properties\<close>

text \<open>C29: a write of \<open>len\<close> bytes, other than one that exactly fills the spare space, stores all of
  them behind what the buffer holds, growing the block when needed (and granted by the
  allocator), and leaves the struct invariant and the terminator in place.\<close>

theorem atbuf_write_appends:
  assumes "atbuf_inv b" and "ab_size b < 2 ^ 62" and "len < 2 ^ 62" and "len \<le> length ptr"
    and "len \<noteq> atbuf_spare b"
    and "atbuf_spare b < len \<longrightarrow> grant al (if ab_size b > len then 2 * ab_size b else 2 * len)"
  shows "\<exists>b'. atbuf_write al b ptr len = Inr (len, b') \<and> atbuf_inv b' \<and> atbuf_ended b' \<and>
    atbuf_content b' = atbuf_content b @ take len ptr"
proof -
  obtain b2 where b2: "atbuf_make_room al b len = Inr b2" "atbuf_inv b2"
    "atbuf_content b2 = atbuf_content b"
    "atbuf_spare b < len \<Longrightarrow> grant al (if ab_size b > len then 2 * ab_size b else 2 * len) \<Longrightarrow>
       len < atbuf_spare b2" "len \<le> atbuf_spare b \<Longrightarrow> b2 = b"
    using atbuf_make_room_spec [OF assms(1-3)] by blast
  have "len < atbuf_spare b2" using b2(4,5) assms(5,6) by (cases "atbuf_spare b < len") auto
  then show ?thesis using atbuf_write_fits [OF b2(1,2) assms(4)] b2(3) by metis
qed

definition atbuf_example :: atbuf where
  "atbuf_example = \<lparr>ab_rawbuf = ''abcdefgh'', ab_size = 8, ab_offset_in = 6, ab_offset_out = 1\<rparr>"

theorem atbuf_write_appends_witness:
  "\<exists>b'. atbuf_write generous atbuf_example ''0123456789'' 10 = Inr (10, b') \<and> atbuf_inv b' \<and>
    atbuf_ended b' \<and> atbuf_content b' = ''bcdef0123456789''"
proof -
  have "\<exists>b'. atbuf_write generous atbuf_example ''0123456789'' 10 = Inr (10, b') \<and> atbuf_inv b' \<and>
    atbuf_ended b' \<and> atbuf_content b' = atbuf_content atbuf_example @ take 10 ''0123456789''"
    by (rule atbuf_write_appends)
      (simp_all add: atbuf_example_def atbuf_inv_def size_mod_def generous_def atbuf_spare_def
        size_sub_def)
  then show ?thesis by (simp add: atbuf_example_def atbuf_content_def)
qed

text \<open>a write whose length equals the spare space aborts: the assertion of
  \<open>atbuf_write_advance\<close> wants one byte more than \<open>atbuf_write\<close> keeps free.\<close>

theorem atbuf_write_exact_fit_aborts:
  assumes "atbuf_inv b" and "length ptr = atbuf_spare b"
  shows "atbuf_write al b ptr (length ptr) = Inl AssertFail"
  by (rule atbuf_write_full_aborts [of al b "length ptr" b ptr])
    (use assms in \<open>simp_all add: atbuf_make_room_def\<close>)

theorem atbuf_write_exact_fit_aborts_witness:
  "atbuf_write generous atbuf_example ''xy'' 2 = Inl AssertFail"
proof -
  have "atbuf_write generous atbuf_example ''xy'' (length ''xy'') = Inl AssertFail"
    by (rule atbuf_write_exact_fit_aborts)
      (simp_all add: atbuf_example_def atbuf_inv_def size_mod_def atbuf_spare_def size_sub_def)
  then show ?thesis by (simp add: numeral_2_eq_2)
qed

text \<open>no write accesses memory outside the block, whatever the allocator answers: it aborts
  on the assertion or stores a prefix of the source and keeps the invariant.\<close>

theorem atbuf_write_memory_safe:
  assumes "atbuf_inv b" and "ab_size b < 2 ^ 62" and "len < 2 ^ 62" and "len \<le> length ptr"
  shows "atbuf_write al b ptr len = Inl AssertFail \<or>
    (\<exists>b'. atbuf_write al b ptr len = Inr (len, b') \<and> atbuf_inv b' \<and> atbuf_ended b' \<and>
      atbuf_content b' = atbuf_content b @ take len ptr)"
proof -
  obtain b2 where b2: "atbuf_make_room al b len = Inr b2" "atbuf_inv b2"
    "atbuf_content b2 = atbuf_content b"
    using atbuf_make_room_spec [OF assms(1-3)] by blast
  show ?thesis
  proof (cases "len < atbuf_spare b2")
    case True
    with atbuf_write_fits [OF b2(1,2) assms(4)] b2(3) show ?thesis by metis
  next
    case False
    with atbuf_write_full_aborts [OF b2(1,2) assms(4)] show ?thesis by simp
  qed
qed

theorem atbuf_write_memory_safe_witness:
  "atbuf_write (generous\<lparr>grant := (\<lambda>_. False)\<rparr>) atbuf_example ''0123456789'' 10 \<noteq> Inl OutOfBounds"
proof -
  let ?al = "generous\<lparr>grant := (\<lambda>_. False)\<rparr>"
  have "atbuf_write ?al atbuf_example ''0123456789'' 10 = Inl AssertFail \<or>
    (\<exists>b'. atbuf_write ?al atbuf_example ''0123456789'' 10 = Inr (10, b') \<and> atbuf_inv b' \<and>
      atbuf_ended b' \<and> atbuf_content b' = atbuf_content atbuf_example @ take 10 ''0123456789'')"
    by (rule atbuf_write_memory_safe) (simp_all add: atbuf_example_def atbuf_inv_def size_mod_def)
  then show ?thesis by auto
qed

text \<open>reading \<open>len\<close> bytes delivers the oldest bytes, at most \<open>len\<close> of them, and leaves exactly
  the others.\<close>

theorem atbuf_read_takes_oldest:
  assumes "atbuf_inv b" and "ab_size b \<le> 2 ^ 31"
  shows "\<exists>b'. atbuf_read b len = Inr (min len (length (atbuf_content b)), take len (atbuf_content b), b') \<and>
    atbuf_inv b' \<and> atbuf_ended b' \<and> atbuf_content b' = drop len (atbuf_content b)"
  using atbuf_read_spec [OF assms, of len] by (metis length_take min.commute)

theorem atbuf_read_takes_oldest_witness:
  "\<exists>b'. atbuf_read atbuf_example 2 = Inr (2, ''bc'', b') \<and> atbuf_content b' = ''def''"
proof -
  have "\<exists>b'. atbuf_read atbuf_example 2 =
      Inr (min 2 (length (atbuf_content atbuf_example)), take 2 (atbuf_content atbuf_example), b') \<and>
    atbuf_inv b' \<and> atbuf_ended b' \<and> atbuf_content b' = drop 2 (atbuf_content atbuf_example)"
    by (rule atbuf_read_takes_oldest) (simp_all add: atbuf_example_def atbuf_inv_def size_mod_def)
  then show ?thesis by (auto simp: atbuf_example_def atbuf_content_def)
qed

text \<open>pieces written one after the other into an empty buffer are read back as their
  concatenation.\<close>

theorem atbuf_writes_then_read:
  assumes "atbuf_usable b" and "atbuf_content b = []"
    and "length (concat xss) < atbuf_spare b" and "length (concat xss) \<le> n"
  shows "\<exists>b'. bindR (puts (atbuf_put al) b xss) (\<lambda>b1. atbuf_get b1 n) = Inr (concat xss, b') \<and>
    atbuf_usable b' \<and> atbuf_content b' = []"
  using assms by (rule afifo.puts_then_get)

theorem atbuf_writes_then_read_witness:
  "\<exists>b'. bindR (puts (atbuf_put generous) (the (atbuf_new generous 16)) [''ab'', ''cde'', ''f''])
     (\<lambda>b1. atbuf_get b1 100) = Inr (''abcdef'', b') \<and> atbuf_usable b' \<and> atbuf_content b' = []"
proof -
  let ?b = "the (atbuf_new generous 16)"
  have "atbuf_usable ?b" "atbuf_content ?b = []" "length (concat [''ab'', ''cde'', ''f'']) < atbuf_spare ?b"
    by (simp_all add: atbuf_new_def generous_def calloc_c_def atbuf_usable_def atbuf_inv_def
        atbuf_content_def atbuf_spare_def size_sub_def size_mod_def)
  from atbuf_writes_then_read [OF this, of 100 generous] show ?thesis by simp
qed

end
