(* ===== verification/Apix.thy ===== *)
theory Apix
  imports Atbuf Srrp Crc16
begin

text \<open>
  The message bus (\<open>apix.c\<close>, \<open>apix-private.h\<close>): its state, the parsing of received bytes into
  requests, responses and topic messages, their handling, and the management of sinks and of their
  file descriptors. Each of the bus' lists is the list of the objects on it in order, as justified by
  \<open>Cx_List\<close>. A sink's table of function pointers is found in \<open>env\<close> under the address stored in the
  sink; what \<open>send\<close> transmits is recorded in
  \<open>bus_sent\<close>, and the descriptors given to \<open>close\<close> in \<open>bus_closed\<close>. \<open>now\<close> is the result of \<open>time(0)\<close>, one reading
  per call from outside, and log output is left out. Results are faults or values; the parsing loop
  has fuel, \<open>None\<close> being a loop that has not ended.
\<close>

subsection \<open>State\<close>

definition APISINK_NAME_SIZE :: nat where "APISINK_NAME_SIZE = 64"
definition API_HEADER_SIZE :: nat where "API_HEADER_SIZE = 256"
definition API_TOPIC_SUBSCRIBE_MAX :: nat where "API_TOPIC_SUBSCRIBE_MAX = 32"
definition API_REQUEST_ST_NONE :: nat where "API_REQUEST_ST_NONE = 0"
definition API_REQUEST_ST_WAIT_RESPONSE :: nat where "API_REQUEST_ST_WAIT_RESPONSE = 1"
definition API_REQUEST_TIMEOUT :: nat where "API_REQUEST_TIMEOUT = 3000"
definition PARSE_PACKET_TIMEOUT :: nat where "PARSE_PACKET_TIMEOUT = 1000"
definition APIBUS_IDLE_MAX :: nat where "APIBUS_IDLE_MAX = 1000000"
definition APIBUS_STATION_ALIVE_TIMEOUT :: nat where "APIBUS_STATION_ALIVE_TIMEOUT = 600000"

text \<open>The last two fields are those that \<open>struct posix_sink\<close> has around its \<open>struct apisink\<close>: the set of
  descriptors given to \<open>select\<close> and its bound. A sink of another kind leaves them as they are.\<close>

record apisink =
  sk_name :: string
  sk_ops :: nat
  sk_bus :: bool
  sk_fds :: "int set"
  sk_nfds :: int

record sinkfd =
  sf_fd :: int
  sf_listen :: int
  sf_addr :: string
  sf_txbuf :: atbuf
  sf_rxbuf :: atbuf
  sf_ts_poll_recv :: "nat \<times> nat"
  sf_sink :: "apisink option"

record api_request =
  rq_pac :: srrp_packet
  rq_state :: nat
  rq_ts_create :: nat
  rq_ts_send :: nat
  rq_fd :: int
  rq_crc16 :: "16 word"

record api_response =
  rp_pac :: srrp_packet
  rp_fd :: int

record api_station =
  st_sttid :: "16 word"
  st_ts_alive :: nat
  st_fd :: int

record api_topic_msg =
  tm_pac :: srrp_packet
  tm_fd :: int

text \<open>\<open>tp_fds\<close> holds the first \<open>nfds\<close> elements of the array \<open>fds\<close>.\<close>

record api_topic =
  tp_header :: mem
  tp_fds :: "int list"

record apibus =
  bus_requests :: "api_request list"
  bus_responses :: "api_response list"
  bus_stations :: "api_station list"
  bus_topic_msgs :: "api_topic_msg list"
  bus_topics :: "api_topic list"
  bus_sinkfds :: "sinkfd list"
  bus_sinks :: "apisink list"
  bus_poll_ts :: "nat \<times> nat"
  bus_poll_cnt :: nat
  bus_idle_usec :: nat
  bus_sent :: "(int \<times> mem) list"
  bus_closed :: "int list"

record apisink_ops =
  op_open :: "(apibus \<Rightarrow> apisink \<Rightarrow> string \<Rightarrow> (int \<times> apibus) res) option"
  op_close :: "(apibus \<Rightarrow> apisink \<Rightarrow> int \<Rightarrow> int \<times> apibus) option"
  op_ioctl :: "(int \<Rightarrow> nat \<Rightarrow> nat \<Rightarrow> int) option"
  op_send :: "(int \<Rightarrow> mem \<Rightarrow> int) option"
  op_recv :: "(int \<Rightarrow> nat \<Rightarrow> int \<times> mem) option"
  op_poll :: "(apibus \<Rightarrow> apisink \<Rightarrow> (int \<times> apibus) res) option"

type_synonym env = "nat \<Rightarrow> apisink_ops"

subsection \<open>File descriptors and sinks\<close>

definition find_sinkfd_in_apibus :: "apibus \<Rightarrow> int \<Rightarrow> sinkfd option" where
  "find_sinkfd_in_apibus bus fd = find (\<lambda>pos. sf_fd pos = fd) (bus_sinkfds bus)"

text \<open>The list of a sink's own descriptors: both lists are always changed together.\<close>

definition sink_sinkfds :: "apibus \<Rightarrow> apisink \<Rightarrow> sinkfd list" where
  "sink_sinkfds bus sink =
     filter (\<lambda>pos. map_option sk_name (sf_sink pos) = Some (sk_name sink)) (bus_sinkfds bus)"

definition find_sinkfd_in_apisink :: "apibus \<Rightarrow> apisink \<Rightarrow> int \<Rightarrow> sinkfd option" where
  "find_sinkfd_in_apisink bus sink fd = find (\<lambda>pos. sf_fd pos = fd) (sink_sinkfds bus sink)"

text \<open>A buffer that could not be allocated is a null pointer that its first use dereferences; the
  model faults at once.\<close>

definition sinkfd_new :: "allocator \<Rightarrow> sinkfd res" where
  "sinkfd_new al =
     (if \<not> grant al 144 then Inl NullDeref
      else case (atbuf_new al 0, atbuf_new al 0) of
             (Some tx, Some rx) \<Rightarrow>
               Inr \<lparr>sf_fd = 0, sf_listen = 0, sf_addr = [], sf_txbuf = tx, sf_rxbuf = rx,
                    sf_ts_poll_recv = (0, 0), sf_sink = None\<rparr>
           | _ \<Rightarrow> Inl NullDeref)"

definition sinkfd_destroy :: "apibus \<Rightarrow> sinkfd \<Rightarrow> apibus" where
  "sinkfd_destroy bus sf = bus\<lparr>bus_sinkfds := remove1 sf (bus_sinkfds bus)\<rparr>"

definition apisink_init :: "apisink \<Rightarrow> string \<Rightarrow> nat \<Rightarrow> apisink res" where
  "apisink_init sink name ops =
     assertR (length name < APISINK_NAME_SIZE)
       (Inr (sink\<lparr>sk_name := snprintf_s APISINK_NAME_SIZE name, sk_ops := ops, sk_bus := False\<rparr>))"

definition apibus_add_sink :: "apibus \<Rightarrow> apisink \<Rightarrow> int \<times> apibus" where
  "apibus_add_sink bus sink =
     (if \<exists>pos \<in> set (bus_sinks bus). strcmp_eq (sk_name sink) (sk_name pos) then (- 1, bus)
      else (0, bus\<lparr>bus_sinks := sink\<lparr>sk_bus := True\<rparr> # bus_sinks bus\<rparr>))"

definition apibus_del_sink :: "apibus \<Rightarrow> apisink \<Rightarrow> apisink \<times> apibus" where
  "apibus_del_sink bus sink =
     (sink\<lparr>sk_bus := False\<rparr>, bus\<lparr>bus_sinks := remove1 sink (bus_sinks bus)\<rparr>)"

definition apisink_fini :: "apibus \<Rightarrow> apisink \<Rightarrow> apisink \<times> apibus" where
  "apisink_fini bus sink =
     (let bus1 = foldl sinkfd_destroy bus (sink_sinkfds bus sink)
      in if sk_bus sink then apibus_del_sink bus1 sink else (sink, bus1))"

definition apibus_new :: "allocator \<Rightarrow> apibus res" where
  "apibus_new al =
     (if \<not> grant al 144 then Inl NullDeref
      else Inr \<lparr>bus_requests = [], bus_responses = [], bus_stations = [], bus_topic_msgs = [],
                bus_topics = [], bus_sinkfds = [], bus_sinks = [], bus_poll_ts = (0, 0),
                bus_poll_cnt = 0, bus_idle_usec = 0, bus_sent = [], bus_closed = []\<rparr>)"

text \<open>The loops of \<open>apibus_destroy\<close>, which empty one list after the other.\<close>

fun destroy_sinks_loop :: "apibus \<Rightarrow> apisink list \<Rightarrow> apibus" where
  "destroy_sinks_loop bus [] = bus"
| "destroy_sinks_loop bus (pos # rest) =
     (let (pos1, bus1) = apibus_del_sink bus pos; (pos2, bus2) = apisink_fini bus1 pos1
      in destroy_sinks_loop bus2 rest)"

definition apibus_destroy :: "apibus \<Rightarrow> apibus" where
  "apibus_destroy bus =
     (let bus1 = bus\<lparr>bus_requests := foldl (\<lambda>xs x. remove1 x xs) (bus_requests bus) (bus_requests bus)\<rparr>;
          bus2 = bus1\<lparr>bus_responses := foldl (\<lambda>xs x. remove1 x xs) (bus_responses bus1) (bus_responses bus1)\<rparr>;
          bus3 = bus2\<lparr>bus_stations := foldl (\<lambda>xs x. remove1 x xs) (bus_stations bus2) (bus_stations bus2)\<rparr>;
          bus4 = bus3\<lparr>bus_topic_msgs := foldl (\<lambda>xs x. remove1 x xs) (bus_topic_msgs bus3) (bus_topic_msgs bus3)\<rparr>;
          bus5 = bus4\<lparr>bus_topics := foldl (\<lambda>xs x. remove1 x xs) (bus_topics bus4) (bus_topics bus4)\<rparr>;
          bus6 = foldl sinkfd_destroy bus5 (bus_sinkfds bus5)
      in destroy_sinks_loop bus6 (bus_sinks bus6))"

subsection \<open>Calls through a sink\<close>

definition apibus_open :: "env \<Rightarrow> apibus \<Rightarrow> string \<Rightarrow> string \<Rightarrow> (int \<times> apibus) res" where
  "apibus_open env bus name addr =
     (case find (\<lambda>pos. strcmp_eq (sk_name pos) name) (bus_sinks bus) of
        None \<Rightarrow> Inr (- 1, bus)
      | Some sink \<Rightarrow>
          (case op_open (env (sk_ops sink)) of None \<Rightarrow> Inl AssertFail | Some f \<Rightarrow> f bus sink addr))"

definition apibus_close :: "env \<Rightarrow> apibus \<Rightarrow> int \<Rightarrow> int \<times> apibus" where
  "apibus_close env bus fd =
     (case find_sinkfd_in_apibus bus fd of
        None \<Rightarrow> (- 1, bus)
      | Some sf \<Rightarrow>
          (case sf_sink sf of
             None \<Rightarrow> (0, bus)
           | Some sink \<Rightarrow>
               (case op_close (env (sk_ops sink)) of None \<Rightarrow> (0, bus) | Some f \<Rightarrow> (0, snd (f bus sink fd)))))"

definition apibus_ioctl :: "env \<Rightarrow> apibus \<Rightarrow> int \<Rightarrow> nat \<Rightarrow> nat \<Rightarrow> int" where
  "apibus_ioctl env bus fd cmd arg =
     (case find_sinkfd_in_apibus bus fd of
        None \<Rightarrow> - 1
      | Some sf \<Rightarrow>
          (case sf_sink sf of
             None \<Rightarrow> - 1
           | Some sink \<Rightarrow>
               (case op_ioctl (env (sk_ops sink)) of None \<Rightarrow> - 1 | Some f \<Rightarrow> f fd cmd arg)))"

definition apibus_send :: "env \<Rightarrow> apibus \<Rightarrow> int \<Rightarrow> mem \<Rightarrow> nat \<Rightarrow> (int \<times> apibus) res" where
  "apibus_send env bus fd buf len =
     (case find_sinkfd_in_apibus bus fd of
        None \<Rightarrow> Inr (- 1, bus)
      | Some sf \<Rightarrow>
          (case sf_sink sf of
             None \<Rightarrow> Inr (- 1, bus)
           | Some sink \<Rightarrow>
               (case op_send (env (sk_ops sink)) of
                  None \<Rightarrow> Inr (- 1, bus)
                | Some f \<Rightarrow>
                    bindR (mem_read buf 0 len) (\<lambda>bytes.
                      Inr (f fd bytes, bus\<lparr>bus_sent := bus_sent bus @ [(fd, bytes)]\<rparr>)))))"

definition apibus_recv :: "env \<Rightarrow> apibus \<Rightarrow> int \<Rightarrow> nat \<Rightarrow> int \<times> mem" where
  "apibus_recv env bus fd sz =
     (case find_sinkfd_in_apibus bus fd of
        None \<Rightarrow> (- 1, [])
      | Some sf \<Rightarrow>
          (case sf_sink sf of
             None \<Rightarrow> (- 1, [])
           | Some sink \<Rightarrow>
               (case op_recv (env (sk_ops sink)) of None \<Rightarrow> (- 1, []) | Some f \<Rightarrow> f fd sz)))"

end
