(* ===== verification/Apix_Handlers.thy ===== *)
theory Apix_Handlers
  imports Apix
begin

text \<open>
  The working of the bus (\<open>apix.c\<close>): \<open>parse_packet\<close>, the handlers of requests, responses and topic
  messages, and \<open>apibus_poll\<close>, which runs them. A loop over one of the bus' lists is a recursion over
  that list; an object that is updated in place is replaced in it.
\<close>

subsection \<open>Parsing\<close>

definition rx_bytes :: "sinkfd \<Rightarrow> mem" where
  "rx_bytes sf = drop (atbuf_read_pos (sf_rxbuf sf)) (ab_rawbuf (sf_rxbuf sf))"

definition rx_before :: "sinkfd \<Rightarrow> char option" where
  "rx_before sf =
     (let o1 = atbuf_read_pos (sf_rxbuf sf)
      in if o1 = 0 then None else Some (ab_rawbuf (sf_rxbuf sf) ! (o1 - 1)))"

text \<open>The branch for a buffer in which no packet can be read.\<close>

definition parse_failed :: "nat \<Rightarrow> sinkfd \<Rightarrow> sinkfd res" where
  "parse_failed now sf =
     (if now < fst (sf_ts_poll_recv sf) + PARSE_PACKET_TIMEOUT div 1000 then Inr sf
      else bindR (srrp_next_packet_offset (rx_before sf) (rx_bytes sf)) (\<lambda>offset.
        if offset = - 1 \<or> offset = 0
        then bindR (atbuf_read_advance (sf_rxbuf sf) (atbuf_used (sf_rxbuf sf))) (\<lambda>(_, b).
             Inr (sf\<lparr>sf_rxbuf := b\<rparr>))
        else assertR (nat offset < atbuf_used (sf_rxbuf sf))
             (bindR (atbuf_read_advance (sf_rxbuf sf) (nat offset)) (\<lambda>(_, b).
              Inr (sf\<lparr>sf_rxbuf := b\<rparr>)))))"

text \<open>The branches that queue a packet.\<close>

definition queue_packet :: "allocator \<Rightarrow> nat \<Rightarrow> apibus \<Rightarrow> int \<Rightarrow> srrp_packet \<Rightarrow> apibus res" where
  "queue_packet al now bus fd pac =
     (if pk_leader pac = SRRP_REQUEST_LEADER then
        if \<not> grant al 56 then Inl NullDeref
        else bindR (crc16 (pk_header pac) (int (pk_header_len pac))) (\<lambda>c1.
             bindR (crc16_crc c1 (drop (pk_data pac) (pk_raw pac)) (int (pk_data_len pac))) (\<lambda>c2.
             Inr (bus\<lparr>bus_requests :=
               \<lparr>rq_pac = pac, rq_state = API_REQUEST_ST_NONE, rq_ts_create = now, rq_ts_send = 0,
                rq_fd = fd, rq_crc16 = c2\<rparr> # bus_requests bus\<rparr>)))
      else if pk_leader pac = SRRP_RESPONSE_LEADER then
        if \<not> grant al 32 then Inl NullDeref
        else Inr (bus\<lparr>bus_responses := \<lparr>rp_pac = pac, rp_fd = fd\<rparr> # bus_responses bus\<rparr>)
      else if pk_leader pac \<in> {SRRP_SUBSCRIBE_LEADER, SRRP_UNSUBSCRIBE_LEADER, SRRP_PUBLISH_LEADER} then
        if \<not> grant al 32 then Inl NullDeref
        else Inr (bus\<lparr>bus_topic_msgs := \<lparr>tm_pac = pac, tm_fd = fd\<rparr> # bus_topic_msgs bus\<rparr>)
      else Inr bus)"

fun parse_loop :: "nat \<Rightarrow> allocator \<Rightarrow> nat \<Rightarrow> apibus \<Rightarrow> sinkfd \<Rightarrow> (apibus \<times> sinkfd) res option" where
  "parse_loop 0 al now bus sf = None"
| "parse_loop (Suc fuel) al now bus sf =
     (if atbuf_used (sf_rxbuf sf) = 0 then Some (Inr (bus, sf))
      else case srrp_read_one_packet al (rx_bytes sf) of
             Inl e \<Rightarrow> Some (Inl e)
           | Inr None \<Rightarrow> Some (bindR (parse_failed now sf) (\<lambda>sf1. Inr (bus, sf1)))
           | Inr (Some pac) \<Rightarrow>
               (case bindR (queue_packet al now bus (sf_fd sf) pac) (\<lambda>bus1.
                     bindR (atbuf_read_advance (sf_rxbuf sf) (unat (pk_len pac))) (\<lambda>(_, b).
                       Inr (bus1, sf\<lparr>sf_rxbuf := b\<rparr>))) of
                  Inl e \<Rightarrow> Some (Inl e)
                | Inr (bus1, sf1) \<Rightarrow> parse_loop fuel al now bus1 sf1))"

text \<open>Every packet takes at least one byte, so one round more than there are bytes is enough.\<close>

definition parse_packet :: "allocator \<Rightarrow> nat \<Rightarrow> apibus \<Rightarrow> sinkfd \<Rightarrow> (apibus \<times> sinkfd) res option" where
  "parse_packet al now bus sf = parse_loop (Suc (atbuf_used (sf_rxbuf sf))) al now bus sf"

subsection \<open>Stations\<close>

definition find_station :: "api_station list \<Rightarrow> 16 word \<Rightarrow> api_station option" where
  "find_station stations sttid = find (\<lambda>pos. st_sttid pos = sttid) stations"

text \<open>\<open>src->ts_alive = time(0)\<close> on the station that \<open>find_station\<close> returned.\<close>

fun station_alive :: "nat \<Rightarrow> 16 word \<Rightarrow> api_station list \<Rightarrow> api_station list" where
  "station_alive now sttid [] = []"
| "station_alive now sttid (pos # rest) =
     (if st_sttid pos = sttid then pos\<lparr>st_ts_alive := now\<rparr> # rest else pos # station_alive now sttid rest)"

definition clear_unalive_station :: "nat \<Rightarrow> apibus \<Rightarrow> apibus" where
  "clear_unalive_station now bus =
     bus\<lparr>bus_stations := filter (\<lambda>pos. \<not> now > st_ts_alive pos + APIBUS_STATION_ALIVE_TIMEOUT div 1000)
       (bus_stations bus)\<rparr>"

definition add_station :: "allocator \<Rightarrow> nat \<Rightarrow> apibus \<Rightarrow> api_request \<Rightarrow> apibus res" where
  "add_station al now bus req =
     (if \<not> grant al 40 then Inl NullDeref
      else Inr (bus\<lparr>bus_stations :=
        \<lparr>st_sttid = pk_srcid (rq_pac req), st_ts_alive = now, st_fd = rq_fd req\<rparr> # bus_stations bus\<rparr>))"

text \<open>\<open>sscanf(header, "/%d/", &dstid)\<close>, \<open>None\<close> when its result is not 1; the station number is the
  low half of the \<open>int\<close>.\<close>

definition scan_dstid :: "mem \<Rightarrow> 16 word option res" where
  "scan_dstid header =
     (if \<not> terminated header then Inl OutOfBounds
      else case sscanf [Lit (CHR ''/''), Conv_d, Lit (CHR ''/'')] (cstr header) of
             [IntV dstid] \<Rightarrow> Inr (Some (word_of_int dstid))
           | _ \<Rightarrow> Inr None)"

subsection \<open>Topics\<close>

fun find_topic :: "api_topic list \<Rightarrow> mem \<Rightarrow> nat \<Rightarrow> api_topic option res" where
  "find_topic [] header len = Inr None"
| "find_topic (pos # rest) header len =
     bindR (memcmp_eq (tp_header pos) header len) (\<lambda>e.
       if e then Inr (Some pos) else find_topic rest header len)"

text \<open>
  The loop of \<open>topic_sub_handler\<close> compares with \<open>topic->header\<close>, where \<open>topic\<close> is still \<open>NULL\<close>: it
  dereferences the null pointer on the first topic. Without topics a new one is created.
\<close>

definition topic_sub_handler :: "allocator \<Rightarrow> env \<Rightarrow> apibus \<Rightarrow> api_topic_msg \<Rightarrow> apibus res" where
  "topic_sub_handler al env bus tmsg =
     (case bus_topics bus of
        pos # rest \<Rightarrow> Inl NullDeref
      | [] \<Rightarrow>
          if \<not> grant al 408 then Inl NullDeref
          else if \<not> terminated (pk_header (tm_pac tmsg)) then Inl OutOfBounds
          else let topic = \<lparr>tp_header = padded API_HEADER_SIZE (snprintf_s API_HEADER_SIZE (cstr (pk_header (tm_pac tmsg)))),
                            tp_fds = [tm_fd tmsg]\<rparr>;
                   bus1 = bus\<lparr>bus_topics := [topic]\<rparr>
               in bindR (apibus_send env bus1 (tm_fd tmsg) ''Sub OK'' 6) (\<lambda>(_, bus2). Inr bus2))"

text \<open>The loop of \<open>topic_unsub_handler\<close> over the array: the last element takes the place of a match,
  and the index moves on.\<close>

fun unsub_loop :: "int \<Rightarrow> nat \<Rightarrow> int list \<Rightarrow> nat \<Rightarrow> int list" where
  "unsub_loop fd i fds 0 = fds"
| "unsub_loop fd i fds (Suc k) =
     (if i < length fds
      then if fds ! i = fd then unsub_loop fd (Suc i) (butlast (fds[i := last fds])) k
           else unsub_loop fd (Suc i) fds k
      else fds)"

fun topic_unsub_loop :: "api_topic list \<Rightarrow> mem \<Rightarrow> int \<Rightarrow> api_topic list option" where
  "topic_unsub_loop [] header fd = None"
| "topic_unsub_loop (pos # rest) header fd =
     (if strcmp_eq (cstr (tp_header pos)) (cstr header)
      then Some (pos\<lparr>tp_fds := unsub_loop fd 0 (tp_fds pos) (length (tp_fds pos))\<rparr> # rest)
      else map_option ((#) pos) (topic_unsub_loop rest header fd))"

text \<open>When no topic matches, the loop variable is left pointing at the list head taken for a topic,
  which is not \<open>NULL\<close>, and its fields are used.\<close>

definition topic_unsub_handler :: "env \<Rightarrow> apibus \<Rightarrow> api_topic_msg \<Rightarrow> apibus res" where
  "topic_unsub_handler env bus tmsg =
     (case topic_unsub_loop (bus_topics bus) (pk_header (tm_pac tmsg)) (tm_fd tmsg) of
        None \<Rightarrow> Inl BadPointer
      | Some topics \<Rightarrow>
          bindR (apibus_send env (bus\<lparr>bus_topics := topics\<rparr>) (tm_fd tmsg) ''Unsub OK'' 8) (\<lambda>(_, bus2).
            Inr bus2))"

fun send_all :: "env \<Rightarrow> apibus \<Rightarrow> int list \<Rightarrow> mem \<Rightarrow> nat \<Rightarrow> apibus res" where
  "send_all env bus [] buf len = Inr bus"
| "send_all env bus (fd # fds) buf len =
     bindR (apibus_send env bus fd buf len) (\<lambda>(_, bus1). send_all env bus1 fds buf len)"

definition topic_pub_handler :: "env \<Rightarrow> apibus \<Rightarrow> api_topic_msg \<Rightarrow> apibus res" where
  "topic_pub_handler env bus tmsg =
     bindR (find_topic (bus_topics bus) (pk_header (tm_pac tmsg)) (pk_header_len (tm_pac tmsg))) (\<lambda>t.
       case t of
         Some topic \<Rightarrow> send_all env bus (tp_fds topic) (pk_raw (tm_pac tmsg)) (unat (pk_len (tm_pac tmsg)))
       | None \<Rightarrow> Inr bus)"

subsection \<open>The three queues\<close>

text \<open>One request: the bus afterwards, and the request if it stays on the list.\<close>

definition request_timed_out :: "nat \<Rightarrow> api_request \<Rightarrow> bool" where
  "request_timed_out now r \<longleftrightarrow> \<not> now < rq_ts_send r + API_REQUEST_TIMEOUT div 1000"

definition not_found :: "env \<Rightarrow> apibus \<Rightarrow> api_request \<Rightarrow> (apibus \<times> api_request option) res" where
  "not_found env bus r =
     bindR (apibus_send env bus (rq_fd r) ''STATION NOT FOUND'' 17) (\<lambda>(_, bus1). Inr (bus1, None))"

definition handle_one_request ::
  "allocator \<Rightarrow> env \<Rightarrow> nat \<Rightarrow> apibus \<Rightarrow> api_request \<Rightarrow> (apibus \<times> api_request option) res" where
  "handle_one_request al env now bus r =
     (if rq_state r = API_REQUEST_ST_WAIT_RESPONSE then
        if \<not> request_timed_out now r then Inr (bus, Some r)
        else bindR (apibus_send env bus (rq_fd r) ''request timeout'' 15) (\<lambda>(_, bus1). Inr (bus1, None))
      else
        bindR (case find_station (bus_stations bus) (pk_srcid (rq_pac r)) of
                 None \<Rightarrow> add_station al now bus r
               | Some src \<Rightarrow>
                   Inr (bus\<lparr>bus_stations := station_alive now (pk_srcid (rq_pac r)) (bus_stations bus)\<rparr>)) (\<lambda>bus1.
        bindR (scan_dstid (pk_header (rq_pac r))) (\<lambda>d.
          case d of
            None \<Rightarrow> not_found env bus1 r
          | Some dstid \<Rightarrow>
              (case find_station (bus_stations bus1) dstid of
                 None \<Rightarrow> not_found env bus1 r
               | Some dst \<Rightarrow>
                   bindR (apibus_send env bus1 (st_fd dst) (pk_raw (rq_pac r)) (unat (pk_len (rq_pac r)))) (\<lambda>(_, bus2).
                     Inr (bus2, Some (r\<lparr>rq_state := API_REQUEST_ST_WAIT_RESPONSE, rq_ts_send := now\<rparr>)))))))"

fun handle_request_loop ::
  "allocator \<Rightarrow> env \<Rightarrow> nat \<Rightarrow> apibus \<Rightarrow> api_request list \<Rightarrow> (apibus \<times> api_request list) res" where
  "handle_request_loop al env now bus [] = Inr (bus, [])"
| "handle_request_loop al env now bus (pos # rest) =
     bindR (handle_one_request al env now bus pos) (\<lambda>(bus1, kept).
     bindR (handle_request_loop al env now bus1 rest) (\<lambda>(bus2, kepts).
       Inr (bus2, (case kept of None \<Rightarrow> kepts | Some r \<Rightarrow> r # kepts))))"

definition handle_request :: "allocator \<Rightarrow> env \<Rightarrow> nat \<Rightarrow> apibus \<Rightarrow> apibus res" where
  "handle_request al env now bus =
     bindR (handle_request_loop al env now bus (bus_requests bus)) (\<lambda>(bus1, kept).
       Inr (bus1\<lparr>bus_requests := kept\<rparr>))"

definition answers :: "api_response \<Rightarrow> api_request \<Rightarrow> bool" where
  "answers resp r \<longleftrightarrow> rq_crc16 r = pk_reqcrc16 (rp_pac resp) \<and>
     strcmp_eq (cstr (pk_header (rq_pac r))) (cstr (pk_header (rp_pac resp))) \<and>
     pk_srcid (rq_pac r) = pk_srcid (rp_pac resp)"

text \<open>The inner loop: the first request that the response answers, and the list without it.\<close>

fun take_answered :: "api_response \<Rightarrow> api_request list \<Rightarrow> (api_request \<times> api_request list) option" where
  "take_answered resp [] = None"
| "take_answered resp (r # rest) =
     (if answers resp r then Some (r, rest)
      else map_option (\<lambda>(x, xs). (x, r # xs)) (take_answered resp rest))"

definition handle_one_response :: "env \<Rightarrow> nat \<Rightarrow> apibus \<Rightarrow> api_response \<Rightarrow> apibus res" where
  "handle_one_response env now bus resp =
     bindR (case take_answered resp (bus_requests bus) of
              None \<Rightarrow> Inr bus
            | Some (r, rest) \<Rightarrow>
                bindR (apibus_send env bus (rq_fd r) (pk_raw (rp_pac resp)) (unat (pk_len (rp_pac resp)))) (\<lambda>(_, bus1).
                  Inr (bus1\<lparr>bus_requests := rest\<rparr>))) (\<lambda>bus2.
     bindR (scan_dstid (pk_header (rp_pac resp))) (\<lambda>d.
       case d of
         None \<Rightarrow> Inr bus2
       | Some dstid \<Rightarrow> Inr (bus2\<lparr>bus_stations := station_alive now dstid (bus_stations bus2)\<rparr>)))"

fun handle_response_loop :: "env \<Rightarrow> nat \<Rightarrow> apibus \<Rightarrow> api_response list \<Rightarrow> apibus res" where
  "handle_response_loop env now bus [] = Inr bus"
| "handle_response_loop env now bus (pos # rest) =
     bindR (handle_one_response env now bus pos) (\<lambda>bus1.
       handle_response_loop env now (bus1\<lparr>bus_responses := rest\<rparr>) rest)"

definition handle_response :: "env \<Rightarrow> nat \<Rightarrow> apibus \<Rightarrow> apibus res" where
  "handle_response env now bus = handle_response_loop env now bus (bus_responses bus)"

fun handle_topic_loop :: "allocator \<Rightarrow> env \<Rightarrow> apibus \<Rightarrow> api_topic_msg list \<Rightarrow> apibus res" where
  "handle_topic_loop al env bus [] = Inr bus"
| "handle_topic_loop al env bus (pos # rest) =
     bindR (if pk_leader (tm_pac pos) = SRRP_SUBSCRIBE_LEADER then topic_sub_handler al env bus pos
            else if pk_leader (tm_pac pos) = SRRP_UNSUBSCRIBE_LEADER then topic_unsub_handler env bus pos
            else topic_pub_handler env bus pos) (\<lambda>bus1.
       handle_topic_loop al env (bus1\<lparr>bus_topic_msgs := rest\<rparr>) rest)"

definition handle_topic_msg :: "allocator \<Rightarrow> env \<Rightarrow> apibus \<Rightarrow> apibus res" where
  "handle_topic_msg al env bus = handle_topic_loop al env bus (bus_topic_msgs bus)"

subsection \<open>Polling\<close>

fun poll_sinks :: "env \<Rightarrow> apibus \<Rightarrow> apisink list \<Rightarrow> apibus res" where
  "poll_sinks env bus [] = Inr bus"
| "poll_sinks env bus (pos # rest) =
     (case op_poll (env (sk_ops pos)) of
        None \<Rightarrow> Inl NullDeref
      | Some f \<Rightarrow> bindR (f bus pos) (\<lambda>(_, bus1). poll_sinks env bus1 rest))"

definition timer_less :: "nat \<times> nat \<Rightarrow> nat \<times> nat \<Rightarrow> bool" where
  "timer_less a b \<longleftrightarrow> (if fst a = fst b then snd a < snd b else fst a < fst b)"

fun parse_sinkfds :: "allocator \<Rightarrow> nat \<Rightarrow> apibus \<Rightarrow> sinkfd list \<Rightarrow> (apibus \<times> sinkfd list) res option" where
  "parse_sinkfds al now bus [] = Some (Inr (bus, []))"
| "parse_sinkfds al now bus (pos # rest) =
     (let bus1 = (if timer_less (bus_poll_ts bus) (sf_ts_poll_recv pos)
                  then bus\<lparr>bus_poll_cnt := bus_poll_cnt bus + 1\<rparr> else bus)
      in case (if atbuf_used (sf_rxbuf pos) \<noteq> 0 then parse_packet al now bus1 pos else Some (Inr (bus1, pos))) of
           None \<Rightarrow> None
         | Some (Inl e) \<Rightarrow> Some (Inl e)
         | Some (Inr (bus2, pos1)) \<Rightarrow>
             map_option (\<lambda>r. bindR r (\<lambda>(bus3, rest1). Inr (bus3, pos1 # rest1))) (parse_sinkfds al now bus2 rest))"

definition poll_idle :: "apibus \<Rightarrow> apibus" where
  "poll_idle bus =
     (if bus_poll_cnt bus = 0 then
        if bus_idle_usec bus \<noteq> APIBUS_IDLE_MAX then
          let u = bus_idle_usec bus + APIBUS_IDLE_MAX div 10
          in bus\<lparr>bus_idle_usec := if u > APIBUS_IDLE_MAX then APIBUS_IDLE_MAX else u\<rparr>
        else bus
      else bus\<lparr>bus_idle_usec := APIBUS_IDLE_MAX div 10\<rparr>)"

definition handle_all :: "allocator \<Rightarrow> env \<Rightarrow> nat \<Rightarrow> apibus \<Rightarrow> apibus res" where
  "handle_all al env now bus =
     bindR (handle_request al env now bus) (\<lambda>bus1.
     bindR (handle_response env now bus1) (\<lambda>bus2.
     bindR (handle_topic_msg al env bus2) (\<lambda>bus3.
       Inr (clear_unalive_station now bus3))))"

definition apibus_poll :: "allocator \<Rightarrow> env \<Rightarrow> nat \<times> nat \<Rightarrow> nat \<Rightarrow> apibus \<Rightarrow> (int \<times> apibus) res option" where
  "apibus_poll al env tod now bus =
     (case poll_sinks env (bus\<lparr>bus_poll_cnt := 0, bus_poll_ts := tod\<rparr>) (bus_sinks bus) of
        Inl e \<Rightarrow> Some (Inl e)
      | Inr bus1 \<Rightarrow>
          map_option (\<lambda>r. bindR r (\<lambda>(bus2, sfs).
              bindR (handle_all al env now (poll_idle (bus2\<lparr>bus_sinkfds := sfs\<rparr>))) (\<lambda>bus3. Inr (0, bus3))))
            (parse_sinkfds al now bus1 (bus_sinkfds bus1)))"

end
