(* ===== verification/Apix_Props.thy ===== *)
theory Apix_Props
  imports Apix_Handlers
begin

text \<open>
  Correctness of the bus: parsing ends and turns a stream of written packets into the queued objects;
  handling empties the queues, keeps only requests that wait and have not timed out, and routes
  responses to the request they answer; the faults of the topic handlers.
\<close>

subsection \<open>Parsing\<close>

text \<open>A receive buffer as the sinks leave it: well formed, terminated, and below 2 GB.\<close>

definition rx_ok :: "sinkfd \<Rightarrow> bool" where
  "rx_ok sf \<longleftrightarrow> atbuf_inv (sf_rxbuf sf) \<and> atbuf_ended (sf_rxbuf sf) \<and> ab_size (sf_rxbuf sf) < 2 ^ 31"

lemma rx_bytes_content:
  "rx_ok sf \<Longrightarrow> rx_bytes sf = atbuf_content (sf_rxbuf sf) @ drop (ab_offset_in (sf_rxbuf sf)) (ab_rawbuf (sf_rxbuf sf))"
  unfolding rx_ok_def rx_bytes_def atbuf_read_pos_def atbuf_content_def atbuf_inv_def
  by (metis append_take_drop_id drop_drop le_add_diff_inverse2)

lemma rx_bytes_length: "rx_ok sf \<Longrightarrow> length (rx_bytes sf) < 2 ^ 31"
  unfolding rx_ok_def rx_bytes_def atbuf_inv_def length_drop by linarith

lemma rx_advance:
  assumes "rx_ok sf" and "n < 2 ^ 32"
  obtains b where "atbuf_read_advance (sf_rxbuf sf) n = Inr (atbuf_used b, b)" "rx_ok (sf\<lparr>sf_rxbuf := b\<rparr>)"
    "atbuf_content b = drop n (atbuf_content (sf_rxbuf sf))"
proof -
  have "ab_offset_out (sf_rxbuf sf) + n < size_mod"
    using assms by (auto simp: rx_ok_def atbuf_inv_def size_mod_def)
  then obtain b where "atbuf_read_advance (sf_rxbuf sf) n = Inr (atbuf_used b, b)" "atbuf_inv b"
    "atbuf_content b = drop n (atbuf_content (sf_rxbuf sf))" "atbuf_ended b" "ab_size b = ab_size (sf_rxbuf sf)"
    using atbuf_read_advance_spec [of "sf_rxbuf sf" n] assms(1) by (auto simp: rx_ok_def)
  with assms(1) show thesis by (intro that [of b]) (auto simp: rx_ok_def)
qed

lemma srrp_len_positive:
  assumes "srrp_read_one_packet al (rx_bytes sf) = Inr (Some p)" and "rx_ok sf"
  shows "0 < unat (pk_len p)" "unat (pk_len p) < 2 ^ 32"
  using srrp_read_frames [OF assms(1) rx_bytes_length [OF assms(2)]] unat_16_less [of "pk_len p"]
  by (auto simp: srrp_frames_def)

lemma parse_failed_ok:
  assumes "rx_ok sf" and "parse_failed now sf = Inr sf'"
  shows "rx_ok sf' \<and> sf_fd sf' = sf_fd sf"
proof -
  have used: "atbuf_used (sf_rxbuf sf) < 2 ^ 32"
    using assms(1) atbuf_used_offsets [of "sf_rxbuf sf"] by (auto simp: rx_ok_def atbuf_inv_def)
  have adv: "rx_ok (sf\<lparr>sf_rxbuf := b\<rparr>)" if "atbuf_read_advance (sf_rxbuf sf) n = Inr (u, b)" "n < 2 ^ 32" for n u b
    using rx_advance [OF assms(1) that(2)] that(1) by auto
  show ?thesis
    using assms used by (auto simp: parse_failed_def bindR_eq_Inr_iff assertR_eq_Inr_iff
        split: if_splits intro: adv)
qed

lemma parse_loop_ends:
  assumes "rx_ok sf" and "atbuf_used (sf_rxbuf sf) < fuel"
  shows "\<exists>r. parse_loop fuel al now bus sf = Some r \<and>
    (\<forall>bus' sf'. r = Inr (bus', sf') \<longrightarrow> rx_ok sf' \<and> sf_fd sf' = sf_fd sf)"
  using assms
proof (induction fuel arbitrary: bus sf)
  case (Suc fuel)
  show ?case
  proof (cases "atbuf_used (sf_rxbuf sf) = 0")
    case False
    consider (fault) e where "srrp_read_one_packet al (rx_bytes sf) = Inl e"
      | (none) "srrp_read_one_packet al (rx_bytes sf) = Inr None"
      | (some) p where "srrp_read_one_packet al (rx_bytes sf) = Inr (Some p)"
      by (cases "srrp_read_one_packet al (rx_bytes sf)"; cases "projr (srrp_read_one_packet al (rx_bytes sf))") auto
    then show ?thesis
    proof cases
      case fault
      then show ?thesis using False by simp
    next
      case none
      then show ?thesis using False parse_failed_ok [OF Suc.prems(1)] by (auto simp: bindR_eq_Inr_iff)
    next
      case (some p)
      note len = srrp_len_positive [OF some Suc.prems(1)]
      obtain b where b: "atbuf_read_advance (sf_rxbuf sf) (unat (pk_len p)) = Inr (atbuf_used b, b)"
        "rx_ok (sf\<lparr>sf_rxbuf := b\<rparr>)" "atbuf_content b = drop (unat (pk_len p)) (atbuf_content (sf_rxbuf sf))"
        using rx_advance [OF Suc.prems(1) len(2)] .
      have "atbuf_used b = atbuf_used (sf_rxbuf sf) - unat (pk_len p)"
        using Suc.prems(1) b(2,3) by (simp add: rx_ok_def atbuf_used_eq)
      then have "atbuf_used b < fuel" using Suc.prems(2) False len(1) by linarith
      then show ?thesis
        using Suc.IH [OF b(2)] some False b(1)
        by (cases "queue_packet al now bus (sf_fd sf) p") auto
    qed
  qed (use Suc.prems in simp)
qed simp

fun queue_all :: "allocator \<Rightarrow> nat \<Rightarrow> apibus \<Rightarrow> int \<Rightarrow> srrp_packet list \<Rightarrow> apibus res" where
  "queue_all al now bus fd [] = Inr bus"
| "queue_all al now bus fd (p # ps) = bindR (queue_packet al now bus fd p) (\<lambda>bus1. queue_all al now bus1 fd ps)"

text \<open>A packet whose raw bytes are read as this packet, whatever follows them.\<close>

definition srrp_clean :: "allocator \<Rightarrow> srrp_packet \<Rightarrow> bool" where
  "srrp_clean al p \<longleftrightarrow> length (pk_raw p) = unat (pk_len p) \<and>
     (\<forall>rest. srrp_read_one_packet al (pk_raw p @ rest) = Inr (Some p))"

lemma parse_loop_stream:
  assumes "rx_ok sf" and "atbuf_used (sf_rxbuf sf) < fuel"
    and "atbuf_content (sf_rxbuf sf) = concat (map pk_raw ps)" and "list_all (srrp_clean al) ps"
    and "queue_all al now bus (sf_fd sf) ps = Inr bus'"
  shows "\<exists>b. parse_loop fuel al now bus sf = Some (Inr (bus', sf\<lparr>sf_rxbuf := b\<rparr>)) \<and> atbuf_content b = [] \<and>
    rx_ok (sf\<lparr>sf_rxbuf := b\<rparr>)"
  using assms
proof (induction ps arbitrary: fuel bus sf)
  case Nil
  then have "atbuf_used (sf_rxbuf sf) = 0" by (simp add: rx_ok_def atbuf_used_eq)
  with Nil show ?case by (cases fuel) (auto intro!: exI [of _ "sf_rxbuf sf"])
next
  case (Cons p ps)
  have read: "srrp_read_one_packet al (rx_bytes sf) = Inr (Some p)"
    using Cons.prems(3,4) rx_bytes_content [OF Cons.prems(1)] by (simp add: srrp_clean_def)
  note len = srrp_len_positive [OF read Cons.prems(1)]
  obtain b where b: "atbuf_read_advance (sf_rxbuf sf) (unat (pk_len p)) = Inr (atbuf_used b, b)"
    "rx_ok (sf\<lparr>sf_rxbuf := b\<rparr>)" "atbuf_content b = drop (unat (pk_len p)) (atbuf_content (sf_rxbuf sf))"
    using rx_advance [OF Cons.prems(1) len(2)] .
  have content: "atbuf_content b = concat (map pk_raw ps)"
    using b(3) Cons.prems(3,4) by (simp add: srrp_clean_def)
  have used: "atbuf_used (sf_rxbuf sf) = unat (pk_len p) + length (concat (map pk_raw ps))"
    using Cons.prems(1,3,4) by (simp add: rx_ok_def atbuf_used_eq srrp_clean_def)
  obtain f where fuel: "fuel = Suc f" using Cons.prems(2) by (cases fuel) auto
  have "atbuf_used b < f"
    using b(2) content used len(1) Cons.prems(2) fuel by (simp add: rx_ok_def atbuf_used_eq)
  moreover obtain bus1 where "queue_packet al now bus (sf_fd sf) p = Inr bus1"
    "queue_all al now bus1 (sf_fd sf) ps = Inr bus'"
    using Cons.prems(5) by (auto simp: bindR_eq_Inr_iff)
  ultimately show ?case
    using Cons.IH [of "sf\<lparr>sf_rxbuf := b\<rparr>" f bus1] b content Cons.prems(4) fuel read used len(1) by simp
qed

subsection \<open>Handling\<close>

lemma apibus_send_frame:
  "apibus_send env bus fd buf len = Inr (r, bus') \<Longrightarrow> \<exists>l. bus' = bus\<lparr>bus_sent := bus_sent bus @ l\<rparr>"
  by (auto simp: apibus_send_def bindR_eq_Inr_iff split: option.splits intro: exI [of _ "[]"])

text \<open>What a handler leaves as it is, apart from the requests, the stations and the log.\<close>

definition bus_kept :: "apibus \<Rightarrow> apibus \<Rightarrow> bool" where
  "bus_kept bus bus' \<longleftrightarrow> bus_responses bus' = bus_responses bus \<and> bus_topic_msgs bus' = bus_topic_msgs bus \<and>
     bus_topics bus' = bus_topics bus \<and> bus_sinkfds bus' = bus_sinkfds bus \<and> bus_sinks bus' = bus_sinks bus \<and>
     bus_idle_usec bus' = bus_idle_usec bus \<and> bus_closed bus' = bus_closed bus"

lemma bus_kept_refl [simp]: "bus_kept bus bus"
  by (simp add: bus_kept_def)

lemma bus_kept_trans [trans]: "bus_kept a b \<Longrightarrow> bus_kept b c \<Longrightarrow> bus_kept a c"
  by (simp add: bus_kept_def)

lemma bus_kept_upd [simp]:
  "bus_kept a (b\<lparr>bus_stations := x\<rparr>) = bus_kept a b" "bus_kept (b\<lparr>bus_stations := x\<rparr>) a = bus_kept b a"
  "bus_kept a (b\<lparr>bus_requests := y\<rparr>) = bus_kept a b" "bus_kept a (b\<lparr>bus_sent := z\<rparr>) = bus_kept a b"
  by (simp_all add: bus_kept_def)

lemma apibus_send_kept:
  assumes "apibus_send env bus fd buf len = Inr (r, bus')"
  shows "bus_kept bus bus'" "bus_requests bus' = bus_requests bus" "bus_stations bus' = bus_stations bus"
  using apibus_send_frame [OF assms] by auto

definition waiting :: "nat \<Rightarrow> api_request \<Rightarrow> bool" where
  "waiting now r \<longleftrightarrow> rq_state r = API_REQUEST_ST_WAIT_RESPONSE \<and> \<not> request_timed_out now r"

lemma not_found_kept:
  "not_found env bus r = Inr (bus', kept) \<Longrightarrow> bus_kept bus bus' \<and> kept = None"
  by (auto simp: not_found_def bindR_eq_Inr_iff dest: apibus_send_kept)

lemma handle_one_request_kept:
  assumes "handle_one_request al env now bus r = Inr (bus', kept)"
  shows "bus_kept bus bus' \<and> (\<forall>r'. kept = Some r' \<longrightarrow> waiting now r')"
proof (cases "rq_state r = API_REQUEST_ST_WAIT_RESPONSE")
  case True
  then show ?thesis
    using assms by (auto simp: handle_one_request_def bindR_eq_Inr_iff waiting_def split: if_splits
        dest: apibus_send_kept)
next
  case False
  then obtain bus1 d where bus1: "(case find_station (bus_stations bus) (pk_srcid (rq_pac r)) of
        None \<Rightarrow> add_station al now bus r
      | Some src \<Rightarrow> Inr (bus\<lparr>bus_stations := station_alive now (pk_srcid (rq_pac r)) (bus_stations bus)\<rparr>)) = Inr bus1"
    and d: "(case d of None \<Rightarrow> not_found env bus1 r
      | Some dstid \<Rightarrow> (case find_station (bus_stations bus1) dstid of
           None \<Rightarrow> not_found env bus1 r
         | Some dst \<Rightarrow> bindR (apibus_send env bus1 (st_fd dst) (pk_raw (rq_pac r)) (unat (pk_len (rq_pac r)))) (\<lambda>(_, bus2).
             Inr (bus2, Some (r\<lparr>rq_state := API_REQUEST_ST_WAIT_RESPONSE, rq_ts_send := now\<rparr>))))) = Inr (bus', kept)"
    using assms by (auto simp: handle_one_request_def bindR_eq_Inr_iff)
  have k1: "bus_kept bus bus1"
    using bus1 by (auto simp: add_station_def split: option.splits if_splits)
  have fresh: "waiting now (r\<lparr>rq_state := API_REQUEST_ST_WAIT_RESPONSE, rq_ts_send := now\<rparr>)"
    by (simp add: waiting_def request_timed_out_def API_REQUEST_TIMEOUT_def)
  have "bus_kept bus1 bus' \<and> (\<forall>r'. kept = Some r' \<longrightarrow> waiting now r')"
    using d fresh by (auto simp: bindR_eq_Inr_iff split: option.splits dest: not_found_kept apibus_send_kept)
  with k1 show ?thesis using bus_kept_trans by blast
qed

lemma handle_request_loop_kept:
  assumes "handle_request_loop al env now bus rs = Inr (bus', kept)"
  shows "bus_kept bus bus' \<and> list_all (waiting now) kept"
  using assms
proof (induction rs arbitrary: bus kept)
  case (Cons r rs)
  obtain bus1 k ks where step: "handle_one_request al env now bus r = Inr (bus1, k)"
    "handle_request_loop al env now bus1 rs = Inr (bus', ks)" "kept = (case k of None \<Rightarrow> ks | Some r \<Rightarrow> r # ks)"
    using Cons.prems by (auto simp: bindR_eq_Inr_iff)
  show ?case
    using Cons.IH [OF step(2)] handle_one_request_kept [OF step(1)] step(3) bus_kept_trans
    by (auto split: option.splits)
qed simp

lemma take_answered_Some:
  "take_answered resp rs = Some (r, rest) \<Longrightarrow>
    answers resp r \<and> (\<exists>as bs. rs = as @ r # bs \<and> rest = as @ bs \<and> list_all (\<lambda>x. \<not> answers resp x) as)"
proof (induction rs arbitrary: rest)
  case (Cons x xs)
  show ?case
  proof (cases "answers resp x")
    case True
    with Cons.prems show ?thesis by (auto intro: exI [of _ "[]"])
  next
    case False
    then obtain ys where ys: "take_answered resp xs = Some (r, ys)" "rest = x # ys"
      using Cons.prems by auto
    from Cons.IH [OF ys(1)] obtain as bs where "answers resp r" "xs = as @ r # bs" "ys = as @ bs"
      "list_all (\<lambda>x. \<not> answers resp x) as" by blast
    then have "answers resp r \<and> x # xs = (x # as) @ r # bs \<and> rest = (x # as) @ bs \<and> list_all (\<lambda>x. \<not> answers resp x) (x # as)"
      using False ys(2) by simp
    then show ?thesis by blast
  qed
qed simp

lemma take_answered_first:
  "list_all (\<lambda>x. \<not> answers resp x) as \<Longrightarrow> answers resp r \<Longrightarrow>
    take_answered resp (as @ r # bs) = Some (r, as @ bs)"
  by (induction as) auto

lemma handle_one_response_kept:
  assumes "handle_one_response env now bus resp = Inr bus'"
  shows "bus_kept bus bus' \<and> set (bus_requests bus') \<subseteq> set (bus_requests bus)"
proof -
  obtain bus2 d where bus2: "(case take_answered resp (bus_requests bus) of
      None \<Rightarrow> Inr bus
    | Some (r, rest) \<Rightarrow>
        bindR (apibus_send env bus (rq_fd r) (pk_raw (rp_pac resp)) (unat (pk_len (rp_pac resp)))) (\<lambda>(_, bus1).
          Inr (bus1\<lparr>bus_requests := rest\<rparr>))) = Inr bus2"
    and d: "(case d of None \<Rightarrow> Inr bus2
      | Some dstid \<Rightarrow> Inr (bus2\<lparr>bus_stations := station_alive now dstid (bus_stations bus2)\<rparr>)) = (Inr bus' :: apibus res)"
    using assms by (auto simp: handle_one_response_def bindR_eq_Inr_iff)
  have "bus_kept bus bus2 \<and> set (bus_requests bus2) \<subseteq> set (bus_requests bus)"
    using bus2 by (auto simp: bindR_eq_Inr_iff split: option.splits dest!: take_answered_Some apibus_send_frame)
  then show ?thesis using d by (auto split: option.splits)
qed

lemma handle_response_loop_kept:
  assumes "handle_response_loop env now bus rs = Inr bus'" and "bus_responses bus = rs"
  shows "bus_kept (bus\<lparr>bus_responses := []\<rparr>) bus' \<and> set (bus_requests bus') \<subseteq> set (bus_requests bus)"
  using assms
proof (induction rs arbitrary: bus)
  case Nil
  then show ?case by (simp add: bus_kept_def)
next
  case (Cons r rs)
  obtain bus1 where step: "handle_one_response env now bus r = Inr bus1"
    "handle_response_loop env now (bus1\<lparr>bus_responses := rs\<rparr>) rs = Inr bus'"
    using Cons.prems(1) by (auto simp: bindR_eq_Inr_iff)
  show ?case
    using Cons.IH [OF step(2)] handle_one_response_kept [OF step(1)] by (auto simp: bus_kept_def)
qed

lemma send_all_keeps:
  "send_all env bus fds buf len = Inr bus' \<Longrightarrow> \<exists>l. bus' = bus\<lparr>bus_sent := l\<rparr>"
proof (induction fds arbitrary: bus)
  case Nil
  then show ?case by (auto intro: exI [of _ "bus_sent bus"])
next
  case (Cons fd fds)
  obtain r bus1 where step: "apibus_send env bus fd buf len = Inr (r, bus1)" "send_all env bus1 fds buf len = Inr bus'"
    using Cons.prems by (auto simp: bindR_eq_Inr_iff)
  obtain l where "bus1 = bus\<lparr>bus_sent := l\<rparr>" using apibus_send_frame [OF step(1)] by blast
  then show ?case using Cons.IH [OF step(2)] by auto
qed

text \<open>The topic handlers: they change the topics and the log only, and never hold more than one
  subscription.\<close>

definition one_subscription :: "api_topic list \<Rightarrow> bool" where
  "one_subscription ts \<longleftrightarrow> length ts \<le> 1 \<and> list_all (\<lambda>t. length (tp_fds t) \<le> 1) ts"

lemma unsub_loop_length: "length (unsub_loop fd i fds k) \<le> length fds"
proof (induction fd i fds k rule: unsub_loop.induct)
  case (2 fd i fds k)
  then show ?case by auto
qed simp

lemma topic_unsub_loop_one:
  "topic_unsub_loop ts header fd = Some ts' \<Longrightarrow> one_subscription ts \<Longrightarrow> one_subscription ts'"
proof (induction ts arbitrary: ts')
  case (Cons t ts)
  have "length (unsub_loop fd 0 (tp_fds t) k) \<le> 1" if "length (tp_fds t) \<le> 1" for k
    using unsub_loop_length [of fd 0 "tp_fds t" k] that by simp
  with Cons show ?case by (auto simp: one_subscription_def split: if_splits)
qed simp

definition topics_only :: "apibus \<Rightarrow> apibus \<Rightarrow> bool" where
  "topics_only bus bus' \<longleftrightarrow> (\<exists>ts l. bus' = bus\<lparr>bus_topics := ts, bus_sent := l\<rparr> \<and>
     (one_subscription (bus_topics bus) \<longrightarrow> one_subscription ts))"

lemma topic_sub_only:
  assumes "topic_sub_handler al env bus t = Inr bus'"
  shows "topics_only bus bus'"
proof (cases "bus_topics bus")
  case Nil
  then obtain r topic where "apibus_send env (bus\<lparr>bus_topics := [topic]\<rparr>) (tm_fd t) ''Sub OK'' 6 = Inr (r, bus')"
    "tp_fds topic = [tm_fd t]"
    using assms by (auto simp: topic_sub_handler_def Let_def bindR_eq_Inr_iff split: if_splits)
  then show ?thesis
    using apibus_send_frame by (fastforce simp: topics_only_def one_subscription_def)
qed (use assms in \<open>simp add: topic_sub_handler_def\<close>)

lemma topic_unsub_only:
  assumes "topic_unsub_handler env bus t = Inr bus'"
  shows "topics_only bus bus'"
proof -
  obtain ts r where ts: "topic_unsub_loop (bus_topics bus) (pk_header (tm_pac t)) (tm_fd t) = Some ts"
    and send: "apibus_send env (bus\<lparr>bus_topics := ts\<rparr>) (tm_fd t) ''Unsub OK'' 8 = Inr (r, bus')"
    using assms by (auto simp: topic_unsub_handler_def bindR_eq_Inr_iff split: option.splits)
  then show ?thesis
    using apibus_send_frame [OF send] topic_unsub_loop_one [OF ts] by (auto simp: topics_only_def)
qed

lemma topic_pub_only:
  assumes "topic_pub_handler env bus t = Inr bus'"
  shows "topics_only bus bus'"
proof -
  have "\<exists>l. bus' = bus\<lparr>bus_sent := l\<rparr>"
    using assms by (auto simp: topic_pub_handler_def bindR_eq_Inr_iff split: option.splits dest: send_all_keeps
        intro: exI [of _ "bus_sent bus"])
  then obtain l where "bus' = bus\<lparr>bus_topics := bus_topics bus, bus_sent := l\<rparr>" by auto
  then show ?thesis unfolding topics_only_def by blast
qed

lemma handle_topic_loop_kept:
  assumes "handle_topic_loop al env bus ts = Inr bus'" and "bus_topic_msgs bus = ts"
  shows "bus_topic_msgs bus' = [] \<and> bus_requests bus' = bus_requests bus \<and> bus_responses bus' = bus_responses bus \<and>
    bus_sinks bus' = bus_sinks bus \<and> bus_sinkfds bus' = bus_sinkfds bus \<and> bus_idle_usec bus' = bus_idle_usec bus \<and>
    bus_closed bus' = bus_closed bus \<and> (one_subscription (bus_topics bus) \<longrightarrow> one_subscription (bus_topics bus'))"
  using assms
proof (induction ts arbitrary: bus)
  case (Cons t ts)
  obtain bus1 where step: "topics_only bus bus1"
    "handle_topic_loop al env (bus1\<lparr>bus_topic_msgs := ts\<rparr>) ts = Inr bus'"
    using Cons.prems(1)
    by (auto simp: bindR_eq_Inr_iff split: if_splits intro: topic_sub_only topic_unsub_only topic_pub_only)
  show ?case using Cons.IH [OF step(2)] step(1) by (auto simp: topics_only_def)
qed simp

lemma handle_all_kept:
  assumes "handle_all al env now bus = Inr bus'"
  shows "bus_responses bus' = [] \<and> bus_topic_msgs bus' = [] \<and> list_all (waiting now) (bus_requests bus') \<and>
    list_all (\<lambda>s. now \<le> st_ts_alive s + 600) (bus_stations bus') \<and> bus_sinks bus' = bus_sinks bus \<and>
    bus_sinkfds bus' = bus_sinkfds bus \<and> bus_idle_usec bus' = bus_idle_usec bus \<and>
    bus_closed bus' = bus_closed bus \<and> (one_subscription (bus_topics bus) \<longrightarrow> one_subscription (bus_topics bus'))"
proof -
  obtain bus1 bus2 bus3 rs where req: "handle_request_loop al env now bus (bus_requests bus) = Inr (bus1, rs)"
    and resp: "handle_response_loop env now (bus1\<lparr>bus_requests := rs\<rparr>) (bus_responses (bus1\<lparr>bus_requests := rs\<rparr>)) = Inr bus2"
    and topic: "handle_topic_loop al env bus2 (bus_topic_msgs bus2) = Inr bus3"
    and fin: "bus' = clear_unalive_station now bus3"
    using assms by (auto simp: handle_all_def handle_request_def handle_response_def handle_topic_msg_def bindR_eq_Inr_iff)
  note k = handle_request_loop_kept [OF req] handle_response_loop_kept [OF resp refl]
    handle_topic_loop_kept [OF topic refl]
  have "list_all (waiting now) (bus_requests bus3)" using k by (auto simp: list_all_iff)
  moreover have "list_all (\<lambda>s. now \<le> st_ts_alive s + 600) (bus_stations bus')"
    by (auto simp: fin clear_unalive_station_def APIBUS_STATION_ALIVE_TIMEOUT_def list_all_iff)
  ultimately show ?thesis using k by (simp add: fin clear_unalive_station_def bus_kept_def)
qed

subsection \<open>Sending\<close>

definition can_send :: "env \<Rightarrow> apibus \<Rightarrow> int \<Rightarrow> bool" where
  "can_send env bus fd =
     (case find_sinkfd_in_apibus bus fd of
        None \<Rightarrow> False
      | Some sf \<Rightarrow> (case sf_sink sf of None \<Rightarrow> False | Some sink \<Rightarrow> op_send (env (sk_ops sink)) \<noteq> None))"

lemma apibus_send_ok:
  assumes "can_send env bus fd" and "len \<le> length buf"
  shows "\<exists>r. apibus_send env bus fd buf len = Inr (r, bus\<lparr>bus_sent := bus_sent bus @ [(fd, take len buf)]\<rparr>)"
  using assms by (auto simp: can_send_def apibus_send_def mem_read_def split: option.splits)

lemma can_send_frame [simp]:
  "can_send env (bus\<lparr>bus_sent := l\<rparr>) fd = can_send env bus fd"
  "can_send env (bus\<lparr>bus_topics := ts\<rparr>) fd = can_send env bus fd"
  by (simp_all add: can_send_def find_sinkfd_in_apibus_def)

lemma send_all_ok:
  assumes "list_all (can_send env bus) fds" and "len \<le> length buf"
  shows "send_all env bus fds buf len =
    Inr (bus\<lparr>bus_sent := bus_sent bus @ map (\<lambda>fd. (fd, take len buf)) fds\<rparr>)"
  using assms(1)
proof (induction fds arbitrary: bus)
  case (Cons fd fds)
  then obtain r where "apibus_send env bus fd buf len = Inr (r, bus\<lparr>bus_sent := bus_sent bus @ [(fd, take len buf)]\<rparr>)"
    using apibus_send_ok [of env bus fd len buf] assms(2) by auto
  moreover have "list_all (can_send env (bus\<lparr>bus_sent := bus_sent bus @ [(fd, take len buf)]\<rparr>)) fds"
    using Cons.prems by (simp add: list_all_iff)
  ultimately show ?case
    using Cons.IH [of "bus\<lparr>bus_sent := bus_sent bus @ [(fd, take len buf)]\<rparr>"] Cons.prems by simp
qed simp

lemma find_topic_agrees:
  assumes "len \<le> length header" and "list_all (\<lambda>t. length (tp_header t) = API_HEADER_SIZE) ts" and "len \<le> API_HEADER_SIZE"
  shows "find_topic ts header len = Inr (find (\<lambda>t. take len (tp_header t) = take len header) ts)"
  using assms by (induction ts) (auto simp: memcmp_eq_def mem_read_def)

lemma scan_dstid_total: "terminated header \<Longrightarrow> \<exists>d. scan_dstid header = Inr d"
  unfolding scan_dstid_def by (simp split: list.split sval.split)

lemma topic_unsub_loop_None:
  "topic_unsub_loop ts header fd = None \<longleftrightarrow> list_all (\<lambda>t. cstr (tp_header t) \<noteq> cstr header) ts"
  by (induction ts) (auto simp: strcmp_eq_def)

subsection \<open>A small bus\<close>

definition example_ops :: env where
  "example_ops = (\<lambda>_. \<lparr>op_open = None, op_close = None, op_ioctl = None,
     op_send = Some (\<lambda>fd buf. int (length buf)), op_recv = None, op_poll = None\<rparr>)"

definition example_sink :: apisink where
  "example_sink = \<lparr>sk_name = ''unix'', sk_ops = 1, sk_bus = True, sk_fds = {}, sk_nfds = 0\<rparr>"

definition example_sinkfd :: "int \<Rightarrow> string \<Rightarrow> sinkfd" where
  "example_sinkfd fd s = \<lparr>sf_fd = fd, sf_listen = 0, sf_addr = [],
     sf_txbuf = \<lparr>ab_rawbuf = [NUL], ab_size = 1, ab_offset_in = 0, ab_offset_out = 0\<rparr>,
     sf_rxbuf = \<lparr>ab_rawbuf = s @ [NUL], ab_size = length s + 1, ab_offset_in = length s, ab_offset_out = 0\<rparr>,
     sf_ts_poll_recv = (0, 0), sf_sink = Some example_sink\<rparr>"

definition example_bus :: apibus where
  "example_bus = \<lparr>bus_requests = [], bus_responses = [], bus_stations = [\<lparr>st_sttid = 1, st_ts_alive = 0, st_fd = 4\<rparr>],
     bus_topic_msgs = [], bus_topics = [], bus_sinkfds = [example_sinkfd 4 [], example_sinkfd 5 []],
     bus_sinks = [example_sink], bus_poll_ts = (0, 0), bus_poll_cnt = 0, bus_idle_usec = 0, bus_sent = [], bus_closed = []\<rparr>"

definition example_packet :: "char \<Rightarrow> string \<Rightarrow> srrp_packet" where
  "example_packet l h = \<lparr>pk_leader = l, pk_seat = CHR ''$'', pk_seqno = 0, pk_len = 2, pk_srcid = 1,
     pk_reqcrc16 = 0, pk_header = padded SRRP_HEADER_LEN h, pk_header_len = length h, pk_data = 0,
     pk_data_len = 0, pk_raw = [CHR ''x'', NUL]\<rparr>"

definition example_request :: "16 word \<Rightarrow> nat \<Rightarrow> api_request" where
  "example_request crc sent = \<lparr>rq_pac = example_packet (CHR ''>'') ''/1/a'', rq_state = 1, rq_ts_create = 0,
     rq_ts_send = sent, rq_fd = 5, rq_crc16 = crc\<rparr>"

definition example_response :: api_response where
  "example_response = \<lparr>rp_pac = example_packet (CHR ''<'') ''/1/a'', rp_fd = 4\<rparr>"

lemma example_rx_ok: "length s < 2 ^ 30 \<Longrightarrow> rx_ok (example_sinkfd fd s)" "atbuf_content (sf_rxbuf (example_sinkfd fd s)) = s"
  by (simp_all add: rx_ok_def example_sinkfd_def atbuf_inv_def atbuf_ended_def size_mod_def atbuf_content_def nth_append)

lemma example_can_send: "can_send example_ops example_bus 4" "can_send example_ops example_bus 5"
  by (simp_all add: can_send_def example_ops_def example_bus_def example_sinkfd_def find_sinkfd_in_apibus_def)

lemma padded_cstr: "cstr (padded n h) = cstr h"
  by (cases "n - length h") (simp_all add: padded_def)

lemma padded_terminated: "length h < n \<Longrightarrow> terminated (padded n h)"
  by (simp add: padded_def terminated_def)

subsection \<open>Properties\<close>

text \<open>C22: parsing a receive buffer always ends, faults included, and leaves a well-formed buffer.\<close>

theorem parse_packet_ends:
  assumes "rx_ok sf"
  shows "\<exists>r. parse_packet al now bus sf = Some r \<and>
    (\<forall>bus' sf'. r = Inr (bus', sf') \<longrightarrow> rx_ok sf' \<and> sf_fd sf' = sf_fd sf)"
  unfolding parse_packet_def by (rule parse_loop_ends) (use assms in simp_all)

theorem parse_packet_ends_witness:
  "\<exists>r. parse_packet generous 7 example_bus (example_sinkfd 4 ''@@ garbage'') = Some r"
  using parse_packet_ends [OF example_rx_ok(1), of "''@@ garbage''" generous 7 example_bus 4] by auto

text \<open>C4: a stream of packets, each readable on its own, is parsed completely: every packet is queued
  once, in order, and the receive buffer is empty afterwards.\<close>

theorem parse_packet_stream:
  assumes "rx_ok sf" and "atbuf_content (sf_rxbuf sf) = concat (map pk_raw ps)"
    and "list_all (srrp_clean al) ps" and "queue_all al now bus (sf_fd sf) ps = Inr bus'"
  shows "\<exists>b. parse_packet al now bus sf = Some (Inr (bus', sf\<lparr>sf_rxbuf := b\<rparr>)) \<and> atbuf_content b = []"
  using parse_loop_stream [OF assms(1) lessI assms(2-4)] unfolding parse_packet_def by blast

lemma srrp_sample_clean: "\<exists>p. srrp_clean generous p \<and> pk_leader p = SRRP_PUBLISH_LEADER \<and> length (pk_raw p) = 28"
proof -
  let ?h = "''/hello/x''" and ?d = "''{age:18}''" and ?l = "SRRP_PUBLISH_LEADER"
  let ?n = "10 + length ?h + 1 + length ?d + 1"
  obtain p where p: "srrp_write_body generous ?n (subpub_prefix ?l ?n @ '':'' @ ?h @ ''?'' @ ?d) ?l 0 0 ?h (length ?d) = Inr p"
    by (simp add: srrp_write_body_def assertR_def generous_def srrp_consts subpub_prefix_def hex4_length)
  have "srrp_reads_back generous p ?h" by (rule srrp_subpub_reads_back [OF p srrp_sample_texts(1,2)]) simp
  then have "srrp_read_one_packet generous (pk_raw p @ rest) = Inr (Some p)" for rest
    by (rule srrp_reads_back_short [OF _ srrp_sample_texts(3) srrp_write_body_header [OF p]])
  moreover have "length (pk_raw p) = 28" "pk_len p = 28" "pk_leader p = ?l"
    using p by (auto simp: srrp_write_body_def assertR_def padded_def snprintf_s_def split: if_splits)
  ultimately show ?thesis by (intro exI [of _ p]) (simp add: srrp_clean_def)
qed

theorem parse_packet_stream_witness:
  "\<exists>p b. parse_packet generous 7 example_bus (example_sinkfd 4 (pk_raw p @ pk_raw p)) =
     Some (Inr (example_bus\<lparr>bus_topic_msgs := [\<lparr>tm_pac = p, tm_fd = 4\<rparr>, \<lparr>tm_pac = p, tm_fd = 4\<rparr>]\<rparr>,
       (example_sinkfd 4 (pk_raw p @ pk_raw p))\<lparr>sf_rxbuf := b\<rparr>)) \<and> atbuf_content b = []"
proof -
  obtain p where p: "srrp_clean generous p" "pk_leader p = SRRP_PUBLISH_LEADER" "length (pk_raw p) = 28"
    using srrp_sample_clean by blast
  let ?sf = "example_sinkfd 4 (pk_raw p @ pk_raw p)"
  have "queue_all generous 7 example_bus (sf_fd ?sf) [p, p] =
    Inr (example_bus\<lparr>bus_topic_msgs := [\<lparr>tm_pac = p, tm_fd = 4\<rparr>, \<lparr>tm_pac = p, tm_fd = 4\<rparr>]\<rparr>)"
    using p(2) by (simp add: queue_packet_def srrp_consts generous_def example_bus_def example_sinkfd_def)
  moreover have "rx_ok ?sf" using p(3) by (intro example_rx_ok(1)) simp
  ultimately show ?thesis
    using parse_packet_stream [of ?sf "[p, p]" generous 7 example_bus] p(1) example_rx_ok(2) [of 4 "pk_raw p @ pk_raw p"]
    by auto
qed

text \<open>C8: after one round of handling, no response and no topic message is queued, every remaining
  request waits for its response and has not timed out, and every station was alive within the last
  600 seconds; sinks and descriptors are untouched.\<close>

theorem handle_all_post:
  assumes "handle_all al env now bus = Inr bus'"
  shows "bus_responses bus' = [] \<and> bus_topic_msgs bus' = [] \<and>
    list_all (\<lambda>r. rq_state r = API_REQUEST_ST_WAIT_RESPONSE \<and> now < rq_ts_send r + 3) (bus_requests bus') \<and>
    list_all (\<lambda>s. now \<le> st_ts_alive s + 600) (bus_stations bus') \<and>
    bus_sinks bus' = bus_sinks bus \<and> bus_sinkfds bus' = bus_sinkfds bus"
  using handle_all_kept [OF assms]
  by (simp add: waiting_def request_timed_out_def API_REQUEST_TIMEOUT_def list_all_iff)

theorem handle_all_post_witness:
  "\<exists>bus'. handle_all generous example_ops 601 (example_bus\<lparr>bus_requests := [example_request 0 1]\<rparr>) = Inr bus' \<and>
    bus_requests bus' = [] \<and> bus_responses bus' = []"
proof -
  obtain bus' where "handle_all generous example_ops 601 (example_bus\<lparr>bus_requests := [example_request 0 1]\<rparr>) = Inr bus'"
    "bus_requests bus' = []"
    by (simp add: handle_all_def handle_request_def handle_one_request_def API_REQUEST_ST_WAIT_RESPONSE_def
        request_timed_out_def API_REQUEST_TIMEOUT_def apibus_send_def find_sinkfd_in_apibus_def example_bus_def
        example_sinkfd_def example_ops_def mem_read_def handle_response_def handle_topic_msg_def
        clear_unalive_station_def APIBUS_STATION_ALIVE_TIMEOUT_def example_request_def)
  then show ?thesis using handle_all_post by blast
qed

lemma response_routed:
  assumes "bus_requests bus = as @ r # bs" and "list_all (\<lambda>x. \<not> answers resp x) as" and "answers resp r"
    and "can_send env bus (rq_fd r)" and "unat (pk_len (rp_pac resp)) \<le> length (pk_raw (rp_pac resp))"
    and "terminated (pk_header (rp_pac resp))"
  shows "\<exists>bus'. handle_one_response env now bus resp = Inr bus' \<and> bus_requests bus' = as @ bs \<and>
    bus_sent bus' = bus_sent bus @ [(rq_fd r, take (unat (pk_len (rp_pac resp))) (pk_raw (rp_pac resp)))]"
proof -
  obtain k where k: "apibus_send env bus (rq_fd r) (pk_raw (rp_pac resp)) (unat (pk_len (rp_pac resp))) =
      Inr (k, bus\<lparr>bus_sent := bus_sent bus @ [(rq_fd r, take (unat (pk_len (rp_pac resp))) (pk_raw (rp_pac resp)))]\<rparr>)"
    using apibus_send_ok [OF assms(4,5)] by blast
  obtain d where "scan_dstid (pk_header (rp_pac resp)) = Inr d"
    using scan_dstid_total [OF assms(6)] by blast
  then show ?thesis
    using k take_answered_first [OF assms(2,3), of bs] assms(1)
    by (cases d) (simp_all add: handle_one_response_def)
qed

text \<open>a response goes to the connection of the first request it answers (same checksum, header
  and source), which is then taken off the list; all other requests stay.\<close>

theorem response_reaches_requester:
  assumes "bus_requests bus = as @ r # bs" and "list_all (\<lambda>x. \<not> answers resp x) as" and "answers resp r"
    and "can_send env bus (rq_fd r)" and "unat (pk_len (rp_pac resp)) \<le> length (pk_raw (rp_pac resp))"
    and "terminated (pk_header (rp_pac resp))"
  shows "\<exists>bus'. handle_one_response env now bus resp = Inr bus' \<and> bus_requests bus' = as @ bs \<and>
    bus_sent bus' = bus_sent bus @ [(rq_fd r, take (unat (pk_len (rp_pac resp))) (pk_raw (rp_pac resp)))]"
  using response_routed [OF assms] .

theorem response_reaches_requester_witness:
  "\<exists>bus'. handle_one_response example_ops 7
       (example_bus\<lparr>bus_requests := [example_request 3 0, example_request 0 1, example_request 0 2]\<rparr>) example_response = Inr bus' \<and>
     bus_requests bus' = [example_request 3 0, example_request 0 2] \<and> bus_sent bus' = [(5, [CHR ''x'', NUL])]"
proof -
  let ?bus = "example_bus\<lparr>bus_requests := [example_request 3 0, example_request 0 1, example_request 0 2]\<rparr>"
  have r: "bus_requests ?bus = [example_request 3 0] @ example_request 0 1 # [example_request 0 2]" by simp
  have a: "list_all (\<lambda>x. \<not> answers example_response x) [example_request 3 0]"
    "answers example_response (example_request 0 1)"
    by (simp_all add: answers_def example_request_def example_response_def example_packet_def strcmp_eq_def)
  have s: "can_send example_ops ?bus (rq_fd (example_request 0 1))"
    by (simp add: can_send_def example_ops_def example_bus_def example_sinkfd_def find_sinkfd_in_apibus_def
        example_request_def)
  have l: "unat (pk_len (rp_pac example_response)) \<le> length (pk_raw (rp_pac example_response))"
    "terminated (pk_header (rp_pac example_response))"
    by (simp_all add: example_response_def example_packet_def padded_terminated SRRP_HEADER_LEN_def)
  have v: "take (unat (pk_len (rp_pac example_response))) (pk_raw (rp_pac example_response)) = [CHR ''x'', NUL]"
    "rq_fd (example_request 0 1) = 5" "bus_sent ?bus = []"
    by (simp_all add: example_response_def example_packet_def example_request_def example_bus_def)
  show ?thesis using response_reaches_requester [OF r a s l, of 7] unfolding v by simp
qed

text \<open>a publication is sent, whole and once each, to the subscribers of the first topic that
  agrees with it in as many bytes as its header has, and to nobody when there is none.\<close>

theorem publish_reaches_subscribers:
  assumes "pk_header_len (tm_pac tmsg) \<le> SRRP_HEADER_LEN" and "length (pk_header (tm_pac tmsg)) = SRRP_HEADER_LEN"
    and "list_all (\<lambda>t. length (tp_header t) = API_HEADER_SIZE \<and> list_all (can_send env bus) (tp_fds t)) (bus_topics bus)"
    and "unat (pk_len (tm_pac tmsg)) \<le> length (pk_raw (tm_pac tmsg))"
  shows "topic_pub_handler env bus tmsg = Inr (bus\<lparr>bus_sent := bus_sent bus @
    (case find (\<lambda>t. take (pk_header_len (tm_pac tmsg)) (tp_header t) =
                    take (pk_header_len (tm_pac tmsg)) (pk_header (tm_pac tmsg))) (bus_topics bus) of
       Some t \<Rightarrow> map (\<lambda>fd. (fd, take (unat (pk_len (tm_pac tmsg))) (pk_raw (tm_pac tmsg)))) (tp_fds t)
     | None \<Rightarrow> [])\<rparr>)"
proof -
  have "pk_header_len (tm_pac tmsg) \<le> length (pk_header (tm_pac tmsg))" "pk_header_len (tm_pac tmsg) \<le> API_HEADER_SIZE"
    "list_all (\<lambda>t. length (tp_header t) = API_HEADER_SIZE) (bus_topics bus)"
    using assms(1-3) by (simp_all add: SRRP_HEADER_LEN_def API_HEADER_SIZE_def list_all_iff)
  note f = find_topic_agrees [OF this(1,3,2)]
  let ?m = "find (\<lambda>t. take (pk_header_len (tm_pac tmsg)) (tp_header t) =
    take (pk_header_len (tm_pac tmsg)) (pk_header (tm_pac tmsg))) (bus_topics bus)"
  show ?thesis
  proof (cases ?m)
    case None
    then show ?thesis by (simp add: topic_pub_handler_def f)
  next
    case (Some t)
    then have "t \<in> set (bus_topics bus)" by (auto simp: find_Some_iff)
    then have "list_all (can_send env bus) (tp_fds t)" using assms(3) by (simp add: list_all_iff)
    from send_all_ok [OF this assms(4)] Some show ?thesis by (simp add: topic_pub_handler_def f)
  qed
qed

theorem publish_reaches_subscribers_witness:
  "topic_pub_handler example_ops (example_bus\<lparr>bus_topics := [\<lparr>tp_header = padded API_HEADER_SIZE ''/motor'', tp_fds = [5, 4]\<rparr>]\<rparr>)
     \<lparr>tm_pac = example_packet (CHR ''@'') ''/motor'', tm_fd = 4\<rparr> =
   Inr (example_bus\<lparr>bus_topics := [\<lparr>tp_header = padded API_HEADER_SIZE ''/motor'', tp_fds = [5, 4]\<rparr>],
     bus_sent := [(5, [CHR ''x'', NUL]), (4, [CHR ''x'', NUL])]\<rparr>)"
proof -
  let ?t = "\<lparr>tp_header = padded API_HEADER_SIZE ''/motor'', tp_fds = [5, 4]\<rparr>"
  let ?m = "\<lparr>tm_pac = example_packet (CHR ''@'') ''/motor'', tm_fd = 4\<rparr>"
  have "pk_header_len (tm_pac ?m) \<le> SRRP_HEADER_LEN" "length (pk_header (tm_pac ?m)) = SRRP_HEADER_LEN"
    "list_all (\<lambda>t. length (tp_header t) = API_HEADER_SIZE \<and>
       list_all (can_send example_ops (example_bus\<lparr>bus_topics := [?t]\<rparr>)) (tp_fds t)) (bus_topics (example_bus\<lparr>bus_topics := [?t]\<rparr>))"
    "unat (pk_len (tm_pac ?m)) \<le> length (pk_raw (tm_pac ?m))"
    by (simp_all add: example_packet_def padded_def SRRP_HEADER_LEN_def API_HEADER_SIZE_def example_can_send)
  note r = publish_reaches_subscribers [OF this]
  show ?thesis unfolding r by (simp add: example_packet_def padded_def example_bus_def)
qed

text \<open>the bus does not survive a second subscription: when two subscriptions are queued on a bus
  without topics, the first is granted and the second dereferences a null pointer.\<close>

theorem second_subscription_faults:
  assumes "bus_topics bus = []" and "bus_topic_msgs bus = s1 # s2 # rest"
    and "pk_leader (tm_pac s1) = SRRP_SUBSCRIBE_LEADER" and "pk_leader (tm_pac s2) = SRRP_SUBSCRIBE_LEADER"
    and "terminated (pk_header (tm_pac s1))" and "can_send env bus (tm_fd s1)"
  shows "handle_topic_msg al env bus = Inl NullDeref"
proof (cases "grant al 408")
  case True
  obtain t where sub: "topic_sub_handler al env bus s1 =
      bindR (apibus_send env (bus\<lparr>bus_topics := [t]\<rparr>) (tm_fd s1) ''Sub OK'' 6) (\<lambda>(_, bus2). Inr bus2)"
    using assms(1,5) True by (simp add: topic_sub_handler_def Let_def)
  obtain r where "apibus_send env (bus\<lparr>bus_topics := [t]\<rparr>) (tm_fd s1) ''Sub OK'' 6 =
      Inr (r, bus\<lparr>bus_topics := [t], bus_sent := bus_sent bus @ [(tm_fd s1, ''Sub OK'')]\<rparr>)"
    using apibus_send_ok [of env "bus\<lparr>bus_topics := [t]\<rparr>" "tm_fd s1" 6 "''Sub OK''"] assms(6) by auto
  with sub have "topic_sub_handler al env bus s1 =
      Inr (bus\<lparr>bus_topics := [t], bus_sent := bus_sent bus @ [(tm_fd s1, ''Sub OK'')]\<rparr>)" by simp
  then show ?thesis
    using assms(2-4) by (simp add: handle_topic_msg_def topic_sub_handler_def [of _ _ _ s2])
next
  case False
  then show ?thesis using assms(1-3) by (simp add: handle_topic_msg_def topic_sub_handler_def)
qed

theorem second_subscription_faults_witness:
  "handle_topic_msg generous example_ops (example_bus\<lparr>bus_topic_msgs :=
     [\<lparr>tm_pac = example_packet (CHR ''#'') ''/a'', tm_fd = 4\<rparr>, \<lparr>tm_pac = example_packet (CHR ''#'') ''/b'', tm_fd = 5\<rparr>]\<rparr>) = Inl NullDeref"
  by (rule second_subscription_faults [where rest = "[]" and ?s1.0 = "\<lparr>tm_pac = example_packet (CHR ''#'') ''/a'', tm_fd = 4\<rparr>"
        and ?s2.0 = "\<lparr>tm_pac = example_packet (CHR ''#'') ''/b'', tm_fd = 5\<rparr>"])
    (simp_all add: example_bus_def example_packet_def SRRP_SUBSCRIBE_LEADER_def padded_terminated SRRP_HEADER_LEN_def
      can_send_def find_sinkfd_in_apibus_def example_sinkfd_def example_ops_def)

text \<open>unsubscribing from a topic that is not there uses a pointer to no topic.\<close>

theorem unknown_unsubscription_faults:
  assumes "bus_topic_msgs bus = u # rest" and "pk_leader (tm_pac u) = SRRP_UNSUBSCRIBE_LEADER"
    and "list_all (\<lambda>t. cstr (tp_header t) \<noteq> cstr (pk_header (tm_pac u))) (bus_topics bus)"
  shows "handle_topic_msg al env bus = Inl BadPointer"
proof -
  have "topic_unsub_loop (bus_topics bus) (pk_header (tm_pac u)) (tm_fd u) = None"
    using assms(3) by (simp add: topic_unsub_loop_None)
  moreover have "SRRP_UNSUBSCRIBE_LEADER \<noteq> SRRP_SUBSCRIBE_LEADER" by (simp add: srrp_consts)
  ultimately show ?thesis
    using assms(1,2) by (simp add: handle_topic_msg_def topic_unsub_handler_def)
qed

theorem unknown_unsubscription_faults_witness:
  "handle_topic_msg generous example_ops (example_bus\<lparr>bus_topic_msgs :=
     [\<lparr>tm_pac = example_packet SRRP_UNSUBSCRIBE_LEADER ''/a'', tm_fd = 4\<rparr>]\<rparr>) = Inl BadPointer"
  by (rule unknown_unsubscription_faults [where rest = "[]" and u = "\<lparr>tm_pac = example_packet SRRP_UNSUBSCRIBE_LEADER ''/a'', tm_fd = 4\<rparr>"])
    (simp_all add: example_bus_def example_packet_def)

end
