(* ===== verification/Apix_Sink.thy ===== *)
theory Apix_Sink
  imports Apix_Props
begin

text \<open>
  The contract between the bus and its sinks, as the locale \<open>sink_env\<close>: what \<open>open\<close>, \<open>close\<close> and \<open>poll\<close>
  of every sink must keep of the bus. From it follow, once for every environment that fulfils it, the
  invariant of the bus over all calls (\<open>bus_step\<close>) and that \<open>apibus_poll\<close> always returns.
\<close>

subsection \<open>Receiving\<close>

text \<open>Receiving into the buffer of a descriptor: \<open>recv\<close> or \<open>read\<close> stores the bytes at the write position,
  then \<open>atbuf_write_advance\<close> takes them over. The descriptor is replaced in its list.\<close>

fun replace1 :: "'a \<Rightarrow> 'a \<Rightarrow> 'a list \<Rightarrow> 'a list" where
  "replace1 x y [] = []"
| "replace1 x y (z # zs) = (if z = x then y # zs else z # replace1 x y zs)"

definition rx_store :: "atbuf \<Rightarrow> mem \<Rightarrow> atbuf res" where
  "rx_store b bytes =
     bindR (mem_write (ab_rawbuf b) (atbuf_write_pos b) bytes) (\<lambda>raw.
     bindR (atbuf_write_advance (b\<lparr>ab_rawbuf := raw\<rparr>) (length bytes)) (\<lambda>(_, b1). Inr b1))"

lemma rx_store_ok:
  assumes "rx_ok sf" and "rx_store (sf_rxbuf sf) bytes = Inr b"
  shows "rx_ok (sf\<lparr>sf_rxbuf := b\<rparr>) \<and> atbuf_content b = atbuf_content (sf_rxbuf sf) @ bytes"
proof -
  let ?b = "sf_rxbuf sf"
  obtain raw u where raw: "mem_write (ab_rawbuf ?b) (atbuf_write_pos ?b) bytes = Inr raw"
    and adv: "atbuf_write_advance (?b\<lparr>ab_rawbuf := raw\<rparr>) (length bytes) = Inr (u, b)"
    using assms(2) by (auto simp: rx_store_def bindR_eq_Inr_iff)
  have fits: "ab_offset_in ?b + length bytes \<le> ab_size ?b" "ab_size ?b < size_mod"
    using raw assms(1) by (auto simp: mem_write_def rx_ok_def atbuf_inv_def atbuf_write_pos_def split: if_splits)
  then have "length bytes < atbuf_spare ?b"
    using adv assms(1)
    by (cases "ab_offset_in ?b + length bytes = ab_size ?b")
      (auto simp: atbuf_write_advance_def assertR_eq_Inr_iff size_add_def rx_ok_def atbuf_spare_eq)
  moreover have "atbuf_inv ?b" using assms(1) by (simp add: rx_ok_def)
  ultimately obtain raw' b' where "mem_write (ab_rawbuf ?b) (atbuf_write_pos ?b) bytes = Inr raw'"
    "atbuf_write_advance (?b\<lparr>ab_rawbuf := raw'\<rparr>) (length bytes) = Inr (atbuf_spare b', b')" "atbuf_inv b'"
    "atbuf_content b' = atbuf_content ?b @ bytes" "atbuf_ended b'" "ab_size b' = ab_size ?b"
    using atbuf_copy_spec [of ?b "length bytes" bytes] by blast
  moreover from this raw adv have "b' = b" by simp
  ultimately show ?thesis using assms(1) by (simp add: rx_ok_def)
qed

lemma rx_store_fits:
  assumes "rx_ok sf" and "length bytes < atbuf_spare (sf_rxbuf sf)"
  shows "\<exists>b. rx_store (sf_rxbuf sf) bytes = Inr b"
proof -
  obtain raw b where "mem_write (ab_rawbuf (sf_rxbuf sf)) (atbuf_write_pos (sf_rxbuf sf)) bytes = Inr raw"
    "atbuf_write_advance (sf_rxbuf sf\<lparr>ab_rawbuf := raw\<rparr>) (length bytes) = Inr (atbuf_spare b, b)"
    using atbuf_copy_spec [of "sf_rxbuf sf" "length bytes" bytes] assms unfolding rx_ok_def by metis
  then show ?thesis by (simp add: rx_store_def)
qed

lemma rx_store_full:
  assumes "rx_ok sf" and "length bytes = atbuf_spare (sf_rxbuf sf)"
  shows "rx_store (sf_rxbuf sf) bytes = Inl AssertFail"
proof -
  have "ab_offset_in (sf_rxbuf sf) + length bytes = ab_size (sf_rxbuf sf)" "ab_size (sf_rxbuf sf) < size_mod"
    using assms by (auto simp: rx_ok_def atbuf_spare_eq atbuf_inv_def)
  then show ?thesis
    using assms(1) by (simp add: rx_store_def mem_write_def atbuf_write_pos_def rx_ok_def atbuf_inv_def
        atbuf_write_advance_def size_add_exact)
qed

lemma replace1_absent [simp]: "x \<notin> set xs \<Longrightarrow> replace1 x y xs = xs"
  by (induction xs) auto

lemma set_replace1: "set (replace1 x y xs) \<subseteq> insert y (set xs)"
  by (induction xs) auto

lemma map_replace1 [simp]: "f y = f x \<Longrightarrow> map f (replace1 x y xs) = map f xs"
  by (induction xs) auto

subsection \<open>Invariant of the bus\<close>

text \<open>
  \<open>bus_ok\<close> holds at every moment: well-formed receive buffers, no descriptor and no sink name twice,
  every descriptor belongs to a sink, a bounded sleeping time, and at most one subscription.
  \<open>bus_quiet\<close> holds between two calls: nothing is left to handle, and the requests on the list wait.
\<close>

definition bus_fds :: "apibus \<Rightarrow> int list" where
  "bus_fds bus = map sf_fd (bus_sinkfds bus)"

definition bus_ok :: "apibus \<Rightarrow> bool" where
  "bus_ok bus \<longleftrightarrow> list_all rx_ok (bus_sinkfds bus) \<and> list_all (\<lambda>sf. sf_sink sf \<noteq> None) (bus_sinkfds bus) \<and>
     distinct (bus_fds bus) \<and> distinct (map sk_name (bus_sinks bus)) \<and>
     bus_idle_usec bus \<le> APIBUS_IDLE_MAX \<and> one_subscription (bus_topics bus)"

definition bus_quiet :: "apibus \<Rightarrow> bool" where
  "bus_quiet bus \<longleftrightarrow> bus_responses bus = [] \<and> bus_topic_msgs bus = [] \<and>
     list_all (\<lambda>r. rq_state r = API_REQUEST_ST_WAIT_RESPONSE) (bus_requests bus)"

text \<open>What a call into a sink may change: the descriptors, the sets of descriptors to poll, and the
  list of closed descriptors.\<close>

definition sinks_only :: "apibus \<Rightarrow> apibus \<Rightarrow> bool" where
  "sinks_only bus bus' \<longleftrightarrow> bus_requests bus' = bus_requests bus \<and> bus_responses bus' = bus_responses bus \<and>
     bus_stations bus' = bus_stations bus \<and> bus_topic_msgs bus' = bus_topic_msgs bus \<and>
     bus_topics bus' = bus_topics bus \<and> bus_poll_ts bus' = bus_poll_ts bus \<and> bus_poll_cnt bus' = bus_poll_cnt bus \<and>
     bus_idle_usec bus' = bus_idle_usec bus \<and> bus_sent bus' = bus_sent bus \<and>
     map sk_name (bus_sinks bus') = map sk_name (bus_sinks bus)"

lemma sinks_only_refl [simp]: "sinks_only bus bus"
  by (simp add: sinks_only_def)

lemma sinks_only_trans: "sinks_only a b \<Longrightarrow> sinks_only b c \<Longrightarrow> sinks_only a c"
  by (simp add: sinks_only_def)

lemma sinks_only_upd [simp]:
  "sinks_only bus (bus\<lparr>bus_sinkfds := x\<rparr>)" "sinks_only bus (bus\<lparr>bus_closed := cl\<rparr>)"
  "map sk_name sks = map sk_name (bus_sinks bus) \<Longrightarrow> sinks_only bus (bus\<lparr>bus_sinks := sks\<rparr>)"
  by (simp_all add: sinks_only_def)

lemma sinks_only_quiet: "sinks_only bus bus' \<Longrightarrow> bus_quiet bus' = bus_quiet bus"
  by (auto simp: sinks_only_def bus_quiet_def)

lemma sinks_only_ok:
  assumes "sinks_only bus bus'" and "bus_ok bus" and "list_all rx_ok (bus_sinkfds bus')"
    and "list_all (\<lambda>sf. sf_sink sf \<noteq> None) (bus_sinkfds bus')" and "distinct (bus_fds bus')"
  shows "bus_ok bus'"
  using assms by (auto simp: sinks_only_def bus_ok_def)

subsection \<open>The contract\<close>

text \<open>
  \<open>env w\<close> are the tables of operations when the operating system answers \<open>w\<close>. \<open>opens w bus\<close> and
  \<open>polls w bus sinks\<close> say that the answers are possible for opening, and for polling these sinks in
  this order.
\<close>

locale sink_env =
  fixes env :: "'w \<Rightarrow> env"
    and opens :: "'w \<Rightarrow> apibus \<Rightarrow> bool"
    and polls :: "'w \<Rightarrow> apibus \<Rightarrow> apisink list \<Rightarrow> bool"
  assumes open_law: "\<And>w bus sink addr f fd bus'. bus_ok bus \<Longrightarrow> opens w bus \<Longrightarrow>
      op_open (env w (sk_ops sink)) = Some f \<Longrightarrow> f bus sink addr = Inr (fd, bus') \<Longrightarrow>
      bus_ok bus' \<and> sinks_only bus bus'"
    and close_law: "\<And>w bus sink f fd r bus'. bus_ok bus \<Longrightarrow>
      op_close (env w (sk_ops sink)) = Some f \<Longrightarrow> f bus sink fd = (r, bus') \<Longrightarrow>
      bus_ok bus' \<and> sinks_only bus bus'"
    and poll_law: "\<And>w bus sink rest f r bus'. bus_ok bus \<Longrightarrow> polls w bus (sink # rest) \<Longrightarrow>
      op_poll (env w (sk_ops sink)) = Some f \<Longrightarrow> f bus sink = Inr (r, bus') \<Longrightarrow>
      bus_ok bus' \<and> sinks_only bus bus' \<and> polls w bus' rest"
begin

lemma poll_sinks_ok:
  assumes "poll_sinks (env w) bus sinks = Inr bus'" and "bus_ok bus" and "polls w bus sinks"
  shows "bus_ok bus' \<and> sinks_only bus bus'"
  using assms
proof (induction sinks arbitrary: bus)
  case (Cons sink rest)
  obtain f r bus1 where f: "op_poll (env w (sk_ops sink)) = Some f" "f bus sink = Inr (r, bus1)"
    "poll_sinks (env w) bus1 rest = Inr bus'"
    using Cons.prems(1) by (auto simp: bindR_eq_Inr_iff split: option.splits)
  note l = poll_law [OF Cons.prems(2,3) f(1,2)]
  then have "bus_ok bus' \<and> sinks_only bus1 bus'" using Cons.IH [OF f(3)] by blast
  with l show ?case using sinks_only_trans by blast
qed simp

lemma apibus_open_ok:
  assumes "apibus_open (env w) bus name addr = Inr (fd, bus')" and "bus_ok bus" and "opens w bus"
  shows "bus_ok bus' \<and> sinks_only bus bus'"
  using assms open_law by (auto simp: apibus_open_def split: option.splits)

lemma apibus_close_ok:
  assumes "apibus_close (env w) bus fd = (r, bus')" and "bus_ok bus"
  shows "bus_ok bus' \<and> sinks_only bus bus'"
proof -
  have "bus_ok (snd (f bus sink fd)) \<and> sinks_only bus (snd (f bus sink fd))"
    if "op_close (env w (sk_ops sink)) = Some f" for f sink
    by (rule close_law [OF assms(2) that, of fd "fst (f bus sink fd)"]) simp
  then show ?thesis using assms by (auto simp: apibus_close_def split: option.splits)
qed

end

subsection \<open>Parsing and handling keep the invariant\<close>

definition parsed :: "apibus \<Rightarrow> apibus \<Rightarrow> bool" where
  "parsed bus bus' \<longleftrightarrow> bus_stations bus' = bus_stations bus \<and> bus_topics bus' = bus_topics bus \<and>
     bus_sinkfds bus' = bus_sinkfds bus \<and> bus_sinks bus' = bus_sinks bus \<and> bus_poll_ts bus' = bus_poll_ts bus \<and>
     bus_idle_usec bus' = bus_idle_usec bus \<and> bus_sent bus' = bus_sent bus \<and> bus_closed bus' = bus_closed bus"

lemma parsed_refl [simp]: "parsed bus bus"
  by (simp add: parsed_def)

lemma parsed_trans: "parsed a b \<Longrightarrow> parsed b c \<Longrightarrow> parsed a c"
  by (simp add: parsed_def)

lemma parsed_cnt [simp]: "parsed bus (bus\<lparr>bus_poll_cnt := n\<rparr>)"
  by (simp add: parsed_def)

lemma queue_packet_parsed: "queue_packet al now bus fd p = Inr bus' \<Longrightarrow> parsed bus bus'"
  by (auto simp: queue_packet_def parsed_def bindR_eq_Inr_iff split: if_splits)

text \<open>Parsing changes nothing of a descriptor but its receive buffer.\<close>

definition rx_only :: "sinkfd \<Rightarrow> sinkfd \<Rightarrow> bool" where
  "rx_only sf sf' \<longleftrightarrow> (\<exists>b. sf' = sf\<lparr>sf_rxbuf := b\<rparr>)"

lemma rx_only_refl [simp]: "rx_only sf sf"
  unfolding rx_only_def by (rule exI [of _ "sf_rxbuf sf"]) simp

lemma rx_only_trans: "rx_only a b \<Longrightarrow> rx_only b c \<Longrightarrow> rx_only a c"
  unfolding rx_only_def by fastforce

lemma parse_loop_parsed:
  "parse_loop fuel al now bus sf = Some (Inr (bus', sf')) \<Longrightarrow> parsed bus bus' \<and> rx_only sf sf'"
proof (induction fuel arbitrary: bus sf)
  case (Suc fuel)
  show ?case
  proof (cases "atbuf_used (sf_rxbuf sf) = 0")
    case True
    with Suc.prems show ?thesis by simp
  next
    case False
    have failed: "rx_only sf sf1" if "parse_failed now sf = Inr sf1" for sf1
      using that by (auto simp: parse_failed_def bindR_eq_Inr_iff assertR_eq_Inr_iff rx_only_def split: if_splits
          intro: exI [of _ "sf_rxbuf sf"])
    from False Suc.prems consider
      (none) "bus' = bus" "parse_failed now sf = Inr sf'"
      | (some) p bus1 b where "queue_packet al now bus (sf_fd sf) p = Inr bus1"
        "parse_loop fuel al now bus1 (sf\<lparr>sf_rxbuf := b\<rparr>) = Some (Inr (bus', sf'))"
      by (auto simp: bindR_eq_Inr_iff split: sum.splits option.splits)
    then show ?thesis
    proof cases
      case none
      with failed show ?thesis by simp
    next
      case (some p bus1 b)
      have "rx_only sf (sf\<lparr>sf_rxbuf := b\<rparr>)" by (auto simp: rx_only_def)
      with Suc.IH [OF some(2)] queue_packet_parsed [OF some(1)] show ?thesis
        using parsed_trans rx_only_trans by blast
    qed
  qed
qed simp

lemma parse_sinkfds_ends:
  assumes "list_all rx_ok sfs"
  shows "\<exists>r. parse_sinkfds al now bus sfs = Some r \<and>
    (\<forall>bus' sfs'. r = Inr (bus', sfs') \<longrightarrow> parsed bus bus' \<and> list_all2 (\<lambda>a b. rx_only a b \<and> rx_ok b) sfs sfs')"
  using assms
proof (induction sfs arbitrary: bus)
  case (Cons pos rest)
  define bus1 where "bus1 = (if timer_less (bus_poll_ts bus) (sf_ts_poll_recv pos)
    then bus\<lparr>bus_poll_cnt := bus_poll_cnt bus + 1\<rparr> else bus)"
  have p1: "parsed bus bus1" by (simp add: bus1_def)
  define q where "q = (if atbuf_used (sf_rxbuf pos) \<noteq> 0 then parse_packet al now bus1 pos else Some (Inr (bus1, pos)))"
  obtain r where r: "q = Some r"
    "\<And>bus2 pos1. r = Inr (bus2, pos1) \<Longrightarrow> parsed bus1 bus2 \<and> rx_only pos pos1 \<and> rx_ok pos1"
  proof (cases "atbuf_used (sf_rxbuf pos) = 0")
    case True
    with Cons.prems show thesis by (intro that [of "Inr (bus1, pos)"]) (auto simp: q_def)
  next
    case False
    with Cons.prems parse_loop_ends [of pos "Suc (atbuf_used (sf_rxbuf pos))" al now bus1] show thesis
      by (auto simp: q_def parse_packet_def simp del: parse_loop.simps intro!: that dest: parse_loop_parsed)
  qed
  show ?case
  proof (cases r)
    case (Inl e)
    then show ?thesis using r(1) by (simp only: parse_sinkfds.simps Let_def flip: bus1_def q_def) simp
  next
    case (Inr v)
    obtain bus2 pos1 where v: "v = (bus2, pos1)" by fastforce
    obtain r2 where r2: "parse_sinkfds al now bus2 rest = Some r2"
      "\<And>bus' sfs'. r2 = Inr (bus', sfs') \<Longrightarrow> parsed bus2 bus' \<and> list_all2 (\<lambda>a b. rx_only a b \<and> rx_ok b) rest sfs'"
      using Cons.IH [of bus2] Cons.prems by auto
    have eq: "parse_sinkfds al now bus (pos # rest) = Some (bindR r2 (\<lambda>(bus3, rest1). Inr (bus3, pos1 # rest1)))"
      using r(1) Inr v r2(1) by (simp only: parse_sinkfds.simps Let_def flip: bus1_def q_def) simp
    show ?thesis
      unfolding eq using r(2) Inr v r2(2) p1 by (fastforce simp: bindR_eq_Inr_iff intro: parsed_trans)
  qed
qed simp

lemma poll_idle_bound: "bus_idle_usec (poll_idle bus) \<le> APIBUS_IDLE_MAX \<or> bus_idle_usec bus > APIBUS_IDLE_MAX"
  by (auto simp: poll_idle_def Let_def APIBUS_IDLE_MAX_def)

lemma poll_idle_only: "\<exists>u. poll_idle bus = bus\<lparr>bus_idle_usec := u\<rparr>"
  by (auto simp: poll_idle_def Let_def intro: exI [of _ "bus_idle_usec bus"])

lemma rx_only_fds: "list_all2 (\<lambda>a b. rx_only a b \<and> rx_ok b) sfs sfs' \<Longrightarrow>
  map sf_fd sfs' = map sf_fd sfs \<and> list_all rx_ok sfs' \<and>
  (list_all (\<lambda>sf. sf_sink sf \<noteq> None) sfs \<longrightarrow> list_all (\<lambda>sf. sf_sink sf \<noteq> None) sfs')"
  by (induction rule: list_all2_induct) (auto simp: rx_only_def)

lemma handled_ok:
  assumes "handle_all al e now (poll_idle (bus\<lparr>bus_sinkfds := sfs\<rparr>)) = Inr bus'" and "bus_ok bus"
    and "list_all2 (\<lambda>a b. rx_only a b \<and> rx_ok b) (bus_sinkfds bus) sfs"
  shows "bus_ok bus' \<and> bus_quiet bus'"
proof -
  obtain u where u: "poll_idle (bus\<lparr>bus_sinkfds := sfs\<rparr>) = bus\<lparr>bus_sinkfds := sfs, bus_idle_usec := u\<rparr>"
    using poll_idle_only [of "bus\<lparr>bus_sinkfds := sfs\<rparr>"] by auto
  have "u \<le> APIBUS_IDLE_MAX"
    using poll_idle_bound [of "bus\<lparr>bus_sinkfds := sfs\<rparr>"] assms(2) by (simp add: u bus_ok_def)
  then show ?thesis
    using handle_all_kept [OF assms(1)] rx_only_fds [OF assms(3)] assms(2)
    by (auto simp: u bus_ok_def bus_quiet_def bus_fds_def list_all_iff waiting_def)
qed

subsection \<open>Runs of the bus\<close>

text \<open>One call into the bus. The receiving and the control call change nothing of it.\<close>

inductive bus_step ::
  "('w \<Rightarrow> env) \<Rightarrow> ('w \<Rightarrow> apibus \<Rightarrow> bool) \<Rightarrow> ('w \<Rightarrow> apibus \<Rightarrow> apisink list \<Rightarrow> bool) \<Rightarrow> apibus \<Rightarrow> apibus \<Rightarrow> bool"
  for env opens polls where
  step_open: "opens w bus \<Longrightarrow> apibus_open (env w) bus name addr = Inr (fd, bus') \<Longrightarrow>
    bus_step env opens polls bus bus'"
| step_close: "apibus_close (env w) bus fd = (r, bus') \<Longrightarrow> bus_step env opens polls bus bus'"
| step_send: "apibus_send (env w) bus fd buf len = Inr (r, bus') \<Longrightarrow> bus_step env opens polls bus bus'"
| step_add_sink: "apibus_add_sink bus sink = (r, bus') \<Longrightarrow> bus_step env opens polls bus bus'"
| step_del_sink: "apibus_del_sink bus sink = (sink', bus') \<Longrightarrow> bus_step env opens polls bus bus'"
| step_fini: "apisink_fini bus sink = (sink', bus') \<Longrightarrow> bus_step env opens polls bus bus'"
| step_poll: "polls w (bus\<lparr>bus_poll_cnt := 0, bus_poll_ts := tod\<rparr>) (bus_sinks bus) \<Longrightarrow>
    apibus_poll al (env w) tod now bus = Some (Inr (r, bus')) \<Longrightarrow> bus_step env opens polls bus bus'"

definition bus_inv :: "apibus \<Rightarrow> bool" where
  "bus_inv bus \<longleftrightarrow> bus_ok bus \<and> bus_quiet bus"

lemma apibus_new_inv: "apibus_new al = Inr bus \<Longrightarrow> bus_inv bus"
  by (auto simp: apibus_new_def bus_inv_def bus_ok_def bus_quiet_def bus_fds_def one_subscription_def split: if_splits)

lemma sinks_only_inv: "bus_inv bus \<Longrightarrow> bus_ok bus' \<and> sinks_only bus bus' \<Longrightarrow> bus_inv bus'"
  by (auto simp: bus_inv_def sinks_only_quiet)

lemma apibus_send_inv:
  "apibus_send env bus fd buf len = Inr (r, bus') \<Longrightarrow> bus_inv bus \<Longrightarrow> bus_inv bus'"
  by (drule apibus_send_frame) (auto simp: bus_inv_def bus_ok_def bus_quiet_def bus_fds_def)

lemma apibus_add_sink_inv: "apibus_add_sink bus sink = (r, bus') \<Longrightarrow> bus_inv bus \<Longrightarrow> bus_inv bus'"
  by (auto simp: apibus_add_sink_def bus_inv_def bus_ok_def bus_quiet_def bus_fds_def strcmp_eq_def split: if_splits)

lemma distinct_map_remove1: "distinct (map f xs) \<Longrightarrow> distinct (map f (remove1 x xs))"
  using set_remove1_subset by (induction xs) (fastforce)+

lemma apibus_del_sink_inv: "apibus_del_sink bus sink = (s, bus') \<Longrightarrow> bus_inv bus \<Longrightarrow> bus_inv bus'"
  by (auto simp: apibus_del_sink_def bus_inv_def bus_ok_def bus_quiet_def bus_fds_def distinct_map_remove1)

lemma sinkfd_destroy_ok: "bus_ok bus \<Longrightarrow> bus_ok (sinkfd_destroy bus sf) \<and> sinks_only bus (sinkfd_destroy bus sf)"
  by (auto simp: sinkfd_destroy_def bus_ok_def bus_fds_def list_all_iff distinct_map_remove1 dest: notin_set_remove1)

lemma sinkfds_destroy_ok:
  "bus_ok bus \<Longrightarrow> bus_ok (foldl sinkfd_destroy bus sfs) \<and> sinks_only bus (foldl sinkfd_destroy bus sfs)"
proof (induction sfs arbitrary: bus)
  case (Cons sf sfs)
  then show ?case using sinkfd_destroy_ok [OF Cons.prems, of sf] sinks_only_trans by (metis foldl_Cons)
qed simp

lemma apisink_fini_inv: "apisink_fini bus sink = (s, bus') \<Longrightarrow> bus_inv bus \<Longrightarrow> bus_inv bus'"
proof -
  assume f: "apisink_fini bus sink = (s, bus')" and i: "bus_inv bus"
  have "bus_inv (foldl sinkfd_destroy bus (sink_sinkfds bus sink))"
    using sinks_only_inv [OF i] sinkfds_destroy_ok i by (simp add: bus_inv_def)
  then show "bus_inv bus'" using f apibus_del_sink_inv by (auto simp: apisink_fini_def Let_def split: if_splits)
qed

context sink_env
begin

lemma apibus_poll_ends:
  assumes "bus_ok bus" and "polls w (bus\<lparr>bus_poll_cnt := 0, bus_poll_ts := tod\<rparr>) (bus_sinks bus)"
  shows "\<exists>x. apibus_poll al (env w) tod now bus = Some x \<and> (\<forall>r bus'. x = Inr (r, bus') \<longrightarrow> r = 0 \<and> bus_inv bus')"
proof (cases "poll_sinks (env w) (bus\<lparr>bus_poll_cnt := 0, bus_poll_ts := tod\<rparr>) (bus_sinks bus)")
  case (Inl e)
  then show ?thesis by (simp add: apibus_poll_def)
next
  case (Inr bus1)
  have "bus_ok (bus\<lparr>bus_poll_cnt := 0, bus_poll_ts := tod\<rparr>)" using assms(1) by (simp add: bus_ok_def bus_fds_def)
  then have ok1: "bus_ok bus1" using poll_sinks_ok [OF Inr _ assms(2)] by simp
  then obtain p where p: "parse_sinkfds al now bus1 (bus_sinkfds bus1) = Some p"
    "\<And>bus2 sfs. p = Inr (bus2, sfs) \<Longrightarrow> parsed bus1 bus2 \<and>
       list_all2 (\<lambda>a b. rx_only a b \<and> rx_ok b) (bus_sinkfds bus1) sfs"
    using parse_sinkfds_ends [of "bus_sinkfds bus1" al now bus1] by (auto simp: bus_ok_def)
  have "bus_inv bus3" if h: "handle_all al (env w) now (poll_idle (bus2\<lparr>bus_sinkfds := sfs\<rparr>)) = Inr bus3"
    and q: "p = Inr (bus2, sfs)" for bus2 sfs bus3
  proof -
    have "bus_ok bus2" "bus_sinkfds bus2 = bus_sinkfds bus1"
      using p(2) [OF q] ok1 by (auto simp: parsed_def bus_ok_def bus_fds_def)
    then show ?thesis using handled_ok [OF h] p(2) [OF q] by (simp add: bus_inv_def)
  qed
  then show ?thesis using Inr p(1) by (auto simp: apibus_poll_def bindR_eq_Inr_iff)
qed

lemma bus_step_inv: "bus_step env opens polls bus bus' \<Longrightarrow> bus_inv bus \<Longrightarrow> bus_inv bus'"
proof (induction rule: bus_step.induct)
  case (step_open w bus name addr fd bus')
  show ?case by (rule sinks_only_inv [OF step_open(3) apibus_open_ok [OF step_open(2)]])
    (use step_open in \<open>simp_all add: bus_inv_def\<close>)
next
  case (step_close w bus fd r bus')
  show ?case by (rule sinks_only_inv [OF step_close(2) apibus_close_ok [OF step_close(1)]])
    (use step_close in \<open>simp add: bus_inv_def\<close>)
next
  case (step_poll w tod bus al now r bus')
  then show ?case using apibus_poll_ends [of bus w tod al now] by (auto simp: bus_inv_def)
qed (blast intro: apibus_send_inv apibus_add_sink_inv apibus_del_sink_inv apisink_fini_inv)+

lemma bus_run_inv: "(bus_step env opens polls)\<^sup>*\<^sup>* bus bus' \<Longrightarrow> bus_inv bus \<Longrightarrow> bus_inv bus'"
  by (induction rule: rtranclp_induct) (auto intro: bus_step_inv)

end

end
