(* ===== verification/Apix_Posix.thy ===== *)
theory Apix_Posix
  imports Apix_Sink
begin

unbundle bit_operations_syntax

text \<open>
  The sinks of the bus on POSIX systems (\<open>apix-posix.c\<close>): Unix domain sockets, TCP sockets and serial
  lines. The answers of the operating system are a parameter, the record \<open>sys\<close>: one record answers the
  system calls of one call into a sink, a descriptor being asked at most once for data. The contract of
  the calls is \<open>sys_ok\<close>; what is sent and closed is recorded in the bus.
\<close>

subsection \<open>The operating system\<close>

datatype sockaddr = Sun string | Sin "32 word" "16 word"

record ioctl_serial_param =
  sp_baud :: nat
  sp_bits :: nat
  sp_parity :: char
  sp_stop :: nat

record termios =
  tio_cflag :: "32 word"
  tio_ispeed :: "32 word"
  tio_vtime :: nat
  tio_vmin :: nat

text \<open>\<open>sys_recv\<close> and \<open>sys_read\<close> give \<open>None\<close> for the result -1, and otherwise the bytes received, whose
  number is the result. \<open>sys_param\<close> is the memory behind the argument of \<open>ioctl\<close>.\<close>

record sys =
  sys_socket :: int
  sys_bind :: "int \<Rightarrow> sockaddr \<Rightarrow> int"
  sys_listen :: "int \<Rightarrow> nat \<Rightarrow> int"
  sys_open :: "string \<Rightarrow> int"
  sys_accept :: "int \<Rightarrow> int"
  sys_select :: "int \<Rightarrow> int set \<Rightarrow> int \<times> int set"
  sys_eintr :: bool
  sys_recv :: "int \<Rightarrow> nat \<Rightarrow> mem option"
  sys_send :: "int \<Rightarrow> mem \<Rightarrow> int"
  sys_read :: "int \<Rightarrow> nat \<Rightarrow> mem option"
  sys_write :: "int \<Rightarrow> mem \<Rightarrow> int"
  sys_time :: "nat \<times> nat"
  sys_inet_addr :: "string \<Rightarrow> 32 word"
  sys_tcgetattr :: "int \<Rightarrow> int"
  sys_tcsetattr :: "int \<Rightarrow> termios \<Rightarrow> int"
  sys_param :: "nat \<Rightarrow> ioctl_serial_param"

text \<open>The names of the sinks and the parameters of serial lines, as \<open>apix-posix.h\<close> defines them.\<close>

definition APISINK_UNIX :: string where "APISINK_UNIX = ''apisink_unix''"
definition APISINK_TCP :: string where "APISINK_TCP = ''apisink_tcp''"
definition APISINK_SERIAL :: string where "APISINK_SERIAL = ''apisink_serial''"

definition SERIAL_ARG_BAUD_9600 :: nat where "SERIAL_ARG_BAUD_9600 = 9600"
definition SERIAL_ARG_BAUD_115200 :: nat where "SERIAL_ARG_BAUD_115200 = 115200"
definition SERIAL_ARG_BITS_7 :: nat where "SERIAL_ARG_BITS_7 = 7"
definition SERIAL_ARG_BITS_8 :: nat where "SERIAL_ARG_BITS_8 = 8"
definition SERIAL_ARG_PARITY_O :: char where "SERIAL_ARG_PARITY_O = CHR ''O''"
definition SERIAL_ARG_PARITY_E :: char where "SERIAL_ARG_PARITY_E = CHR ''E''"
definition SERIAL_ARG_PARITY_N :: char where "SERIAL_ARG_PARITY_N = CHR ''N''"
definition SERIAL_ARG_STOP_1 :: nat where "SERIAL_ARG_STOP_1 = 1"
definition SERIAL_ARG_STOP_2 :: nat where "SERIAL_ARG_STOP_2 = 2"

lemmas sink_names = APISINK_UNIX_def APISINK_TCP_def APISINK_SERIAL_def

lemmas serial_args = SERIAL_ARG_BAUD_9600_def SERIAL_ARG_BAUD_115200_def SERIAL_ARG_BITS_7_def SERIAL_ARG_BITS_8_def
  SERIAL_ARG_PARITY_O_def SERIAL_ARG_PARITY_E_def SERIAL_ARG_PARITY_N_def SERIAL_ARG_STOP_1_def SERIAL_ARG_STOP_2_def

definition FD_SETSIZE :: int where "FD_SETSIZE = 1024"

definition FD_SET :: "int \<Rightarrow> int set \<Rightarrow> int set res" where
  "FD_SET fd fds = (if 0 \<le> fd \<and> fd < FD_SETSIZE then Inr (insert fd fds) else Inl OutOfBounds)"

definition SINKFD_ADDR_SIZE :: nat where "SINKFD_ADDR_SIZE = 64"

definition SUN_PATH_SIZE :: nat where "SUN_PATH_SIZE = 108"

subsection \<open>The sink around a descriptor\<close>

text \<open>The assignments to \<open>fds\<close> and \<open>nfds\<close> of the \<open>posix_sink\<close> that contains the sink; \<open>bound\<close> computes
  the new \<open>nfds\<close> from the old one.\<close>

definition posix_watch :: "apibus \<Rightarrow> apisink \<Rightarrow> int \<Rightarrow> (int \<Rightarrow> int) \<Rightarrow> apibus res" where
  "posix_watch bus sink fd bound =
     bindR (FD_SET fd {}) (\<lambda>fds.
       Inr (bus\<lparr>bus_sinks := map (\<lambda>s. if sk_name s = sk_name sink
              then s\<lparr>sk_fds := sk_fds s \<union> fds, sk_nfds := bound (sk_nfds s)\<rparr> else s) (bus_sinks bus)\<rparr>))"

text \<open>The code that the three \<open>open\<close> functions have in common, from \<open>sinkfd_new\<close> on.\<close>

definition posix_attach :: "allocator \<Rightarrow> apibus \<Rightarrow> apisink \<Rightarrow> int \<Rightarrow> int \<Rightarrow> string \<Rightarrow> (int \<times> apibus) res" where
  "posix_attach al bus sink fd lis addr =
     bindR (sinkfd_new al) (\<lambda>sf.
       let sf1 = sf\<lparr>sf_fd := fd, sf_listen := lis, sf_addr := snprintf_s SINKFD_ADDR_SIZE addr, sf_sink := Some sink\<rparr>
       in bindR (posix_watch (bus\<lparr>bus_sinkfds := sf1 # bus_sinkfds bus\<rparr>) sink fd (\<lambda>_. fd + 1)) (\<lambda>bus1.
          Inr (fd, bus1)))"

definition close_fd :: "apibus \<Rightarrow> int \<Rightarrow> apibus" where
  "close_fd bus fd = bus\<lparr>bus_closed := bus_closed bus @ [fd]\<rparr>"

text \<open>The code that the three \<open>close\<close> functions have in common; \<open>unlink\<close> does not concern the bus.\<close>

definition posix_detach :: "apibus \<Rightarrow> apisink \<Rightarrow> int \<Rightarrow> int \<times> apibus" where
  "posix_detach bus sink fd =
     (case find_sinkfd_in_apisink bus sink fd of
        None \<Rightarrow> (- 1, bus)
      | Some sf \<Rightarrow> (0, sinkfd_destroy (close_fd bus (sf_fd sf)) sf))"

text \<open>What both polling loops do with the result of \<open>recv\<close> or \<open>read\<close>: a failed or an empty read destroys
  the descriptor.\<close>

definition posix_receive :: "apibus \<Rightarrow> nat \<times> nat \<Rightarrow> sinkfd \<Rightarrow> mem option \<Rightarrow> apibus res" where
  "posix_receive bus tod pos nread =
     (case nread of
        None \<Rightarrow> Inr (sinkfd_destroy bus pos)
      | Some bytes \<Rightarrow>
          if bytes = [] then Inr (sinkfd_destroy bus pos)
          else bindR (rx_store (sf_rxbuf pos) bytes) (\<lambda>b.
            Inr (bus\<lparr>bus_sinkfds := replace1 pos (pos\<lparr>sf_rxbuf := b, sf_ts_poll_recv := tod\<rparr>) (bus_sinkfds bus)\<rparr>)))"

subsection \<open>Unix domain sockets\<close>

definition unix_open :: "allocator \<Rightarrow> sys \<Rightarrow> apibus \<Rightarrow> apisink \<Rightarrow> string \<Rightarrow> (int \<times> apibus) res" where
  "unix_open al sys bus sink addr =
     (let fd = sys_socket sys
      in if fd = - 1 then Inr (- 1, bus)
         else if sys_bind sys fd (Sun (snprintf_s SUN_PATH_SIZE addr)) = - 1 then Inr (- 1, close_fd bus fd)
         else if sys_listen sys fd 100 = - 1 then Inr (- 1, close_fd bus fd)
         else posix_attach al bus sink fd 1 addr)"

definition unix_close :: "apibus \<Rightarrow> apisink \<Rightarrow> int \<Rightarrow> int \<times> apibus" where
  "unix_close bus sink fd = posix_detach bus sink fd"

definition unix_send :: "sys \<Rightarrow> int \<Rightarrow> mem \<Rightarrow> int" where
  "unix_send sys fd buf = sys_send sys fd buf"

definition unix_recv :: "sys \<Rightarrow> int \<Rightarrow> nat \<Rightarrow> int \<times> mem" where
  "unix_recv sys fd sz = (case sys_recv sys fd sz of None \<Rightarrow> (- 1, []) | Some bytes \<Rightarrow> (int (length bytes), bytes))"

definition unix_accept :: "allocator \<Rightarrow> sys \<Rightarrow> apibus \<Rightarrow> apisink \<Rightarrow> sinkfd \<Rightarrow> apibus res" where
  "unix_accept al sys bus sink pos =
     (let newfd = sys_accept sys (sf_fd pos)
      in if newfd = - 1 then Inr bus
         else bindR (sinkfd_new al) (\<lambda>sf.
           posix_watch (bus\<lparr>bus_sinkfds := sf\<lparr>sf_fd := newfd, sf_sink := Some sink\<rparr> # bus_sinkfds bus\<rparr>)
             sink newfd (\<lambda>nfds. if nfds < newfd + 1 then newfd + 1 else nfds)))"

fun unix_poll_loop ::
  "allocator \<Rightarrow> sys \<Rightarrow> apisink \<Rightarrow> int set \<Rightarrow> int \<Rightarrow> sinkfd list \<Rightarrow> apibus \<Rightarrow> apibus res" where
  "unix_poll_loop al sys sink recvfds nr [] bus = Inr bus"
| "unix_poll_loop al sys sink recvfds nr (pos # rest) bus =
     (if nr = 0 then Inr bus
      else if sf_fd pos \<notin> recvfds then unix_poll_loop al sys sink recvfds nr rest bus
      else bindR (if sf_listen pos = 1 then unix_accept al sys bus sink pos
                  else posix_receive bus (sys_time sys) pos (sys_recv sys (sf_fd pos) (atbuf_spare (sf_rxbuf pos)))) (\<lambda>bus1.
           unix_poll_loop al sys sink recvfds (nr - 1) rest bus1))"

definition unix_poll :: "allocator \<Rightarrow> sys \<Rightarrow> apibus \<Rightarrow> apisink \<Rightarrow> (int \<times> apibus) res" where
  "unix_poll al sys bus sink =
     (let (nr, recvfds) = sys_select sys (sk_nfds sink) (sk_fds sink)
      in if nr = - 1 then Inr (if sys_eintr sys then 0 else - 1, bus)
         else bindR (unix_poll_loop al sys sink recvfds nr (sink_sinkfds bus sink) bus) (\<lambda>bus1. Inr (0, bus1)))"

definition unix_ops :: "allocator \<Rightarrow> sys \<Rightarrow> apisink_ops" where
  "unix_ops al sys =
     \<lparr>op_open = Some (unix_open al sys), op_close = Some unix_close, op_ioctl = None,
      op_send = Some (unix_send sys), op_recv = Some (unix_recv sys), op_poll = Some (unix_poll al sys)\<rparr>"

subsection \<open>TCP sockets\<close>

definition htons :: "16 word \<Rightarrow> 16 word" where
  "htons w = push_bit 8 w OR drop_bit 8 w"

text \<open>The address is copied and split at its first colon; neither the copy nor the colon is checked before it
  is dereferenced.\<close>

definition tcp_sockaddr :: "allocator \<Rightarrow> sys \<Rightarrow> string \<Rightarrow> sockaddr res" where
  "tcp_sockaddr al sys addr =
     (if \<not> grant al (length addr + 1) then Inl NullDeref
      else case strchr_c addr (CHR '':'') of
        None \<Rightarrow> Inl NullDeref
      | Some i \<Rightarrow> Inr (Sin (sys_inet_addr sys (take i addr)) (htons (word_of_int (atoi_c (drop (i + 1) addr))))))"

definition tcp_open :: "allocator \<Rightarrow> sys \<Rightarrow> apibus \<Rightarrow> apisink \<Rightarrow> string \<Rightarrow> (int \<times> apibus) res" where
  "tcp_open al sys bus sink addr =
     (let fd = sys_socket sys
      in if fd = - 1 then Inr (- 1, bus)
         else bindR (tcp_sockaddr al sys addr) (\<lambda>sa.
           if sys_bind sys fd sa = - 1 then Inr (- 1, close_fd bus fd)
           else if sys_listen sys fd 100 = - 1 then Inr (- 1, close_fd bus fd)
           else posix_attach al bus sink fd 1 addr))"

definition tcp_close :: "apibus \<Rightarrow> apisink \<Rightarrow> int \<Rightarrow> int \<times> apibus" where
  "tcp_close bus sink fd = posix_detach bus sink fd"

definition tcp_ops :: "allocator \<Rightarrow> sys \<Rightarrow> apisink_ops" where
  "tcp_ops al sys =
     \<lparr>op_open = Some (tcp_open al sys), op_close = Some tcp_close, op_ioctl = None,
      op_send = Some (unix_send sys), op_recv = Some (unix_recv sys), op_poll = Some (unix_poll al sys)\<rparr>"

subsection \<open>Serial lines\<close>

definition serial_open :: "allocator \<Rightarrow> sys \<Rightarrow> apibus \<Rightarrow> apisink \<Rightarrow> string \<Rightarrow> (int \<times> apibus) res" where
  "serial_open al sys bus sink addr =
     (let fd = sys_open sys addr
      in if fd = - 1 then Inr (- 1, bus) else posix_attach al bus sink fd 0 addr)"

definition serial_close :: "apibus \<Rightarrow> apisink \<Rightarrow> int \<Rightarrow> int \<times> apibus" where
  "serial_close bus sink fd = posix_detach bus sink fd"

text \<open>The mode bits of \<open>termios.h\<close> on Linux, and \<open>cfsetispeed\<close>, which stores the speed in its own field and in
  the control flags.\<close>

definition CBAUD :: "32 word" where "CBAUD = 0x100F"
definition B9600 :: "32 word" where "B9600 = 0xD"
definition B115200 :: "32 word" where "B115200 = 0x1002"

definition CSIZE :: "32 word" where "CSIZE = 0x30"
definition CS7 :: "32 word" where "CS7 = 0x20"
definition CS8 :: "32 word" where "CS8 = 0x30"
definition CSTOPB :: "32 word" where "CSTOPB = 0x40"
definition CREAD :: "32 word" where "CREAD = 0x80"
definition PARENB :: "32 word" where "PARENB = 0x100"
definition PARODD :: "32 word" where "PARODD = 0x200"
definition CLOCAL :: "32 word" where "CLOCAL = 0x800"
definition INPCK :: "32 word" where "INPCK = 0x10"
definition ISTRIP :: "32 word" where "ISTRIP = 0x20"

lemmas termios_bits = CBAUD_def B9600_def B115200_def CSIZE_def CS7_def CS8_def CSTOPB_def CREAD_def PARENB_def PARODD_def CLOCAL_def
  INPCK_def ISTRIP_def

definition cfsetispeed :: "32 word \<Rightarrow> termios \<Rightarrow> termios" where
  "cfsetispeed speed tio = tio\<lparr>tio_ispeed := speed, tio_cflag := (tio_cflag tio AND NOT CBAUD) OR speed\<rparr>"

definition serial_baud :: "nat \<Rightarrow> termios \<Rightarrow> termios option" where
  "serial_baud baud tio = (if baud = SERIAL_ARG_BAUD_9600 then Some (cfsetispeed B9600 tio)
     else if baud = SERIAL_ARG_BAUD_115200 then Some (cfsetispeed B115200 tio) else None)"

definition serial_bits :: "nat \<Rightarrow> 32 word \<Rightarrow> 32 word option" where
  "serial_bits bits f = (if bits = SERIAL_ARG_BITS_7 then Some (f OR CS7)
     else if bits = SERIAL_ARG_BITS_8 then Some (f OR CS8) else None)"

definition serial_parity :: "char \<Rightarrow> 32 word \<Rightarrow> 32 word option" where
  "serial_parity parity f =
     (if parity = SERIAL_ARG_PARITY_O then Some (((f OR PARENB) OR PARODD) OR (INPCK OR ISTRIP))
      else if parity = SERIAL_ARG_PARITY_E then Some (((f OR PARENB) AND NOT PARODD) OR (INPCK OR ISTRIP))
      else if parity = SERIAL_ARG_PARITY_N then Some (f AND NOT PARENB) else None)"

definition serial_stop :: "nat \<Rightarrow> 32 word \<Rightarrow> 32 word option" where
  "serial_stop stop f =
     (if stop = SERIAL_ARG_STOP_1 then Some (f AND NOT CSTOPB)
      else if stop = SERIAL_ARG_STOP_2 then Some (f OR CSTOPB) else None)"

text \<open>The settings that \<open>serial_ioctl\<close> builds, \<open>None\<close> where it returns -1 before applying them.\<close>

definition serial_termios :: "ioctl_serial_param \<Rightarrow> termios option" where
  "serial_termios sp =
     Option.bind (serial_baud (sp_baud sp)
       \<lparr>tio_cflag = (0 OR (CLOCAL OR CREAD)) AND NOT CSIZE, tio_ispeed = 0, tio_vtime = 0, tio_vmin = 0\<rparr>) (\<lambda>tio.
     Option.bind (serial_bits (sp_bits sp) (tio_cflag tio)) (\<lambda>f1.
     Option.bind (serial_parity (sp_parity sp) f1) (\<lambda>f2.
     Option.bind (serial_stop (sp_stop sp) f2) (\<lambda>f3.
       Some (tio\<lparr>tio_cflag := f3, tio_vtime := 0, tio_vmin := 0\<rparr>)))))"

definition serial_ioctl :: "sys \<Rightarrow> int \<Rightarrow> nat \<Rightarrow> nat \<Rightarrow> int" where
  "serial_ioctl sys fd cmd arg =
     (if sys_tcgetattr sys fd \<noteq> 0 then - 1
      else case serial_termios (sys_param sys arg) of
             None \<Rightarrow> - 1
           | Some newtio \<Rightarrow> if sys_tcsetattr sys fd newtio \<noteq> 0 then - 1 else 0)"

definition serial_send :: "sys \<Rightarrow> int \<Rightarrow> mem \<Rightarrow> int" where
  "serial_send sys fd buf = sys_write sys fd buf"

definition serial_recv :: "sys \<Rightarrow> int \<Rightarrow> nat \<Rightarrow> int \<times> mem" where
  "serial_recv sys fd sz = (case sys_read sys fd sz of None \<Rightarrow> (- 1, []) | Some bytes \<Rightarrow> (int (length bytes), bytes))"

fun serial_poll_loop :: "sys \<Rightarrow> int set \<Rightarrow> int \<Rightarrow> sinkfd list \<Rightarrow> apibus \<Rightarrow> apibus res" where
  "serial_poll_loop sys recvfds nr [] bus = Inr bus"
| "serial_poll_loop sys recvfds nr (pos # rest) bus =
     (if nr = 0 then Inr bus
      else if sf_fd pos \<notin> recvfds then serial_poll_loop sys recvfds nr rest bus
      else bindR (posix_receive bus (sys_time sys) pos (sys_read sys (sf_fd pos) (atbuf_spare (sf_rxbuf pos)))) (\<lambda>bus1.
           serial_poll_loop sys recvfds (nr - 1) rest bus1))"

definition serial_poll :: "sys \<Rightarrow> apibus \<Rightarrow> apisink \<Rightarrow> (int \<times> apibus) res" where
  "serial_poll sys bus sink =
     (let (nr, recvfds) = sys_select sys (sk_nfds sink) (sk_fds sink)
      in if nr = - 1 then Inr (if sys_eintr sys then 0 else - 1, bus)
         else bindR (serial_poll_loop sys recvfds nr (sink_sinkfds bus sink) bus) (\<lambda>bus1. Inr (0, bus1)))"

definition serial_ops :: "allocator \<Rightarrow> sys \<Rightarrow> apisink_ops" where
  "serial_ops al sys =
     \<lparr>op_open = Some (serial_open al sys), op_close = Some serial_close, op_ioctl = Some (serial_ioctl sys),
      op_send = Some (serial_send sys), op_recv = Some (serial_recv sys), op_poll = Some (serial_poll sys)\<rparr>"

subsection \<open>Enabling and disabling\<close>

text \<open>The tables of operations, each under the number that its sinks carry.\<close>

definition posix_env :: "allocator \<Rightarrow> sys \<Rightarrow> env" where
  "posix_env al sys k = (if k = 0 then unix_ops al sys else if k = 1 then tcp_ops al sys else serial_ops al sys)"

record posix_sinks =
  px_unix :: apisink
  px_tcp :: apisink
  px_serial :: apisink

text \<open>The three static sinks. A sink that is on the bus has its current value there, and the static
  variable is that object: initialising it again overwrites the links of a list it is still on, and the
  walks over that list never come back to its head. The model faults there.\<close>

definition enable_sink :: "apibus \<Rightarrow> apisink \<Rightarrow> string \<Rightarrow> nat \<Rightarrow> apibus res" where
  "enable_sink bus sink name ops =
     (if \<exists>pos \<in> set (bus_sinks bus). sk_name pos = name then Inl BadPointer
      else bindR (apisink_init sink name ops) (\<lambda>s. Inr (snd (apibus_add_sink bus s))))"

definition apibus_enable_posix :: "apibus \<Rightarrow> posix_sinks \<Rightarrow> (int \<times> apibus) res" where
  "apibus_enable_posix bus st =
     bindR (enable_sink bus (px_unix st) APISINK_UNIX 0) (\<lambda>bus1.
     bindR (enable_sink bus1 (px_tcp st) APISINK_TCP 1) (\<lambda>bus2.
     bindR (enable_sink bus2 (px_serial st) APISINK_SERIAL 2) (\<lambda>bus3. Inr (0, bus3))))"

definition disable_sink :: "apibus \<Rightarrow> apisink \<Rightarrow> apisink \<times> apibus" where
  "disable_sink bus sink = (let (s, bus1) = apibus_del_sink bus sink in apisink_fini bus1 s)"

definition apibus_disable_posix :: "apibus \<Rightarrow> posix_sinks \<Rightarrow> posix_sinks \<times> apibus" where
  "apibus_disable_posix bus st =
     (let (u, bus1) = disable_sink bus (px_unix st);
          (t, bus2) = disable_sink bus1 (px_tcp st);
          (s, bus3) = disable_sink bus2 (px_serial st)
      in (\<lparr>px_unix = u, px_tcp = t, px_serial = s\<rparr>, bus3))"

text \<open>The macros that open a descriptor through one of the sinks.\<close>

definition apibus_open_unix :: "env \<Rightarrow> apibus \<Rightarrow> string \<Rightarrow> (int \<times> apibus) res" where
  "apibus_open_unix env bus addr = apibus_open env bus APISINK_UNIX addr"

definition apibus_open_tcp :: "env \<Rightarrow> apibus \<Rightarrow> string \<Rightarrow> (int \<times> apibus) res" where
  "apibus_open_tcp env bus addr = apibus_open env bus APISINK_TCP addr"

definition apibus_open_serial :: "env \<Rightarrow> apibus \<Rightarrow> string \<Rightarrow> (int \<times> apibus) res" where
  "apibus_open_serial env bus addr = apibus_open env bus APISINK_SERIAL addr"

subsection \<open>The sinks fulfil the contract\<close>

text \<open>
  Numbers of new descriptors are not in use. A listening descriptor on the bus, of a sink still to be
  polled, accepts a connection under a number that is not on the bus, and no two the same.
\<close>

definition posix_opens :: "sys \<Rightarrow> apibus \<Rightarrow> bool" where
  "posix_opens sys bus \<longleftrightarrow> sys_socket sys \<notin> set (bus_fds bus) \<and> (\<forall>addr. sys_open sys addr \<notin> set (bus_fds bus))"

definition listeners :: "apibus \<Rightarrow> (int \<times> string) set" where
  "listeners bus = {(sf_fd sf, sk_name s) |sf s. sf \<in> set (bus_sinkfds bus) \<and> sf_listen sf = 1 \<and> sf_sink sf = Some s}"

definition accepts_apart :: "sys \<Rightarrow> bool" where
  "accepts_apart sys \<longleftrightarrow> (\<forall>x y. sys_accept sys x = sys_accept sys y \<longrightarrow> sys_accept sys x = - 1 \<or> x = y)"

definition posix_polls :: "sys \<Rightarrow> apibus \<Rightarrow> apisink list \<Rightarrow> bool" where
  "posix_polls sys bus sinks \<longleftrightarrow> accepts_apart sys \<and> distinct (map sk_name sinks) \<and>
     (\<forall>(fd, name) \<in> listeners bus. name \<in> sk_name ` set sinks \<longrightarrow>
        sys_accept sys fd = - 1 \<or> sys_accept sys fd \<notin> set (bus_fds bus))"

lemma sinkfd_new_rx:
  assumes "sinkfd_new al = Inr sf"
  shows "rx_ok (sf\<lparr>sf_fd := fd, sf_listen := l, sf_addr := a, sf_sink := s\<rparr>)" "sf_listen sf = 0"
    "rx_ok (sf\<lparr>sf_fd := fd, sf_sink := s\<rparr>)"
proof -
  obtain b where b: "atbuf_new al 0 = Some b" "sf_rxbuf sf = b" "sf_listen sf = 0"
    using assms by (auto simp: sinkfd_new_def split: if_splits option.splits)
  have "b = \<lparr>ab_rawbuf = replicate 4096 NUL, ab_size = 4096, ab_offset_in = 0, ab_offset_out = 0\<rparr>"
    using b(1) by (auto simp: atbuf_new_def calloc_c_def ATBUF_DEFAULT_SIZE_def Let_def split: if_splits)
  then have "rx_ok sf" by (simp add: rx_ok_def b(2) atbuf_inv_def atbuf_ended_def size_mod_def)
  then show "rx_ok (sf\<lparr>sf_fd := fd, sf_listen := l, sf_addr := a, sf_sink := s\<rparr>)"
    "rx_ok (sf\<lparr>sf_fd := fd, sf_sink := s\<rparr>)" by (simp_all add: rx_ok_def)
  show "sf_listen sf = 0" by (rule b(3))
qed

lemma posix_watch_frame:
  assumes "posix_watch bus sink fd bound = Inr bus'"
  shows "sinks_only bus bus'" "bus_sinkfds bus' = bus_sinkfds bus" "0 \<le> fd" "fd < FD_SETSIZE"
  using assms by (auto simp: posix_watch_def FD_SET_def sinks_only_def bindR_eq_Inr_iff split: if_splits)

text \<open>What a step of polling keeps: \<open>A\<close> are the numbers of the descriptors it may add.\<close>

definition poll_kept :: "int set \<Rightarrow> apibus \<Rightarrow> apibus \<Rightarrow> bool" where
  "poll_kept A bus bus' \<longleftrightarrow> bus_ok bus' \<and> sinks_only bus bus' \<and> set (bus_fds bus') \<subseteq> A \<union> set (bus_fds bus) \<and>
     listeners bus' \<subseteq> listeners bus"

lemma poll_kept_refl [simp]: "bus_ok bus \<Longrightarrow> poll_kept A bus bus"
  by (simp add: poll_kept_def)

lemma poll_kept_trans: "poll_kept A a b \<Longrightarrow> poll_kept B b c \<Longrightarrow> poll_kept (A \<union> B) a c"
  using sinks_only_trans unfolding poll_kept_def by blast

lemma poll_kept_mono: "poll_kept A a b \<Longrightarrow> A \<subseteq> B \<Longrightarrow> poll_kept B a b"
  unfolding poll_kept_def by blast

lemma attached_ok:
  assumes "posix_watch (bus\<lparr>bus_sinkfds := sf # bus_sinkfds bus\<rparr>) sink fd bound = Inr bus'"
    and "bus_ok bus" and "rx_ok sf" and "sf_sink sf \<noteq> None" and "sf_fd sf \<notin> set (bus_fds bus)"
  shows "bus_ok bus' \<and> sinks_only bus bus' \<and> bus_sinkfds bus' = sf # bus_sinkfds bus"
proof -
  note w = posix_watch_frame [OF assms(1)]
  have "sinks_only bus bus'" by (rule sinks_only_trans [OF _ w(1)]) simp
  moreover from this have "bus_ok bus'"
    by (rule sinks_only_ok) (use assms w(2) in \<open>auto simp: bus_ok_def bus_fds_def\<close>)
  ultimately show ?thesis using w(2) by simp
qed

lemma posix_attach_ok:
  assumes "posix_attach al bus sink fd l addr = Inr (r, bus')" and "bus_ok bus" and "fd \<notin> set (bus_fds bus)"
  shows "bus_ok bus' \<and> sinks_only bus bus'"
proof -
  obtain sf where sf: "sinkfd_new al = Inr sf" and
    w: "posix_watch (bus\<lparr>bus_sinkfds := sf\<lparr>sf_fd := fd, sf_listen := l, sf_addr := snprintf_s SINKFD_ADDR_SIZE addr,
      sf_sink := Some sink\<rparr> # bus_sinkfds bus\<rparr>) sink fd (\<lambda>_. fd + 1) = Inr bus'"
    using assms(1) by (auto simp: posix_attach_def bindR_eq_Inr_iff)
  show ?thesis using attached_ok [OF w assms(2) sinkfd_new_rx(1) [OF sf]] assms(3) by simp
qed

lemma unix_accept_ok:
  assumes "unix_accept al sys bus sink pos = Inr bus'" and "bus_ok bus"
    and "sys_accept sys (sf_fd pos) = - 1 \<or> sys_accept sys (sf_fd pos) \<notin> set (bus_fds bus)"
  shows "poll_kept {sys_accept sys (sf_fd pos)} bus bus'"
proof (cases "sys_accept sys (sf_fd pos) = - 1")
  case True
  then show ?thesis using assms(1,2) by (simp add: unix_accept_def)
next
  case False
  let ?new = "sys_accept sys (sf_fd pos)"
  obtain sf where sf: "sinkfd_new al = Inr sf" and
    w: "posix_watch (bus\<lparr>bus_sinkfds := sf\<lparr>sf_fd := ?new, sf_sink := Some sink\<rparr> # bus_sinkfds bus\<rparr>) sink ?new
      (\<lambda>nfds. if nfds < ?new + 1 then ?new + 1 else nfds) = Inr bus'"
    using assms(1) False by (auto simp: unix_accept_def bindR_eq_Inr_iff Let_def)
  from attached_ok [OF w assms(2) sinkfd_new_rx(3) [OF sf]] assms(3) False show ?thesis
    by (auto simp: poll_kept_def bus_fds_def listeners_def sinkfd_new_rx(2) [OF sf])
qed

lemma sinkfd_destroy_kept: "bus_ok bus \<Longrightarrow> poll_kept A bus (sinkfd_destroy bus sf)"
proof -
  assume "bus_ok bus"
  moreover have "set (bus_sinkfds (sinkfd_destroy bus sf)) \<subseteq> set (bus_sinkfds bus)"
    by (simp add: sinkfd_destroy_def set_remove1_subset)
  ultimately show ?thesis
    using sinkfd_destroy_ok [of bus sf] unfolding poll_kept_def bus_fds_def listeners_def by auto
qed

lemma received_kept:
  assumes "bus_ok bus" and "rx_ok pos" and "rx_store (sf_rxbuf pos) bytes = Inr b"
  shows "poll_kept A bus (bus\<lparr>bus_sinkfds := replace1 pos (pos\<lparr>sf_rxbuf := b, sf_ts_poll_recv := tod\<rparr>) (bus_sinkfds bus)\<rparr>)"
proof (cases "pos \<in> set (bus_sinkfds bus)")
  case False
  then show ?thesis using assms(1) by simp
next
  case True
  let ?new = "pos\<lparr>sf_rxbuf := b, sf_ts_poll_recv := tod\<rparr>"
  have rx: "rx_ok ?new" using rx_store_ok [OF assms(2,3)] by (simp add: rx_ok_def)
  let ?bus = "bus\<lparr>bus_sinkfds := replace1 pos ?new (bus_sinkfds bus)\<rparr>"
  have sub: "set (bus_sinkfds ?bus) \<subseteq> insert ?new (set (bus_sinkfds bus))" by (simp add: set_replace1)
  have fds: "bus_fds ?bus = bus_fds bus" by (simp add: bus_fds_def)
  have "sf_sink ?new \<noteq> None" using True assms(1) by (auto simp: bus_ok_def list_all_iff)
  then have "bus_ok ?bus"
    by (intro sinks_only_ok [OF _ assms(1)]) (use rx sub assms(1) fds in \<open>auto simp: bus_ok_def list_all_iff\<close>)
  moreover have "listeners ?bus \<subseteq> listeners bus"
    using sub True by (fastforce simp: listeners_def)
  ultimately show ?thesis by (simp add: poll_kept_def fds)
qed

lemma posix_receive_kept:
  assumes "posix_receive bus tod pos nread = Inr bus'" and "bus_ok bus" and "rx_ok pos"
  shows "poll_kept A bus bus'"
proof (cases "nread = None \<or> nread = Some []")
  case True
  then show ?thesis using assms(1) sinkfd_destroy_kept [OF assms(2)] by (auto simp: posix_receive_def)
next
  case False
  then obtain bytes where "nread = Some bytes" "bytes \<noteq> []" by auto
  then obtain b where b: "rx_store (sf_rxbuf pos) bytes = Inr b"
    "bus' = bus\<lparr>bus_sinkfds := replace1 pos (pos\<lparr>sf_rxbuf := b, sf_ts_poll_recv := tod\<rparr>) (bus_sinkfds bus)\<rparr>"
    using assms(1) by (auto simp: posix_receive_def bindR_eq_Inr_iff)
  show ?thesis unfolding b(2) by (rule received_kept [OF assms(2,3) b(1)])
qed

lemma accepts_still_apart:
  assumes "poll_kept {sys_accept sys fd} bus bus1" and "accepts_apart sys" and "fd' \<noteq> fd"
    and "sys_accept sys fd' = - 1 \<or> sys_accept sys fd' \<notin> set (bus_fds bus)"
  shows "sys_accept sys fd' = - 1 \<or> sys_accept sys fd' \<notin> set (bus_fds bus1)"
proof -
  have "sys_accept sys fd' = - 1 \<or> sys_accept sys fd' \<noteq> sys_accept sys fd"
    using assms(2,3) unfolding accepts_apart_def by metis
  then show ?thesis using assms(1,4) by (auto simp: poll_kept_def)
qed

lemma unix_poll_loop_kept:
  assumes "unix_poll_loop al sys sink recvfds nr poss bus = Inr bus'" and "bus_ok bus" and "list_all rx_ok poss"
    and "distinct (map sf_fd poss)" and "accepts_apart sys"
    and "\<And>pos. pos \<in> set poss \<Longrightarrow> sf_listen pos = 1 \<Longrightarrow>
      sys_accept sys (sf_fd pos) = - 1 \<or> sys_accept sys (sf_fd pos) \<notin> set (bus_fds bus)"
  shows "poll_kept {sys_accept sys (sf_fd pos) |pos. pos \<in> set poss \<and> sf_listen pos = 1} bus bus'"
  using assms
proof (induction poss arbitrary: nr bus)
  case (Cons pos rest)
  let ?A = "{sys_accept sys (sf_fd p) |p. p \<in> set rest \<and> sf_listen p = 1}"
  let ?B = "{sys_accept sys (sf_fd p) |p. p \<in> set (pos # rest) \<and> sf_listen p = 1}"
  consider (stop) "nr = 0" | (skip) "nr \<noteq> 0" "sf_fd pos \<notin> recvfds"
    | (lis) "nr \<noteq> 0" "sf_fd pos \<in> recvfds" "sf_listen pos = 1"
    | (rcv) "nr \<noteq> 0" "sf_fd pos \<in> recvfds" "sf_listen pos \<noteq> 1" by blast
  then show ?case
  proof cases
    case stop
    then show ?thesis using Cons.prems(1,2) by simp
  next
    case skip
    have "poll_kept ?A bus bus'" by (rule Cons.IH) (use Cons.prems skip in auto)
    then show ?thesis by (rule poll_kept_mono) auto
  next
    case lis
    then obtain bus1 where acc: "unix_accept al sys bus sink pos = Inr bus1"
      and loop: "unix_poll_loop al sys sink recvfds (nr - 1) rest bus1 = Inr bus'"
      using Cons.prems(1) by (auto simp: bindR_eq_Inr_iff)
    have k: "poll_kept {sys_accept sys (sf_fd pos)} bus bus1"
      using unix_accept_ok [OF acc Cons.prems(2)] Cons.prems(6) [of pos] lis(3) by simp
    have "sys_accept sys (sf_fd p) = - 1 \<or> sys_accept sys (sf_fd p) \<notin> set (bus_fds bus1)"
      if "p \<in> set rest" "sf_listen p = 1" for p
    proof -
      have "sf_fd p \<noteq> sf_fd pos" using Cons.prems(4) that(1) by (metis distinct.simps(2) imageI list.simps(9) list.set_map)
      then show ?thesis using accepts_still_apart [OF k Cons.prems(5) _ Cons.prems(6) [of p]] that by simp
    qed
    then have "poll_kept ?A bus1 bus'"
      by (intro Cons.IH [OF loop]) (use Cons.prems k in \<open>auto simp: poll_kept_def\<close>)
    from poll_kept_trans [OF k this] show ?thesis by (rule poll_kept_mono) (use lis(3) in auto)
  next
    case rcv
    then obtain bus1 where got:
      "posix_receive bus (sys_time sys) pos (sys_recv sys (sf_fd pos) (atbuf_spare (sf_rxbuf pos))) = Inr bus1"
      and loop: "unix_poll_loop al sys sink recvfds (nr - 1) rest bus1 = Inr bus'"
      using Cons.prems(1) by (auto simp: bindR_eq_Inr_iff)
    have k: "poll_kept {} bus bus1" by (rule posix_receive_kept [OF got]) (use Cons.prems in auto)
    have "poll_kept ?A bus1 bus'"
    proof (rule Cons.IH [OF loop])
      fix p assume "p \<in> set rest" "sf_listen p = 1"
      then show "sys_accept sys (sf_fd p) = - 1 \<or> sys_accept sys (sf_fd p) \<notin> set (bus_fds bus1)"
        using Cons.prems(6) [of p] k by (auto simp: poll_kept_def)
    qed (use Cons.prems k in \<open>auto simp: poll_kept_def\<close>)
    from poll_kept_trans [OF k this] show ?thesis by (rule poll_kept_mono) auto
  qed
qed simp

lemma serial_poll_loop_kept:
  assumes "serial_poll_loop sys recvfds nr poss bus = Inr bus'" and "bus_ok bus" and "list_all rx_ok poss"
  shows "poll_kept {} bus bus'"
  using assms
proof (induction poss arbitrary: nr bus)
  case (Cons pos rest)
  consider (stop) "nr = 0" | (skip) "nr \<noteq> 0" "sf_fd pos \<notin> recvfds" | (rcv) "nr \<noteq> 0" "sf_fd pos \<in> recvfds" by blast
  then show ?case
  proof cases
    case rcv
    then obtain bus1 where got:
      "posix_receive bus (sys_time sys) pos (sys_read sys (sf_fd pos) (atbuf_spare (sf_rxbuf pos))) = Inr bus1"
      and loop: "serial_poll_loop sys recvfds (nr - 1) rest bus1 = Inr bus'"
      using Cons.prems(1) by (auto simp: bindR_eq_Inr_iff)
    have k: "poll_kept {} bus bus1" by (rule posix_receive_kept [OF got]) (use Cons.prems in auto)
    then have "poll_kept {} bus1 bus'" using Cons.IH [OF loop] Cons.prems(3) by (simp add: poll_kept_def)
    from poll_kept_trans [OF k this] show ?thesis by simp
  qed (use Cons in auto)
qed simp

lemma sink_sinkfds_ok:
  assumes "bus_ok bus"
  shows "list_all rx_ok (sink_sinkfds bus sink)" "distinct (map sf_fd (sink_sinkfds bus sink))"
    "set (sink_sinkfds bus sink) \<subseteq> set (bus_sinkfds bus)"
  using assms by (auto simp: bus_ok_def sink_sinkfds_def bus_fds_def list_all_iff distinct_map_filter)

lemma poll_kept_polls:
  assumes "posix_polls sys bus (sink # rest)" and "bus_ok bus"
    and "poll_kept {sys_accept sys (sf_fd pos) |pos. pos \<in> set (sink_sinkfds bus sink) \<and> sf_listen pos = 1} bus bus'"
  shows "posix_polls sys bus' rest"
proof -
  have "sys_accept sys fd = - 1 \<or> sys_accept sys fd \<notin> set (bus_fds bus')"
    if l: "(fd, name) \<in> listeners bus'" and n: "name \<in> sk_name ` set rest" for fd name
  proof (rule ccontr)
    assume "\<not> (sys_accept sys fd = - 1 \<or> sys_accept sys fd \<notin> set (bus_fds bus'))"
    then have a: "sys_accept sys fd \<noteq> - 1" "sys_accept sys fd \<in> set (bus_fds bus')" by auto
    have lb: "(fd, name) \<in> listeners bus" using l assms(3) by (auto simp: poll_kept_def)
    then have "sys_accept sys fd \<notin> set (bus_fds bus)"
      using assms(1) n a(1) by (auto simp: posix_polls_def)
    then obtain pos where pos: "pos \<in> set (sink_sinkfds bus sink)" "sys_accept sys fd = sys_accept sys (sf_fd pos)"
      using a(2) assms(3) by (auto simp: poll_kept_def)
    then have "fd = sf_fd pos" using assms(1) a(1) by (metis posix_polls_def accepts_apart_def)
    moreover obtain sf s where sf: "sf \<in> set (bus_sinkfds bus)" "sf_fd sf = fd" "sf_sink sf = Some s" "sk_name s = name"
      using lb by (auto simp: listeners_def)
    ultimately have "sf = pos"
      using assms(2) pos(1) sink_sinkfds_ok(3) [OF assms(2), of sink]
      by (auto simp: bus_ok_def bus_fds_def distinct_map inj_on_def)
    then have "name = sk_name sink" using pos(1) sf by (auto simp: sink_sinkfds_def)
    then show False using n assms(1) by (auto simp: posix_polls_def)
  qed
  then show ?thesis using assms(1) by (auto simp: posix_polls_def)
qed

lemma unix_poll_law:
  assumes "unix_poll al sys bus sink = Inr (r, bus')" and "bus_ok bus" and "posix_polls sys bus (sink # rest)"
  shows "bus_ok bus' \<and> sinks_only bus bus' \<and> posix_polls sys bus' rest"
proof -
  let ?A = "{sys_accept sys (sf_fd pos) |pos. pos \<in> set (sink_sinkfds bus sink) \<and> sf_listen pos = 1}"
  obtain nr recvfds where "bus' = bus \<or> unix_poll_loop al sys sink recvfds nr (sink_sinkfds bus sink) bus = Inr bus'"
    using assms(1) by (auto simp: unix_poll_def bindR_eq_Inr_iff split: prod.splits if_splits)
  then have "poll_kept ?A bus bus'"
  proof
    assume loop: "unix_poll_loop al sys sink recvfds nr (sink_sinkfds bus sink) bus = Inr bus'"
    show ?thesis
    proof (rule unix_poll_loop_kept [OF loop assms(2) sink_sinkfds_ok(1,2) [OF assms(2)]])
      show "accepts_apart sys" using assms(3) by (simp add: posix_polls_def)
      fix pos assume "pos \<in> set (sink_sinkfds bus sink)" "sf_listen pos = 1"
      then have "(sf_fd pos, sk_name sink) \<in> listeners bus" by (auto simp: sink_sinkfds_def listeners_def)
      then show "sys_accept sys (sf_fd pos) = - 1 \<or> sys_accept sys (sf_fd pos) \<notin> set (bus_fds bus)"
        using assms(3) by (auto simp: posix_polls_def)
    qed
  qed (use assms(2) in simp)
  then show ?thesis using poll_kept_polls [OF assms(3,2)] by (auto simp: poll_kept_def)
qed

lemma serial_poll_law:
  assumes "serial_poll sys bus sink = Inr (r, bus')" and "bus_ok bus" and "posix_polls sys bus (sink # rest)"
  shows "bus_ok bus' \<and> sinks_only bus bus' \<and> posix_polls sys bus' rest"
proof -
  obtain nr recvfds where "bus' = bus \<or> serial_poll_loop sys recvfds nr (sink_sinkfds bus sink) bus = Inr bus'"
    using assms(1) by (auto simp: serial_poll_def bindR_eq_Inr_iff split: prod.splits if_splits)
  then have k: "poll_kept {} bus bus'"
    using serial_poll_loop_kept [OF _ assms(2) sink_sinkfds_ok(1) [OF assms(2)]] assms(2) by auto
  then show ?thesis
    using poll_kept_polls [OF assms(3,2) poll_kept_mono [OF k]] by (auto simp: poll_kept_def)
qed

lemma posix_detach_ok:
  assumes "posix_detach bus sink fd = (r, bus')" and "bus_ok bus"
  shows "bus_ok bus' \<and> sinks_only bus bus'"
proof -
  have c: "bus_ok (close_fd bus n)" "sinks_only bus (close_fd bus n)" for n
    using assms(2) by (auto simp: close_fd_def bus_ok_def bus_fds_def)
  have "bus_ok (sinkfd_destroy (close_fd bus n) sf) \<and> sinks_only bus (sinkfd_destroy (close_fd bus n) sf)" for n sf
    using sinkfd_destroy_ok [OF c(1)] sinks_only_trans [OF c(2)] by blast
  then show ?thesis
    using assms by (auto simp: posix_detach_def split: option.splits)
qed

lemma posix_open_law:
  assumes "bus_ok bus" and "posix_opens sys bus"
    and "unix_open al sys bus sink addr = Inr (fd, bus') \<or> tcp_open al sys bus sink addr = Inr (fd, bus') \<or>
      serial_open al sys bus sink addr = Inr (fd, bus')"
  shows "bus_ok bus' \<and> sinks_only bus bus'"
proof -
  have c: "bus_ok (close_fd bus n)" "sinks_only bus (close_fd bus n)" for n
    using assms(1) by (auto simp: close_fd_def bus_ok_def bus_fds_def)
  from assms(3) consider "bus' = bus" | n where "bus' = close_fd bus n"
    | n l where "posix_attach al bus sink n l addr = Inr (fd, bus')" "n \<notin> set (bus_fds bus)"
    using assms(2) by (auto simp: unix_open_def tcp_open_def serial_open_def posix_opens_def Let_def bindR_eq_Inr_iff
        split: if_splits)
  then show ?thesis using c assms(1) posix_attach_ok by cases auto
qed

interpretation px: sink_env "posix_env al" posix_opens posix_polls
proof
  fix sys bus sink addr f fd bus'
  assume "bus_ok bus" "posix_opens sys bus" "op_open (posix_env al sys (sk_ops sink)) = Some f"
    "f bus sink addr = Inr (fd, bus')"
  then show "bus_ok bus' \<and> sinks_only bus bus'"
    using posix_open_law [of bus sys al sink addr fd bus']
    by (auto simp: posix_env_def unix_ops_def tcp_ops_def serial_ops_def split: if_splits)
next
  fix sys bus sink f fd r bus'
  assume "bus_ok bus" "op_close (posix_env al sys (sk_ops sink)) = Some f" "f bus sink fd = (r, bus')"
  then show "bus_ok bus' \<and> sinks_only bus bus'"
    using posix_detach_ok [of bus sink fd r bus']
    by (auto simp: posix_env_def unix_ops_def tcp_ops_def serial_ops_def unix_close_def tcp_close_def serial_close_def
        split: if_splits)
next
  fix sys bus sink rest f r bus'
  assume "bus_ok bus" "posix_polls sys bus (sink # rest)" "op_poll (posix_env al sys (sk_ops sink)) = Some f"
    "f bus sink = Inr (r, bus')"
  then show "bus_ok bus' \<and> sinks_only bus bus' \<and> posix_polls sys bus' rest"
    using unix_poll_law [of al sys bus sink r bus' rest] serial_poll_law [of sys bus sink r bus' rest]
    by (auto simp: posix_env_def unix_ops_def tcp_ops_def serial_ops_def split: if_splits)
qed

subsection \<open>What polling delivers\<close>

text \<open>The outcome of a read for a descriptor: it is gone, or its buffer holds the bytes.\<close>

definition outcome :: "sys \<Rightarrow> sinkfd \<Rightarrow> sinkfd list" where
  "outcome sys sf =
     (case sys_recv sys (sf_fd sf) (atbuf_spare (sf_rxbuf sf)) of
        None \<Rightarrow> []
      | Some bytes \<Rightarrow> if bytes = [] then []
          else [sf\<lparr>sf_rxbuf := projr (rx_store (sf_rxbuf sf) bytes), sf_ts_poll_recv := sys_time sys\<rparr>])"

definition read_fits :: "sys \<Rightarrow> sinkfd \<Rightarrow> bool" where
  "read_fits sys sf \<longleftrightarrow> (case sys_recv sys (sf_fd sf) (atbuf_spare (sf_rxbuf sf)) of
     None \<Rightarrow> True | Some bytes \<Rightarrow> length bytes < atbuf_spare (sf_rxbuf sf))"

text \<open>What \<open>accept\<close> returns: \<open>- 1\<close>, or a number that fits into a set of descriptors and is not on the bus, for
  which there is the memory of a new descriptor \<open>blank\<close>.\<close>

definition accept_fits :: "allocator \<Rightarrow> sys \<Rightarrow> sinkfd \<Rightarrow> apibus \<Rightarrow> sinkfd \<Rightarrow> bool" where
  "accept_fits al sys blank bus sf \<longleftrightarrow> (let fd = sys_accept sys (sf_fd sf)
     in fd = - 1 \<or> 0 \<le> fd \<and> fd < FD_SETSIZE \<and> fd \<notin> set (bus_fds bus) \<and> sinkfd_new al = Inr blank)"

text \<open>What is asked of a descriptor that is reported ready.\<close>

definition ready_fits :: "allocator \<Rightarrow> sys \<Rightarrow> sinkfd \<Rightarrow> int set \<Rightarrow> apibus \<Rightarrow> sinkfd \<Rightarrow> bool" where
  "ready_fits al sys blank ready bus sf \<longleftrightarrow>
     sf_fd sf \<in> ready \<longrightarrow> (if sf_listen sf = 1 then accept_fits al sys blank bus sf else read_fits sys sf)"

text \<open>What a listening descriptor that is ready adds: a descriptor, and its number to those of the sink.\<close>

definition admits :: "sys \<Rightarrow> sinkfd \<Rightarrow> apisink \<Rightarrow> sinkfd \<Rightarrow> sinkfd list" where
  "admits sys blank sink sf = (let fd = sys_accept sys (sf_fd sf)
     in if fd = - 1 then [] else [blank\<lparr>sf_fd := fd, sf_sink := Some sink\<rparr>])"

definition watch :: "apisink \<Rightarrow> sinkfd \<Rightarrow> apisink list \<Rightarrow> apisink list" where
  "watch sink sf sinks = map (\<lambda>s. if sk_name s = sk_name sink
     then s\<lparr>sk_fds := insert (sf_fd sf) (sk_fds s), sk_nfds := max (sk_nfds s) (sf_fd sf + 1)\<rparr> else s) sinks"

lemma remove1_concat: "distinct xs \<Longrightarrow> remove1 x xs = concat (map (\<lambda>z. if z = x then [] else [z]) xs)"
proof (induction xs)
  case (Cons z zs)
  have "concat (map (\<lambda>z. if z = x then [] else [z]) zs) = zs" if "x \<notin> set zs"
    using that by (induction zs) auto
  with Cons show ?case by auto
qed simp

lemma replace1_concat: "distinct xs \<Longrightarrow> replace1 x y xs = concat (map (\<lambda>z. if z = x then [y] else [z]) xs)"
proof (induction xs)
  case (Cons z zs)
  have "concat (map (\<lambda>z. if z = x then [y] else [z]) zs) = zs" if "x \<notin> set zs"
    using that by (induction zs) auto
  with Cons show ?case by auto
qed simp

lemma concat_map_twice: "concat (map h (concat (map g xs))) = concat (map (\<lambda>x. concat (map h (g x))) xs)"
  by (induction xs) auto

lemma posix_receive_outcome:
  assumes "bus_ok bus" and "rx_ok pos" and "read_fits sys pos"
  shows "posix_receive bus (sys_time sys) pos (sys_recv sys (sf_fd pos) (atbuf_spare (sf_rxbuf pos))) =
    Inr (bus\<lparr>bus_sinkfds := concat (map (\<lambda>sf. if sf = pos then outcome sys pos else [sf]) (bus_sinkfds bus))\<rparr>)"
proof -
  have d: "distinct (bus_sinkfds bus)" using assms(1) by (simp add: bus_ok_def bus_fds_def distinct_map)
  show ?thesis
  proof (cases "sys_recv sys (sf_fd pos) (atbuf_spare (sf_rxbuf pos))")
    case None
    then have o: "outcome sys pos = []" by (simp add: outcome_def)
    from None show ?thesis unfolding o by (simp add: posix_receive_def sinkfd_destroy_def remove1_concat [OF d])
  next
    case (Some bytes)
    then obtain b where "rx_store (sf_rxbuf pos) bytes = Inr b"
      using rx_store_fits [OF assms(2)] assms(3) by (auto simp: read_fits_def)
    moreover from this Some have o: "outcome sys pos =
      (if bytes = [] then [] else [pos\<lparr>sf_rxbuf := b, sf_ts_poll_recv := sys_time sys\<rparr>])" by (simp add: outcome_def)
    ultimately show ?thesis using Some unfolding o
      by (simp add: posix_receive_def sinkfd_destroy_def remove1_concat [OF d] replace1_concat [OF d])
  qed
qed

lemma outcome_fd: "sf \<in> set (outcome sys pos) \<Longrightarrow> sf_fd sf = sf_fd pos"
  by (auto simp: outcome_def split: option.splits if_splits)

lemma outcome_other:
  assumes "sf_fd pos \<notin> sf_fd ` set rest"
  shows "concat (map (\<lambda>sf. if sf \<in> set rest \<and> P sf then outcome sys sf else [sf]) (outcome sys pos)) = outcome sys pos"
proof -
  have "map (\<lambda>sf. if sf \<in> set rest \<and> P sf then outcome sys sf else [sf]) (outcome sys pos) =
    map (\<lambda>sf. [sf]) (outcome sys pos)"
    using assms outcome_fd by (intro map_cong) (auto simp: image_iff)
  then show ?thesis by (simp only: concat_map_singleton map_ident)
qed

lemma unix_accept_admits:
  assumes "accept_fits al sys blank bus pos"
  shows "unix_accept al sys bus sink pos = Inr (bus\<lparr>bus_sinkfds := admits sys blank sink pos @ bus_sinkfds bus,
    bus_sinks := fold (watch sink) (admits sys blank sink pos) (bus_sinks bus)\<rparr>)"
proof (cases "sys_accept sys (sf_fd pos) = - 1")
  case False
  then have "FD_SET (sys_accept sys (sf_fd pos)) {} = Inr {sys_accept sys (sf_fd pos)}" "sinkfd_new al = Inr blank"
    using assms by (simp_all add: accept_fits_def Let_def FD_SET_def)
  then show ?thesis using False
    by (auto simp: unix_accept_def Let_def posix_watch_def admits_def watch_def max_def)
qed (simp add: unix_accept_def admits_def)

text \<open>A poll of a socket sink as a whole: new connections come in front, the last one accepted first, and
  every connection that was ready is replaced by the outcome of its read.\<close>

definition polled :: "sys \<Rightarrow> int set \<Rightarrow> sinkfd list \<Rightarrow> sinkfd \<Rightarrow> sinkfd list" where
  "polled sys ready poss sf = (if sf \<in> set poss \<and> sf_fd sf \<in> ready \<and> sf_listen sf \<noteq> 1 then outcome sys sf else [sf])"

definition admitted :: "sys \<Rightarrow> sinkfd \<Rightarrow> apisink \<Rightarrow> int set \<Rightarrow> sinkfd list \<Rightarrow> sinkfd list" where
  "admitted sys blank sink ready poss =
     concat (map (admits sys blank sink) (filter (\<lambda>sf. sf_fd sf \<in> ready \<and> sf_listen sf = 1) poss))"

lemma polled_none:
  "list_all (\<lambda>sf. sf_fd sf \<notin> ready) poss \<Longrightarrow> concat (map (polled sys ready poss) xs) = xs \<and> admitted sys blank sink ready poss = []"
  by (induction xs) (auto simp: polled_def admitted_def list_all_iff filter_empty_conv)

lemma polled_admits:
  assumes "accept_fits al sys blank bus pos" and "set poss \<subseteq> set (bus_sinkfds bus)"
  shows "concat (map (polled sys ready poss) (admits sys blank sink pos)) = admits sys blank sink pos"
proof -
  have "sf \<notin> set poss" if "sf \<in> set (admits sys blank sink pos)" for sf
  proof
    assume "sf \<in> set poss"
    then have "sf_fd sf \<in> set (bus_fds bus)" using assms(2) by (auto simp: bus_fds_def)
    then show False using that assms(1) by (auto simp: admits_def accept_fits_def Let_def split: if_splits)
  qed
  then show ?thesis by (auto simp: polled_def admits_def Let_def)
qed

lemma polled_outcome:
  assumes "sf_fd pos \<notin> sf_fd ` set rest" and "sf_fd pos \<in> ready" and "sf_listen pos \<noteq> 1"
  shows "concat (map (polled sys ready rest) (concat (map (\<lambda>sf. if sf = pos then outcome sys pos else [sf]) xs))) =
    concat (map (polled sys ready (pos # rest)) xs)"
proof -
  have "concat (map (polled sys ready rest) (if sf = pos then outcome sys pos else [sf])) = polled sys ready (pos # rest) sf" for sf
    using outcome_other [OF assms(1), of "\<lambda>sf. sf_fd sf \<in> ready \<and> sf_listen sf \<noteq> 1" sys] assms(2,3)
    by (auto simp: polled_def [abs_def])
  then show ?thesis by (simp add: concat_map_twice)
qed

text \<open>The conditions on the other descriptors stay true when one has been dealt with.\<close>

lemma ready_fits_fewer:
  assumes "list_all (ready_fits al sys blank ready bus) sfs" and "set (bus_fds bus') \<subseteq> set (bus_fds bus)"
  shows "list_all (ready_fits al sys blank ready bus') sfs"
proof -
  have "accept_fits al sys blank bus' sf" if "accept_fits al sys blank bus sf" for sf
    using that assms(2) by (auto simp: accept_fits_def Let_def)
  then show ?thesis using assms(1) by (auto simp: list_all_iff ready_fits_def)
qed

lemma ready_fits_admitted:
  assumes "list_all (ready_fits al sys blank ready bus) rest" and "distinct (map sf_fd (admitted sys blank sink ready (pos # rest)))"
    and "sf_fd pos \<in> ready" and "sf_listen pos = 1" and "bus_sinkfds bus' = admits sys blank sink pos @ bus_sinkfds bus"
  shows "list_all (ready_fits al sys blank ready bus') rest"
  unfolding list_all_iff
proof
  fix sf assume sf: "sf \<in> set rest"
  then have fits: "ready_fits al sys blank ready bus sf" using assms(1) by (simp add: list_all_iff)
  have "sys_accept sys (sf_fd sf) \<notin> sf_fd ` set (admits sys blank sink pos)"
    if "sf_fd sf \<in> ready" "sf_listen sf = 1" "sys_accept sys (sf_fd sf) \<noteq> - 1"
  proof -
    have "sys_accept sys (sf_fd sf) \<in> sf_fd ` set (admitted sys blank sink ready rest)"
      using that sf by (force simp: admitted_def admits_def Let_def)
    then show ?thesis using assms(2-4) by (auto simp: admitted_def)
  qed
  then show "ready_fits al sys blank ready bus' sf"
    using fits assms(5) by (auto simp: ready_fits_def accept_fits_def Let_def bus_fds_def)
qed

lemma unix_poll_loop_polled:
  assumes "bus_ok bus" and "set poss \<subseteq> set (bus_sinkfds bus)" and "distinct (map sf_fd poss)"
    and "int (length (filter (\<lambda>sf. sf_fd sf \<in> ready) poss)) \<le> nr"
    and "list_all (ready_fits al sys blank ready bus) poss" and "distinct (map sf_fd (admitted sys blank sink ready poss))"
  shows "unix_poll_loop al sys sink ready nr poss bus = Inr (bus\<lparr>
    bus_sinkfds := rev (admitted sys blank sink ready poss) @ concat (map (polled sys ready poss) (bus_sinkfds bus)),
    bus_sinks := fold (watch sink) (admitted sys blank sink ready poss) (bus_sinks bus)\<rparr>)"
  using assms
proof (induction poss arbitrary: nr bus)
  case Nil
  then show ?case using polled_none [of ready "[]" sys "bus_sinkfds bus" blank sink] by simp
next
  case (Cons pos rest)
  note fits = Cons.prems(5)
  have d: "distinct (map sf_fd (admitted sys blank sink ready rest))" using Cons.prems(6) by (simp add: admitted_def split: if_splits)
  consider (none) "nr = 0" | (skip) "nr \<noteq> 0" "sf_fd pos \<notin> ready" | (lis) "nr \<noteq> 0" "sf_fd pos \<in> ready" "sf_listen pos = 1"
    | (rcv) "nr \<noteq> 0" "sf_fd pos \<in> ready" "sf_listen pos \<noteq> 1" by blast
  then show ?case
  proof cases
    case none
    then have "list_all (\<lambda>sf. sf_fd sf \<notin> ready) (pos # rest)"
      using Cons.prems(4) by (auto simp: filter_empty_conv list_all_iff split: if_splits)
    from polled_none [OF this] show ?thesis using none by simp
  next
    case skip
    then have "polled sys ready (pos # rest) = polled sys ready rest" "admitted sys blank sink ready (pos # rest) = admitted sys blank sink ready rest"
      by (auto simp: polled_def admitted_def fun_eq_iff)
    then show ?thesis using skip Cons.IH [of bus nr] Cons.prems d by simp
  next
    case lis
    let ?new = "admits sys blank sink pos"
    let ?bus1 = "bus\<lparr>bus_sinkfds := ?new @ bus_sinkfds bus, bus_sinks := fold (watch sink) ?new (bus_sinks bus)\<rparr>"
    have fit: "accept_fits al sys blank bus pos" using fits lis by (simp add: ready_fits_def)
    note step = unix_accept_admits [OF fit, of sink]
    have ok: "bus_ok ?bus1"
      using unix_accept_ok [OF step Cons.prems(1)] fit by (auto simp: accept_fits_def Let_def poll_kept_def)
    have rest: "list_all (ready_fits al sys blank ready ?bus1) rest"
      by (rule ready_fits_admitted [OF _ Cons.prems(6) lis(2,3)]) (use fits in simp_all)
    have sub: "set rest \<subseteq> set (bus_sinkfds bus)" using Cons.prems(2) by simp
    then have "unix_poll_loop al sys sink ready (nr - 1) rest ?bus1 = Inr (?bus1\<lparr>
        bus_sinkfds := rev (admitted sys blank sink ready rest) @ concat (map (polled sys ready rest) (bus_sinkfds ?bus1)),
        bus_sinks := fold (watch sink) (admitted sys blank sink ready rest) (bus_sinks ?bus1)\<rparr>)"
      by (intro Cons.IH [OF ok _ _ _ rest d]) (use Cons.prems lis in auto)
    moreover have "polled sys ready (pos # rest) = polled sys ready rest" using lis by (auto simp: polled_def fun_eq_iff)
    moreover have "rev ?new = ?new" by (simp add: admits_def Let_def)
    ultimately show ?thesis using lis step polled_admits [OF fit sub, of ready sink] by (simp add: admitted_def)
  next
    case rcv
    have rx: "rx_ok pos" using Cons.prems(1,2) by (auto simp: bus_ok_def list_all_iff)
    have fit: "read_fits sys pos" using fits rcv by (simp add: ready_fits_def)
    define bus1 where "bus1 = bus\<lparr>bus_sinkfds := concat (map (\<lambda>sf. if sf = pos then outcome sys pos else [sf]) (bus_sinkfds bus))\<rparr>"
    note step = posix_receive_outcome [OF Cons.prems(1) rx fit, folded bus1_def]
    have k: "bus_ok bus1" "set (bus_fds bus1) \<subseteq> set (bus_fds bus)"
      using posix_receive_kept [OF step Cons.prems(1) rx, of "{}"] by (simp_all add: poll_kept_def)
    have rest: "list_all (ready_fits al sys blank ready bus1) rest" by (rule ready_fits_fewer [OF _ k(2)]) (use fits in simp)
    have fd: "sf_fd pos \<notin> sf_fd ` set rest" using Cons.prems(3) by simp
    then have "set rest \<subseteq> set (bus_sinkfds bus1)" using Cons.prems(2) by (auto simp: bus1_def)
    then have "unix_poll_loop al sys sink ready (nr - 1) rest bus1 = Inr (bus1\<lparr>
        bus_sinkfds := rev (admitted sys blank sink ready rest) @ concat (map (polled sys ready rest) (bus_sinkfds bus1)),
        bus_sinks := fold (watch sink) (admitted sys blank sink ready rest) (bus_sinks bus1)\<rparr>)"
      by (intro Cons.IH [OF k(1) _ _ _ rest d]) (use Cons.prems rcv in auto)
    moreover have "admitted sys blank sink ready (pos # rest) = admitted sys blank sink ready rest" using rcv by (simp add: admitted_def)
    ultimately show ?thesis using rcv step polled_outcome [OF fd rcv(2,3), of sys "bus_sinkfds bus"] by (simp add: bus1_def)
  qed
qed

text \<open>When no listening descriptor is ready, there are only reads.\<close>

lemma unix_poll_loop_outcome:
  assumes "bus_ok bus" and "set poss \<subseteq> set (bus_sinkfds bus)" and "distinct (map sf_fd poss)"
    and "int (length (filter (\<lambda>sf. sf_fd sf \<in> ready) poss)) \<le> nr"
    and "list_all (\<lambda>sf. sf_fd sf \<in> ready \<longrightarrow> sf_listen sf \<noteq> 1 \<and> read_fits sys sf) poss"
  shows "unix_poll_loop al sys sink ready nr poss bus = Inr (bus\<lparr>bus_sinkfds :=
    concat (map (\<lambda>sf. if sf \<in> set poss \<and> sf_fd sf \<in> ready then outcome sys sf else [sf]) (bus_sinkfds bus))\<rparr>)"
proof -
  have none: "admitted sys blank sink ready poss = []" for blank
    using assms(5) by (auto simp: admitted_def list_all_iff filter_empty_conv)
  have "polled sys ready poss = (\<lambda>sf. if sf \<in> set poss \<and> sf_fd sf \<in> ready then outcome sys sf else [sf])"
    using assms(5) by (auto simp: polled_def list_all_iff fun_eq_iff)
  moreover have "list_all (ready_fits al sys blank ready bus) poss" for blank
    using assms(5) by (auto simp: ready_fits_def list_all_iff)
  ultimately show ?thesis using unix_poll_loop_polled [OF assms(1-4), of al sys _ sink] none by simp
qed

subsection \<open>A small POSIX bus\<close>

definition example_sys :: sys where
  "example_sys = \<lparr>sys_socket = 3, sys_bind = (\<lambda>_ _. 0), sys_listen = (\<lambda>_ _. 0), sys_open = (\<lambda>_. 3), sys_accept = (\<lambda>_. - 1),
     sys_select = (\<lambda>_ _. (1, {4})), sys_eintr = False, sys_recv = (\<lambda>_ _. Some ''abc''),
     sys_send = (\<lambda>_ buf. int (length buf)), sys_read = (\<lambda>_ _. None), sys_write = (\<lambda>_ buf. int (length buf)),
     sys_time = (7, 0), sys_inet_addr = (\<lambda>_. 0), sys_tcgetattr = (\<lambda>_. 0), sys_tcsetattr = (\<lambda>_ _. 0),
     sys_param = (\<lambda>_. \<lparr>sp_baud = 9600, sp_bits = 7, sp_parity = CHR ''E'', sp_stop = 1\<rparr>)\<rparr>"

definition unix_example :: apisink where
  "unix_example = \<lparr>sk_name = ''apisink_unix'', sk_ops = 0, sk_bus = True, sk_fds = {4, 5}, sk_nfds = 6\<rparr>"

definition conn_example :: "int \<Rightarrow> sinkfd" where
  "conn_example fd = \<lparr>sf_fd = fd, sf_listen = 0, sf_addr = [],
     sf_txbuf = \<lparr>ab_rawbuf = [NUL], ab_size = 1, ab_offset_in = 0, ab_offset_out = 0\<rparr>,
     sf_rxbuf = \<lparr>ab_rawbuf = replicate 4 NUL, ab_size = 4, ab_offset_in = 0, ab_offset_out = 0\<rparr>,
     sf_ts_poll_recv = (0, 0), sf_sink = Some unix_example\<rparr>"

definition posix_example :: apibus where
  "posix_example = \<lparr>bus_requests = [], bus_responses = [], bus_stations = [], bus_topic_msgs = [], bus_topics = [],
     bus_sinkfds = [conn_example 4, conn_example 5], bus_sinks = [unix_example], bus_poll_ts = (0, 0),
     bus_poll_cnt = 0, bus_idle_usec = 0, bus_sent = [], bus_closed = []\<rparr>"

lemma conn_example_ok:
  "rx_ok (conn_example fd)" "sf_fd (conn_example fd) = fd" "sf_listen (conn_example fd) = 0"
  "atbuf_spare (sf_rxbuf (conn_example fd)) = 4" "atbuf_content (sf_rxbuf (conn_example fd)) = []"
  "sf_sink (conn_example fd) = Some unix_example"
  by (simp_all add: conn_example_def rx_ok_def atbuf_inv_def atbuf_ended_def size_mod_def atbuf_spare_def size_sub_def
      atbuf_content_def)

lemma conn_example_apart: "conn_example 4 \<noteq> conn_example 5" "conn_example 5 \<noteq> conn_example 4"
  by (simp_all add: conn_example_def)

lemma posix_example_ok: "bus_ok posix_example" "sink_sinkfds posix_example unix_example = [conn_example 4, conn_example 5]"
  "bus_sinkfds posix_example = [conn_example 4, conn_example 5]"
  by (simp_all add: posix_example_def bus_ok_def conn_example_ok bus_fds_def one_subscription_def sink_sinkfds_def)

subsection \<open>Properties\<close>

text \<open>What a poll has done for a connection that was ready, and for a listening descriptor that was.\<close>

definition delivered :: "sys \<Rightarrow> apibus \<Rightarrow> sinkfd \<Rightarrow> bool" where
  "delivered sys bus' sf =
     (case sys_recv sys (sf_fd sf) (atbuf_spare (sf_rxbuf sf)) of
        Some (x # xs) \<Rightarrow> \<exists>b. sf\<lparr>sf_rxbuf := b, sf_ts_poll_recv := sys_time sys\<rparr> \<in> set (bus_sinkfds bus') \<and>
          atbuf_content b = atbuf_content (sf_rxbuf sf) @ x # xs
      | _ \<Rightarrow> sf_fd sf \<notin> set (bus_fds bus'))"

definition accepted :: "sys \<Rightarrow> apisink \<Rightarrow> apibus \<Rightarrow> sinkfd \<Rightarrow> bool" where
  "accepted sys sink bus' sf \<longleftrightarrow> sf \<in> set (bus_sinkfds bus') \<and> (let fd = sys_accept sys (sf_fd sf)
     in fd = - 1 \<or> (\<exists>new \<in> set (bus_sinkfds bus'). sf_fd new = fd \<and> sf_sink new = Some sink \<and> sf_listen new = 0 \<and>
            atbuf_content (sf_rxbuf new) = []) \<and>
          (\<forall>s \<in> set (bus_sinks bus'). sk_name s = sk_name sink \<longrightarrow> fd \<in> sk_fds s \<and> fd < sk_nfds s))"

lemma outcome_delivered:
  assumes "bus_ok bus" and "sf \<in> set (bus_sinkfds bus)" and "sf \<in> set poss" "sf_fd sf \<in> ready" "sf_listen sf \<noteq> 1" and "read_fits sys sf"
    and bus': "bus_sinkfds bus' = news @ concat (map (polled sys ready poss) (bus_sinkfds bus))"
    and news: "sf_fd ` set news \<inter> set (bus_fds bus) = {}"
  shows "delivered sys bus' sf"
proof -
  have rx: "rx_ok sf" using assms(1,2) by (auto simp: bus_ok_def list_all_iff)
  have mine: "polled sys ready poss sf = outcome sys sf" using assms(3-5) by (simp add: polled_def)
  have gone: "sf_fd sf \<notin> set (bus_fds bus')" if "outcome sys sf = []"
  proof
    assume "sf_fd sf \<in> set (bus_fds bus')"
    moreover have "sf_fd sf \<notin> sf_fd ` set news" using news assms(2) by (auto simp: bus_fds_def)
    ultimately obtain x sf' where x: "sf' \<in> set (bus_sinkfds bus)" "x \<in> set (polled sys ready poss sf')" "sf_fd x = sf_fd sf"
      by (auto simp: bus_fds_def bus')
    have "sf_fd x = sf_fd sf'" using x(2) outcome_fd by (auto simp: polled_def split: if_splits)
    then have "sf' = sf" using x(1,3) assms(1,2) by (auto simp: bus_ok_def bus_fds_def distinct_map inj_on_def)
    then show False using x(2) that mine by simp
  qed
  have here: "x \<in> set (bus_sinkfds bus')" if "x \<in> set (outcome sys sf)" for x
    unfolding bus' using that assms(2) mine by force
  show ?thesis
  proof (cases "\<exists>x xs. sys_recv sys (sf_fd sf) (atbuf_spare (sf_rxbuf sf)) = Some (x # xs)")
    case True
    then obtain x xs where recv: "sys_recv sys (sf_fd sf) (atbuf_spare (sf_rxbuf sf)) = Some (x # xs)" by blast
    then obtain b where b: "rx_store (sf_rxbuf sf) (x # xs) = Inr b"
      using rx_store_fits [OF rx, of "x # xs"] assms(6) by (auto simp: read_fits_def)
    have "sf\<lparr>sf_rxbuf := b, sf_ts_poll_recv := sys_time sys\<rparr> \<in> set (bus_sinkfds bus')"
      by (rule here) (simp add: outcome_def recv b)
    then show ?thesis using rx_store_ok [OF rx b] by (auto simp: delivered_def recv)
  next
    case False
    then have "outcome sys sf = []" by (auto simp: outcome_def neq_Nil_conv split: option.splits)
    then show ?thesis using gone False by (auto simp: delivered_def split: option.splits list.splits)
  qed
qed

lemma watch_all:
  assumes "s \<in> set (fold (watch sink) sfs sinks)" and "sk_name s = sk_name sink" and "sf \<in> set sfs"
  shows "sf_fd sf \<in> sk_fds s \<and> sf_fd sf < sk_nfds s"
  using assms
proof (induction sfs arbitrary: s rule: rev_induct)
  case (snoc x sfs)
  then obtain s0 where s0: "s0 \<in> set (fold (watch sink) sfs sinks)" "sk_name s0 = sk_name sink"
    "s = s0\<lparr>sk_fds := insert (sf_fd x) (sk_fds s0), sk_nfds := max (sk_nfds s0) (sf_fd x + 1)\<rparr>"
    using that by (auto simp: watch_def [of sink x] split: if_splits)
  then show ?case using snoc.IH [OF s0(1,2)] snoc.prems(3) by auto
qed simp

lemma admitted_fits:
  assumes "list_all (ready_fits al sys blank ready bus) poss" and "new \<in> set (admitted sys blank sink ready poss)"
  shows "sf_fd new \<notin> set (bus_fds bus) \<and> (\<exists>sf \<in> set poss. sf_fd sf \<in> ready \<and> sf_listen sf = 1 \<and> sf_fd new = sys_accept sys (sf_fd sf)) \<and>
    sf_sink new = Some sink \<and> sf_listen new = 0 \<and> atbuf_content (sf_rxbuf new) = []"
proof -
  obtain sf where sf: "sf \<in> set poss" "sf_fd sf \<in> ready" "sf_listen sf = 1" "sys_accept sys (sf_fd sf) \<noteq> - 1"
    "new = blank\<lparr>sf_fd := sys_accept sys (sf_fd sf), sf_sink := Some sink\<rparr>"
    using assms(2) by (auto simp: admitted_def admits_def Let_def split: if_splits)
  then have fits: "sys_accept sys (sf_fd sf) \<notin> set (bus_fds bus)" "sinkfd_new al = Inr blank"
    using assms(1) by (auto simp: list_all_iff ready_fits_def accept_fits_def Let_def)
  then have "sf_listen blank = 0" "atbuf_content (sf_rxbuf blank) = []"
    by (auto simp: sinkfd_new_def atbuf_new_def atbuf_content_def Let_def split: if_splits option.splits)
  then show ?thesis using sf fits(1) by auto
qed

text \<open>C9: a poll of a socket sink, when no read fills a buffer completely, and \<open>accept\<close> either fails or returns
  unused numbers that fit into a set of descriptors, no two the same, and there is memory for the new
  descriptors: every connection reported ready gets exactly the bytes received on it, appended to its
  buffer, or is removed when the peer is gone; every listening descriptor reported ready stays, and the
  connection it accepts is on the bus then, with an empty buffer and watched by its sink; every other
  descriptor is left as it is, and there are no further ones.\<close>

theorem unix_poll_delivers:
  assumes "bus_ok bus" and "sys_select sys (sk_nfds sink) (sk_fds sink) = (nr, ready)"
    and "int (length (filter (\<lambda>sf. sf_fd sf \<in> ready) (sink_sinkfds bus sink))) \<le> nr"
    and "list_all (ready_fits al sys blank ready bus) (sink_sinkfds bus sink)"
    and "distinct (map sf_fd (admitted sys blank sink ready (sink_sinkfds bus sink)))"
  shows "\<exists>bus'. unix_poll al sys bus sink = Inr (0, bus') \<and>
    (\<forall>sf \<in> set (bus_sinkfds bus). if sf \<in> set (sink_sinkfds bus sink) \<and> sf_fd sf \<in> ready
       then if sf_listen sf = 1 then accepted sys sink bus' sf else delivered sys bus' sf
       else sf \<in> set (bus_sinkfds bus')) \<and>
    (\<forall>fd \<in> set (bus_fds bus'). fd \<in> set (bus_fds bus) \<or>
       (\<exists>sf \<in> set (sink_sinkfds bus sink). sf_fd sf \<in> ready \<and> sf_listen sf = 1 \<and> fd = sys_accept sys (sf_fd sf)))"
proof -
  let ?poss = "sink_sinkfds bus sink"
  let ?new = "admitted sys blank sink ready ?poss"
  define bus' where "bus' = bus\<lparr>bus_sinkfds := rev ?new @ concat (map (polled sys ready ?poss) (bus_sinkfds bus)),
    bus_sinks := fold (watch sink) ?new (bus_sinks bus)\<rparr>"
  note sk = sink_sinkfds_ok [OF assms(1), of sink]
  have poll: "unix_poll al sys bus sink = Inr (0, bus')"
    using unix_poll_loop_polled [OF assms(1) sk(3,2) assms(3-5)] assms(2,3) by (simp add: unix_poll_def bus'_def)
  note new = admitted_fits [OF assms(4)]
  have fits: "ready_fits al sys blank ready bus sf" if "sf \<in> set ?poss" for sf using assms(4) that by (simp add: list_all_iff)
  have del: "delivered sys bus' sf" if "sf \<in> set (bus_sinkfds bus)" "sf \<in> set ?poss" "sf_fd sf \<in> ready" "sf_listen sf \<noteq> 1" for sf
    by (rule outcome_delivered [OF assms(1) that, where news = "rev ?new"])
      (use new fits [OF that(2)] that in \<open>auto simp: ready_fits_def bus'_def\<close>)
  have kept: "sf \<in> set (bus_sinkfds bus')" if "sf \<in> set (bus_sinkfds bus)" "\<not> (sf \<in> set ?poss \<and> sf_fd sf \<in> ready \<and> sf_listen sf \<noteq> 1)" for sf
    using that by (force simp: bus'_def polled_def)
  have acc: "accepted sys sink bus' sf" if "sf \<in> set (bus_sinkfds bus)" "sf \<in> set ?poss" "sf_fd sf \<in> ready" "sf_listen sf = 1" for sf
  proof (cases "sys_accept sys (sf_fd sf) = - 1")
    case False
    let ?c = "blank\<lparr>sf_fd := sys_accept sys (sf_fd sf), sf_sink := Some sink\<rparr>"
    have c: "?c \<in> set ?new" using that False by (auto simp: admitted_def admits_def Let_def intro!: bexI [of _ sf])
    have "\<forall>s \<in> set (bus_sinks bus'). sk_name s = sk_name sink \<longrightarrow> sf_fd ?c \<in> sk_fds s \<and> sf_fd ?c < sk_nfds s"
      using watch_all [OF _ _ c] by (simp add: bus'_def)
    moreover have "?c \<in> set (bus_sinkfds bus')" using c by (simp add: bus'_def)
    ultimately show ?thesis using kept [of sf] that new [OF c] by (auto simp: accepted_def Let_def intro!: bexI [of _ ?c])
  qed (use kept [of sf] that in \<open>simp add: accepted_def\<close>)
  have "fd \<in> set (bus_fds bus) \<or> (\<exists>sf \<in> set ?poss. sf_fd sf \<in> ready \<and> sf_listen sf = 1 \<and> fd = sys_accept sys (sf_fd sf))"
    if "fd \<in> set (bus_fds bus')" for fd
    using that new outcome_fd by (fastforce simp: bus_fds_def bus'_def polled_def split: if_splits)
  then show ?thesis using poll del kept acc by (intro exI [of _ bus']) auto
qed

text \<open>A listening descriptor on which a connection arrives, and a connection on which bytes do.\<close>

definition listen_example :: sinkfd where
  "listen_example = (conn_example 3)\<lparr>sf_listen := 1\<rparr>"

theorem unix_poll_delivers_witness:
  "\<exists>bus'. unix_poll generous (example_sys\<lparr>sys_select := (\<lambda>_ _. (2, {3, 4})), sys_accept := (\<lambda>_. 6)\<rparr>)
      (posix_example\<lparr>bus_sinkfds := [listen_example, conn_example 4, conn_example 5]\<rparr>) unix_example = Inr (0, bus') \<and>
    conn_example 5 \<in> set (bus_sinkfds bus') \<and> listen_example \<in> set (bus_sinkfds bus') \<and>
    (\<exists>sf \<in> set (bus_sinkfds bus'). sf_fd sf = 4 \<and> atbuf_content (sf_rxbuf sf) = ''abc'') \<and>
    (\<exists>sf \<in> set (bus_sinkfds bus'). sf_fd sf = 6 \<and> sf_listen sf = 0)"
proof -
  let ?sys = "example_sys\<lparr>sys_select := (\<lambda>_ _. (2, {3, 4})), sys_accept := (\<lambda>_. 6)\<rparr>"
  let ?bus = "posix_example\<lparr>bus_sinkfds := [listen_example, conn_example 4, conn_example 5]\<rparr>"
  obtain blank where blank: "sinkfd_new generous = Inr blank"
    by (simp add: sinkfd_new_def generous_def atbuf_new_def calloc_c_def ATBUF_DEFAULT_SIZE_def Let_def)
  have l: "sf_fd listen_example = 3" "sf_listen listen_example = 1" "sf_sink listen_example = Some unix_example" "rx_ok listen_example"
    using conn_example_ok [of 3] by (simp_all add: listen_example_def rx_ok_def)
  have ok: "bus_ok ?bus" using posix_example_ok(1) l by (auto simp: bus_ok_def bus_fds_def conn_example_ok posix_example_def)
  have poss: "sink_sinkfds ?bus unix_example = [listen_example, conn_example 4, conn_example 5]"
    by (simp add: sink_sinkfds_def l conn_example_ok)
  have sel: "sys_select ?sys (sk_nfds unix_example) (sk_fds unix_example) = (2, {3, 4})" by simp
  have fits: "list_all (ready_fits generous ?sys blank {3, 4} ?bus) (sink_sinkfds ?bus unix_example)"
    using blank by (simp add: poss ready_fits_def accept_fits_def read_fits_def l conn_example_ok bus_fds_def FD_SETSIZE_def example_sys_def)
  have d: "distinct (map sf_fd (admitted ?sys blank unix_example {3, 4} (sink_sinkfds ?bus unix_example)))"
    by (simp add: poss admitted_def admits_def l conn_example_ok)
  obtain bus' where bus': "unix_poll generous ?sys ?bus unix_example = Inr (0, bus')"
    "\<forall>sf \<in> set (bus_sinkfds ?bus). if sf \<in> set (sink_sinkfds ?bus unix_example) \<and> sf_fd sf \<in> {3, 4}
       then if sf_listen sf = 1 then accepted ?sys unix_example bus' sf else delivered ?sys bus' sf else sf \<in> set (bus_sinkfds bus')"
    using unix_poll_delivers [OF ok sel _ fits d] by (auto simp: poss l conn_example_ok)
  then have "conn_example 5 \<in> set (bus_sinkfds bus')" "delivered ?sys bus' (conn_example 4)" "accepted ?sys unix_example bus' listen_example"
    by (auto simp: poss l conn_example_ok)
  moreover from this obtain b where "(conn_example 4)\<lparr>sf_rxbuf := b, sf_ts_poll_recv := (7, 0)\<rparr> \<in> set (bus_sinkfds bus')"
    "atbuf_content b = ''abc''" by (auto simp: delivered_def conn_example_ok example_sys_def)
  moreover from this have "\<exists>sf \<in> set (bus_sinkfds bus'). sf_fd sf = 4 \<and> atbuf_content (sf_rxbuf sf) = ''abc''"
    by (intro bexI [of _ "(conn_example 4)\<lparr>sf_rxbuf := b, sf_ts_poll_recv := (7, 0)\<rparr>"]) (simp_all add: conn_example_ok)
  ultimately show ?thesis using bus'(1) by (auto simp: accepted_def Let_def)
qed

text \<open>C5: in every state that a bus with POSIX sinks reaches by its calls, as long as the operating
  system hands out unused descriptors, the invariant holds, and another poll returns.\<close>

theorem posix_bus_runs:
  assumes "apibus_new al = Inr bus0" and "(bus_step (posix_env al) posix_opens posix_polls)\<^sup>*\<^sup>* bus0 bus"
  shows "bus_inv bus \<and> (posix_polls sys (bus\<lparr>bus_poll_cnt := 0, bus_poll_ts := tod\<rparr>) (bus_sinks bus) \<longrightarrow>
    (\<exists>x. apibus_poll al (posix_env al sys) tod now bus = Some x \<and> (\<forall>r bus'. x = Inr (r, bus') \<longrightarrow> r = 0 \<and> bus_inv bus')))"
proof -
  have "bus_inv bus" using px.bus_run_inv [OF assms(2)] apibus_new_inv [OF assms(1)] .
  then show ?thesis using px.apibus_poll_ends [of bus sys tod al al now] by (simp add: bus_inv_def)
qed

lemma example_polls: "posix_polls example_sys bus [] \<and> posix_polls example_sys bus [sink]"
  by (simp add: posix_polls_def accepts_apart_def example_sys_def)

theorem posix_bus_runs_witness:
  "\<exists>bus0 bus. apibus_new generous = Inr bus0 \<and> apibus_add_sink bus0 unix_example = (0, bus) \<and> bus_inv bus \<and>
    (\<exists>x. apibus_poll generous (posix_env generous example_sys) (7, 0) 7 bus = Some x)"
proof -
  obtain bus0 where b0: "apibus_new generous = Inr bus0" "bus_sinks bus0 = []"
    by (simp add: apibus_new_def generous_def)
  obtain bus where b: "apibus_add_sink bus0 unix_example = (0, bus)" "bus_sinks bus = [unix_example\<lparr>sk_bus := True\<rparr>]"
    by (simp add: apibus_add_sink_def b0(2))
  have "(bus_step (posix_env generous) posix_opens posix_polls)\<^sup>*\<^sup>* bus0 bus"
    using step_add_sink [OF b(1)] by blast
  from posix_bus_runs [OF b0(1) this, of example_sys "(7, 0)" 7] example_polls b show ?thesis
    using b0(1) by auto
qed

text \<open>C38: a read that fills the receive buffer aborts the program: \<open>recv\<close> is offered all of the spare
  space, and \<open>atbuf_write_advance\<close> does not accept it. A peer needs to send no more than that many bytes.\<close>

theorem full_read_aborts_bus:
  assumes "sys_select sys (sk_nfds sink) (sk_fds sink) = (nr, ready)" and "0 < nr"
    and "sink_sinkfds bus sink = as @ pos # bs" and "list_all (\<lambda>sf. sf_fd sf \<notin> ready) as"
    and "sf_fd pos \<in> ready" and "sf_listen pos \<noteq> 1" and "rx_ok pos"
    and "sys_recv sys (sf_fd pos) (atbuf_spare (sf_rxbuf pos)) = Some bytes"
    and "length bytes = atbuf_spare (sf_rxbuf pos)"
  shows "unix_poll al sys bus sink = Inl AssertFail"
proof -
  have "bytes \<noteq> []" using assms(7,9) by (auto simp: rx_ok_def atbuf_spare_eq atbuf_inv_def)
  then have "unix_poll_loop al sys sink ready nr (pos # bs) bus = Inl AssertFail"
    using assms rx_store_full [OF assms(7,9)] by (simp add: posix_receive_def)
  then have "unix_poll_loop al sys sink ready nr (as @ pos # bs) bus = Inl AssertFail"
    using assms(2,4) by (induction as) auto
  then show ?thesis using assms(1-3) by (simp add: unix_poll_def)
qed

theorem full_read_aborts_bus_witness:
  "unix_poll generous (example_sys\<lparr>sys_recv := (\<lambda>_ n. Some (replicate n CHR ''x''))\<rparr>) posix_example unix_example =
     Inl AssertFail"
  by (rule full_read_aborts_bus [where nr = 1 and ready = "{4}" and as = "[]" and pos = "conn_example 4" and
        bs = "[conn_example 5]" and bytes = "replicate 4 CHR ''x''"])
    (simp_all add: example_sys_def posix_example_ok conn_example_ok)

text \<open>a descriptor that was closed through the bus stays in the set given to \<open>select\<close>, which then
  fails for the whole sink (\<open>EBADF\<close>): after closing one connection no other is ever polled again.\<close>

definition select_ebadf :: "sys \<Rightarrow> apibus \<Rightarrow> bool" where
  "select_ebadf sys bus \<longleftrightarrow> (\<forall>nfds fds. (\<exists>fd \<in> set (bus_closed bus). fd \<in> fds \<and> fd < nfds) \<longrightarrow> fst (sys_select sys nfds fds) = - 1)"

theorem close_blocks_sink:
  assumes "unix_close bus sink fd = (0, bus1)" and "fd \<in> sk_fds sink" and "fd < sk_nfds sink"
    and "select_ebadf sys bus1" and "\<not> sys_eintr sys"
  shows "bus_sinks bus1 = bus_sinks bus \<and> unix_poll al sys bus1 sink = Inr (- 1, bus1)"
proof -
  obtain sf where sf: "find_sinkfd_in_apisink bus sink fd = Some sf" "bus1 = sinkfd_destroy (close_fd bus (sf_fd sf)) sf"
    using assms(1) by (auto simp: unix_close_def posix_detach_def split: option.splits)
  then have "sf_fd sf = fd" by (auto simp: find_sinkfd_in_apisink_def find_Some_iff)
  then have "fd \<in> set (bus_closed bus1)" by (simp add: sf(2) sinkfd_destroy_def close_fd_def)
  then have "fst (sys_select sys (sk_nfds sink) (sk_fds sink)) = - 1"
    using assms(2-4) unfolding select_ebadf_def by blast
  then show ?thesis
    using assms(5) by (auto simp: unix_poll_def sf(2) sinkfd_destroy_def close_fd_def split: prod.splits)
qed

theorem close_blocks_sink_witness:
  "\<exists>bus1. unix_close posix_example unix_example 4 = (0, bus1) \<and> conn_example 5 \<in> set (bus_sinkfds bus1) \<and>
    unix_poll generous (example_sys\<lparr>sys_select := (\<lambda>_ fds. (- 1, fds))\<rparr>) bus1 unix_example = Inr (- 1, bus1)"
proof -
  let ?sys = "example_sys\<lparr>sys_select := (\<lambda>_ fds. (- 1, fds))\<rparr>"
  obtain bus1 where b: "unix_close posix_example unix_example 4 = (0, bus1)" "conn_example 5 \<in> set (bus_sinkfds bus1)"
    using conn_example_apart
    by (auto simp: unix_close_def posix_detach_def find_sinkfd_in_apisink_def posix_example_ok sinkfd_destroy_def
        close_fd_def conn_example_ok)
  have "select_ebadf ?sys bus1" by (simp add: select_ebadf_def)
  from close_blocks_sink [OF b(1) _ _ this, of generous] b show ?thesis
    by (simp add: unix_example_def example_sys_def)
qed

text \<open>\<open>open\<close> sets the bound for \<open>select\<close> to the new descriptor, also below one that is already
  watched: as \<open>select\<close> looks at descriptors below the bound only, a connection with a larger number
  is then left alone by every poll, whatever it receives.\<close>

definition select_below :: "sys \<Rightarrow> bool" where
  "select_below sys \<longleftrightarrow> (\<forall>nfds fds. snd (sys_select sys nfds fds) \<subseteq> {fd \<in> fds. fd < nfds})"

lemma unix_poll_loop_untouched:
  assumes "unix_poll_loop al sys sink ready nr poss bus = Inr bus'" and "sf \<in> set (bus_sinkfds bus)"
    and "sf_fd sf \<notin> ready"
  shows "sf \<in> set (bus_sinkfds bus')"
  using assms
proof (induction poss arbitrary: nr bus)
  case (Cons pos rest)
  have rep: "sf \<in> set (replace1 pos y xs)" if "sf \<in> set xs" "sf \<noteq> pos" for y xs
    using that by (induction xs) auto
  consider (stop) "nr = 0 \<or> sf_fd pos \<notin> ready" | (go) "nr \<noteq> 0" "sf_fd pos \<in> ready" by blast
  then show ?case
  proof cases
    case go
    then obtain bus1 where b: "(if sf_listen pos = 1 then unix_accept al sys bus sink pos
       else posix_receive bus (sys_time sys) pos (sys_recv sys (sf_fd pos) (atbuf_spare (sf_rxbuf pos)))) = Inr bus1"
      "unix_poll_loop al sys sink ready (nr - 1) rest bus1 = Inr bus'"
      using Cons.prems(1) by (auto simp: bindR_eq_Inr_iff simp del: split_paired_Ex)
    have "sf \<noteq> pos" using go(2) Cons.prems(3) by auto
    then have "sf \<in> set (bus_sinkfds bus1)"
      using b(1) Cons.prems(2) rep
      by (auto simp: unix_accept_def posix_receive_def Let_def bindR_eq_Inr_iff sinkfd_destroy_def
          split: if_splits option.splits dest: posix_watch_frame(2))
    then show ?thesis using Cons.IH [OF b(2)] Cons.prems(3) by blast
  qed (use Cons in \<open>auto split: if_splits\<close>)
qed simp

theorem open_hides_connections:
  assumes "unix_open al sys bus sink addr = Inr (fd, bus1)" and "fd \<noteq> - 1"
    and "s \<in> set (bus_sinks bus1)" and "sk_name s = sk_name sink"
    and "sf \<in> set (bus_sinkfds bus1)" and "fd < sf_fd sf" and "select_below sys2"
    and "unix_poll al sys2 bus1 s = Inr (r, bus2)"
  shows "sk_nfds s = fd + 1 \<and> sf \<in> set (bus_sinkfds bus2)"
proof -
  have "posix_attach al bus sink fd 1 addr = Inr (fd, bus1)"
    using assms(1,2) by (auto simp: unix_open_def posix_attach_def Let_def bindR_eq_Inr_iff split: if_splits)
  then have nfds: "sk_nfds s = fd + 1"
    using assms(3,4) by (auto simp: posix_attach_def posix_watch_def bindR_eq_Inr_iff Let_def)
  obtain nr ready where sel: "sys_select sys2 (sk_nfds s) (sk_fds s) = (nr, ready)" by fastforce
  then have "ready \<subseteq> {fd \<in> sk_fds s. fd < sk_nfds s}" using assms(7) unfolding select_below_def by (metis snd_conv)
  then have "sf_fd sf \<notin> ready" using assms(6) nfds by auto
  then show ?thesis
    using assms(5,8) nfds sel unix_poll_loop_untouched [OF _ assms(5)]
    by (auto simp: unix_poll_def bindR_eq_Inr_iff split: if_splits)
qed

theorem open_hides_connections_witness:
  "\<exists>bus1 s bus2 r. unix_open generous example_sys posix_example unix_example ''/tmp/x'' = Inr (3, bus1) \<and>
    bus_sinks bus1 = [s] \<and> sk_nfds s = 4 \<and>
    unix_poll generous (example_sys\<lparr>sys_select := (\<lambda>nfds fds. (int (card {fd \<in> fds. fd < nfds}), {fd \<in> fds. fd < nfds}))\<rparr>)
      bus1 s = Inr (r, bus2) \<and> conn_example 4 \<in> set (bus_sinkfds bus2)"
proof -
  let ?sys = "example_sys\<lparr>sys_select := (\<lambda>nfds fds. (int (card {fd \<in> fds. fd < nfds}), {fd \<in> fds. fd < nfds}))\<rparr>"
  obtain new where new: "sinkfd_new generous = Inr new"
    by (simp add: sinkfd_new_def generous_def atbuf_new_def calloc_c_def Let_def)
  let ?new = "new\<lparr>sf_fd := 3, sf_listen := 1, sf_addr := ''/tmp/x'', sf_sink := Some unix_example\<rparr>"
  let ?s = "unix_example\<lparr>sk_fds := {3, 4, 5}, sk_nfds := 4\<rparr>"
  let ?bus1 = "posix_example\<lparr>bus_sinkfds := [?new, conn_example 4, conn_example 5], bus_sinks := [?s]\<rparr>"
  have o: "unix_open generous example_sys posix_example unix_example ''/tmp/x'' = Inr (3, ?bus1)"
    by (auto simp: unix_open_def example_sys_def posix_attach_def new posix_watch_def FD_SET_def FD_SETSIZE_def
        posix_example_def unix_example_def snprintf_s_def SINKFD_ADDR_SIZE_def)
  have sink: "sink_sinkfds ?bus1 ?s = [?new, conn_example 4, conn_example 5]"
    by (simp add: sink_sinkfds_def conn_example_ok)
  have set3: "{fd. (fd = 3 \<or> fd = 4 \<or> fd = 5) \<and> fd < (4 :: int)} = {3}" by auto
  have p: "unix_poll generous ?sys ?bus1 ?s = Inr (0, ?bus1)"
    unfolding unix_poll_def sink by (simp add: set3 unix_accept_def example_sys_def conn_example_ok)
  have "select_below ?sys" by (simp add: select_below_def)
  from open_hides_connections [OF o _ _ _ _ _ this p, of "conn_example 4"] o p show ?thesis
    by (intro exI [of _ ?bus1] exI [of _ ?s] exI [of _ 0]) (simp add: conn_example_ok)
qed

text \<open>the settings of a serial line. The parameters are accepted exactly when they are among the
  documented ones, and then speed, receiver, parity and stop bits are set as asked. The number of data bits is
  set as asked only without parity: with parity the input flags \<open>INPCK\<close> and \<open>ISTRIP\<close> are put into the
  control flags, where they are the bits of \<open>CS8\<close>, so seven bits become eight.\<close>

theorem serial_settings:
  "(serial_termios sp \<noteq> None) = (sp_baud sp \<in> {9600, 115200} \<and> sp_bits sp \<in> {7, 8} \<and>
      sp_parity sp \<in> {CHR ''O'', CHR ''E'', CHR ''N''} \<and> sp_stop sp \<in> {1, 2}) \<and>
   (case serial_termios sp of
      None \<Rightarrow> True
    | Some tio \<Rightarrow> tio_ispeed tio = (if sp_baud sp = 9600 then B9600 else B115200) \<and> tio_cflag tio AND CBAUD = tio_ispeed tio \<and>
        tio_cflag tio AND (CLOCAL OR CREAD) = CLOCAL OR CREAD \<and>
        (tio_cflag tio AND PARENB = 0) = (sp_parity sp = CHR ''N'') \<and>
        (tio_cflag tio AND PARODD = 0) = (sp_parity sp \<noteq> CHR ''O'') \<and>
        (tio_cflag tio AND CSTOPB = 0) = (sp_stop sp = 1) \<and>
        tio_cflag tio AND CSIZE = (if sp_parity sp = CHR ''N'' \<and> sp_bits sp = 7 then CS7 else CS8))"
  by (auto simp: serial_termios_def serial_baud_def cfsetispeed_def serial_bits_def serial_parity_def serial_stop_def
      termios_bits serial_args split: bind_split)

end
