(* ===== verification/Apix_Stm32.thy ===== *)
theory Apix_Stm32
  imports Apix_Posix
begin

text \<open>
  The serial sink on STM32 (\<open>apix-stm32.c\<close>). The functions have the names of the POSIX ones with the
  prefix \<open>stm32_\<close>; the operating system is the same parameter. The sink fulfils the contract of
  \<open>Apix_Sink\<close>; unlike the POSIX sinks it does not note the time of a reception.
\<close>

subsection \<open>Operations\<close>

definition stm32_serial_open :: "allocator \<Rightarrow> sys \<Rightarrow> apibus \<Rightarrow> apisink \<Rightarrow> string \<Rightarrow> (int \<times> apibus) res" where
  "stm32_serial_open al sys bus sink addr =
     (let fd = sys_open sys addr
      in if fd = - 1 then Inr (- 1, bus)
         else bindR (sinkfd_new al) (\<lambda>sf.
           Inr (fd, bus\<lparr>bus_sinkfds := sf\<lparr>sf_fd := fd, sf_addr := snprintf_s SINKFD_ADDR_SIZE addr, sf_sink := Some sink\<rparr>
                  # bus_sinkfds bus\<rparr>)))"

definition stm32_serial_close :: "apibus \<Rightarrow> apisink \<Rightarrow> int \<Rightarrow> int \<times> apibus" where
  "stm32_serial_close bus sink fd =
     (case find_sinkfd_in_apisink bus sink fd of
        None \<Rightarrow> (- 1, bus)
      | Some sf \<Rightarrow> (0, sinkfd_destroy (close_fd bus (sf_fd sf)) sf))"

definition stm32_serial_ioctl :: "int \<Rightarrow> nat \<Rightarrow> nat \<Rightarrow> int" where
  "stm32_serial_ioctl fd cmd arg = 0"

definition stm32_serial_send :: "sys \<Rightarrow> int \<Rightarrow> mem \<Rightarrow> int" where
  "stm32_serial_send sys fd buf = sys_write sys fd buf"

definition stm32_serial_recv :: "sys \<Rightarrow> int \<Rightarrow> nat \<Rightarrow> int \<times> mem" where
  "stm32_serial_recv sys fd sz = (case sys_read sys fd sz of None \<Rightarrow> (- 1, []) | Some bytes \<Rightarrow> (int (length bytes), bytes))"

fun stm32_poll_loop :: "sys \<Rightarrow> sinkfd list \<Rightarrow> apibus \<Rightarrow> apibus res" where
  "stm32_poll_loop sys [] bus = Inr bus"
| "stm32_poll_loop sys (pos # rest) bus =
     (case sys_read sys (sf_fd pos) (atbuf_spare (sf_rxbuf pos)) of
        None \<Rightarrow> stm32_poll_loop sys rest bus
      | Some bytes \<Rightarrow>
          if bytes = [] then stm32_poll_loop sys rest bus
          else bindR (rx_store (sf_rxbuf pos) bytes) (\<lambda>b.
            stm32_poll_loop sys rest
              (bus\<lparr>bus_sinkfds := replace1 pos (pos\<lparr>sf_rxbuf := b\<rparr>) (bus_sinkfds bus)\<rparr>)))"

definition stm32_serial_poll :: "sys \<Rightarrow> apibus \<Rightarrow> apisink \<Rightarrow> (int \<times> apibus) res" where
  "stm32_serial_poll sys bus sink =
     bindR (stm32_poll_loop sys (sink_sinkfds bus sink) bus) (\<lambda>bus1. Inr (0, bus1))"

definition stm32_serial_ops :: "allocator \<Rightarrow> sys \<Rightarrow> apisink_ops" where
  "stm32_serial_ops al sys =
     \<lparr>op_open = Some (stm32_serial_open al sys), op_close = Some stm32_serial_close,
      op_ioctl = Some stm32_serial_ioctl, op_send = Some (stm32_serial_send sys),
      op_recv = Some (stm32_serial_recv sys), op_poll = Some (stm32_serial_poll sys)\<rparr>"

definition apibus_enable_stm32 :: "apibus \<Rightarrow> apisink \<Rightarrow> (int \<times> apibus) res" where
  "apibus_enable_stm32 bus sink =
     bindR (enable_sink bus sink ''apisink_stm32_serial'' 0) (\<lambda>bus1. Inr (0, bus1))"

definition apibus_disable_stm32 :: "apibus \<Rightarrow> apisink \<Rightarrow> apisink \<times> apibus" where
  "apibus_disable_stm32 bus sink = disable_sink bus sink"

subsection \<open>The sink fulfils the contract\<close>

definition stm32_env :: "allocator \<Rightarrow> sys \<Rightarrow> env" where
  "stm32_env al sys k = stm32_serial_ops al sys"

definition stm32_polls :: "sys \<Rightarrow> apibus \<Rightarrow> apisink list \<Rightarrow> bool" where
  "stm32_polls sys bus sinks = True"

lemma received_without_time:
  assumes "bus_ok bus" and "rx_ok pos" and "rx_store (sf_rxbuf pos) bytes = Inr b"
  shows "poll_kept {} bus (bus\<lparr>bus_sinkfds := replace1 pos (pos\<lparr>sf_rxbuf := b\<rparr>) (bus_sinkfds bus)\<rparr>)"
  using received_kept [OF assms, of "{}" "sf_ts_poll_recv pos"] by simp

lemma stm32_poll_loop_kept:
  assumes "stm32_poll_loop sys poss bus = Inr bus'" and "bus_ok bus" and "list_all rx_ok poss"
  shows "poll_kept {} bus bus'"
  using assms
proof (induction poss arbitrary: bus)
  case (Cons pos rest)
  show ?case
  proof (cases "\<exists>bytes. sys_read sys (sf_fd pos) (atbuf_spare (sf_rxbuf pos)) = Some bytes \<and> bytes \<noteq> []")
    case False
    then have "stm32_poll_loop sys rest bus = Inr bus'" using Cons.prems(1) by (auto split: option.splits)
    with Cons show ?thesis by simp
  next
    case True
    then obtain bytes b where b: "rx_store (sf_rxbuf pos) bytes = Inr b"
      "stm32_poll_loop sys rest (bus\<lparr>bus_sinkfds := replace1 pos (pos\<lparr>sf_rxbuf := b\<rparr>) (bus_sinkfds bus)\<rparr>) = Inr bus'"
      using Cons.prems(1) by (auto simp: bindR_eq_Inr_iff)
    note k = received_without_time [OF Cons.prems(2) _ b(1)]
    then have "poll_kept {} (bus\<lparr>bus_sinkfds := replace1 pos (pos\<lparr>sf_rxbuf := b\<rparr>) (bus_sinkfds bus)\<rparr>) bus'"
      using Cons.IH [OF b(2)] Cons.prems(3) by (simp add: poll_kept_def)
    with k show ?thesis using poll_kept_trans [of "{}" bus _ "{}" bus'] Cons.prems(3) by auto
  qed
qed simp

interpretation st: sink_env "stm32_env al" posix_opens stm32_polls
proof
  fix sys bus sink addr f fd bus'
  assume a: "bus_ok bus" "posix_opens sys bus" "op_open (stm32_env al sys (sk_ops sink)) = Some f"
    "f bus sink addr = Inr (fd, bus')"
  then have "bus' = bus \<or> (\<exists>sf. sinkfd_new al = Inr sf \<and> bus' = bus\<lparr>bus_sinkfds := sf\<lparr>sf_fd := sys_open sys addr,
      sf_addr := snprintf_s SINKFD_ADDR_SIZE addr, sf_sink := Some sink\<rparr> # bus_sinkfds bus\<rparr>)"
    by (auto simp: stm32_env_def stm32_serial_ops_def stm32_serial_open_def Let_def bindR_eq_Inr_iff split: if_splits)
  then show "bus_ok bus' \<and> sinks_only bus bus'"
    using a(1,2) sinkfd_new_rx(3) [of al] by (auto simp: bus_ok_def bus_fds_def posix_opens_def rx_ok_def)
next
  fix sys bus sink f fd r bus'
  assume "bus_ok bus" "op_close (stm32_env al sys (sk_ops sink)) = Some f" "f bus sink fd = (r, bus')"
  then show "bus_ok bus' \<and> sinks_only bus bus'"
    using posix_detach_ok [of bus sink fd r bus']
    by (simp add: stm32_env_def stm32_serial_ops_def stm32_serial_close_def posix_detach_def)
next
  fix sys bus sink rest f r bus'
  assume "bus_ok bus" "stm32_polls sys bus (sink # rest)" "op_poll (stm32_env al sys (sk_ops sink)) = Some f"
    "f bus sink = Inr (r, bus')"
  then show "bus_ok bus' \<and> sinks_only bus bus' \<and> stm32_polls sys bus' rest"
    using stm32_poll_loop_kept sink_sinkfds_ok(1) [of bus sink]
    by (auto simp: stm32_env_def stm32_serial_ops_def stm32_serial_poll_def stm32_polls_def bindR_eq_Inr_iff poll_kept_def)
qed

subsection \<open>Properties\<close>

text \<open>also a bus with the STM32 sink keeps its invariant over all runs, and every poll returns.\<close>

theorem stm32_bus_runs:
  assumes "apibus_new al = Inr bus0" and "(bus_step (stm32_env al) posix_opens stm32_polls)\<^sup>*\<^sup>* bus0 bus"
  shows "bus_inv bus \<and> (\<exists>x. apibus_poll al (stm32_env al sys) tod now bus = Some x)"
proof -
  have "bus_inv bus" using st.bus_run_inv [OF assms(2)] apibus_new_inv [OF assms(1)] .
  then show ?thesis using st.apibus_poll_ends [of bus sys tod al al now] by (auto simp: bus_inv_def stm32_polls_def)
qed

definition stm32_serial_sink :: apisink where
  "stm32_serial_sink = \<lparr>sk_name = [], sk_ops = 0, sk_bus = False, sk_fds = {}, sk_nfds = 0\<rparr>"

theorem stm32_bus_runs_witness:
  "\<exists>bus0 bus fd bus1. apibus_new generous = Inr bus0 \<and> apibus_enable_stm32 bus0 stm32_serial_sink = Inr (0, bus) \<and>
    apibus_open (stm32_env generous example_sys) bus ''apisink_stm32_serial'' ''/dev/tty'' = Inr (fd, bus1) \<and> bus_inv bus1"
proof -
  obtain bus0 where b0: "apibus_new generous = Inr bus0" "bus_sinks bus0 = []" "bus_sinkfds bus0 = []"
    by (simp add: apibus_new_def generous_def)
  define s where "s = stm32_serial_sink\<lparr>sk_name := ''apisink_stm32_serial'', sk_ops := 0, sk_bus := False\<rparr>"
  define bus where "bus = bus0\<lparr>bus_sinks := [s\<lparr>sk_bus := True\<rparr>]\<rparr>"
  have add: "apibus_add_sink bus0 s = (0, bus)" by (simp add: apibus_add_sink_def b0 bus_def)
  have en: "apibus_enable_stm32 bus0 stm32_serial_sink = Inr (0, bus)"
    using add by (simp add: apibus_enable_stm32_def enable_sink_def apisink_init_def APISINK_NAME_SIZE_def b0(2)
        snprintf_s_def s_def)
  obtain new where new: "sinkfd_new generous = Inr new"
    by (simp add: sinkfd_new_def generous_def atbuf_new_def calloc_c_def Let_def)
  obtain fd bus1 where o: "apibus_open (stm32_env generous example_sys) bus ''apisink_stm32_serial'' ''/dev/tty'' = Inr (fd, bus1)"
    by (simp add: apibus_open_def bus_def s_def strcmp_eq_def stm32_env_def stm32_serial_ops_def stm32_serial_open_def
        example_sys_def new Let_def)
  have "posix_opens example_sys bus" by (simp add: posix_opens_def bus_def b0 bus_fds_def)
  then have "(bus_step (stm32_env generous) posix_opens stm32_polls)\<^sup>*\<^sup>* bus0 bus1"
    using step_add_sink [OF add] step_open [where env = "stm32_env generous", OF _ o]
    by (meson converse_rtranclp_into_rtranclp r_into_rtranclp)
  from stm32_bus_runs [OF b0(1) this] b0(1) en o show ?thesis by blast
qed

text \<open>a packet that arrives in two parts is lost on STM32. As the time of reception stays zero, the
  first part is taken for one that timed out: the poll that finds it incomplete throws it away.\<close>

theorem stm32_partial_packet_lost:
  assumes "rx_ok sf" and "sf_ts_poll_recv sf = (0, 0)" and "1 \<le> now"
    and "sys_read sys (sf_fd sf) (atbuf_spare (sf_rxbuf sf)) = Some (l # d # part)"
    and "l \<in> set srrp_leaders" and "isdigit_c d" and "atbuf_content (sf_rxbuf sf) = []"
    and "bus_sinkfds bus = [sf]" and "sink_sinkfds bus sink = [sf]"
    and "stm32_serial_poll sys bus sink = Inr (r, bus')" and "bus_sinkfds bus' = [sf']"
    and "srrp_read_one_packet al (rx_bytes sf') = Inr None"
  shows "\<exists>b. parse_packet al now bus' sf' = Some (Inr (bus', sf'\<lparr>sf_rxbuf := b\<rparr>)) \<and> atbuf_content b = []"
proof -
  obtain b where b: "rx_store (sf_rxbuf sf) (l # d # part) = Inr b" "sf' = sf\<lparr>sf_rxbuf := b\<rparr>"
    using assms(4,8-11) by (auto simp: stm32_serial_poll_def bindR_eq_Inr_iff)
  then have rx: "rx_ok sf'" "atbuf_content (sf_rxbuf sf') = l # d # part"
    using rx_store_ok [OF assms(1) b(1)] assms(7) by auto
  then obtain tl where bytes: "rx_bytes sf' = l # d # tl" using rx_bytes_content [OF rx(1)] by simp
  have off: "srrp_next_packet_offset (rx_before sf') (rx_bytes sf') = Inr 0"
    using assms(5,6) by (simp add: srrp_next_packet_offset_def bytes mem_read_def)
  have used: "atbuf_used (sf_rxbuf sf') = length (l # d # part)"
    using rx by (simp add: rx_ok_def atbuf_used_eq)
  then have "atbuf_used (sf_rxbuf sf') < 2 ^ 32"
    using rx(1) atbuf_used_offsets [of "sf_rxbuf sf'"] by (auto simp: rx_ok_def atbuf_inv_def)
  from rx_advance [OF rx(1) this] obtain b' where b':
    "atbuf_read_advance (sf_rxbuf sf') (atbuf_used (sf_rxbuf sf')) = Inr (atbuf_used b', b')"
    "atbuf_content b' = drop (atbuf_used (sf_rxbuf sf')) (atbuf_content (sf_rxbuf sf'))" by blast
  have "parse_failed now sf' = Inr (sf'\<lparr>sf_rxbuf := b'\<rparr>)"
    using assms(2,3) off b'(1) b(2) by (simp add: parse_failed_def PARSE_PACKET_TIMEOUT_def)
  moreover have "atbuf_content b' = []" using b'(2) used rx(2) by simp
  ultimately show ?thesis using assms(12) used by (intro exI [of _ b']) (simp add: parse_packet_def)
qed

definition stm32_example_sys :: sys where
  "stm32_example_sys = example_sys\<lparr>sys_read := (\<lambda>_ _. Some ''>0,'')\<rparr>"

theorem stm32_partial_packet_lost_witness:
  "\<exists>sf' bus' b. stm32_serial_poll stm32_example_sys (posix_example\<lparr>bus_sinkfds := [conn_example 4]\<rparr>) unix_example = Inr (0, bus') \<and>
     bus_sinkfds bus' = [sf'] \<and> atbuf_content (sf_rxbuf sf') = ''>0,'' \<and>
     parse_packet generous 7 bus' sf' = Some (Inr (bus', sf'\<lparr>sf_rxbuf := b\<rparr>)) \<and> atbuf_content b = []"
proof -
  let ?sf = "conn_example 4" and ?bus = "posix_example\<lparr>bus_sinkfds := [conn_example 4]\<rparr>"
  let ?b = "\<lparr>ab_rawbuf = ''>0,'' @ [NUL], ab_size = 4, ab_offset_in = 3, ab_offset_out = 0\<rparr>"
  let ?sf' = "?sf\<lparr>sf_rxbuf := ?b\<rparr>" and ?bus' = "?bus\<lparr>bus_sinkfds := [?sf\<lparr>sf_rxbuf := ?b\<rparr>]\<rparr>"
  have rd: "sys_read stm32_example_sys n m = Some (CHR ''>'' # CHR ''0'' # '','')" for n m
    by (simp add: stm32_example_sys_def)
  have st: "rx_store (sf_rxbuf ?sf) ''>0,'' = Inr ?b"
    by (simp add: conn_example_def rx_store_def mem_write_def atbuf_write_pos_def atbuf_write_advance_def size_add_def
        size_mod_def atbuf_tidy_def atbuf_compact_def atbuf_used_def atbuf_spare_def atbuf_garbage_def atbuf_read_pos_def
        size_sub_def size_shr_def mem_read_def)
  have sk: "sink_sinkfds ?bus unix_example = [?sf]" by (simp add: sink_sinkfds_def conn_example_ok)
  have poll: "stm32_serial_poll stm32_example_sys ?bus unix_example = Inr (0, ?bus')"
    using rd [of 4 4] st by (simp add: stm32_serial_poll_def sk conn_example_ok)
  have bytes: "rx_bytes ?sf' = ''>0,'' @ [NUL]" by (simp add: rx_bytes_def atbuf_read_pos_def)
  have part: "srrp_read_one_packet generous (rx_bytes ?sf') = Inr None"
    unfolding bytes
    by (simp add: srrp_read_one_packet_def srrp_read_one_request_def mem_read_def srrp_consts terminated_def cstr_def
        scan_x_def scan_sign_def scan_0x_def isspace_c_def code_def xdigit_def strtoul32_def Let_def)
  have "CHR ''>'' \<in> set srrp_leaders" "isdigit_c CHR ''0''"
    by (simp_all add: srrp_leaders_def srrp_consts isdigit_c_def code_def)
  from stm32_partial_packet_lost [OF conn_example_ok(1) _ _ rd this conn_example_ok(5) _ sk poll _ part, of 7]
  obtain b where "parse_packet generous 7 ?bus' ?sf' = Some (Inr (?bus', ?sf'\<lparr>sf_rxbuf := b\<rparr>))" "atbuf_content b = []"
    by (auto simp: conn_example_def)
  then show ?thesis using poll by (intro exI [of _ ?sf'] exI [of _ ?bus'] exI [of _ b]) (simp add: atbuf_content_def)
qed

end
