(* ===== verification/Apix_Poll.thy ===== *)
theory Apix_Poll
  imports Apix_Posix
begin

text \<open>
  One call of \<open>apibus_poll\<close> with the POSIX sinks, up to the handlers: from the bytes that \<open>recv\<close> returns,
  over the receive buffer and the parser, to the packet on its queue; and a call in which nothing arrives.
  The lemmas say what each stage leaves alone, so that the stages compose.
\<close>

subsection \<open>One descriptor has something to read\<close>

text \<open>The operating system reports one connection of a socket sink, on which \<open>bytes\<close> arrive, and nothing
  for the other sinks.\<close>

definition arrives :: "sys \<Rightarrow> apibus \<Rightarrow> apisink \<Rightarrow> sinkfd \<Rightarrow> mem \<Rightarrow> bool" where
  "arrives sys bus sink pos bytes \<longleftrightarrow> sink \<in> set (bus_sinks bus) \<and> sk_ops sink \<in> {0, 1} \<and>
     pos \<in> set (sink_sinkfds bus sink) \<and> sf_listen pos \<noteq> 1 \<and>
     sys_select sys (sk_nfds sink) (sk_fds sink) = (1, {sf_fd pos}) \<and>
     (\<forall>s \<in> set (bus_sinks bus). s \<noteq> sink \<longrightarrow> sys_select sys (sk_nfds s) (sk_fds s) = (0, {})) \<and>
     bytes \<noteq> [] \<and> length bytes < atbuf_spare (sf_rxbuf pos) \<and>
     sys_recv sys (sf_fd pos) (atbuf_spare (sf_rxbuf pos)) = Some bytes"

definition drained :: "sinkfd \<Rightarrow> bool" where
  "drained sf \<longleftrightarrow> atbuf_used (sf_rxbuf sf) = 0"

lemma idle_loops: "unix_poll_loop al sys sink ready 0 poss bus = Inr bus" "serial_poll_loop sys ready 0 poss bus = Inr bus"
  by (cases poss; simp)+

lemma idle_sink_poll:
  assumes "sys_select sys (sk_nfds s) (sk_fds s) = (0, {})"
  shows "poll_sinks (posix_env al sys) bus (s # rest) = poll_sinks (posix_env al sys) bus rest"
  using assms idle_loops
  by (auto simp: posix_env_def unix_ops_def tcp_ops_def serial_ops_def unix_poll_def serial_poll_def)

lemma idle_sinks_poll:
  assumes "\<forall>s \<in> set ss. sys_select sys (sk_nfds s) (sk_fds s) = (0, {})"
  shows "poll_sinks (posix_env al sys) bus (ss @ rest) = poll_sinks (posix_env al sys) bus rest"
  using assms by (induction ss) (simp_all add: idle_sink_poll del: poll_sinks.simps(2))

lemma concat_one:
  assumes "distinct (as @ x # bs)"
  shows "concat (map (\<lambda>z. if P z \<and> z = x then f x else [z]) (as @ x # bs)) = as @ (if P x then f x else [x]) @ bs"
proof -
  have "concat (map (\<lambda>z. if P z \<and> z = x then f x else [z]) ys) = ys" if "x \<notin> set ys" for ys
    using that by (induction ys) auto
  then show ?thesis using assms by simp
qed

text \<open>The socket sink stores the bytes in the buffer of the one connection.\<close>

lemma arriving_poll:
  assumes "arrives sys bus sink pos bytes" and "bus_ok bus" and "bus_sinkfds bus = as @ pos # bs"
  shows "\<exists>b. unix_poll al sys bus sink =
      Inr (0, bus\<lparr>bus_sinkfds := as @ pos\<lparr>sf_rxbuf := b, sf_ts_poll_recv := sys_time sys\<rparr> # bs\<rparr>) \<and>
    rx_ok (pos\<lparr>sf_rxbuf := b, sf_ts_poll_recv := sys_time sys\<rparr>) \<and> atbuf_content b = atbuf_content (sf_rxbuf pos) @ bytes"
proof -
  note a = assms(1) [unfolded arrives_def]
  note sk = sink_sinkfds_ok [OF assms(2), of sink]
  have d: "distinct (map sf_fd (bus_sinkfds bus))" "distinct (bus_sinkfds bus)"
    using assms(2) by (auto simp: bus_ok_def bus_fds_def distinct_map)
  have rx: "rx_ok pos" using assms(2,3) by (simp add: bus_ok_def)
  obtain b where b: "rx_store (sf_rxbuf pos) bytes = Inr b" using rx_store_fits [OF rx] a by blast
  have inj: "inj_on sf_fd (set (bus_sinkfds bus))" "pos \<in> set (bus_sinkfds bus)"
    using d(1) unfolding distinct_map by (blast, simp add: assms(3))
  have one: "sf = pos" if "sf \<in> set (bus_sinkfds bus)" "sf_fd sf = sf_fd pos" for sf
    by (rule inj_onD [OF inj(1) that(2,1) inj(2)])
  have mine: "(sf \<in> set (sink_sinkfds bus sink) \<and> sf_fd sf \<in> {sf_fd pos}) = (sf \<in> set (sink_sinkfds bus sink) \<and> sf = pos)"
    if "sf \<in> set (bus_sinkfds bus)" for sf using one [OF that] by auto
  have cnt: "filter (\<lambda>sf. sf_fd sf \<in> {sf_fd pos}) (sink_sinkfds bus sink) = [pos]"
  proof -
    obtain xs ys where s: "sink_sinkfds bus sink = xs @ pos # ys" using a by (meson split_list)
    have "\<forall>sf \<in> set (xs @ ys). sf_fd sf \<noteq> sf_fd pos" using sk(2) s by (auto simp: image_iff)
    then show ?thesis using s by (auto simp: filter_empty_conv)
  qed
  have fits: "list_all (\<lambda>sf. sf_fd sf \<in> {sf_fd pos} \<longrightarrow> sf_listen sf \<noteq> 1 \<and> read_fits sys sf) (sink_sinkfds bus sink)"
  proof -
    have "sf_listen pos \<noteq> 1 \<and> read_fits sys pos" using a by (simp add: read_fits_def)
    then have "sf_listen sf \<noteq> 1 \<and> read_fits sys sf" if "sf \<in> set (sink_sinkfds bus sink)" "sf_fd sf = sf_fd pos" for sf
      using one [of sf] sk(3) that by blast
    then show ?thesis by (simp add: list_all_iff)
  qed
  have "concat (map (\<lambda>sf. if sf \<in> set (sink_sinkfds bus sink) \<and> sf_fd sf \<in> {sf_fd pos} then outcome sys sf else [sf]) (bus_sinkfds bus)) =
    concat (map (\<lambda>sf. if sf \<in> set (sink_sinkfds bus sink) \<and> sf = pos then outcome sys pos else [sf]) (bus_sinkfds bus))"
    using mine by (intro arg_cong [where f = concat] map_cong) auto
  also have "\<dots> = as @ outcome sys pos @ bs"
    using concat_one [of as pos bs "\<lambda>sf. sf \<in> set (sink_sinkfds bus sink)" "outcome sys"] d(2) a assms(3) by simp
  also have "outcome sys pos = [pos\<lparr>sf_rxbuf := b, sf_ts_poll_recv := sys_time sys\<rparr>]"
    using a b by (simp add: outcome_def)
  finally have "unix_poll al sys bus sink =
      Inr (0, bus\<lparr>bus_sinkfds := as @ pos\<lparr>sf_rxbuf := b, sf_ts_poll_recv := sys_time sys\<rparr> # bs\<rparr>)"
    using unix_poll_loop_outcome [OF assms(2) sk(3,2) _ fits, of 1 al sink] cnt a by (simp add: unix_poll_def)
  then show ?thesis using rx_store_ok [OF rx b] by (auto simp: rx_ok_def)
qed

lemma arriving_poll_sinks:
  assumes "arrives sys bus sink pos bytes" and "bus_ok bus" and "bus_sinkfds bus = as @ pos # bs"
  shows "\<exists>b. poll_sinks (posix_env al sys) (bus\<lparr>bus_poll_cnt := 0, bus_poll_ts := tod\<rparr>) (bus_sinks bus) =
      Inr (bus\<lparr>bus_poll_cnt := 0, bus_poll_ts := tod,
        bus_sinkfds := as @ pos\<lparr>sf_rxbuf := b, sf_ts_poll_recv := sys_time sys\<rparr> # bs\<rparr>) \<and>
    rx_ok (pos\<lparr>sf_rxbuf := b, sf_ts_poll_recv := sys_time sys\<rparr>) \<and> atbuf_content b = atbuf_content (sf_rxbuf pos) @ bytes"
proof -
  let ?bus = "bus\<lparr>bus_poll_cnt := 0, bus_poll_ts := tod\<rparr>"
  note a = assms(1) [unfolded arrives_def]
  obtain ss ss' where ss: "bus_sinks bus = ss @ sink # ss'" using a by (meson split_list)
  have "distinct (bus_sinks bus)" using assms(2) by (auto simp: bus_ok_def distinct_map)
  then have others: "\<forall>s \<in> set (ss @ ss'). sys_select sys (sk_nfds s) (sk_fds s) = (0, {})" using a ss by auto
  have ok: "bus_ok ?bus" "arrives sys ?bus sink pos bytes"
    using assms(1,2) by (auto simp: bus_ok_def bus_fds_def arrives_def sink_sinkfds_def)
  from arriving_poll [OF ok(2,1), of as bs al] assms(3) obtain b where b: "unix_poll al sys ?bus sink =
      Inr (0, ?bus\<lparr>bus_sinkfds := as @ pos\<lparr>sf_rxbuf := b, sf_ts_poll_recv := sys_time sys\<rparr> # bs\<rparr>)"
    "rx_ok (pos\<lparr>sf_rxbuf := b, sf_ts_poll_recv := sys_time sys\<rparr>)" "atbuf_content b = atbuf_content (sf_rxbuf pos) @ bytes"
    by auto
  have "op_poll (posix_env al sys (sk_ops sink)) = Some (unix_poll al sys)"
    using a by (auto simp: posix_env_def unix_ops_def tcp_ops_def)
  then have "poll_sinks (posix_env al sys) ?bus (bus_sinks bus) =
      Inr (?bus\<lparr>bus_sinkfds := as @ pos\<lparr>sf_rxbuf := b, sf_ts_poll_recv := sys_time sys\<rparr> # bs\<rparr>)"
    using others idle_sinks_poll [of ss sys al] idle_sinks_poll [of ss' sys al _ "[]"] b(1) by (simp add: ss)
  with b(2,3) show ?thesis by auto
qed

subsection \<open>Parsing\<close>

text \<open>Empty buffers are passed over; only the counter of the poll may change.\<close>

lemma parse_drained:
  assumes "list_all drained sfs"
  shows "\<exists>n. parse_sinkfds al now bus (sfs @ rest) =
    map_option (\<lambda>r. bindR r (\<lambda>(bus1, rest1). Inr (bus1, sfs @ rest1))) (parse_sinkfds al now (bus\<lparr>bus_poll_cnt := n\<rparr>) rest)"
  using assms
proof (induction sfs arbitrary: bus)
  case Nil
  have "(\<lambda>r. bindR r (\<lambda>(bus1, rest1). Inr (bus1, rest1))) = (id :: (apibus \<times> sinkfd list) res \<Rightarrow> _)"
    by (rule ext) (simp add: bindR_def split: sum.split)
  then show ?case by (intro exI [of _ "bus_poll_cnt bus"]) (simp add: option.map_id)
next
  case (Cons sf sfs)
  define k where "k = (if timer_less (bus_poll_ts bus) (sf_ts_poll_recv sf) then bus_poll_cnt bus + 1 else bus_poll_cnt bus)"
  have k: "(if timer_less (bus_poll_ts bus) (sf_ts_poll_recv sf) then bus\<lparr>bus_poll_cnt := bus_poll_cnt bus + 1\<rparr> else bus) =
    bus\<lparr>bus_poll_cnt := k\<rparr>" by (simp add: k_def)
  obtain n where "parse_sinkfds al now (bus\<lparr>bus_poll_cnt := k\<rparr>) (sfs @ rest) =
    map_option (\<lambda>r. bindR r (\<lambda>(bus1, rest1). Inr (bus1, sfs @ rest1))) (parse_sinkfds al now (bus\<lparr>bus_poll_cnt := n\<rparr>) rest)"
    using Cons.IH [of "bus\<lparr>bus_poll_cnt := k\<rparr>"] Cons.prems by auto
  moreover have "bindR (bindR r (\<lambda>(bus1, rest1). Inr (bus1, sfs @ rest1))) (\<lambda>(bus3, rest1). Inr (bus3, sf # rest1)) =
    bindR r (\<lambda>(bus1, rest1). Inr (bus1, sf # sfs @ rest1))" for r :: "(apibus \<times> sinkfd list) res"
    by (simp add: bindR_def split: sum.split)
  ultimately show ?case
    using Cons.prems k by (intro exI [of _ n]) (simp add: drained_def option.map_comp comp_def)
qed

text \<open>What queueing a packet adds to the lists of requests, responses and topic messages.\<close>

definition queues ::
  "allocator \<Rightarrow> nat \<Rightarrow> int \<Rightarrow> srrp_packet \<Rightarrow> api_request list \<Rightarrow> api_response list \<Rightarrow> api_topic_msg list \<Rightarrow> bool" where
  "queues al now fd p rs ps ts \<longleftrightarrow> (\<forall>bus. queue_packet al now bus fd p =
     Inr (bus\<lparr>bus_requests := rs @ bus_requests bus, bus_responses := ps @ bus_responses bus,
       bus_topic_msgs := ts @ bus_topic_msgs bus\<rparr>))"

lemma packet_parsed:
  assumes "list_all drained (as @ bs)" and "rx_ok pos" and "atbuf_content (sf_rxbuf pos) = pk_raw p"
    and "srrp_clean al p" and "queues al now (sf_fd pos) p rs ps ts" and "pk_raw p \<noteq> []"
  shows "\<exists>n b. parse_sinkfds al now bus (as @ pos # bs) =
    Some (Inr (bus\<lparr>bus_poll_cnt := n, bus_requests := rs @ bus_requests bus, bus_responses := ps @ bus_responses bus, bus_topic_msgs := ts @ bus_topic_msgs bus\<rparr>,
      as @ pos\<lparr>sf_rxbuf := b\<rparr> # bs)) \<and>
    rx_ok (pos\<lparr>sf_rxbuf := b\<rparr>) \<and> drained (pos\<lparr>sf_rxbuf := b\<rparr>)"
proof -
  have as: "list_all drained as" and bs: "list_all drained bs" using assms(1) by simp_all
  obtain n1 where n1: "parse_sinkfds al now bus (as @ pos # bs) = map_option (\<lambda>r. bindR r (\<lambda>(bus1, rest1). Inr (bus1, as @ rest1)))
      (parse_sinkfds al now (bus\<lparr>bus_poll_cnt := n1\<rparr>) (pos # bs))" using parse_drained [OF as] by blast
  obtain k where k: "(if timer_less (bus_poll_ts (bus\<lparr>bus_poll_cnt := n1\<rparr>)) (sf_ts_poll_recv pos)
      then bus\<lparr>bus_poll_cnt := n1, bus_poll_cnt := bus_poll_cnt (bus\<lparr>bus_poll_cnt := n1\<rparr>) + 1\<rparr> else bus\<lparr>bus_poll_cnt := n1\<rparr>) =
      bus\<lparr>bus_poll_cnt := k\<rparr>" by (cases "timer_less (bus_poll_ts bus) (sf_ts_poll_recv pos)") auto
  let ?bus = "bus\<lparr>bus_poll_cnt := k, bus_requests := rs @ bus_requests bus, bus_responses := ps @ bus_responses bus, bus_topic_msgs := ts @ bus_topic_msgs bus\<rparr>"
  obtain b where b: "parse_packet al now (bus\<lparr>bus_poll_cnt := k\<rparr>) pos = Some (Inr (?bus, pos\<lparr>sf_rxbuf := b\<rparr>))"
    "atbuf_content b = []" "rx_ok (pos\<lparr>sf_rxbuf := b\<rparr>)"
    using parse_loop_stream [OF assms(2) lessI, of "[p]" al now "bus\<lparr>bus_poll_cnt := k\<rparr>" ?bus] assms(3-5)
    unfolding parse_packet_def queues_def by auto
  have used: "atbuf_used (sf_rxbuf pos) \<noteq> 0" "atbuf_used b = 0"
    using assms(2,3,6) b(2,3) by (auto simp: rx_ok_def atbuf_used_eq)
  obtain n2 where n2: "parse_sinkfds al now ?bus bs = Some (Inr (?bus\<lparr>bus_poll_cnt := n2\<rparr>, bs))"
    using parse_drained [OF bs, of al now ?bus "[]"] by auto
  have "parse_sinkfds al now (bus\<lparr>bus_poll_cnt := n1\<rparr>) (pos # bs) =
      Some (Inr (?bus\<lparr>bus_poll_cnt := n2\<rparr>, pos\<lparr>sf_rxbuf := b\<rparr> # bs))"
    using b(1) used(1) n2 k by (simp add: Let_def)
  then show ?thesis using n1 b(3) used(2) by (intro exI [of _ n2] exI [of _ b]) (simp add: drained_def)
qed

text \<open>The way of a packet up to the handlers; whatever they leave, the invariant holds then.\<close>

lemma packet_received:
  assumes "bus_ok bus" and "list_all drained (bus_sinkfds bus)" and "srrp_clean al p"
    and "arrives sys bus sink pos (pk_raw p)" and "queues al now (sf_fd pos) p rs ps ts"
  shows "\<exists>n u sfs. let bus2 = bus\<lparr>bus_poll_ts := tod, bus_poll_cnt := n, bus_requests := rs @ bus_requests bus,
        bus_responses := ps @ bus_responses bus, bus_topic_msgs := ts @ bus_topic_msgs bus, bus_sinkfds := sfs, bus_idle_usec := u\<rparr>
      in apibus_poll al (posix_env al sys) tod now bus =
        Some (bindR (handle_all al (posix_env al sys) now bus2) (\<lambda>bus'. Inr (0, bus'))) \<and>
    (\<forall>bus'. handle_all al (posix_env al sys) now bus2 = Inr bus' \<longrightarrow> bus_inv bus') \<and> list_all drained sfs \<and>
    map (\<lambda>sf. (sf_fd sf, sf_sink sf)) sfs = map (\<lambda>sf. (sf_fd sf, sf_sink sf)) (bus_sinkfds bus) \<and>
    set (bus_sinkfds bus) \<subseteq> insert pos (set sfs)"
proof -
  have "pos \<in> set (bus_sinkfds bus)" using assms(4) sink_sinkfds_ok(3) [OF assms(1), of sink] by (auto simp: arrives_def)
  then obtain as bs where fds: "bus_sinkfds bus = as @ pos # bs" by (auto dest: split_list)
  let ?bus0 = "bus\<lparr>bus_poll_cnt := 0, bus_poll_ts := tod\<rparr>"
  obtain b where b: "poll_sinks (posix_env al sys) ?bus0 (bus_sinks bus) =
      Inr (?bus0\<lparr>bus_sinkfds := as @ pos\<lparr>sf_rxbuf := b, sf_ts_poll_recv := sys_time sys\<rparr> # bs\<rparr>)"
    "rx_ok (pos\<lparr>sf_rxbuf := b, sf_ts_poll_recv := sys_time sys\<rparr>)" "atbuf_content b = atbuf_content (sf_rxbuf pos) @ pk_raw p"
    using arriving_poll_sinks [OF assms(4,1) fds, of al tod] by auto
  let ?pos = "pos\<lparr>sf_rxbuf := b, sf_ts_poll_recv := sys_time sys\<rparr>"
  let ?bus1 = "?bus0\<lparr>bus_sinkfds := as @ ?pos # bs\<rparr>"
  have "atbuf_content (sf_rxbuf pos) = []"
    using assms(1,2) fds by (simp add: drained_def bus_ok_def rx_ok_def atbuf_used_eq)
  then obtain n b2 where parse: "parse_sinkfds al now ?bus1 (as @ ?pos # bs) =
      Some (Inr (?bus1\<lparr>bus_poll_cnt := n, bus_requests := rs @ bus_requests bus, bus_responses := ps @ bus_responses bus, bus_topic_msgs := ts @ bus_topic_msgs bus\<rparr>,
        as @ ?pos\<lparr>sf_rxbuf := b2\<rparr> # bs))" "rx_ok (?pos\<lparr>sf_rxbuf := b2\<rparr>)" "drained (?pos\<lparr>sf_rxbuf := b2\<rparr>)"
    using packet_parsed [of as bs ?pos p al now rs ps ts ?bus1] assms fds b(2,3) by (auto simp: arrives_def)
  let ?sfs = "as @ ?pos\<lparr>sf_rxbuf := b2\<rparr> # bs"
  let ?bus2 = "?bus1\<lparr>bus_poll_cnt := n, bus_requests := rs @ bus_requests bus, bus_responses := ps @ bus_responses bus, bus_topic_msgs := ts @ bus_topic_msgs bus\<rparr>"
  obtain u where u: "poll_idle (?bus2\<lparr>bus_sinkfds := ?sfs\<rparr>) = ?bus2\<lparr>bus_sinkfds := ?sfs, bus_idle_usec := u\<rparr>"
    using poll_idle_only by blast
  have "bus_ok ?bus2" using assms(1) b(2) by (auto simp: bus_ok_def bus_fds_def fds)
  moreover have "list_all2 (\<lambda>a b. rx_only a b \<and> rx_ok b) (as @ ?pos # bs) ?sfs"
  proof -
    have "list_all2 (\<lambda>a b. rx_only a b \<and> rx_ok b) xs xs" if "list_all rx_ok xs" for xs
      using that by (induction xs) auto
    then show ?thesis using assms(1) parse(2) fds by (auto simp: rx_only_def bus_ok_def intro!: list_all2_appendI)
  qed
  ultimately have inv: "bus_inv bus'" if "handle_all al (posix_env al sys) now (?bus2\<lparr>bus_sinkfds := ?sfs, bus_idle_usec := u\<rparr>) = Inr bus'" for bus'
    using handled_ok [of al "posix_env al sys" now ?sfs ?bus2 bus'] that u by (simp add: bus_inv_def)
  show ?thesis
    using b(1) parse u assms(2) fds inv
    by (intro exI [of _ n] exI [of _ u] exI [of _ ?sfs]) (auto simp: apibus_poll_def Let_def)
qed

subsection \<open>For the handlers\<close>

lemma handle_waiting: "list_all (waiting now) rs \<Longrightarrow> handle_request_loop al env now bus rs = Inr (bus, rs)"
  by (induction rs) (auto simp: handle_one_request_def waiting_def)

lemma posix_can_send:
  assumes "bus_ok bus" and "fd \<in> set (bus_fds bus)"
  shows "can_send (posix_env al sys) bus fd"
proof -
  have op: "op_send (posix_env al sys k) \<noteq> None" for k
    by (simp add: posix_env_def unix_ops_def tcp_ops_def serial_ops_def)
  obtain sf where "find_sinkfd_in_apibus bus fd = Some sf" "sf \<in> set (bus_sinkfds bus)"
  proof (cases "find_sinkfd_in_apibus bus fd")
    case None
    then show thesis using assms(2) by (auto simp: find_sinkfd_in_apibus_def find_None_iff bus_fds_def)
  next
    case (Some sf)
    then show thesis by (intro that [of sf]) (auto simp: find_sinkfd_in_apibus_def find_Some_iff)
  qed
  then show ?thesis using assms(1) op by (auto simp: can_send_def bus_ok_def list_all_iff split: option.split)
qed

lemma arrives_fd: "arrives sys bus sink pos bytes \<Longrightarrow> bus_ok bus \<Longrightarrow> sf_fd pos \<in> set (bus_fds bus)"
  using sink_sinkfds_ok(3) [of bus sink] by (auto simp: arrives_def bus_fds_def)

lemma can_send_same_fds:
  assumes "map (\<lambda>sf. (sf_fd sf, sf_sink sf)) sfs = map (\<lambda>sf. (sf_fd sf, sf_sink sf)) (bus_sinkfds bus)"
    and "bus_sinkfds bus' = sfs" and "can_send env bus fd"
  shows "can_send env bus' fd"
proof -
  have "map_option sf_sink (find (\<lambda>pos. sf_fd pos = fd) xs) = map_option sf_sink (find (\<lambda>pos. sf_fd pos = fd) ys)"
    if "map (\<lambda>sf. (sf_fd sf, sf_sink sf)) xs = map (\<lambda>sf. (sf_fd sf, sf_sink sf)) ys" for xs ys
    using that by (induction xs arbitrary: ys) (auto simp: Cons_eq_map_conv)
  from this [OF assms(1)] show ?thesis
    using assms(2,3) by (auto simp: can_send_def find_sinkfd_in_apibus_def split: option.splits)
qed

subsection \<open>A bus with two connections\<close>

text \<open>Two connections with empty buffers on a socket sink; the second one is that of station 8.\<close>

definition system_conn :: "int \<Rightarrow> sinkfd" where
  "system_conn fd = (conn_example fd)\<lparr>sf_rxbuf := \<lparr>ab_rawbuf = replicate 64 NUL, ab_size = 64, ab_offset_in = 0, ab_offset_out = 0\<rparr>\<rparr>"

definition system_bus :: apibus where
  "system_bus = posix_example\<lparr>bus_sinkfds := [system_conn 4, system_conn 5],
     bus_stations := [\<lparr>st_sttid = 8, st_ts_alive = 7, st_fd = 5\<rparr>]\<rparr>"

lemma system_conn_ok:
  "rx_ok (system_conn fd)" "drained (system_conn fd)" "sf_fd (system_conn fd) = fd" "sf_listen (system_conn fd) = 0"
  "atbuf_spare (sf_rxbuf (system_conn fd)) = 64" "sf_sink (system_conn fd) = Some unix_example"
  by (simp_all add: system_conn_def conn_example_ok rx_ok_def atbuf_inv_def atbuf_ended_def size_mod_def atbuf_spare_def
      size_sub_def drained_def atbuf_used_def)

lemma system_conn_apart: "system_conn 5 \<noteq> system_conn 4"
proof
  assume "system_conn 5 = system_conn 4"
  from arg_cong [OF this, of sf_fd] show False by (simp add: system_conn_ok)
qed

lemma system_bus_ok:
  "bus_inv system_bus" "sink_sinkfds system_bus unix_example = [system_conn 4, system_conn 5]"
  "bus_fds system_bus = [4, 5]" "bus_sinkfds system_bus = [system_conn 4, system_conn 5]" "bus_sinks system_bus = [unix_example]"
  by (simp_all add: system_bus_def posix_example_def bus_inv_def bus_ok_def bus_quiet_def system_conn_ok bus_fds_def
      one_subscription_def sink_sinkfds_def)

lemma unix_example_sock: "sk_ops unix_example = 0"
  by (simp add: unix_example_def)

lemma system_drained: "list_all drained (bus_sinkfds system_bus)"
  by (simp add: system_bus_ok system_conn_ok)

lemma system_bus_state: "bus_requests system_bus = []" "bus_sent system_bus = []"
  "bus_stations system_bus = [\<lparr>st_sttid = 8, st_ts_alive = 7, st_fd = 5\<rparr>]"
  by (simp_all add: system_bus_def posix_example_def)

lemma system_arrives:
  "bytes \<noteq> [] \<Longrightarrow> length bytes < 64 \<Longrightarrow>
     arrives (example_sys\<lparr>sys_recv := (\<lambda>_ _. Some bytes)\<rparr>) system_bus unix_example (system_conn 4) bytes"
  using unix_example_sock by (auto simp: arrives_def system_bus_ok system_conn_ok example_sys_def)

lemma system_state:
  "list_all (waiting now) (bus_requests system_bus)" "list_all (\<lambda>st. st_fd st \<in> set (bus_fds system_bus)) (bus_stations system_bus)"
  "grant generous n"
  by (simp_all add: system_bus_state system_bus_ok generous_def)

end
