(* ===== verification/Srrp_Fields.thy ===== *)
theory Srrp_Fields
  imports Apix_Props
begin

text \<open>
  The fields of the packets that the writers of \<open>srrp.c\<close> make, for the properties of packets on their way
  through several components.
\<close>

text \<open>What \<open>srrp_write_body\<close> puts into the fields of a packet with a short header.\<close>

lemma srrp_write_body_fields:
  assumes "srrp_write_body al len s l srcid crc header dn = Inr p" and "length s + 1 = len"
    and "length header < SRRP_HEADER_LEN"
  shows "pk_leader p = l" "pk_srcid p = srcid" "pk_reqcrc16 p = crc" "pk_header p = padded SRRP_HEADER_LEN header"
    "pk_header_len p = length header" "pk_data p = len - dn - 1" "pk_data_len p = dn" "pk_raw p = s @ [NUL]"
    "pk_len p = of_nat len" "len < 4092"
proof -
  have "take 127 header = header" using assms(3) by (simp add: SRRP_HEADER_LEN_def)
  then show "pk_leader p = l" "pk_srcid p = srcid" "pk_reqcrc16 p = crc" "pk_header p = padded SRRP_HEADER_LEN header"
    "pk_header_len p = length header" "pk_data p = len - dn - 1" "pk_data_len p = dn" "pk_raw p = s @ [NUL]"
    "pk_len p = of_nat len" "len < 4092"
    using assms(1) unfolding srrp_write_body_eq [OF assms(2)] by (auto simp: SRRP_LENGTH_MAX_def split: if_splits)
qed

lemma srrp_write_request_fields:
  assumes "srrp_write_request al srcid header data = Inr p" and "length header < SRRP_HEADER_LEN"
  shows "pk_leader p = SRRP_REQUEST_LEADER" "pk_srcid p = srcid" "pk_header p = padded SRRP_HEADER_LEN header"
    "pk_header_len p = length header" "pk_data_len p = length data" "drop (pk_data p) (pk_raw p) = data @ [NUL]"
    "length (pk_raw p) = unat (pk_len p)"
proof -
  let ?n = "15 + length header + 1 + length data + 1"
  let ?t = "''>0,$,'' @ hex4 ?n @ '','' @ hex4 (unat srcid) @ '':'' @ header @ ''?'' @ data"
  have w: "srrp_write_body al ?n ?t SRRP_REQUEST_LEADER srcid 0 header (length data) = Inr p"
    using assms(1) by (simp add: srrp_write_request_def Let_def)
  have n: "?n < 65536"
    using w by (rule_tac ccontr) (simp add: srrp_write_body_def assertR_def SRRP_LENGTH_MAX_def)
  then have lt: "length ?t + 1 = ?n" by (simp add: hex4_length unat_16_less)
  note f = srrp_write_body_fields [OF w lt assms(2)]
  have "length (pk_raw p) = ?n" using f(8) lt by simp
  then show "length (pk_raw p) = unat (pk_len p)" using f(9) unat_of_nat16 [OF n] by simp
  show "pk_leader p = SRRP_REQUEST_LEADER" "pk_srcid p = srcid" "pk_header p = padded SRRP_HEADER_LEN header"
    "pk_header_len p = length header" "pk_data_len p = length data" using f by simp_all
  have "length (''>0,$,'' @ hex4 ?n @ '','' @ hex4 (unat srcid) @ '':'' @ header @ ''?'') = ?n - length data - 1"
    using lt by simp
  then have "drop (?n - length data - 1) ((''>0,$,'' @ hex4 ?n @ '','' @ hex4 (unat srcid) @ '':'' @ header @ ''?'') @ data @ [NUL]) = data @ [NUL]"
    by (metis append_eq_conv_conj)
  then show "drop (pk_data p) (pk_raw p) = data @ [NUL]" using f by simp
qed

lemma srrp_write_response_fields:
  assumes "srrp_write_response al srcid crc header data = Inr q" and "length header < SRRP_HEADER_LEN"
  shows "pk_srcid q = srcid" "pk_reqcrc16 q = crc" "pk_header q = padded SRRP_HEADER_LEN header"
    "length (pk_raw q) = unat (pk_len q)" "pk_leader q = SRRP_RESPONSE_LEADER"
proof -
  let ?n = "15 + 5 + length header + 1 + length data + 1"
  let ?t = "''<0,$,'' @ hex4 ?n @ '','' @ hex4 (unat srcid) @ '','' @ hex4 (unat crc) @ '':'' @ header @ ''?'' @ data"
  have w: "srrp_write_body al ?n ?t SRRP_RESPONSE_LEADER srcid crc header (length data) = Inr q"
    using assms(1) by (simp add: srrp_write_response_def Let_def)
  have n: "?n < 65536"
    using w by (rule_tac ccontr) (simp add: srrp_write_body_def assertR_def SRRP_LENGTH_MAX_def)
  then have lt: "length ?t + 1 = ?n" by (simp add: hex4_length unat_16_less)
  note f = srrp_write_body_fields [OF w lt assms(2)]
  then show "pk_srcid q = srcid" "pk_reqcrc16 q = crc" "pk_header q = padded SRRP_HEADER_LEN header"
    "pk_leader q = SRRP_RESPONSE_LEADER" by simp_all
  have "length (pk_raw q) = ?n" using f(8) lt by simp
  then show "length (pk_raw q) = unat (pk_len q)" using f(9) unat_of_nat16 [OF n] by simp
qed

end
