(* ===== verification/Apix_System.thy ===== *)
theory Apix_System
  imports Apix_Poll Srrp_Fields
begin

text \<open>
  A request and its response on their whole way through calls of \<open>apibus_poll\<close> with the POSIX sinks: from
  the bytes that \<open>recv\<close> returns to the bytes that are sent.
\<close>

subsection \<open>Requests and responses as they are written\<close>

text \<open>A written request is read back from the buffer as it was written.\<close>

lemma written_request_clean:
  assumes "srrp_write_request al srcid header data = Inr p"
    and "srrp_header_ok header" and "srrp_data_ok data" and "length header < SRRP_HEADER_LEN"
  shows "srrp_clean al p"
proof -
  have "take (SRRP_HEADER_LEN - 1) header = header" using assms(4) by simp
  then have "srrp_read_one_packet al (pk_raw p @ rest) = Inr (Some p)" for rest
    by (intro srrp_reads_back_short [OF srrp_request_reads_back [OF assms(1-3)] assms(4)])
      (simp add: srrp_write_request_fields(3) [OF assms(1,4)])
  then show ?thesis using srrp_write_request_fields(7) [OF assms(1,4)] by (simp add: srrp_clean_def)
qed

lemma written_response_clean:
  assumes "srrp_write_response al srcid crc header data = Inr p"
    and "srrp_header_ok header" and "srrp_data_ok data" and "length header < SRRP_HEADER_LEN"
  shows "srrp_clean al p"
proof -
  have "take (SRRP_HEADER_LEN - 1) header = header" using assms(4) by simp
  then have "srrp_read_one_packet al (pk_raw p @ rest) = Inr (Some p)" for rest
    by (intro srrp_reads_back_short [OF srrp_response_reads_back [OF assms(1-3)] assms(4)])
      (simp add: srrp_write_response_fields(3) [OF assms(1,4)])
  then show ?thesis using srrp_write_response_fields(4) [OF assms(1,4)] by (simp add: srrp_clean_def)
qed

text \<open>The checksum over header and data, and what queueing the packets adds.\<close>

definition srrp_crc :: "string \<Rightarrow> string \<Rightarrow> 16 word res" where
  "srrp_crc header data =
     bindR (crc16 header (int (length header))) (\<lambda>c. crc16_crc c data (int (length data)))"

lemma written_request_queued:
  assumes "srrp_write_request al srcid header data = Inr p" and "length header < SRRP_HEADER_LEN" and "grant al 56"
  obtains c where "srrp_crc header data = Inr c" "queues al now fd p
    [\<lparr>rq_pac = p, rq_state = API_REQUEST_ST_NONE, rq_ts_create = now, rq_ts_send = 0, rq_fd = fd, rq_crc16 = c\<rparr>] [] []"
proof -
  note f = srrp_write_request_fields [OF assms(1,2)]
  obtain c1 where c1: "crc16 (pk_header p) (int (pk_header_len p)) = Inr c1" "crc16 header (int (length header)) = Inr c1"
    using assms(2) by (simp add: f crc16_def crc16_loop_eq padded_def)
  obtain c2 where "crc16_crc c1 (drop (pk_data p) (pk_raw p)) (int (pk_data_len p)) = Inr c2"
      "crc16_crc c1 data (int (length data)) = Inr c2"
    by (simp add: f crc16_crc_def crc16_loop_eq)
  then show thesis using that [of c2] c1 assms(3) by (simp add: queues_def queue_packet_def f(1) srrp_crc_def)
qed

lemma written_response_queued:
  assumes "srrp_write_response al srcid crc header data = Inr q" and "length header < SRRP_HEADER_LEN" and "grant al 32"
  shows "queues al now fd q [] [\<lparr>rp_pac = q, rp_fd = fd\<rparr>] []"
  using srrp_write_response_fields(5) [OF assms(1,2)] assms(3) by (simp add: queues_def queue_packet_def srrp_consts)

subsection \<open>Handling\<close>

text \<open>Where a request goes: to the station of that number, the sender being one from now on.\<close>

definition route :: "api_station list \<Rightarrow> 16 word \<Rightarrow> int \<Rightarrow> 16 word option \<Rightarrow> int option" where
  "route stations srcid fd dst =
     Option.bind dst (\<lambda>d. case find_station stations d of
       Some st \<Rightarrow> Some (st_fd st) | None \<Rightarrow> if d = srcid then Some fd else None)"

lemma station_alive_fd:
  "map_option st_fd (find_station (station_alive now s stations) d) = map_option st_fd (find_station stations d)"
  by (induction stations) (auto simp: find_station_def)

text \<open>The stations after the sender of a request was registered, or found alive.\<close>

definition registered :: "nat \<Rightarrow> 16 word \<Rightarrow> int \<Rightarrow> api_station list \<Rightarrow> api_station list" where
  "registered now src fd S = (case find_station S src of
     None \<Rightarrow> \<lparr>st_sttid = src, st_ts_alive = now, st_fd = fd\<rparr> # S | Some st \<Rightarrow> station_alive now src S)"

lemma registered_route: "Option.bind dst (\<lambda>d. map_option st_fd (find_station (registered now src fd S) d)) = route S src fd dst"
proof (cases "find_station S src")
  case None
  then show ?thesis by (cases dst) (auto simp: route_def registered_def find_station_def split: option.split)
next
  case (Some st)
  then have "map_option st_fd (find_station (registered now src fd S) d) = map_option st_fd (find_station S d)" for d
    by (simp add: registered_def station_alive_fd)
  then show ?thesis using Some by (cases dst) (auto simp: route_def split: option.split)
qed

lemma route_can_send:
  assumes "can_send env bus fd" and "list_all (\<lambda>st. can_send env bus (st_fd st)) S" and "route S src fd dst = Some d"
  shows "can_send env bus d"
  using assms by (auto simp: route_def find_station_def list_all_iff find_Some_iff split: option.splits if_splits bind_splits)

text \<open>A request that was queued in this poll is forwarded, or its sender is told that there is no such
  station.\<close>

lemma new_request_handled:
  assumes "rq_state r = API_REQUEST_ST_NONE" and "grant al 40" and "scan_dstid (pk_header (rq_pac r)) = Inr dst"
    and "length (pk_raw (rq_pac r)) = unat (pk_len (rq_pac r))" and "can_send env bus (rq_fd r)"
    and "list_all (\<lambda>st. can_send env bus (st_fd st)) (bus_stations bus)"
  shows "handle_one_request al env now bus r =
    (case route (bus_stations bus) (pk_srcid (rq_pac r)) (rq_fd r) dst of
       Some d \<Rightarrow> Inr (bus\<lparr>bus_stations := registered now (pk_srcid (rq_pac r)) (rq_fd r) (bus_stations bus), bus_sent := bus_sent bus @ [(d, pk_raw (rq_pac r))]\<rparr>,
         Some (r\<lparr>rq_state := API_REQUEST_ST_WAIT_RESPONSE, rq_ts_send := now\<rparr>))
     | None \<Rightarrow> Inr (bus\<lparr>bus_stations := registered now (pk_srcid (rq_pac r)) (rq_fd r) (bus_stations bus), bus_sent := bus_sent bus @ [(rq_fd r, ''STATION NOT FOUND'')]\<rparr>, None))"
proof -
  let ?S = "bus_stations bus" and ?src = "pk_srcid (rq_pac r)"
  let ?S1 = "registered now ?src (rq_fd r) ?S"
  let ?bus1 = "bus\<lparr>bus_stations := ?S1\<rparr>"
  have found: "(case find_station ?S ?src of None \<Rightarrow> add_station al now bus r
      | Some src \<Rightarrow> Inr (bus\<lparr>bus_stations := station_alive now ?src ?S\<rparr>)) = Inr ?bus1"
    using assms(2) by (simp add: registered_def add_station_def split: option.split)
  have send: "can_send env ?bus1 = can_send env bus" by (simp add: can_send_def find_sinkfd_in_apibus_def fun_eq_iff)
  note to = registered_route [of dst now ?src "rq_fd r" ?S] and ok = route_can_send [OF assms(5,6)]
  have nf: "not_found env ?bus1 r = Inr (?bus1\<lparr>bus_sent := bus_sent bus @ [(rq_fd r, ''STATION NOT FOUND'')]\<rparr>, None)"
    using apibus_send_ok [of env ?bus1 "rq_fd r" 17 "''STATION NOT FOUND''"] assms(5) send by (auto simp: not_found_def)
  show ?thesis
  proof (cases "route ?S ?src (rq_fd r) dst")
    case None
    then have "case dst of None \<Rightarrow> True | Some d \<Rightarrow> find_station ?S1 d = None" using to by (cases dst) auto
    then have "handle_one_request al env now bus r = not_found env ?bus1 r"
      using assms(1,3) found
      by (auto simp: handle_one_request_def API_REQUEST_ST_NONE_def API_REQUEST_ST_WAIT_RESPONSE_def split: option.splits)
    then show ?thesis using None nf by simp
  next
    case (Some d)
    then obtain d0 st where st: "dst = Some d0" "find_station ?S1 d0 = Some st" "st_fd st = d" using to by (cases dst) auto
    obtain x where "apibus_send env ?bus1 d (pk_raw (rq_pac r)) (unat (pk_len (rq_pac r))) =
        Inr (x, ?bus1\<lparr>bus_sent := bus_sent bus @ [(d, pk_raw (rq_pac r))]\<rparr>)"
      using apibus_send_ok [of env ?bus1 d "unat (pk_len (rq_pac r))" "pk_raw (rq_pac r)"] ok [OF Some] send assms(4)
      by auto
    then show ?thesis
      using assms(1,3) found st Some
      by (simp add: handle_one_request_def API_REQUEST_ST_NONE_def API_REQUEST_ST_WAIT_RESPONSE_def)
  qed
qed

text \<open>The handlers of a poll in which one request was queued and the older ones wait.\<close>

lemma one_request_handled:
  assumes "bus_requests bus = r # rs" and "list_all (waiting now) rs" and "bus_responses bus = []" and "bus_topic_msgs bus = []"
    and "rq_state r = API_REQUEST_ST_NONE" and "grant al 40" and "scan_dstid (pk_header (rq_pac r)) = Inr dst"
    and "length (pk_raw (rq_pac r)) = unat (pk_len (rq_pac r))" and "can_send env bus (rq_fd r)"
    and "list_all (\<lambda>st. can_send env bus (st_fd st)) (bus_stations bus)"
  shows "\<exists>stations. handle_all al env now bus =
    (case route (bus_stations bus) (pk_srcid (rq_pac r)) (rq_fd r) dst of
       Some d \<Rightarrow> Inr (bus\<lparr>bus_stations := stations, bus_sent := bus_sent bus @ [(d, pk_raw (rq_pac r))],
         bus_requests := r\<lparr>rq_state := API_REQUEST_ST_WAIT_RESPONSE, rq_ts_send := now\<rparr> # rs\<rparr>)
     | None \<Rightarrow> Inr (bus\<lparr>bus_stations := stations, bus_sent := bus_sent bus @ [(rq_fd r, ''STATION NOT FOUND'')],
         bus_requests := rs\<rparr>))"
proof -
  obtain S where S: "handle_one_request al env now bus r =
    (case route (bus_stations bus) (pk_srcid (rq_pac r)) (rq_fd r) dst of
       Some d \<Rightarrow> Inr (bus\<lparr>bus_stations := S, bus_sent := bus_sent bus @ [(d, pk_raw (rq_pac r))]\<rparr>,
         Some (r\<lparr>rq_state := API_REQUEST_ST_WAIT_RESPONSE, rq_ts_send := now\<rparr>))
     | None \<Rightarrow> Inr (bus\<lparr>bus_stations := S, bus_sent := bus_sent bus @ [(rq_fd r, ''STATION NOT FOUND'')]\<rparr>, None))"
    using new_request_handled [OF assms(5-10), of now] by blast
  show ?thesis
    using S assms(1-4) handle_waiting [OF assms(2)]
    by (intro exI [of _ "bus_stations (clear_unalive_station now (bus\<lparr>bus_stations := S\<rparr>))"])
      (simp add: handle_all_def handle_request_def handle_response_def handle_topic_msg_def clear_unalive_station_def
        split: option.split)
qed

text \<open>One poll of a bus whose other connections are silent, when a whole request has arrived on a
  connection of a socket sink: the poll returns, the request is sent unchanged to the station that its
  header names and waits for the response, or the sender is told that there is no such station; older
  requests keep waiting, no bytes are left in a buffer, and the other connections are untouched.\<close>

lemma request_crosses:
  assumes "bus_inv bus" and "list_all drained (bus_sinkfds bus)" and "list_all (waiting now) (bus_requests bus)"
    and "list_all (\<lambda>st. st_fd st \<in> set (bus_fds bus)) (bus_stations bus)"
    and "srrp_write_request al srcid header data = Inr p" and "srrp_header_ok header" and "srrp_data_ok data"
    and "length header < SRRP_HEADER_LEN" and "grant al 56" and "grant al 40"
    and "arrives sys bus sink pos (pk_raw p)" and "scan_dstid (padded SRRP_HEADER_LEN header) = Inr dst"
  shows "\<exists>bus'. apibus_poll al (posix_env al sys) tod now bus = Some (Inr (0, bus')) \<and>
    bus_inv bus' \<and> list_all drained (bus_sinkfds bus') \<and> bus_fds bus' = bus_fds bus \<and> bus_sinks bus' = bus_sinks bus \<and>
    set (bus_sinkfds bus) \<subseteq> insert pos (set (bus_sinkfds bus')) \<and>
    (case route (bus_stations bus) srcid (sf_fd pos) dst of
       Some d \<Rightarrow> bus_sent bus' = bus_sent bus @ [(d, pk_raw p)] \<and>
         (\<exists>r. bus_requests bus' = r # bus_requests bus \<and> rq_pac r = p \<and> rq_fd r = sf_fd pos \<and>
           srrp_crc header data = Inr (rq_crc16 r) \<and> waiting now r)
     | None \<Rightarrow> bus_sent bus' = bus_sent bus @ [(sf_fd pos, ''STATION NOT FOUND'')] \<and> bus_requests bus' = bus_requests bus)"
proof -
  note f = srrp_write_request_fields [OF assms(5,8)]
  let ?env = "posix_env al sys"
  have ok: "bus_ok bus" and quiet: "bus_responses bus = []" "bus_topic_msgs bus = []"
    using assms(1) by (simp_all add: bus_inv_def bus_quiet_def)
  obtain c where c: "srrp_crc header data = Inr c" "queues al now (sf_fd pos) p
      [\<lparr>rq_pac = p, rq_state = API_REQUEST_ST_NONE, rq_ts_create = now, rq_ts_send = 0, rq_fd = sf_fd pos, rq_crc16 = c\<rparr>] [] []"
    using written_request_queued [OF assms(5,8,9)] by blast
  let ?r = "\<lparr>rq_pac = p, rq_state = API_REQUEST_ST_NONE, rq_ts_create = now, rq_ts_send = 0, rq_fd = sf_fd pos, rq_crc16 = c\<rparr>"
  let ?r' = "?r\<lparr>rq_state := API_REQUEST_ST_WAIT_RESPONSE, rq_ts_send := now\<rparr>"
  obtain n u sfs where poll: "apibus_poll al ?env tod now bus = Some (bindR (handle_all al ?env now
      (bus\<lparr>bus_poll_ts := tod, bus_poll_cnt := n, bus_requests := ?r # bus_requests bus, bus_sinkfds := sfs, bus_idle_usec := u\<rparr>))
      (\<lambda>bus'. Inr (0, bus')))"
    and inv: "\<And>bus'. handle_all al ?env now
      (bus\<lparr>bus_poll_ts := tod, bus_poll_cnt := n, bus_requests := ?r # bus_requests bus, bus_sinkfds := sfs, bus_idle_usec := u\<rparr>) =
      Inr bus' \<Longrightarrow> bus_inv bus'"
    and sfs: "list_all drained sfs" "map (\<lambda>sf. (sf_fd sf, sf_sink sf)) sfs = map (\<lambda>sf. (sf_fd sf, sf_sink sf)) (bus_sinkfds bus)"
      "set (bus_sinkfds bus) \<subseteq> insert pos (set sfs)"
    using packet_received [OF ok assms(2) written_request_clean [OF assms(5-8)] assms(11) c(2), of tod] by (auto simp: Let_def)
  let ?bus = "bus\<lparr>bus_poll_ts := tod, bus_poll_cnt := n, bus_requests := ?r # bus_requests bus, bus_sinkfds := sfs, bus_idle_usec := u\<rparr>"
  have send: "can_send ?env ?bus fd" if "fd \<in> set (bus_fds bus)" for fd
    using can_send_same_fds [OF sfs(2) _ posix_can_send [OF ok that]] by simp
  have mine: "sf_fd pos \<in> set (bus_fds bus)" using arrives_fd [OF assms(11) ok] .
  have "\<exists>S. handle_all al ?env now ?bus =
    (case route (bus_stations bus) srcid (sf_fd pos) dst of
       Some d \<Rightarrow> Inr (?bus\<lparr>bus_stations := S, bus_sent := bus_sent bus @ [(d, pk_raw p)], bus_requests := ?r' # bus_requests bus\<rparr>)
     | None \<Rightarrow> Inr (?bus\<lparr>bus_stations := S, bus_sent := bus_sent bus @ [(sf_fd pos, ''STATION NOT FOUND'')],
         bus_requests := bus_requests bus\<rparr>))"
    using one_request_handled [of ?bus ?r "bus_requests bus" now al dst ?env] assms(3,4,10,12) quiet f send mine
    by (simp add: list_all_iff cong: option.case_cong)
  then obtain S where S: "handle_all al ?env now ?bus =
    (case route (bus_stations bus) srcid (sf_fd pos) dst of
       Some d \<Rightarrow> Inr (?bus\<lparr>bus_stations := S, bus_sent := bus_sent bus @ [(d, pk_raw p)], bus_requests := ?r' # bus_requests bus\<rparr>)
     | None \<Rightarrow> Inr (?bus\<lparr>bus_stations := S, bus_sent := bus_sent bus @ [(sf_fd pos, ''STATION NOT FOUND'')],
         bus_requests := bus_requests bus\<rparr>))" by blast
  have wait: "waiting now ?r'" by (simp add: waiting_def request_timed_out_def API_REQUEST_TIMEOUT_def)
  have fds: "map sf_fd sfs = map sf_fd (bus_sinkfds bus)" using arg_cong [OF sfs(2), of "map fst"] by (simp add: comp_def)
  show ?thesis
    using poll inv sfs(1,3) c(1) S fds wait
    by (cases "route (bus_stations bus) srcid (sf_fd pos) dst") (simp_all add: bus_fds_def)
qed

lemma one_response_handled:
  assumes "bus_requests bus = as @ r # bs" and "list_all (waiting now) (bus_requests bus)"
    and "bus_responses bus = [resp]" and "bus_topic_msgs bus = []"
    and "list_all (\<lambda>x. \<not> answers resp x) as" and "answers resp r" and "can_send env bus (rq_fd r)"
    and "length (pk_raw (rp_pac resp)) = unat (pk_len (rp_pac resp))" and "terminated (pk_header (rp_pac resp))"
  shows "\<exists>bus'. handle_all al env now bus = Inr bus' \<and> bus_requests bus' = as @ bs \<and>
    bus_sent bus' = bus_sent bus @ [(rq_fd r, pk_raw (rp_pac resp))]"
proof -
  have same: "bus\<lparr>bus_requests := bus_requests bus\<rparr> = bus" by simp
  have rq: "handle_request al env now bus = Inr bus"
    using handle_waiting [OF assms(2), of al env bus] same by (simp add: handle_request_def)
  obtain bus1 where b: "handle_one_response env now bus resp = Inr bus1" "bus_requests bus1 = as @ bs"
    "bus_sent bus1 = bus_sent bus @ [(rq_fd r, pk_raw (rp_pac resp))]"
    using response_routed [OF assms(1,5-7) _ assms(9), of now] assms(8) by auto
  have "bus_topic_msgs bus1 = []" using handle_one_response_kept [OF b(1)] assms(4) by (simp add: bus_kept_def)
  then show ?thesis
    using rq b assms(3)
    by (simp add: handle_all_def handle_response_def handle_topic_msg_def clear_unalive_station_def)
qed

lemma response_crosses:
  assumes "bus_inv bus" and "list_all drained (bus_sinkfds bus)" and "list_all (waiting now) (bus_requests bus)"
    and "srrp_write_response al srcid crc header answer = Inr q" and "srrp_header_ok header" and "srrp_data_ok answer"
    and "length header < SRRP_HEADER_LEN" and "grant al 32" and "arrives sys bus sink pos (pk_raw q)"
    and "bus_requests bus = as @ r # bs" and "rq_fd r \<in> set (bus_fds bus)"
    and "answers \<lparr>rp_pac = q, rp_fd = sf_fd pos\<rparr> r" and "list_all (\<lambda>x. \<not> answers \<lparr>rp_pac = q, rp_fd = sf_fd pos\<rparr> x) as"
  shows "\<exists>bus'. apibus_poll al (posix_env al sys) tod now bus = Some (Inr (0, bus')) \<and> bus_inv bus' \<and>
    bus_requests bus' = as @ bs \<and> bus_sent bus' = bus_sent bus @ [(rq_fd r, pk_raw q)]"
proof -
  note f = srrp_write_response_fields [OF assms(4,7)]
  let ?env = "posix_env al sys" and ?resp = "\<lparr>rp_pac = q, rp_fd = sf_fd pos\<rparr>"
  have ok: "bus_ok bus" and quiet: "bus_responses bus = []" "bus_topic_msgs bus = []"
    using assms(1) by (simp_all add: bus_inv_def bus_quiet_def)
  obtain n u sfs where poll: "apibus_poll al ?env tod now bus = Some (bindR (handle_all al ?env now
      (bus\<lparr>bus_poll_ts := tod, bus_poll_cnt := n, bus_responses := [?resp], bus_topic_msgs := [], bus_sinkfds := sfs, bus_idle_usec := u\<rparr>))
      (\<lambda>bus'. Inr (0, bus')))"
    and inv: "\<And>bus'. handle_all al ?env now
      (bus\<lparr>bus_poll_ts := tod, bus_poll_cnt := n, bus_responses := [?resp], bus_topic_msgs := [], bus_sinkfds := sfs, bus_idle_usec := u\<rparr>) =
      Inr bus' \<Longrightarrow> bus_inv bus'"
    and sfs: "map (\<lambda>sf. (sf_fd sf, sf_sink sf)) sfs = map (\<lambda>sf. (sf_fd sf, sf_sink sf)) (bus_sinkfds bus)"
    using packet_received [OF ok assms(2) written_response_clean [OF assms(4-7)] assms(9)
        written_response_queued [OF assms(4,7,8), of now], of tod] quiet by (auto simp: Let_def)
  let ?bus = "bus\<lparr>bus_poll_ts := tod, bus_poll_cnt := n, bus_responses := [?resp], bus_topic_msgs := [], bus_sinkfds := sfs, bus_idle_usec := u\<rparr>"
  have "can_send ?env ?bus (rq_fd r)" using can_send_same_fds [OF sfs _ posix_can_send [OF ok assms(11)]] by simp
  moreover have "terminated (pk_header q)" using assms(7) by (simp add: f padded_terminated)
  ultimately obtain bus' where "handle_all al ?env now ?bus = Inr bus'" "bus_requests bus' = as @ bs"
      "bus_sent bus' = bus_sent bus @ [(rq_fd r, pk_raw q)]"
    using one_response_handled [of ?bus as r bs now ?resp ?env al] assms(3,10,12,13) quiet f(4) by auto
  then show ?thesis using poll inv by auto
qed

subsection \<open>Properties\<close>

lemma scan_dstid_8: "scan_dstid (padded SRRP_HEADER_LEN ''/8/hello'') = Inr (Some 8)"
  by code_simp

lemma system_route: "route [\<lparr>st_sttid = 8, st_ts_alive = 7, st_fd = 5\<rparr>] 1 (sf_fd (system_conn 4)) (Some 8) = Some 5"
  by (simp add: route_def find_station_def)

text \<open>C3: A whole exchange over two polls. In the first one a client's request arrives on its connection and
  is passed on to the station \<open>d\<close>; in the second one, within the time limit, the answer of the station
  with the checksum of the request arrives: the bus sends it whole to the client's connection and has
  no more to do with the request.\<close>

theorem exchange_completes:
  assumes "bus_inv bus" and "list_all drained (bus_sinkfds bus)" and "list_all (waiting now) (bus_requests bus)"
    and "list_all (\<lambda>st. st_fd st \<in> set (bus_fds bus)) (bus_stations bus)"
    and "srrp_write_request al srcid header data = Inr p" and "srrp_header_ok header" and "srrp_data_ok data"
    and "length header < SRRP_HEADER_LEN" and "list_all (grant al) [56, 40, 32]"
    and "arrives sys bus sink pos (pk_raw p)" and "scan_dstid (padded SRRP_HEADER_LEN header) = Inr dst"
    and "route (bus_stations bus) srcid (sf_fd pos) dst = Some d"
    and "apibus_poll al (posix_env al sys) tod now bus = Some (Inr (r0, bus1))"
    and "srrp_crc header data = Inr c" and "srrp_write_response al srcid c header answer = Inr q" and "srrp_data_ok answer"
    and "arrives sys1 bus1 sink1 pos1 (pk_raw q)" and "list_all (waiting later) (bus_requests bus1)"
  shows "\<exists>bus2. apibus_poll al (posix_env al sys1) tod1 later bus1 = Some (Inr (0, bus2)) \<and> bus_inv bus2 \<and>
    bus_requests bus2 = bus_requests bus \<and> bus_sent bus2 = bus_sent bus @ [(d, pk_raw p), (sf_fd pos, pk_raw q)]"
proof -
  have g: "grant al 56" "grant al 40" "grant al 32" using assms(9) by simp_all
  obtain r where r: "bus_requests bus1 = r # bus_requests bus" "rq_pac r = p" "rq_fd r = sf_fd pos" "rq_crc16 r = c"
    and b1: "bus_inv bus1" "list_all drained (bus_sinkfds bus1)" "bus_fds bus1 = bus_fds bus"
      "bus_sent bus1 = bus_sent bus @ [(d, pk_raw p)]"
    using request_crosses [OF assms(1-8) g(1,2) assms(10,11), of tod] assms(12-14) by auto
  have "sf_fd pos \<in> set (bus_fds bus)" using arrives_fd [OF assms(10)] assms(1) by (simp add: bus_inv_def)
  moreover have "answers \<lparr>rp_pac = q, rp_fd = sf_fd pos1\<rparr> r"
    using r srrp_write_request_fields [OF assms(5,8)] srrp_write_response_fields [OF assms(15,8)]
    by (simp add: answers_def strcmp_eq_def)
  ultimately show ?thesis
    using response_crosses [OF b1(1,2) assms(18,15,6,16,8) g(3) assms(17), of "[]" r "bus_requests bus" tod1] r b1(3,4) by auto
qed

theorem exchange_completes_witness:
  "\<exists>p c q bus1 bus2 sys1. srrp_write_request generous 1 ''/8/hello'' ''{}'' = Inr p \<and>
     srrp_write_response generous 1 c ''/8/hello'' ''{err:0}'' = Inr q \<and>
     apibus_poll generous (posix_env generous (example_sys\<lparr>sys_recv := (\<lambda>_ _. Some (pk_raw p))\<rparr>)) (7, 0) 7 system_bus = Some (Inr (0, bus1)) \<and>
     apibus_poll generous (posix_env generous sys1) (7, 5000) 7 bus1 = Some (Inr (0, bus2)) \<and>
     bus_sent bus2 = [(5, pk_raw p), (4, pk_raw q)]"
proof -
  obtain p where p: "srrp_write_request generous 1 ''/8/hello'' ''{}'' = Inr p" "length (pk_raw p) = 27"
    by (simp add: srrp_write_evals padded_def snprintf_s_def)
  have texts: "srrp_header_ok ''/8/hello''" "srrp_data_ok ''{}''" "length ''/8/hello'' < SRRP_HEADER_LEN" "srrp_data_ok ''{err:0}''"
    by (simp_all add: srrp_header_ok_def srrp_data_ok_def sublist_code SRRP_HEADER_LEN_def)
  let ?sys = "example_sys\<lparr>sys_recv := (\<lambda>_ _. Some (pk_raw p))\<rparr>"
  have arr: "arrives ?sys system_bus unix_example (system_conn 4) (pk_raw p)" by (rule system_arrives) (use p(2) in auto)
  note crosses = request_crosses [OF system_bus_ok(1) system_drained system_state(1,2) p(1) texts(1-3) system_state(3,3) arr scan_dstid_8,
      unfolded system_bus_state system_route option.case]
  obtain bus1 r where b1: "apibus_poll generous (posix_env generous ?sys) (7, 0) 7 system_bus = Some (Inr (0, bus1))"
      "bus_sinks bus1 = bus_sinks system_bus" "set (bus_sinkfds system_bus) \<subseteq> insert (system_conn 4) (set (bus_sinkfds bus1))"
      "bus_requests bus1 = [r]" "waiting 7 r"
    using crosses [where now = 7 and tod = "(7, 0)"] by blast
  obtain c where c: "srrp_crc ''/8/hello'' ''{}'' = Inr c" by (simp add: srrp_crc_def crc16_def crc16_crc_def crc16_loop_eq)
  obtain q where q: "srrp_write_response generous 1 c ''/8/hello'' ''{err:0}'' = Inr q" "length (pk_raw q) = 37"
    using unat_16_less [of c] by (simp add: srrp_write_evals padded_def snprintf_s_def)
  let ?sys1 = "example_sys\<lparr>sys_select := (\<lambda>_ _. (1, {5})), sys_recv := (\<lambda>_ _. Some (pk_raw q))\<rparr>"
  have "system_conn 5 \<in> set (bus_sinkfds bus1)"
    using b1(3) system_conn_apart by (auto simp: system_bus_ok)
  then have arr1: "arrives ?sys1 bus1 unix_example (system_conn 5) (pk_raw q)"
    using b1(2) q(2) unix_example_sock
    by (auto simp: arrives_def system_bus_ok system_conn_ok example_sys_def sink_sinkfds_def)
  have w: "list_all (waiting 7) (bus_requests bus1)" using b1(4,5) by simp
  have g: "list_all (grant generous) [56, 40, 32]" by (simp add: generous_def)
  note route5 = system_route [folded system_bus_state(3)]
  obtain bus2 where poll2: "apibus_poll generous (posix_env generous ?sys1) (7, 5000) 7 bus1 = Some (Inr (0, bus2))"
      and "bus_sent bus2 = bus_sent system_bus @ [(5, pk_raw p), (sf_fd (system_conn 4), pk_raw q)]"
    using exchange_completes [OF system_bus_ok(1) system_drained system_state(1,2) p(1) texts(1-3) g arr scan_dstid_8 route5 b1(1)
        c q(1) texts(4) arr1 w, of "(7, 5000)"] by blast
  then have sent: "bus_sent bus2 = [(5, pk_raw p), (4, pk_raw q)]" by (simp add: system_bus_state system_conn_ok)
  show ?thesis by (intro exI conjI) (rule p(1) q(1) b1(1) poll2 sent)+
qed

end
