(* ===== verification/Apix_Topics.thy ===== *)
theory Apix_Topics
  imports Apix_Poll Srrp_Fields
begin

text \<open>
  Topics: a small specification says what subscribers may expect, and what the bus makes of it: the first
  subscription creates the only topic that the bus will ever have, since a second one dereferences a null
  pointer. The three handlers of topic messages implement it.
\<close>

subsection \<open>The packets\<close>

datatype topic_event = Subscribe string string | Unsubscribe string | Publish string string

fun topic_write :: "allocator \<Rightarrow> topic_event \<Rightarrow> srrp_packet res" where
  "topic_write al (Subscribe header ctrl) = srrp_write_subscribe al header ctrl"
| "topic_write al (Unsubscribe header) = srrp_write_unsubscribe al header"
| "topic_write al (Publish header data) = srrp_write_publish al header data"

fun event_leader :: "topic_event \<Rightarrow> char" where
  "event_leader (Subscribe h d) = SRRP_SUBSCRIBE_LEADER"
| "event_leader (Unsubscribe h) = SRRP_UNSUBSCRIBE_LEADER"
| "event_leader (Publish h d) = SRRP_PUBLISH_LEADER"

fun event_header :: "topic_event \<Rightarrow> string" where
  "event_header (Subscribe h d) = h"
| "event_header (Unsubscribe h) = h"
| "event_header (Publish h d) = h"

fun event_data :: "topic_event \<Rightarrow> string" where
  "event_data (Subscribe h d) = d"
| "event_data (Unsubscribe h) = ''{}''"
| "event_data (Publish h d) = d"

definition event_ok :: "topic_event \<Rightarrow> bool" where
  "event_ok e \<longleftrightarrow> srrp_header_ok (event_header e) \<and> srrp_data_ok (event_data e) \<and> length (event_header e) < SRRP_HEADER_LEN"

lemma topic_write_body:
  fixes e defines "n \<equiv> 10 + length (event_header e) + 1 + length (event_data e) + 1"
  assumes "topic_write al e = Inr p"
  shows "srrp_write_body al n (subpub_prefix (event_leader e) n @ '':'' @ event_header e @ ''?'' @ event_data e)
    (event_leader e) 0 0 (event_header e) (length (event_data e)) = Inr p"
  using assms
  by (cases e) (simp_all add: srrp_write_subscribe_def srrp_write_publish_def srrp_write_unsubscribe_def Let_def
      subpub_prefix_def srrp_consts numeral_2_eq_2)

lemma event_leader_cases: "event_leader e \<in> {SRRP_SUBSCRIBE_LEADER, SRRP_UNSUBSCRIBE_LEADER, SRRP_PUBLISH_LEADER}"
  by (cases e) simp_all

text \<open>A written packet of the three kinds has its fields and is read back from a buffer.\<close>

lemma topic_write_fields:
  assumes "topic_write al e = Inr p" and "event_ok e"
  shows "pk_leader p = event_leader e" "pk_header p = padded SRRP_HEADER_LEN (event_header e)"
    "pk_header_len p = length (event_header e)" "length (pk_raw p) = unat (pk_len p)" "srrp_clean al p"
proof -
  let ?h = "event_header e" and ?d = "event_data e" and ?l = "event_leader e"
  let ?n = "10 + length ?h + 1 + length ?d + 1"
  let ?t = "subpub_prefix ?l ?n @ '':'' @ ?h @ ''?'' @ ?d"
  note w = topic_write_body [OF assms(1)]
  have ok: "srrp_header_ok ?h" "srrp_data_ok ?d" "length ?h < SRRP_HEADER_LEN" using assms(2) by (simp_all add: event_ok_def)
  have n: "?n < 65536"
    using w by (rule_tac ccontr) (simp add: srrp_write_body_def assertR_def SRRP_LENGTH_MAX_def)
  then have lt: "length ?t + 1 = ?n" by (simp add: subpub_prefix_def hex4_length)
  note f = srrp_write_body_fields [OF w lt ok(3)]
  show "pk_leader p = ?l" "pk_header p = padded SRRP_HEADER_LEN ?h" "pk_header_len p = length ?h" using f by simp_all
  have "length (pk_raw p) = ?n" using f(8) lt by simp
  then show len: "length (pk_raw p) = unat (pk_len p)" using f(9) unat_of_nat16 [OF n] by simp
  have "srrp_read_one_packet al (pk_raw p @ rest) = Inr (Some p)" for rest
    by (rule srrp_reads_back_short [OF srrp_subpub_reads_back [OF w ok(1,2) event_leader_cases] ok(3) srrp_write_body_header [OF w]])
  then show "srrp_clean al p" using len by (simp add: srrp_clean_def)
qed

lemma topic_queued:
  assumes "topic_write al e = Inr p" and "event_ok e" and "grant al 32"
  shows "queues al now fd p [] [] [\<lparr>tm_pac = p, tm_fd = fd\<rparr>]"
  using topic_write_fields(1) [OF assms(1,2)] assms(3)
  by (cases e) (simp_all add: queues_def queue_packet_def srrp_consts)

subsection \<open>The specification\<close>

text \<open>The topic, if there is one, with its subscriber, if it has one.\<close>

type_synonym topic_spec = "(string \<times> int option) option"

definition fds_of :: "int option \<Rightarrow> int list" where
  "fds_of s = (case s of None \<Rightarrow> [] | Some fd \<Rightarrow> [fd])"

text \<open>What a packet that connection \<open>fd\<close> sends does to the topic, and what is sent; \<open>None\<close> is a fault.\<close>

fun topic_step :: "topic_spec \<Rightarrow> int \<Rightarrow> topic_event \<Rightarrow> mem \<Rightarrow> (topic_spec \<times> (int \<times> mem) list) option" where
  "topic_step None fd (Subscribe h c) raw = Some (Some (h, Some fd), [(fd, ''Sub OK'')])"
| "topic_step (Some t) fd (Subscribe h c) raw = None"
| "topic_step None fd (Unsubscribe h) raw = None"
| "topic_step (Some (t, s)) fd (Unsubscribe h) raw =
     (if h = t then Some (Some (t, if s = Some fd then None else s), [(fd, ''Unsub OK'')]) else None)"
| "topic_step None fd (Publish h d) raw = Some (None, [])"
| "topic_step (Some (t, s)) fd (Publish h d) raw =
     Some (Some (t, s), if prefix h t then map (\<lambda>x. (x, raw)) (fds_of s) else [])"

fun topics_of :: "topic_spec \<Rightarrow> api_topic list" where
  "topics_of None = []"
| "topics_of (Some (t, s)) = [\<lparr>tp_header = padded API_HEADER_SIZE t, tp_fds = fds_of s\<rparr>]"

fun spec_ok :: "topic_spec \<Rightarrow> int set \<Rightarrow> bool" where
  "spec_ok None F = True"
| "spec_ok (Some (t, s)) F \<longleftrightarrow> NUL \<notin> set t \<and> length t < SRRP_HEADER_LEN \<and> set (fds_of s) \<subseteq> F"

lemma topic_step_ok:
  assumes "spec_ok A F" and "fd \<in> F" and "event_ok e" and "topic_step A fd e raw = Some (A', out)"
  shows "spec_ok A' F"
  using assms(4,1-3)
  by (induction A fd e raw rule: topic_step.induct) (auto simp: event_ok_def srrp_header_ok_def fds_of_def split: if_splits)

subsection \<open>The handlers implement it\<close>

lemma cstr_padded: "NUL \<notin> set h \<Longrightarrow> cstr (padded n h) = h"
  unfolding padded_cstr by (auto simp: cstr_def takeWhile_eq_all_conv)

lemma padded_prefix:
  assumes "NUL \<notin> set h" and "length h \<le> n" and "length t < n"
  shows "take (length h) (padded n t) = h \<longleftrightarrow> prefix h t"
proof
  assume h: "take (length h) (padded n t) = h"
  have "length h \<le> length t"
  proof (rule ccontr)
    assume l: "\<not> length h \<le> length t"
    then have "padded n t ! length t = NUL" using assms(3) by (simp add: padded_def nth_append)
    then have "h ! length t = NUL" using h l by (metis nth_take not_le)
    then show False using assms(1) l by (metis not_le nth_mem)
  qed
  then have "take (length h) t = h" using h by (simp add: padded_def)
  then show "prefix h t" by (metis take_is_prefix)
qed (auto simp: padded_def prefix_def)

lemma sub_implements:
  assumes "pk_header (tm_pac m) = padded SRRP_HEADER_LEN h" and "NUL \<notin> set h" and "length h < SRRP_HEADER_LEN"
    and "can_send env bus (tm_fd m)" and "grant al 408" and "bus_topics bus = []"
  shows "topic_sub_handler al env bus m = Inr (bus\<lparr>bus_topics := topics_of (Some (h, Some (tm_fd m))),
    bus_sent := bus_sent bus @ [(tm_fd m, ''Sub OK'')]\<rparr>)"
proof -
  note c = cstr_padded [OF assms(2), of SRRP_HEADER_LEN]
  have s: "snprintf_s API_HEADER_SIZE h = h" using assms(3) by (simp add: snprintf_s_def API_HEADER_SIZE_def SRRP_HEADER_LEN_def)
  let ?bus = "bus\<lparr>bus_topics := topics_of (Some (h, Some (tm_fd m)))\<rparr>"
  obtain r where "apibus_send env ?bus (tm_fd m) ''Sub OK'' 6 = Inr (r, ?bus\<lparr>bus_sent := bus_sent bus @ [(tm_fd m, ''Sub OK'')]\<rparr>)"
    using apibus_send_ok [of env ?bus "tm_fd m" 6 "''Sub OK''"] assms(4) by auto
  then show ?thesis
    using assms(1,5,6) padded_terminated [OF assms(3)] c s by (simp add: topic_sub_handler_def Let_def fds_of_def)
qed

lemma unsub_implements:
  assumes "pk_header (tm_pac m) = padded SRRP_HEADER_LEN h" and "NUL \<notin> set h" and "can_send env bus (tm_fd m)"
    and "bus_topics bus = topics_of (Some (t, s))" and "NUL \<notin> set t"
  shows "topic_unsub_handler env bus m =
    (if h = t then Inr (bus\<lparr>bus_topics := topics_of (Some (t, if s = Some (tm_fd m) then None else s)),
       bus_sent := bus_sent bus @ [(tm_fd m, ''Unsub OK'')]\<rparr>) else Inl BadPointer)"
proof -
  let ?bus = "bus\<lparr>bus_topics := topics_of (Some (t, if s = Some (tm_fd m) then None else s))\<rparr>"
  obtain r where send: "apibus_send env ?bus (tm_fd m) ''Unsub OK'' 8 = Inr (r, ?bus\<lparr>bus_sent := bus_sent bus @ [(tm_fd m, ''Unsub OK'')]\<rparr>)"
    using apibus_send_ok [of env ?bus "tm_fd m" 8 "''Unsub OK''"] assms(3) by auto
  have "unsub_loop (tm_fd m) 0 (fds_of s) (length (fds_of s)) = fds_of (if s = Some (tm_fd m) then None else s)"
    by (simp add: fds_of_def split: option.split)
  then show ?thesis
    using send assms(1,4) cstr_padded [OF assms(2)] cstr_padded [OF assms(5)] by (auto simp: topic_unsub_handler_def strcmp_eq_def)
qed

lemma pub_implements:
  assumes "pk_header (tm_pac m) = padded SRRP_HEADER_LEN h" and "pk_header_len (tm_pac m) = length h" and "NUL \<notin> set h"
    and "length h < SRRP_HEADER_LEN" and "length (pk_raw (tm_pac m)) = unat (pk_len (tm_pac m))"
    and "bus_topics bus = topics_of (Some (t, s))" and "length t < SRRP_HEADER_LEN" and "\<forall>fd \<in> set (fds_of s). can_send env bus fd"
  shows "topic_pub_handler env bus m = Inr (bus\<lparr>bus_sent := bus_sent bus @
    (if prefix h t then map (\<lambda>x. (x, pk_raw (tm_pac m))) (fds_of s) else [])\<rparr>)"
proof -
  have "find_topic (bus_topics bus) (padded SRRP_HEADER_LEN h) (length h) =
      Inr (find (\<lambda>t. take (length h) (tp_header t) = take (length h) (padded SRRP_HEADER_LEN h)) (bus_topics bus))"
    by (rule find_topic_agrees) (use assms(4,6,7) in \<open>simp_all add: padded_def SRRP_HEADER_LEN_def API_HEADER_SIZE_def\<close>)
  moreover have "take (length h) (padded SRRP_HEADER_LEN h) = h" by (simp add: padded_def)
  moreover have "take (length h) (padded API_HEADER_SIZE t) = h \<longleftrightarrow> prefix h t"
    by (rule padded_prefix) (use assms(3,4,7) in \<open>simp_all add: SRRP_HEADER_LEN_def API_HEADER_SIZE_def\<close>)
  moreover have "send_all env bus (fds_of s) (pk_raw (tm_pac m)) (unat (pk_len (tm_pac m))) =
      Inr (bus\<lparr>bus_sent := bus_sent bus @ map (\<lambda>fd. (fd, pk_raw (tm_pac m))) (fds_of s)\<rparr>)"
    using send_all_ok [of env bus "fds_of s" "unat (pk_len (tm_pac m))" "pk_raw (tm_pac m)"] assms(5,8) by (simp add: list_all_iff)
  ultimately show ?thesis using assms(1,2,6) by (simp add: topic_pub_handler_def)
qed

lemma topic_handled:
  assumes "topic_write al e = Inr p" and "event_ok e" and "bus_topics bus = topics_of A" and "spec_ok A F"
    and "\<forall>x \<in> F. can_send env bus x" and "fd \<in> F" and "grant al 408"
  shows "handle_topic_loop al env bus [\<lparr>tm_pac = p, tm_fd = fd\<rparr>] =
    (case topic_step A fd e (pk_raw p) of
       Some (A', out) \<Rightarrow> Inr (bus\<lparr>bus_topics := topics_of A', bus_sent := bus_sent bus @ out, bus_topic_msgs := []\<rparr>)
     | None \<Rightarrow> Inl (case e of Subscribe h c \<Rightarrow> NullDeref | _ \<Rightarrow> BadPointer))"
proof -
  note f = topic_write_fields [OF assms(1,2)]
  let ?m = "\<lparr>tm_pac = p, tm_fd = fd\<rparr>"
  have h: "NUL \<notin> set (event_header e)" "length (event_header e) < SRRP_HEADER_LEN" using assms(2) by (simp_all add: event_ok_def srrp_header_ok_def)
  have send: "can_send env bus fd" using assms(5,6) by blast
  have l: "SRRP_UNSUBSCRIBE_LEADER \<noteq> SRRP_SUBSCRIBE_LEADER" "SRRP_PUBLISH_LEADER \<noteq> SRRP_SUBSCRIBE_LEADER"
    "SRRP_PUBLISH_LEADER \<noteq> SRRP_UNSUBSCRIBE_LEADER" by (simp_all add: srrp_consts)
  show ?thesis
  proof (cases e)
    case (Subscribe x c)
    then show ?thesis
      using f(1,2) h send assms(3,7) sub_implements [of ?m x env bus al]
      by (cases A) (auto simp: topic_sub_handler_def [of al env bus] split: prod.splits)
  next
    case (Unsubscribe x)
    then show ?thesis
      using f(1,2) h send assms(3,4) l unsub_implements [of ?m x env bus]
      by (cases A) (auto simp: topic_unsub_handler_def)
  next
    case (Publish x d)
    then have lead: "pk_leader p = SRRP_PUBLISH_LEADER" using f(1) by simp
    show ?thesis
    proof (cases A)
      case None
      then show ?thesis using Publish lead l assms(3) by (simp add: topic_pub_handler_def)
    next
      case (Some a)
      obtain t s where a: "a = (t, s)" by fastforce
      have "topic_pub_handler env bus ?m = Inr (bus\<lparr>bus_sent := bus_sent bus @
          (if prefix x t then map (\<lambda>y. (y, pk_raw p)) (fds_of s) else [])\<rparr>)"
        by (subst pub_implements [of _ x _ t s]) (use Publish Some a f(2-4) h assms(3-5) in auto)
      moreover have "bus\<lparr>bus_topics := topics_of (Some (t, s))\<rparr> = bus" using assms(3) Some a by simp
      ultimately show ?thesis using Publish Some a lead l assms(3) by simp
    qed
  qed
qed

end
