(* ===== verification/Apix_Idle.thy ===== *)
theory Apix_Idle
  imports Apix_Poll "HOL-Library.Multiset"
begin

text \<open>
  The bus while nothing arrives: what calls of \<open>apibus_poll\<close> do then is stated exactly, with the pause that
  the bus makes between them, the requests that time out and the stations that are forgotten.
\<close>

subsection \<open>One call\<close>

definition silent :: "sys \<Rightarrow> apibus \<Rightarrow> bool" where
  "silent sys bus \<longleftrightarrow> (\<forall>s \<in> set (bus_sinks bus). sys_select sys (sk_nfds s) (sk_fds s) = (0, {}))"

text \<open>Nothing was received after the time \<open>tod\<close>.\<close>

definition received_before :: "nat \<times> nat \<Rightarrow> apibus \<Rightarrow> bool" where
  "received_before tod bus \<longleftrightarrow> list_all (\<lambda>sf. \<not> timer_less tod (sf_ts_poll_recv sf)) (bus_sinkfds bus)"

lemma parse_silent:
  assumes "list_all drained sfs" and "list_all (\<lambda>sf. \<not> timer_less (bus_poll_ts bus) (sf_ts_poll_recv sf)) sfs"
  shows "parse_sinkfds al now bus sfs = Some (Inr (bus, sfs))"
  using assms by (induction sfs) (simp_all add: drained_def)

definition next_pause :: "nat \<Rightarrow> nat" where
  "next_pause u = min APIBUS_IDLE_MAX (u + APIBUS_IDLE_MAX div 10)"

lemma poll_idle_pause:
  "bus_poll_cnt bus = 0 \<Longrightarrow> bus_idle_usec bus \<le> APIBUS_IDLE_MAX \<Longrightarrow>
     poll_idle bus = bus\<lparr>bus_idle_usec := next_pause (bus_idle_usec bus)\<rparr>"
  by (auto simp: poll_idle_def next_pause_def Let_def)

definition timeout_note :: "api_request \<Rightarrow> int \<times> mem" where
  "timeout_note r = (rq_fd r, ''request timeout'')"

lemma handle_timeouts:
  assumes "list_all (\<lambda>r. rq_state r = API_REQUEST_ST_WAIT_RESPONSE) rs" and "list_all (\<lambda>r. can_send env bus (rq_fd r)) rs"
  shows "handle_request_loop al env now bus rs =
    Inr (bus\<lparr>bus_sent := bus_sent bus @ map timeout_note (filter (request_timed_out now) rs)\<rparr>, filter (\<lambda>r. \<not> request_timed_out now r) rs)"
  using assms
proof (induction rs arbitrary: bus)
  case (Cons r rs)
  obtain x where "apibus_send env bus (rq_fd r) ''request timeout'' 15 = Inr (x, bus\<lparr>bus_sent := bus_sent bus @ [timeout_note r]\<rparr>)"
    using apibus_send_ok [of env bus "rq_fd r" 15 "''request timeout''"] Cons.prems(2) by (auto simp: timeout_note_def)
  moreover have "list_all (\<lambda>r. can_send env (bus\<lparr>bus_sent := l\<rparr>) (rq_fd r)) rs" for l using Cons.prems(2) by simp
  ultimately show ?case using Cons by (simp add: handle_one_request_def)
qed simp

definition after_silence :: "nat \<times> nat \<Rightarrow> nat \<Rightarrow> apibus \<Rightarrow> apibus" where
  "after_silence tod now bus =
     bus\<lparr>bus_poll_cnt := 0, bus_poll_ts := tod, bus_idle_usec := next_pause (bus_idle_usec bus),
       bus_requests := filter (\<lambda>r. \<not> request_timed_out now r) (bus_requests bus),
       bus_sent := bus_sent bus @ map timeout_note (filter (request_timed_out now) (bus_requests bus)),
       bus_stations := filter (\<lambda>st. now \<le> st_ts_alive st + APIBUS_STATION_ALIVE_TIMEOUT div 1000) (bus_stations bus)\<rparr>"

lemma silent_poll:
  assumes "bus_inv bus" and "list_all drained (bus_sinkfds bus)" and "silent sys bus" and "received_before tod bus"
    and "list_all (\<lambda>r. rq_fd r \<in> set (bus_fds bus)) (bus_requests bus)"
  shows "apibus_poll al (posix_env al sys) tod now bus = Some (Inr (0, after_silence tod now bus))"
proof -
  let ?env = "posix_env al sys"
  let ?bus = "bus\<lparr>bus_poll_cnt := 0, bus_poll_ts := tod\<rparr>"
  have ok: "bus_ok bus" and quiet: "bus_responses bus = []" "bus_topic_msgs bus = []"
    and st: "list_all (\<lambda>r. rq_state r = API_REQUEST_ST_WAIT_RESPONSE) (bus_requests bus)" and le: "bus_idle_usec bus \<le> APIBUS_IDLE_MAX"
    using assms(1) by (simp_all add: bus_inv_def bus_quiet_def bus_ok_def)
  have sinks: "poll_sinks ?env ?bus (bus_sinks bus) = Inr ?bus"
    using idle_sinks_poll [of "bus_sinks bus" sys al ?bus "[]"] assms(3) by (simp add: silent_def)
  have parse: "parse_sinkfds al now ?bus (bus_sinkfds bus) = Some (Inr (?bus, bus_sinkfds bus))"
    using parse_silent [of "bus_sinkfds bus" ?bus] assms(2,4) by (simp add: received_before_def)
  let ?bus2 = "?bus\<lparr>bus_idle_usec := next_pause (bus_idle_usec bus)\<rparr>"
  have "can_send ?env ?bus2 fd" if "fd \<in> set (bus_fds bus)" for fd
    using can_send_same_fds [OF refl _ posix_can_send [OF ok that]] by simp
  then have "list_all (\<lambda>r. can_send ?env ?bus2 (rq_fd r)) (bus_requests bus)" using assms(5) by (simp add: list_all_iff)
  from handle_timeouts [OF st this, of al now]
  have "handle_all al ?env now ?bus2 = Inr (after_silence tod now bus)"
    using quiet by (simp add: handle_all_def handle_request_def handle_response_def handle_topic_msg_def clear_unalive_station_def
        after_silence_def not_less)
  then show ?thesis using sinks parse poll_idle_pause [of ?bus] le by (simp add: apibus_poll_def)
qed

subsection \<open>Many calls\<close>

fun silent_polls :: "allocator \<Rightarrow> sys \<Rightarrow> ((nat \<times> nat) \<times> nat) list \<Rightarrow> apibus \<Rightarrow> apibus res option" where
  "silent_polls al sys [] bus = Some (Inr bus)"
| "silent_polls al sys ((tod, now) # ts) bus =
     (case apibus_poll al (posix_env al sys) tod now bus of
        Some (Inr (_, bus1)) \<Rightarrow> silent_polls al sys ts bus1
      | Some (Inl e) \<Rightarrow> Some (Inl e)
      | None \<Rightarrow> None)"

lemma after_silence_keeps:
  assumes "bus_inv bus"
  shows "bus_inv (after_silence tod now bus)" "bus_sinkfds (after_silence tod now bus) = bus_sinkfds bus"
    "bus_sinks (after_silence tod now bus) = bus_sinks bus" "bus_fds (after_silence tod now bus) = bus_fds bus"
  using assms
  by (auto simp: after_silence_def bus_inv_def bus_ok_def bus_quiet_def bus_fds_def next_pause_def list_all_iff)

lemma next_pause_iter: "u \<le> APIBUS_IDLE_MAX \<Longrightarrow> (next_pause ^^ n) u = min APIBUS_IDLE_MAX (u + n * (APIBUS_IDLE_MAX div 10))"
  by (induction n) (auto simp: next_pause_def min_def)

lemma silent_run:
  assumes "bus_inv bus" and "list_all drained (bus_sinkfds bus)" and "silent sys bus"
    and "list_all (\<lambda>(tod, now). received_before tod bus) ts" and "list_all (\<lambda>r. rq_fd r \<in> set (bus_fds bus)) (bus_requests bus)"
  shows "\<exists>bus' out. silent_polls al sys ts bus = Some (Inr bus') \<and> bus_inv bus' \<and>
    bus_idle_usec bus' = (next_pause ^^ length ts) (bus_idle_usec bus) \<and>
    bus_requests bus' = filter (\<lambda>r. \<forall>(tod, now) \<in> set ts. \<not> request_timed_out now r) (bus_requests bus) \<and>
    bus_sent bus' = bus_sent bus @ map timeout_note out \<and>
    mset out = mset (filter (\<lambda>r. \<exists>(tod, now) \<in> set ts. request_timed_out now r) (bus_requests bus))"
  using assms
proof (induction ts arbitrary: bus)
  case Nil
  then show ?case by (auto intro!: exI [of _ "[]"])
next
  case (Cons t ts)
  obtain tod now where t: "t = (tod, now)" by fastforce
  let ?bus1 = "after_silence tod now bus"
  note k = after_silence_keeps [OF Cons.prems(1), of tod now]
  have poll: "apibus_poll al (posix_env al sys) tod now bus = Some (Inr (0, ?bus1))"
    using silent_poll [OF Cons.prems(1-3)] Cons.prems(4,5) t by simp
  obtain bus' out where IH: "silent_polls al sys ts ?bus1 = Some (Inr bus')" "bus_inv bus'"
    "bus_idle_usec bus' = (next_pause ^^ length ts) (bus_idle_usec ?bus1)"
    "bus_requests bus' = filter (\<lambda>r. \<forall>(tod, now) \<in> set ts. \<not> request_timed_out now r) (bus_requests ?bus1)"
    "bus_sent bus' = bus_sent ?bus1 @ map timeout_note out"
    "mset out = mset (filter (\<lambda>r. \<exists>(tod, now) \<in> set ts. request_timed_out now r) (bus_requests ?bus1))"
  proof -
    have "list_all (\<lambda>r. rq_fd r \<in> set (bus_fds ?bus1)) (bus_requests ?bus1)"
      using Cons.prems(5) k(4) by (auto simp: after_silence_def list_all_iff)
    then show thesis using Cons.IH [OF k(1)] Cons.prems(2-4) k(2,3) that by (auto simp: silent_def received_before_def)
  qed
  let ?out = "filter (request_timed_out now) (bus_requests bus) @ out"
  have "mset ?out = mset (filter (\<lambda>r. \<exists>(tod, now) \<in> set (t # ts). request_timed_out now r) (bus_requests bus))"
    using IH(6) by (simp add: t after_silence_def filter_filter_mset conj_commute) (simp add: multiset_eq_iff)
  then show ?case
    using poll IH t by (intro exI [of _ bus'] exI [of _ ?out]) (auto simp: after_silence_def funpow_swap1 intro: filter_cong)
qed

subsection \<open>Properties\<close>

text \<open>C7: While nothing arrives, every poll returns; the pause before the next one, in microseconds, grows by a tenth
  of a second each time and never beyond one second; a request is on the list as long as no poll finds it three
  seconds old, and each one that goes is reported exactly once, on its own connection.\<close>

theorem silent_bus_bounds:
  assumes "bus_inv bus" and "list_all drained (bus_sinkfds bus)" and "silent sys bus"
    and "list_all (\<lambda>(tod, now). received_before tod bus) ts" and "list_all (\<lambda>r. rq_fd r \<in> set (bus_fds bus)) (bus_requests bus)"
  shows "\<exists>bus' out. silent_polls al sys ts bus = Some (Inr bus') \<and> bus_inv bus' \<and>
    bus_idle_usec bus' = min 1000000 (bus_idle_usec bus + length ts * 100000) \<and>
    bus_requests bus' = filter (\<lambda>r. \<forall>(tod, now) \<in> set ts. now < rq_ts_send r + 3) (bus_requests bus) \<and>
    bus_sent bus' = bus_sent bus @ map (\<lambda>r. (rq_fd r, ''request timeout'')) out \<and>
    mset out = mset (filter (\<lambda>r. \<exists>(tod, now) \<in> set ts. rq_ts_send r + 3 \<le> now) (bus_requests bus))"
proof -
  have "bus_idle_usec bus \<le> APIBUS_IDLE_MAX" using assms(1) by (simp add: bus_inv_def bus_ok_def)
  from next_pause_iter [OF this, of "length ts"] show ?thesis
    using silent_run [OF assms, of al] unfolding request_timed_out_def timeout_note_def
    by (simp add: APIBUS_IDLE_MAX_def API_REQUEST_TIMEOUT_def not_le [symmetric] case_prod_beta)
qed

theorem silent_bus_bounds_witness:
  "\<exists>r bus'. rq_fd r = 4 \<and> rq_ts_send r = 1 \<and>
     silent_polls generous (example_sys\<lparr>sys_select := (\<lambda>_ _. (0, {}))\<rparr>) [((7, 0), 2), ((9, 0), 9)] (system_bus\<lparr>bus_requests := [r]\<rparr>) =
       Some (Inr bus') \<and> bus_requests bus' = [] \<and> bus_sent bus' = [(4, ''request timeout'')] \<and> bus_idle_usec bus' = 200000"
proof -
  let ?r = "(example_request 4 1)\<lparr>rq_fd := 4, rq_state := API_REQUEST_ST_WAIT_RESPONSE, rq_ts_send := 1\<rparr>"
  let ?bus = "system_bus\<lparr>bus_requests := [?r]\<rparr>" and ?sys = "example_sys\<lparr>sys_select := (\<lambda>_ _. (0, {}))\<rparr>"
  have "bus_inv ?bus" "list_all drained (bus_sinkfds ?bus)" "silent ?sys ?bus"
    "list_all (\<lambda>(tod, now). received_before tod ?bus) [((7, 0), 2), ((9, 0), 9)]"
    "list_all (\<lambda>r. rq_fd r \<in> set (bus_fds ?bus)) (bus_requests ?bus)"
    using system_bus_ok(1-4) system_drained
    by (simp_all add: bus_inv_def bus_ok_def bus_quiet_def bus_fds_def silent_def received_before_def timer_less_def system_conn_def conn_example_def)
  from silent_bus_bounds [OF this, of generous] obtain bus' out where
    b: "silent_polls generous ?sys [((7, 0), 2), ((9, 0), 9)] ?bus = Some (Inr bus')" "bus_requests bus' = []"
      "bus_sent bus' = map (\<lambda>r. (rq_fd r, ''request timeout'')) out" "mset out = {#?r#}"
      "bus_idle_usec bus' = min 1000000 (bus_idle_usec system_bus + 200000)"
    by (auto simp: system_bus_state)
  then have "out = [?r]" by simp
  moreover have "bus_idle_usec system_bus = 0" by (simp add: system_bus_def posix_example_def)
  ultimately show ?thesis using b by (intro exI [of _ ?r] exI [of _ bus']) simp
qed

end
