(* ===== verification/Apix_Router.thy ===== *)
theory Apix_Router
  imports Apix_System Apix_Topics Apix_Idle
begin

text \<open>
  The bus as a router. The specification keeps the requests that wait for a response, the stations and the
  topic, and says for a packet that arrives from a connection, or for silence, what is sent and what is
  kept. Sequences of calls of \<open>apibus_poll\<close> with the POSIX sinks implement it: everything between the bytes
  that \<open>recv\<close> returns and the bytes that are sent is hidden.
\<close>

subsection \<open>The specification\<close>

datatype packet =
    Request "16 word" string string
  | Response "16 word" "16 word" string string
  | Topic topic_event

record pending =
  pd_srcid :: "16 word"
  pd_header :: string
  pd_crc :: "16 word"
  pd_fd :: int
  pd_sent :: nat

record router =
  ro_pending :: "pending list"
  ro_stations :: "api_station list"
  ro_topic :: topic_spec

definition expired :: "nat \<Rightarrow> pending \<Rightarrow> bool" where
  "expired now q \<longleftrightarrow> pd_sent q + 3 \<le> now"

definition sweep :: "nat \<Rightarrow> pending list \<Rightarrow> pending list" where
  "sweep now qs = filter (\<lambda>q. \<not> expired now q) qs"

definition timeouts :: "nat \<Rightarrow> pending list \<Rightarrow> (int \<times> mem) list" where
  "timeouts now qs = map (\<lambda>q. (pd_fd q, ''request timeout'')) (filter (expired now) qs)"

definition fresh :: "nat \<Rightarrow> api_station list \<Rightarrow> api_station list" where
  "fresh now S = filter (\<lambda>st. now \<le> st_ts_alive st + 600) S"

text \<open>The first request that a response answers, and the others.\<close>

fun take_answer :: "16 word \<Rightarrow> 16 word \<Rightarrow> string \<Rightarrow> pending list \<Rightarrow> (int \<times> pending list) option" where
  "take_answer src crc h [] = None"
| "take_answer src crc h (q # qs) =
     (if pd_crc q = crc \<and> pd_header q = h \<and> pd_srcid q = src then Some (pd_fd q, qs)
      else map_option (\<lambda>(fd, rest). (fd, q # rest)) (take_answer src crc h qs))"

text \<open>The station that a header names, and the checksum of a request.\<close>

definition dst_of :: "string \<Rightarrow> 16 word option" where
  "dst_of h = (case scan_dstid (padded SRRP_HEADER_LEN h) of Inr d \<Rightarrow> d | Inl e \<Rightarrow> None)"

definition crc_of :: "string \<Rightarrow> string \<Rightarrow> 16 word" where
  "crc_of h d = (case srrp_crc h d of Inr c \<Rightarrow> c | Inl e \<Rightarrow> 0)"

fun router_packet :: "nat \<Rightarrow> router \<Rightarrow> int \<Rightarrow> packet \<Rightarrow> mem \<Rightarrow> (router \<times> (int \<times> mem) list) option" where
  "router_packet now R fd (Request src h d) raw =
     (let qs = ro_pending R; S = registered now src fd (ro_stations R)
      in case route (ro_stations R) src fd (dst_of h) of
           Some to \<Rightarrow>
             Some (R\<lparr>ro_pending := \<lparr>pd_srcid = src, pd_header = h, pd_crc = crc_of h d, pd_fd = fd, pd_sent = now\<rparr> # sweep now qs,
               ro_stations := fresh now S\<rparr>, (to, raw) # timeouts now qs)
         | None \<Rightarrow>
             Some (R\<lparr>ro_pending := sweep now qs, ro_stations := fresh now S\<rparr>, (fd, ''STATION NOT FOUND'') # timeouts now qs))"
| "router_packet now R fd (Response src crc h d) raw =
     (let qs = ro_pending R;
          S = (case dst_of h of None \<Rightarrow> ro_stations R | Some k \<Rightarrow> station_alive now k (ro_stations R))
      in case take_answer src crc h (sweep now qs) of
           Some (to, rest) \<Rightarrow> Some (R\<lparr>ro_pending := rest, ro_stations := fresh now S\<rparr>, timeouts now qs @ [(to, raw)])
         | None \<Rightarrow> Some (R\<lparr>ro_pending := sweep now qs, ro_stations := fresh now S\<rparr>, timeouts now qs))"
| "router_packet now R fd (Topic e) raw =
     map_option (\<lambda>(A, out). (R\<lparr>ro_pending := sweep now (ro_pending R), ro_stations := fresh now (ro_stations R), ro_topic := A\<rparr>,
         timeouts now (ro_pending R) @ out))
       (topic_step (ro_topic R) fd e raw)"

definition router_silence :: "nat \<Rightarrow> router \<Rightarrow> router \<times> (int \<times> mem) list" where
  "router_silence now R =
     (R\<lparr>ro_pending := sweep now (ro_pending R), ro_stations := fresh now (ro_stations R)\<rparr>, timeouts now (ro_pending R))"

text \<open>Whoever is to be sent something is connected.\<close>

definition router_ok :: "router \<Rightarrow> int set \<Rightarrow> bool" where
  "router_ok R F \<longleftrightarrow> (\<forall>q \<in> set (ro_pending R). pd_fd q \<in> F) \<and> (\<forall>st \<in> set (ro_stations R). st_fd st \<in> F) \<and> spec_ok (ro_topic R) F"

lemma station_alive_fds: "st_fd ` set (station_alive now k S) = st_fd ` set S"
  by (induction S) auto

lemma registered_fds: "st_fd ` set (registered now src fd S) \<subseteq> insert fd (st_fd ` set S)"
  by (auto simp: registered_def station_alive_fds [symmetric] split: option.splits intro: station_alive_fds [THEN equalityD1, THEN subsetD])

lemma take_answer_fds: "take_answer src crc h qs = Some (fd, rest) \<Longrightarrow> fd \<in> pd_fd ` set qs \<and> set rest \<subseteq> set qs"
  by (induction qs arbitrary: fd rest) (auto split: if_splits)

lemma router_packet_ok:
  assumes "router_ok R F" and "fd \<in> F" and "\<And>e. pk = Topic e \<Longrightarrow> event_ok e" and "router_packet now R fd pk raw = Some (R', out)"
  shows "router_ok R' F"
proof (cases pk)
  case (Request src h d)
  have "st_fd st \<in> F" if "st \<in> set (registered now src fd (ro_stations R))" for st
    using registered_fds [of now src fd "ro_stations R"] that assms(1,2) by (auto simp: router_ok_def)
  then show ?thesis using assms Request
    by (auto simp: router_ok_def Let_def sweep_def fresh_def split: option.splits)
next
  case (Response src crc h d)
  have "st_fd st \<in> F" if "st \<in> set (station_alive now k (ro_stations R))" for st k
  proof -
    have "st_fd st \<in> st_fd ` set (station_alive now k (ro_stations R))" using that by simp
    then show ?thesis using assms(1) unfolding station_alive_fds by (auto simp: router_ok_def)
  qed
  moreover have "pd_fd q \<in> F" if "take_answer src crc h (sweep now (ro_pending R)) = Some (to, rest)" "q \<in> set rest" for to rest q
    using take_answer_fds [OF that(1)] that(2) assms(1) by (auto simp: router_ok_def sweep_def)
  ultimately show ?thesis using assms Response
    by (auto simp: router_ok_def Let_def sweep_def fresh_def split: option.splits)
next
  case (Topic e)
  then show ?thesis using assms topic_step_ok [of "ro_topic R" F fd e raw] by (auto simp: router_ok_def sweep_def fresh_def)
qed

lemma router_silence_ok: "router_ok R F \<Longrightarrow> router_ok (fst (router_silence now R)) F"
  by (auto simp: router_ok_def router_silence_def sweep_def fresh_def)

subsection \<open>The packets\<close>

fun write_packet :: "allocator \<Rightarrow> packet \<Rightarrow> srrp_packet res" where
  "write_packet al (Request src h d) = srrp_write_request al src h d"
| "write_packet al (Response src crc h d) = srrp_write_response al src crc h d"
| "write_packet al (Topic e) = topic_write al e"

fun packet_ok :: "packet \<Rightarrow> bool" where
  "packet_ok (Request src h d) \<longleftrightarrow> srrp_header_ok h \<and> srrp_data_ok d \<and> length h < SRRP_HEADER_LEN"
| "packet_ok (Response src crc h d) \<longleftrightarrow> srrp_header_ok h \<and> srrp_data_ok d \<and> length h < SRRP_HEADER_LEN"
| "packet_ok (Topic e) \<longleftrightarrow> event_ok e"

text \<open>What the parser queues for a packet.\<close>

fun new_requests :: "nat \<Rightarrow> int \<Rightarrow> packet \<Rightarrow> srrp_packet \<Rightarrow> api_request list" where
  "new_requests now fd (Request src h d) p =
     [\<lparr>rq_pac = p, rq_state = API_REQUEST_ST_NONE, rq_ts_create = now, rq_ts_send = 0, rq_fd = fd, rq_crc16 = crc_of h d\<rparr>]"
| "new_requests now fd (Response src crc h d) p = []"
| "new_requests now fd (Topic e) p = []"

fun new_responses :: "int \<Rightarrow> packet \<Rightarrow> srrp_packet \<Rightarrow> api_response list" where
  "new_responses fd (Request src h d) p = []"
| "new_responses fd (Response src crc h d) p = [\<lparr>rp_pac = p, rp_fd = fd\<rparr>]"
| "new_responses fd (Topic e) p = []"

fun new_topic_msgs :: "int \<Rightarrow> packet \<Rightarrow> srrp_packet \<Rightarrow> api_topic_msg list" where
  "new_topic_msgs fd (Request src h d) p = []"
| "new_topic_msgs fd (Response src crc h d) p = []"
| "new_topic_msgs fd (Topic e) p = [\<lparr>tm_pac = p, tm_fd = fd\<rparr>]"

lemma packet_clean: "write_packet al pk = Inr p \<Longrightarrow> packet_ok pk \<Longrightarrow> srrp_clean al p"
  by (cases pk) (auto intro: written_request_clean written_response_clean topic_write_fields(5))

lemma packet_queued:
  assumes "write_packet al pk = Inr p" and "packet_ok pk" and "grant al 56" and "grant al 32"
  shows "queues al now fd p (new_requests now fd pk p) (new_responses fd pk p) (new_topic_msgs fd pk p)"
proof (cases pk)
  case (Request src h d)
  then have w: "srrp_write_request al src h d = Inr p" "length h < SRRP_HEADER_LEN" using assms(1,2) by simp_all
  obtain c where "srrp_crc h d = Inr c" "queues al now fd p
      [\<lparr>rq_pac = p, rq_state = API_REQUEST_ST_NONE, rq_ts_create = now, rq_ts_send = 0, rq_fd = fd, rq_crc16 = c\<rparr>] [] []"
    using written_request_queued [OF w assms(3)] by blast
  then show ?thesis using Request by (simp add: crc_of_def)
next
  case (Response src crc h d)
  then show ?thesis using written_response_queued assms by simp
next
  case (Topic e)
  then show ?thesis using topic_queued assms by simp
qed

subsection \<open>The handlers\<close>

definition pending_of :: "api_request \<Rightarrow> pending" where
  "pending_of r = \<lparr>pd_srcid = pk_srcid (rq_pac r), pd_header = cstr (pk_header (rq_pac r)), pd_crc = rq_crc16 r, pd_fd = rq_fd r,
     pd_sent = rq_ts_send r\<rparr>"

text \<open>The part of the bus that the specification speaks of.\<close>

definition implements :: "apibus \<Rightarrow> router \<Rightarrow> bool" where
  "implements bus R \<longleftrightarrow> list_all (\<lambda>r. rq_state r = API_REQUEST_ST_WAIT_RESPONSE) (bus_requests bus) \<and>
     ro_pending R = map pending_of (bus_requests bus) \<and> ro_stations R = bus_stations bus \<and> bus_topics bus = topics_of (ro_topic R)"

lemma expired_pending [simp]: "expired now (pending_of r) = request_timed_out now r"
  by (auto simp: expired_def pending_of_def request_timed_out_def API_REQUEST_TIMEOUT_def)

lemma sweep_pending: "sweep now (map pending_of rs) = map pending_of (filter (\<lambda>r. \<not> request_timed_out now r) rs)"
  by (simp add: sweep_def filter_map comp_def)

lemma timeouts_pending: "timeouts now (map pending_of rs) = map timeout_note (filter (request_timed_out now) rs)"
proof -
  have "pd_fd (pending_of r) = rq_fd r" for r by (simp add: pending_of_def)
  then show ?thesis by (simp add: timeouts_def filter_map comp_def timeout_note_def [abs_def])
qed

lemma take_answer_pending:
  assumes "pk_srcid (rp_pac resp) = src" and "pk_reqcrc16 (rp_pac resp) = crc" and "cstr (pk_header (rp_pac resp)) = h"
  shows "take_answer src crc h (map pending_of rs) = map_option (\<lambda>(r, rest). (rq_fd r, map pending_of rest)) (take_answered resp rs)"
  using assms by (induction rs) (auto simp: pending_of_def answers_def strcmp_eq_def option.map_comp comp_def split_beta)

lemma can_send_cong: "bus_sinkfds bus' = bus_sinkfds bus \<Longrightarrow> can_send env bus' = can_send env bus"
  by (simp add: can_send_def find_sinkfd_in_apibus_def fun_eq_iff)

lemma fresh_stations: "bus_stations (clear_unalive_station now bus) = fresh now (bus_stations bus)"
  by (simp add: clear_unalive_station_def fresh_def APIBUS_STATION_ALIVE_TIMEOUT_def not_less)

text \<open>The handler of requests, when the older ones wait: with no new request, and with one.\<close>

lemma old_requests_handled:
  assumes "implements bus R" and "router_ok R F" and "\<forall>x \<in> F. can_send env bus x"
  shows "\<exists>rs. handle_request al env now bus = Inr (bus\<lparr>bus_requests := rs, bus_sent := bus_sent bus @ timeouts now (ro_pending R)\<rparr>) \<and>
    list_all (\<lambda>r. rq_state r = API_REQUEST_ST_WAIT_RESPONSE) rs \<and> map pending_of rs = sweep now (ro_pending R)"
proof -
  have "list_all (\<lambda>r. can_send env bus (rq_fd r)) (bus_requests bus)"
    using assms by (auto simp: list_all_iff implements_def router_ok_def pending_of_def)
  from handle_timeouts [OF _ this, of al now] assms(1) show ?thesis
    by (intro exI [of _ "filter (\<lambda>r. \<not> request_timed_out now r) (bus_requests bus)"])
      (auto simp: handle_request_def implements_def timeouts_pending sweep_pending list_all_iff)
qed

lemma new_request_routed:
  assumes "srrp_write_request al src h d = Inr p" and "NUL \<notin> set h" and "length h < SRRP_HEADER_LEN"
    and "implements (bus\<lparr>bus_requests := rs\<rparr>) R" and "bus_requests bus = new_requests now fd (Request src h d) p @ rs"
    and "bus_responses bus = []" and "bus_topic_msgs bus = []"
    and "router_ok R F" and "\<forall>x \<in> F. can_send env bus x" and "fd \<in> F" and "grant al 40"
    and "router_packet now R fd (Request src h d) (pk_raw p) = Some (R', out)"
  shows "\<exists>bus'. handle_all al env now bus = Inr bus' \<and> implements bus' R' \<and> bus_sent bus' = bus_sent bus @ out \<and>
    bus_sinkfds bus' = bus_sinkfds bus \<and> bus_sinks bus' = bus_sinks bus"
proof -
  note f = srrp_write_request_fields [OF assms(1,3)]
  let ?r = "\<lparr>rq_pac = p, rq_state = API_REQUEST_ST_NONE, rq_ts_create = now, rq_ts_send = 0, rq_fd = fd, rq_crc16 = crc_of h d\<rparr>"
  let ?S = "bus_stations bus" and ?out = "\<lambda>x. bus_sent bus @ [x]"
  have h: "cstr (padded SRRP_HEADER_LEN h) = h" using cstr_padded [OF assms(2)] .
  have dst: "scan_dstid (pk_header p) = Inr (dst_of h)"
    using scan_dstid_total [OF padded_terminated [OF assms(3)]] f by (auto simp: dst_of_def)
  have st: "list_all (\<lambda>st. can_send env bus (st_fd st)) ?S" "can_send env bus fd"
    using assms(4,8-10) by (auto simp: list_all_iff implements_def router_ok_def)
  have one: "handle_one_request al env now bus ?r =
    (case route ?S src fd (dst_of h) of
       Some to \<Rightarrow> Inr (bus\<lparr>bus_stations := registered now src fd ?S, bus_sent := ?out (to, pk_raw p)\<rparr>,
         Some (?r\<lparr>rq_state := API_REQUEST_ST_WAIT_RESPONSE, rq_ts_send := now\<rparr>))
     | None \<Rightarrow> Inr (bus\<lparr>bus_stations := registered now src fd ?S, bus_sent := ?out (fd, ''STATION NOT FOUND'')\<rparr>, None))"
    using new_request_handled [of ?r al "dst_of h" env bus now] assms(11) dst st f(2,7) by (simp cong: option.case_cong)
  define bus1 where "bus1 x = bus\<lparr>bus_stations := registered now src fd ?S, bus_sent := ?out x\<rparr>" for x
  have "can_send env (bus1 x) = can_send env bus" for x by (rule can_send_cong) (simp add: bus1_def)
  then have "list_all (\<lambda>r. can_send env (bus1 x) (rq_fd r)) rs" for x
    using assms(4,8,9) by (auto simp: list_all_iff implements_def router_ok_def pending_of_def)
  from handle_timeouts [OF _ this, of al now] assms(4)
  have old: "handle_request_loop al env now (bus1 x) rs =
      Inr ((bus1 x)\<lparr>bus_sent := ?out x @ timeouts now (ro_pending R)\<rparr>, filter (\<lambda>r. \<not> request_timed_out now r) rs)" for x
    by (simp add: implements_def timeouts_pending bus1_def)
  show ?thesis
    using assms(4-7,12) one [folded bus1_def] old h f
    by (auto simp: handle_all_def handle_request_def handle_response_def handle_topic_msg_def clear_unalive_station_def fresh_def
        APIBUS_STATION_ALIVE_TIMEOUT_def not_less implements_def Let_def bus1_def sweep_pending list_all_iff pending_of_def
        split: option.splits)
qed

lemma response_routed_back:
  assumes "srrp_write_response al src crc h d = Inr p" and "NUL \<notin> set h" and "length h < SRRP_HEADER_LEN"
    and "implements bus R" and "bus_responses bus = [\<lparr>rp_pac = p, rp_fd = fd\<rparr>]" and "bus_topic_msgs bus = []"
    and "router_ok R F" and "\<forall>x \<in> F. can_send env bus x"
    and "router_packet now R fd (Response src crc h d) (pk_raw p) = Some (R', out)"
  shows "\<exists>bus'. handle_all al env now bus = Inr bus' \<and> implements bus' R' \<and> bus_sent bus' = bus_sent bus @ out \<and>
    bus_sinkfds bus' = bus_sinkfds bus \<and> bus_sinks bus' = bus_sinks bus"
proof -
  note f = srrp_write_response_fields [OF assms(1,3)]
  let ?resp = "\<lparr>rp_pac = p, rp_fd = fd\<rparr>"
  have h: "cstr (padded SRRP_HEADER_LEN h) = h" using cstr_padded [OF assms(2)] .
  have dst: "scan_dstid (pk_header p) = Inr (dst_of h)"
    using scan_dstid_total [OF padded_terminated [OF assms(3)]] f(3) by (auto simp: dst_of_def)
  obtain rs where rs: "handle_request al env now bus = Inr (bus\<lparr>bus_requests := rs, bus_sent := bus_sent bus @ timeouts now (ro_pending R)\<rparr>)"
    "list_all (\<lambda>r. rq_state r = API_REQUEST_ST_WAIT_RESPONSE) rs" "map pending_of rs = sweep now (ro_pending R)"
    using old_requests_handled [OF assms(4,7,8)] by blast
  let ?bus1 = "bus\<lparr>bus_requests := rs, bus_sent := bus_sent bus @ timeouts now (ro_pending R)\<rparr>"
  have ans: "take_answer src crc h (sweep now (ro_pending R)) = map_option (\<lambda>(r, rest). (rq_fd r, map pending_of rest)) (take_answered ?resp rs)"
    unfolding rs(3) [symmetric] by (rule take_answer_pending) (simp_all add: f h)
  have send: "\<exists>x. apibus_send env ?bus1 (rq_fd r) (pk_raw p) (unat (pk_len p)) = Inr (x, ?bus1\<lparr>bus_sent := bus_sent ?bus1 @ [(rq_fd r, pk_raw p)]\<rparr>)"
    if "take_answered ?resp rs = Some (r, rest)" for r rest
  proof -
    have "r \<in> set rs" using take_answered_Some [OF that] by auto
    then have "pd_fd (pending_of r) \<in> F"
      using assms(7) rs(3) imageI [of r "set rs" pending_of] by (auto simp: router_ok_def sweep_def simp flip: set_map)
    then have "can_send env ?bus1 (rq_fd r)"
      using assms(8) can_send_cong [of ?bus1 bus env] by (simp add: pending_of_def)
    then show ?thesis using apibus_send_ok [of env ?bus1 "rq_fd r" "unat (pk_len p)" "pk_raw p"] f(4) by auto
  qed
  have kept: "list_all (\<lambda>r. rq_state r = API_REQUEST_ST_WAIT_RESPONSE) rest" if "take_answered ?resp rs = Some (r, rest)" for r rest
    using take_answered_Some [OF that] rs(2) by (auto simp: list_all_iff)
  show ?thesis
  proof (cases "take_answered ?resp rs")
    case None
    then show ?thesis
      using assms(4-6,9) rs dst ans
      by (auto simp: handle_all_def handle_response_def handle_one_response_def handle_topic_msg_def clear_unalive_station_def fresh_def
          APIBUS_STATION_ALIVE_TIMEOUT_def not_less implements_def Let_def split: option.splits)
  next
    case (Some a)
    obtain r rest where a: "a = (r, rest)" by fastforce
    then show ?thesis
      using Some send [of r rest] kept [of r rest] assms(4-6,9) rs dst ans
      by (auto simp: handle_all_def handle_response_def handle_one_response_def handle_topic_msg_def clear_unalive_station_def fresh_def
          APIBUS_STATION_ALIVE_TIMEOUT_def not_less implements_def Let_def split: option.splits)
  qed
qed

lemma topic_message_handled:
  assumes "topic_write al e = Inr p" and "event_ok e" and "implements bus R"
    and "bus_responses bus = []" and "bus_topic_msgs bus = [\<lparr>tm_pac = p, tm_fd = fd\<rparr>]"
    and "router_ok R F" and "\<forall>x \<in> F. can_send env bus x" and "fd \<in> F" and "grant al 408"
  shows "case router_packet now R fd (Topic e) (pk_raw p) of
      Some (R', out) \<Rightarrow> \<exists>bus'. handle_all al env now bus = Inr bus' \<and> implements bus' R' \<and> bus_sent bus' = bus_sent bus @ out \<and>
        bus_sinkfds bus' = bus_sinkfds bus \<and> bus_sinks bus' = bus_sinks bus
    | None \<Rightarrow> \<exists>x. handle_all al env now bus = Inl x"
proof -
  obtain rs where rs: "handle_request al env now bus = Inr (bus\<lparr>bus_requests := rs, bus_sent := bus_sent bus @ timeouts now (ro_pending R)\<rparr>)"
    "list_all (\<lambda>r. rq_state r = API_REQUEST_ST_WAIT_RESPONSE) rs" "map pending_of rs = sweep now (ro_pending R)"
    using old_requests_handled [OF assms(3,6,7)] by blast
  let ?bus1 = "bus\<lparr>bus_requests := rs, bus_sent := bus_sent bus @ timeouts now (ro_pending R)\<rparr>"
  have "bus_topics ?bus1 = topics_of (ro_topic R)" "spec_ok (ro_topic R) F" "\<forall>x \<in> F. can_send env ?bus1 x"
    using assms(3,6,7) can_send_cong [of ?bus1 bus env] by (simp_all add: implements_def router_ok_def)
  from topic_handled [OF assms(1,2) this assms(8,9)] show ?thesis
    using assms(3-5) rs
    by (auto simp: handle_all_def handle_response_def handle_topic_msg_def clear_unalive_station_def fresh_def
        APIBUS_STATION_ALIVE_TIMEOUT_def not_less implements_def split: option.splits prod.splits)
qed

text \<open>All handlers of a poll, for a packet of any kind that was queued in it, and for none.\<close>

lemma packet_handled:
  assumes "write_packet al pk = Inr p" and "packet_ok pk" and "implements (bus\<lparr>bus_requests := rs\<rparr>) R"
    and "bus_requests bus = new_requests now fd pk p @ rs" and "bus_responses bus = new_responses fd pk p"
    and "bus_topic_msgs bus = new_topic_msgs fd pk p"
    and "router_ok R F" and "\<forall>x \<in> F. can_send env bus x" and "fd \<in> F" and "grant al 40" and "grant al 408"
  shows "case router_packet now R fd pk (pk_raw p) of
      Some (R', out) \<Rightarrow> \<exists>bus'. handle_all al env now bus = Inr bus' \<and> implements bus' R' \<and> bus_sent bus' = bus_sent bus @ out \<and>
        bus_sinkfds bus' = bus_sinkfds bus \<and> bus_sinks bus' = bus_sinks bus
    | None \<Rightarrow> \<exists>x. handle_all al env now bus = Inl x"
proof (cases pk)
  case (Request src h d)
  then have "NUL \<notin> set h" using assms(2) by (simp add: srrp_header_ok_def)
  then show ?thesis
    using new_request_routed [of al src h d p rs bus R now fd F env] assms Request
    by (auto simp del: router_packet.simps simp: Let_def split: option.split)
       (auto simp: Let_def split: option.splits)
next
  case (Response src crc h d)
  then have "NUL \<notin> set h" "bus\<lparr>bus_requests := rs\<rparr> = bus" using assms(2,4) by (simp_all add: srrp_header_ok_def)
  then show ?thesis
    using response_routed_back [of al src crc h d p bus R fd F env now] assms Response
    by (auto simp del: router_packet.simps split: option.split) (auto simp: Let_def split: option.splits)
next
  case (Topic e)
  then have "bus\<lparr>bus_requests := rs\<rparr> = bus" using assms(4) by simp
  then have "implements bus R" using assms(3) by (simp only:)
  then show ?thesis using topic_message_handled [of al e p bus R fd F env now] assms Topic by simp
qed

lemma silence_handled:
  assumes "implements bus R" and "bus_responses bus = []" and "bus_topic_msgs bus = []"
    and "router_ok R F" and "\<forall>x \<in> F. can_send env bus x"
  shows "\<exists>bus'. handle_all al env now bus = Inr bus' \<and> implements bus' (fst (router_silence now R)) \<and>
    bus_sent bus' = bus_sent bus @ snd (router_silence now R) \<and> bus_sinkfds bus' = bus_sinkfds bus \<and> bus_sinks bus' = bus_sinks bus"
proof -
  obtain rs where "handle_request al env now bus = Inr (bus\<lparr>bus_requests := rs, bus_sent := bus_sent bus @ timeouts now (ro_pending R)\<rparr>)"
    "list_all (\<lambda>r. rq_state r = API_REQUEST_ST_WAIT_RESPONSE) rs" "map pending_of rs = sweep now (ro_pending R)"
    using old_requests_handled [OF assms(1,4,5)] by blast
  then show ?thesis
    using assms(1-3)
    by (simp add: handle_all_def handle_response_def handle_topic_msg_def clear_unalive_station_def fresh_def
        APIBUS_STATION_ALIVE_TIMEOUT_def not_less implements_def router_silence_def)
qed

subsection \<open>One poll\<close>

definition bus_router :: "apibus \<Rightarrow> router \<Rightarrow> bool" where
  "bus_router bus R \<longleftrightarrow> bus_inv bus \<and> list_all drained (bus_sinkfds bus) \<and> implements bus R \<and> router_ok R (set (bus_fds bus))"

lemma packet_poll:
  assumes "bus_router bus R" and "write_packet al pk = Inr p" and "packet_ok pk" and "list_all (grant al) [56, 40, 32, 408]"
    and "arrives sys bus sink pos (pk_raw p)"
  shows "case router_packet now R (sf_fd pos) pk (pk_raw p) of
      Some (R', out) \<Rightarrow> \<exists>bus'. apibus_poll al (posix_env al sys) tod now bus = Some (Inr (0, bus')) \<and> bus_router bus' R' \<and>
        bus_sent bus' = bus_sent bus @ out
    | None \<Rightarrow> \<exists>x. apibus_poll al (posix_env al sys) tod now bus = Some (Inl x)"
proof -
  let ?env = "posix_env al sys" and ?fd = "sf_fd pos" and ?F = "set (bus_fds bus)"
  have ok: "bus_ok bus" and quiet: "bus_responses bus = []" "bus_topic_msgs bus = []" and dr: "list_all drained (bus_sinkfds bus)"
    and imp: "implements bus R" and rok: "router_ok R ?F"
    using assms(1) by (simp_all add: bus_router_def bus_inv_def bus_quiet_def)
  have g: "grant al 56" "grant al 40" "grant al 32" "grant al 408" using assms(4) by simp_all
  define bus2 where "bus2 n u sfs = bus\<lparr>bus_poll_ts := tod, bus_poll_cnt := n, bus_requests := new_requests now ?fd pk p @ bus_requests bus,
    bus_responses := new_responses ?fd pk p, bus_topic_msgs := new_topic_msgs ?fd pk p, bus_sinkfds := sfs, bus_idle_usec := u\<rparr>" for n u sfs
  obtain n u sfs where poll: "apibus_poll al ?env tod now bus = Some (bindR (handle_all al ?env now (bus2 n u sfs)) (\<lambda>bus'. Inr (0, bus')))"
    and inv: "\<And>bus'. handle_all al ?env now (bus2 n u sfs) = Inr bus' \<Longrightarrow> bus_inv bus'" and sfs: "list_all drained sfs"
      "map (\<lambda>sf. (sf_fd sf, sf_sink sf)) sfs = map (\<lambda>sf. (sf_fd sf, sf_sink sf)) (bus_sinkfds bus)"
    using packet_received [OF ok dr packet_clean [OF assms(2,3)] assms(5) packet_queued [OF assms(2,3) g(1,3), of now ?fd], of tod] quiet
    by (auto simp: Let_def bus2_def)
  have send: "\<forall>fd \<in> ?F. can_send ?env (bus2 n u sfs) fd"
    using can_send_same_fds [OF sfs(2) _ posix_can_send [OF ok]] by (simp add: bus2_def)
  have fds: "map sf_fd sfs = map sf_fd (bus_sinkfds bus)" using arg_cong [OF sfs(2), of "map fst"] by (simp add: comp_def)
  have "implements ((bus2 n u sfs)\<lparr>bus_requests := bus_requests bus\<rparr>) R" using imp by (simp add: bus2_def implements_def)
  note handled = packet_handled [OF assms(2,3) this _ _ _ rok send arrives_fd [OF assms(5) ok] g(2,4), of now]
  have kept: "bus_sent (bus2 n u sfs) = bus_sent bus" "bus_sinkfds (bus2 n u sfs) = sfs" "bus_sinks (bus2 n u sfs) = bus_sinks bus"
    by (simp_all add: bus2_def)
  have h: "case router_packet now R ?fd pk (pk_raw p) of
      Some (R', out) \<Rightarrow> \<exists>bus'. handle_all al ?env now (bus2 n u sfs) = Inr bus' \<and> implements bus' R' \<and> bus_sent bus' = bus_sent bus @ out \<and>
        bus_sinkfds bus' = sfs \<and> bus_sinks bus' = bus_sinks bus
    | None \<Rightarrow> \<exists>x. handle_all al ?env now (bus2 n u sfs) = Inl x"
    by (rule handled [unfolded kept]) (simp_all add: bus2_def)
  show ?thesis
  proof (cases "router_packet now R ?fd pk (pk_raw p)")
    case None
    then show ?thesis using h poll by auto
  next
    case (Some a)
    obtain R' out where a: "a = (R', out)" by fastforce
    obtain bus' where b: "handle_all al ?env now (bus2 n u sfs) = Inr bus'" "implements bus' R'" "bus_sent bus' = bus_sent bus @ out"
      "bus_sinkfds bus' = sfs" using h Some a by auto
    have "router_ok R' ?F"
      using router_packet_ok [OF rok arrives_fd [OF assms(5) ok] _ Some [unfolded a]] assms(3) by (cases pk) auto
    then have "bus_router bus' R'" using inv [OF b(1)] b(2,4) sfs(1) fds by (simp add: bus_router_def bus_fds_def)
    then show ?thesis using Some a poll b by auto
  qed
qed

lemma silence_poll:
  assumes "bus_router bus R" and "silent sys bus"
  shows "\<exists>bus'. apibus_poll al (posix_env al sys) tod now bus = Some (Inr (0, bus')) \<and> bus_router bus' (fst (router_silence now R)) \<and>
    bus_sent bus' = bus_sent bus @ snd (router_silence now R)"
proof -
  let ?env = "posix_env al sys" and ?F = "set (bus_fds bus)"
  let ?bus = "bus\<lparr>bus_poll_cnt := 0, bus_poll_ts := tod\<rparr>"
  have inv: "bus_inv bus" and ok: "bus_ok bus" and quiet: "bus_responses bus = []" "bus_topic_msgs bus = []" and dr: "list_all drained (bus_sinkfds bus)"
    and imp: "implements bus R" and rok: "router_ok R ?F"
    using assms(1) by (simp_all add: bus_router_def bus_inv_def bus_quiet_def)
  have sinks: "poll_sinks ?env ?bus (bus_sinks bus) = Inr ?bus"
    using idle_sinks_poll [of "bus_sinks bus" sys al ?bus "[]"] assms(2) by (simp add: silent_def)
  obtain n where parse: "parse_sinkfds al now ?bus (bus_sinkfds bus) = Some (Inr (?bus\<lparr>bus_poll_cnt := n\<rparr>, bus_sinkfds bus))"
    using parse_drained [OF dr, of al now ?bus "[]"] by auto
  obtain u where u: "poll_idle (?bus\<lparr>bus_poll_cnt := n\<rparr>) = ?bus\<lparr>bus_poll_cnt := n, bus_idle_usec := u\<rparr>" using poll_idle_only by blast
  let ?bus2 = "?bus\<lparr>bus_poll_cnt := n, bus_idle_usec := u\<rparr>"
  have poll: "apibus_poll al ?env tod now bus = Some (bindR (handle_all al ?env now ?bus2) (\<lambda>bus'. Inr (0, bus')))"
    using sinks parse u by (simp add: apibus_poll_def)
  have "\<forall>fd \<in> ?F. can_send ?env ?bus2 fd" using can_send_same_fds [OF refl _ posix_can_send [OF ok]] by simp
  moreover have "implements ?bus2 R" using imp by (simp add: implements_def)
  ultimately obtain bus' where b: "handle_all al ?env now ?bus2 = Inr bus'" "implements bus' (fst (router_silence now R))"
    "bus_sent bus' = bus_sent bus @ snd (router_silence now R)" "bus_sinkfds bus' = bus_sinkfds bus"
    using silence_handled [of ?bus2 R ?F ?env al now] quiet rok by auto
  have "bus_ok (?bus\<lparr>bus_poll_cnt := n\<rparr>)" using ok by (auto simp: bus_ok_def bus_fds_def)
  moreover have "list_all2 (\<lambda>a b. rx_only a b \<and> rx_ok b) (bus_sinkfds bus) (bus_sinkfds bus)"
    using ok by (auto simp: bus_ok_def list_all_iff intro!: list.rel_refl_strong rx_only_refl)
  ultimately have "bus_inv bus'"
    using handled_ok [of al ?env now "bus_sinkfds bus" "?bus\<lparr>bus_poll_cnt := n\<rparr>" bus'] b(1) u by (simp add: bus_inv_def)
  then have "bus_router bus' (fst (router_silence now R))"
    using b dr router_silence_ok [OF rok] by (simp add: bus_router_def bus_fds_def)
  then show ?thesis using poll b by auto
qed

subsection \<open>Many polls\<close>

text \<open>A call of \<open>apibus_poll\<close>: the operating system and the clocks then, and the packet that arrives in it,
  if any.\<close>

record turn =
  tu_sys :: sys
  tu_tod :: "nat \<times> nat"
  tu_now :: nat
  tu_arrival :: "(apisink \<times> sinkfd \<times> packet) option"

fun turns :: "allocator \<Rightarrow> turn list \<Rightarrow> apibus \<Rightarrow> apibus res option" where
  "turns al [] bus = Some (Inr bus)"
| "turns al (t # ts) bus =
     (case apibus_poll al (posix_env al (tu_sys t)) (tu_tod t) (tu_now t) bus of
        Some (Inr (_, bus1)) \<Rightarrow> turns al ts bus1
      | Some (Inl e) \<Rightarrow> Some (Inl e)
      | None \<Rightarrow> None)"

text \<open>The operating system delivers what the turn says.\<close>

definition turn_arrives :: "allocator \<Rightarrow> turn \<Rightarrow> apibus \<Rightarrow> bool" where
  "turn_arrives al t bus = (case tu_arrival t of
     None \<Rightarrow> silent (tu_sys t) bus
   | Some (sink, pos, pk) \<Rightarrow> packet_ok pk \<and> (case write_packet al pk of
       Inr p \<Rightarrow> arrives (tu_sys t) bus sink pos (pk_raw p) | Inl e \<Rightarrow> False))"

fun turns_arrive :: "allocator \<Rightarrow> turn list \<Rightarrow> apibus \<Rightarrow> bool" where
  "turns_arrive al [] bus = True"
| "turns_arrive al (t # ts) bus \<longleftrightarrow> turn_arrives al t bus \<and>
     (case apibus_poll al (posix_env al (tu_sys t)) (tu_tod t) (tu_now t) bus of
        Some (Inr (_, bus1)) \<Rightarrow> turns_arrive al ts bus1 | _ \<Rightarrow> True)"

text \<open>What the specification makes of it.\<close>

definition router_turn :: "allocator \<Rightarrow> router \<Rightarrow> turn \<Rightarrow> (router \<times> (int \<times> mem) list) option" where
  "router_turn al R t = (case tu_arrival t of
     None \<Rightarrow> Some (router_silence (tu_now t) R)
   | Some (sink, pos, pk) \<Rightarrow> (case write_packet al pk of
       Inr p \<Rightarrow> router_packet (tu_now t) R (sf_fd pos) pk (pk_raw p) | Inl e \<Rightarrow> None))"

fun router_run :: "allocator \<Rightarrow> router \<Rightarrow> turn list \<Rightarrow> (router \<times> (int \<times> mem) list) option" where
  "router_run al R [] = Some (R, [])"
| "router_run al R (t # ts) =
     Option.bind (router_turn al R t) (\<lambda>(R1, out). map_option (\<lambda>(R2, out1). (R2, out @ out1)) (router_run al R1 ts))"

lemma turn_implements:
  assumes "bus_router bus R" and "turn_arrives al t bus" and "list_all (grant al) [56, 40, 32, 408]"
  shows "case router_turn al R t of
      Some (R', out) \<Rightarrow> \<exists>bus'. apibus_poll al (posix_env al (tu_sys t)) (tu_tod t) (tu_now t) bus = Some (Inr (0, bus')) \<and>
        bus_router bus' R' \<and> bus_sent bus' = bus_sent bus @ out
    | None \<Rightarrow> \<exists>x. apibus_poll al (posix_env al (tu_sys t)) (tu_tod t) (tu_now t) bus = Some (Inl x)"
proof (cases "tu_arrival t")
  case None
  then show ?thesis
    using silence_poll [OF assms(1), of "tu_sys t" al "tu_tod t" "tu_now t"] assms(2)
    by (simp add: router_turn_def turn_arrives_def split_beta)
next
  case (Some a)
  obtain sink pos pk where a: "a = (sink, pos, pk)" by (cases a)
  obtain p where p: "write_packet al pk = Inr p" "packet_ok pk" "arrives (tu_sys t) bus sink pos (pk_raw p)"
    using assms(2) Some a by (auto simp: turn_arrives_def split: sum.splits)
  then show ?thesis
    using packet_poll [OF assms(1) p(1,2) assms(3) p(3)] Some a by (simp add: router_turn_def)
qed

lemma turns_implement:
  assumes "bus_router bus R" and "turns_arrive al ts bus" and "list_all (grant al) [56, 40, 32, 408]"
  shows "case router_run al R ts of
      Some (R', out) \<Rightarrow> \<exists>bus'. turns al ts bus = Some (Inr bus') \<and> bus_router bus' R' \<and> bus_sent bus' = bus_sent bus @ out
    | None \<Rightarrow> \<exists>x. turns al ts bus = Some (Inl x)"
  using assms(1,2)
proof (induction ts arbitrary: bus R)
  case (Cons t ts)
  note one = turn_implements [OF Cons.prems(1) _ assms(3), of t]
  show ?case
  proof (cases "router_turn al R t")
    case None
    then show ?thesis using one Cons.prems(2) by auto
  next
    case (Some a)
    obtain R1 out where a: "a = (R1, out)" by fastforce
    obtain bus1 where b: "apibus_poll al (posix_env al (tu_sys t)) (tu_tod t) (tu_now t) bus = Some (Inr (0, bus1))"
      "bus_router bus1 R1" "bus_sent bus1 = bus_sent bus @ out" using one Some a Cons.prems(2) by auto
    then show ?thesis using Cons.IH [OF b(2)] Cons.prems(2) Some a by (auto split: option.splits)
  qed
qed simp

subsection \<open>What becomes of a request\<close>

text \<open>The packet that arrives in a turn is a response to the request, and \<open>m\<close> its bytes.\<close>

definition responds :: "allocator \<Rightarrow> pending \<Rightarrow> mem \<Rightarrow> turn \<Rightarrow> bool" where
  "responds al q m t = (case tu_arrival t of
     Some (_, _, Response src crc h d) \<Rightarrow> src = pd_srcid q \<and> crc = pd_crc q \<and> h = pd_header q \<and>
       (case srrp_write_response al src crc h d of Inr p \<Rightarrow> m = pk_raw p | Inl e \<Rightarrow> False)
   | _ \<Rightarrow> False)"

lemma take_answer_others:
  "take_answer src crc h qs = Some (fd, rest) \<Longrightarrow> q \<in> set qs \<Longrightarrow>
     q \<in> set rest \<or> pd_fd q = fd \<and> pd_crc q = crc \<and> pd_header q = h \<and> pd_srcid q = src"
  by (induction qs arbitrary: rest) (auto split: if_splits)

lemma expired_reported: "q \<in> set qs \<Longrightarrow> expired now q \<Longrightarrow> (pd_fd q, ''request timeout'') \<in> set (timeouts now qs)"
  by (auto simp: timeouts_def)

lemma turn_reports:
  assumes "router_turn al R t = Some (R', out)"
  shows "set (timeouts (tu_now t) (ro_pending R)) \<subseteq> set out"
proof (cases "tu_arrival t")
  case None
  then show ?thesis using assms by (auto simp: router_turn_def router_silence_def)
next
  case (Some a)
  obtain sink pos pk where "a = (sink, pos, pk)" by (cases a)
  then show ?thesis using assms Some
    by (cases pk) (auto simp: router_turn_def Let_def split: option.splits sum.splits)
qed

lemma turn_settles:
  assumes "router_turn al R t = Some (R', out)" and "q \<in> set (ro_pending R)"
  shows "q \<in> set (ro_pending R') \<and> \<not> expired (tu_now t) q \<or>
    (\<exists>m. (pd_fd q, m) \<in> set out \<and> (m = ''request timeout'' \<or> responds al q m t))"
proof (cases "expired (tu_now t) q")
  case True
  then have "(pd_fd q, ''request timeout'') \<in> set out"
    using turn_reports [OF assms(1)] expired_reported [OF assms(2)] by blast
  then show ?thesis by blast
next
  case False
  then have q: "q \<in> set (sweep (tu_now t) (ro_pending R))" using assms(2) by (simp add: sweep_def)
  show ?thesis
  proof (cases "tu_arrival t")
    case None
    then show ?thesis using assms(1) q False by (auto simp: router_turn_def router_silence_def)
  next
    case (Some a)
    obtain sink pos pk where a: "a = (sink, pos, pk)" by (cases a)
    then obtain p where p: "write_packet al pk = Inr p" "router_packet (tu_now t) R (sf_fd pos) pk (pk_raw p) = Some (R', out)"
      using assms(1) Some by (auto simp: router_turn_def split: sum.splits)
    show ?thesis
    proof (cases pk)
      case (Response src crc h d)
      show ?thesis
      proof (cases "take_answer src crc h (sweep (tu_now t) (ro_pending R))")
        case None
        then show ?thesis using p(2) q False Response by (auto simp: Let_def)
      next
        case (Some b)
        then show ?thesis
          using p q False Response \<open>tu_arrival t = Some a\<close> a take_answer_others [of src crc h _ "fst b" "snd b", OF _ q]
          by (cases b) (auto simp: Let_def responds_def)
      qed
    qed (use p(2) q False in \<open>auto simp: Let_def split: option.splits\<close>)
  qed
qed

lemma run_settles:
  assumes "router_run al R ts = Some (R', out)" and "q \<in> set (ro_pending R)" and "\<exists>t \<in> set ts. pd_sent q + 3 \<le> tu_now t"
  shows "\<exists>m. (pd_fd q, m) \<in> set out \<and> (m = ''request timeout'' \<or> (\<exists>t \<in> set ts. responds al q m t))"
  using assms
proof (induction ts arbitrary: R out)
  case (Cons t ts)
  obtain R1 out1 out2 where s: "router_turn al R t = Some (R1, out1)" "router_run al R1 ts = Some (R', out2)" "out = out1 @ out2"
    using Cons.prems(1) by (auto split: bind_splits)
  from turn_settles [OF s(1) Cons.prems(2)] show ?case
  proof
    assume q: "q \<in> set (ro_pending R1) \<and> \<not> expired (tu_now t) q"
    then have "\<exists>t \<in> set ts. pd_sent q + 3 \<le> tu_now t" using Cons.prems(3) by (auto simp: expired_def)
    then show ?thesis using Cons.IH [OF s(2)] q s(3) by auto
  qed (use s(3) in auto)
qed simp

subsection \<open>Properties\<close>

text \<open>The bus of two connections, with requests of the first one that wait.\<close>

lemma system_router:
  assumes "list_all (\<lambda>r. rq_state r = API_REQUEST_ST_WAIT_RESPONSE \<and> rq_fd r \<in> {4, 5}) rs"
  shows "bus_router (system_bus\<lparr>bus_requests := rs\<rparr>)
    \<lparr>ro_pending = map pending_of rs, ro_stations = [\<lparr>st_sttid = 8, st_ts_alive = 7, st_fd = 5\<rparr>], ro_topic = None\<rparr>"
proof -
  have "bus_topics system_bus = []" by (simp add: system_bus_def posix_example_def)
  moreover have "bus_fds (system_bus\<lparr>bus_requests := rs\<rparr>) = [4, 5]" using system_bus_ok(3) by (simp add: bus_fds_def)
  moreover have "bus_inv (system_bus\<lparr>bus_requests := rs\<rparr>)"
    using system_bus_ok(1) assms by (auto simp: bus_inv_def bus_ok_def bus_quiet_def bus_fds_def list_all_iff)
  ultimately show ?thesis
    using assms system_drained
    by (auto simp: bus_router_def implements_def router_ok_def system_bus_state list_all_iff pending_of_def)
qed

definition silent_turn :: "nat \<Rightarrow> turn" where
  "silent_turn now = \<lparr>tu_sys = example_sys\<lparr>sys_select := (\<lambda>_ _. (0, {}))\<rparr>, tu_tod = (now, 0), tu_now = now, tu_arrival = None\<rparr>"

lemma silent_turn_arrives: "turns_arrive al [silent_turn now] bus"
  by (auto simp: silent_turn_def turn_arrives_def silent_def split: option.split sum.split)

text \<open>C1: The bus implements the router: over any sequence of polls in each of which one whole packet of any
  of the five kinds arrives on a connection of a socket sink, or nothing, what the bus sends is what the
  specification says, in that order, and the requests, stations and topic that it keeps correspond to the
  router's; the polls return, unless the specification has no next state (a second subscription, or the
  end of one that there is not), and then the bus faults.\<close>

theorem bus_refines:
  assumes "bus_router bus R" and "turns_arrive al ts bus" and "list_all (grant al) [56, 40, 32, 408]"
  shows "case router_run al R ts of
      Some (R', out) \<Rightarrow> \<exists>bus'. turns al ts bus = Some (Inr bus') \<and> bus_router bus' R' \<and> bus_sent bus' = bus_sent bus @ out
    | None \<Rightarrow> \<exists>x. turns al ts bus = Some (Inl x)"
  using turns_implement [OF assms] .

theorem bus_refines_witness:
  "\<exists>p t bus'. srrp_write_request generous 1 ''/8/hello'' ''{}'' = Inr p \<and> tu_now t = 7 \<and>
     turns generous [t, silent_turn 20] system_bus = Some (Inr bus') \<and>
     bus_sent bus' = [(5, pk_raw p), (4, ''request timeout'')]"
proof -
  obtain p where p: "srrp_write_request generous 1 ''/8/hello'' ''{}'' = Inr p" "length (pk_raw p) = 27"
    by (simp add: srrp_write_evals padded_def snprintf_s_def)
  let ?R = "\<lparr>ro_pending = [], ro_stations = [\<lparr>st_sttid = 8, st_ts_alive = 7, st_fd = 5\<rparr>], ro_topic = None\<rparr>"
  let ?t = "\<lparr>tu_sys = example_sys\<lparr>sys_recv := (\<lambda>_ _. Some (pk_raw p))\<rparr>, tu_tod = (7, 0), tu_now = 7,
    tu_arrival = Some (unix_example, system_conn 4, Request 1 ''/8/hello'' ''{}'')\<rparr>"
  have same: "system_bus\<lparr>bus_requests := []\<rparr> = system_bus" by (simp add: system_bus_def posix_example_def)
  have bus: "bus_router system_bus ?R" using system_router [of "[]"] same by simp
  have arr: "arrives (example_sys\<lparr>sys_recv := (\<lambda>_ _. Some (pk_raw p))\<rparr>) system_bus unix_example (system_conn 4) (pk_raw p)"
    by (rule system_arrives) (use p(2) in auto)
  have texts: "srrp_header_ok ''/8/hello''" "srrp_data_ok ''{}''" "length ''/8/hello'' < SRRP_HEADER_LEN"
    by (simp_all add: srrp_header_ok_def srrp_data_ok_def sublist_code SRRP_HEADER_LEN_def)
  have ta: "turns_arrive generous [?t, silent_turn 20] system_bus"
    using arr p(1) texts silent_turn_arrives [of generous 20]
    by (subst turns_arrive.simps(2)) (simp add: turn_arrives_def del: turns_arrive.simps(2) split: option.split sum.split prod.split)
  have g: "list_all (grant generous) [56, 40, 32, 408]" by (simp add: generous_def)
  have run: "\<exists>R'. router_run generous ?R [?t, silent_turn 20] = Some (R', [(5, pk_raw p), (4, ''request timeout'')])"
    using p(1) scan_dstid_8 system_route
    by (simp add: router_turn_def dst_of_def system_conn_ok Let_def silent_turn_def router_silence_def timeouts_def sweep_def expired_def)
  show ?thesis using bus_refines [OF bus ta g] run p(1) by (intro exI [of _ p] exI [of _ ?t]) (auto simp: system_bus_state)
qed

text \<open>C2: No request is forgotten: one that waits when such a sequence of polls begins, and that is three seconds
  old at one of them, has been answered by then: its sender was sent the bytes of a response with its
  source, checksum and header that arrived, or the word that it timed out.\<close>

theorem request_settled:
  assumes "bus_router bus R" and "turns_arrive al ts bus" and "list_all (grant al) [56, 40, 32, 408]"
    and "router_run al R ts \<noteq> None" and "r \<in> set (bus_requests bus)" and "\<exists>t \<in> set ts. rq_ts_send r + 3 \<le> tu_now t"
  shows "\<exists>bus' out m. turns al ts bus = Some (Inr bus') \<and> bus_sent bus' = bus_sent bus @ out \<and> (rq_fd r, m) \<in> set out \<and>
    (m = ''request timeout'' \<or> (\<exists>t \<in> set ts. responds al (pending_of r) m t))"
proof -
  obtain R' out where run: "router_run al R ts = Some (R', out)" using assms(4) by auto
  have q: "pending_of r \<in> set (ro_pending R)" "pd_fd (pending_of r) = rq_fd r" "pd_sent (pending_of r) = rq_ts_send r"
    using assms(1,5) by (auto simp: bus_router_def implements_def pending_of_def)
  then show ?thesis using turns_implement [OF assms(1-3)] run_settles [OF run q(1)] run assms(6) by auto
qed

theorem request_settled_witness:
  "\<exists>r bus' out. rq_fd r = 4 \<and> turns generous [silent_turn 9] (system_bus\<lparr>bus_requests := [r]\<rparr>) = Some (Inr bus') \<and>
     bus_sent bus' = out \<and> (4, ''request timeout'') \<in> set out"
proof -
  let ?r = "(example_request 4 1)\<lparr>rq_fd := 4, rq_state := API_REQUEST_ST_WAIT_RESPONSE, rq_ts_send := 1\<rparr>"
  have g: "list_all (grant generous) [56, 40, 32, 408]" by (simp add: generous_def)
  have bus: "bus_router (system_bus\<lparr>bus_requests := [?r]\<rparr>)
      \<lparr>ro_pending = map pending_of [?r], ro_stations = [\<lparr>st_sttid = 8, st_ts_alive = 7, st_fd = 5\<rparr>], ro_topic = None\<rparr>"
    by (rule system_router) simp
  have ran: "router_run generous R [silent_turn 9] \<noteq> None" for R by (simp add: router_turn_def silent_turn_def router_silence_def)
  have old: "?r \<in> set (bus_requests (system_bus\<lparr>bus_requests := [?r]\<rparr>))" "\<exists>t \<in> set [silent_turn 9]. rq_ts_send ?r + 3 \<le> tu_now t"
    by (simp_all add: silent_turn_def)
  obtain bus' out m where b: "turns generous [silent_turn 9] (system_bus\<lparr>bus_requests := [?r]\<rparr>) = Some (Inr bus')"
    "bus_sent bus' = bus_sent (system_bus\<lparr>bus_requests := [?r]\<rparr>) @ out" "(rq_fd ?r, m) \<in> set out"
    "m = ''request timeout'' \<or> (\<exists>t \<in> set [silent_turn 9]. responds generous (pending_of ?r) m t)"
    using request_settled [OF bus silent_turn_arrives g ran, of ?r] old by blast
  have "\<not> responds generous (pending_of ?r) m (silent_turn 9)" by (simp add: responds_def silent_turn_def)
  then show ?thesis using b by (intro exI [of _ ?r] exI [of _ bus']) (auto simp: system_bus_state)
qed

end
