(* ===== verification/Stringx.thy ===== *)
theory Stringx
  imports Cx_Prelude
begin

text \<open>
  \<open>trim\<close> (\<open>stringx.c\<close>): it works in place on the block that holds the string; a pointer into the
  block is an index. The loops are shown to stay inside the block and to compute the text without the
  given character at both ends.
\<close>

subsection \<open>The loops\<close>

function skip_while :: "mem \<Rightarrow> (char \<Rightarrow> bool) \<Rightarrow> nat \<Rightarrow> nat res" where
  "skip_while m P i =
     (if i < length m then if P (m ! i) then skip_while m P (Suc i) else Inr i else Inl OutOfBounds)"
  by pat_completeness auto
termination by (relation "measure (\<lambda>(m, P, i). length m - i)") auto

declare skip_while.simps [simp del]

fun skip_back :: "mem \<Rightarrow> char \<Rightarrow> nat \<Rightarrow> nat res" where
  "skip_back m c i =
     (if length m \<le> i then Inl OutOfBounds
      else if m ! i = c then (case i of 0 \<Rightarrow> Inl OutOfBounds | Suc j \<Rightarrow> skip_back m c j) else Inr i)"

declare skip_back.simps [simp del]

function trim_copy :: "mem \<Rightarrow> nat \<Rightarrow> nat \<Rightarrow> nat \<Rightarrow> mem \<times> nat" where
  "trim_copy m t t1 stop =
     (if t1 \<le> stop then trim_copy (m[t := m ! t1]) (Suc t) (Suc t1) stop else (m, t))"
  by pat_completeness auto
termination by (relation "measure (\<lambda>(m, t, t1, stop). Suc stop - t1)") auto

declare trim_copy.simps [simp del]

definition trim :: "mem \<Rightarrow> char \<Rightarrow> mem res" where
  "trim m c0 =
     (let c = (if c0 = NUL then CHR '' '' else c0)
      in bindR (skip_while m (\<lambda>x. x = c) 0) (\<lambda>i.
         if m ! i \<noteq> NUL
         then bindR (skip_while m (\<lambda>x. x \<noteq> NUL) i) (\<lambda>e.
              bindR (skip_back m c (e - 1)) (\<lambda>stop.
                let (m1, t) = trim_copy m 0 i stop in mem_write m1 t [NUL]))
         else mem_write m 0 [NUL]))"

subsection \<open>What they compute\<close>

lemma skip_while_finds:
  assumes "m = a @ b @ x # r" and "list_all P b" and "\<not> P x"
  shows "skip_while m P (length a) = Inr (length a + length b)"
  using assms
proof (induction b arbitrary: a)
  case Nil
  then show ?case by (subst skip_while.simps) simp
next
  case (Cons y b)
  then have "skip_while m P (length (a @ [y])) = Inr (length (a @ [y]) + length b)"
    by (intro Cons.IH) simp_all
  then show ?case using Cons.prems by (subst skip_while.simps) (simp add: nth_append)
qed

lemma skip_back_finds:
  assumes "m = a @ x # replicate n c @ r" and "x \<noteq> c"
  shows "skip_back m c (length a + n) = Inr (length a)"
  using assms(1)
proof (induction n arbitrary: r)
  case 0
  then show ?case using assms(2) by (subst skip_back.simps) (simp add: nth_append)
next
  case (Suc n)
  then have "skip_back m c (length a + n) = Inr (length a)"
    by (intro Suc.IH [of "c # r"]) (simp add: replicate_append_same)
  moreover have "(replicate (Suc n) c @ r) ! n = c" by (simp only: nth_append length_replicate lessI if_True nth_replicate)
  then have "m ! Suc (length a + n) = c" using Suc.prems by (simp add: nth_append)
  ultimately show ?case using Suc.prems by (subst skip_back.simps) simp
qed

lemma trim_copy_moves:
  assumes "t \<le> t1" and "t1 + n \<le> length m" and "stop + 1 = t1 + n"
  shows "\<exists>m'. trim_copy m t t1 stop = (m', t + n) \<and> length m' = length m \<and>
    take (t + n) m' = take t m @ take n (drop t1 m)"
  using assms
proof (induction n arbitrary: m t t1)
  case 0
  then show ?case by (subst trim_copy.simps) simp
next
  case (Suc n)
  let ?m = "m[t := m ! t1]"
  obtain m' where m': "trim_copy ?m (Suc t) (Suc t1) stop = (m', Suc t + n)" "length m' = length ?m"
    "take (Suc t + n) m' = take (Suc t) ?m @ take n (drop (Suc t1) ?m)"
    using Suc.IH [of "Suc t" "Suc t1" ?m] Suc.prems by auto
  have "drop (Suc t1) ?m = drop (Suc t1) m" using Suc.prems by simp
  moreover have "take (Suc t) ?m = take t m @ [m ! t1]"
    using Suc.prems by (simp add: take_Suc_conv_app_nth)
  moreover have "take (Suc n) (drop t1 m) = m ! t1 # take n (drop (Suc t1) m)"
    using Suc.prems by (simp add: Cons_nth_drop_Suc [symmetric])
  ultimately show ?case using m' Suc.prems by (subst trim_copy.simps) simp
qed

definition strip :: "char \<Rightarrow> string \<Rightarrow> string" where
  "strip c s = rev (dropWhile (\<lambda>x. x = c) (rev (dropWhile (\<lambda>x. x = c) s)))"

lemma all_replicate: "list_all (\<lambda>x. x = c) xs \<Longrightarrow> xs = replicate (length xs) c"
  by (induction xs) auto

lemma dropWhile_split:
  obtains i where "s = replicate i c @ dropWhile (\<lambda>x. x = c) s"
proof -
  have "takeWhile (\<lambda>x. x = c) s = replicate (length (takeWhile (\<lambda>x. x = c) s)) c"
    by (rule all_replicate) (auto simp: list_all_iff dest: set_takeWhileD)
  then show thesis using takeWhile_dropWhile_id [of "\<lambda>x. x = c" s] that by metis
qed

text \<open>A text is blanks, the stripped text, which starts and ends with something else, and blanks.\<close>

lemma strip_split:
  obtains i n where "s = replicate i c @ strip c s @ replicate n c"
    "strip c s = [] \<longrightarrow> n = 0" "strip c s \<noteq> [] \<longrightarrow> hd (strip c s) \<noteq> c \<and> last (strip c s) \<noteq> c"
proof -
  define s1 where "s1 = dropWhile (\<lambda>x. x = c) s"
  obtain i where i: "s = replicate i c @ s1" unfolding s1_def by (rule dropWhile_split)
  obtain n where "rev s1 = replicate n c @ dropWhile (\<lambda>x. x = c) (rev s1)" by (rule dropWhile_split)
  then have "rev (rev s1) = rev (replicate n c @ dropWhile (\<lambda>x. x = c) (rev s1))" by (rule arg_cong)
  then have n: "s1 = strip c s @ replicate n c" by (simp add: strip_def s1_def [symmetric])
  have hd1: "hd s1 \<noteq> c" if "s1 \<noteq> []" using that hd_dropWhile [of "\<lambda>x. x = c" s] by (simp add: s1_def)
  have last: "last (strip c s) \<noteq> c" if "strip c s \<noteq> []"
    using that hd_dropWhile [of "\<lambda>x. x = c" "rev s1"] by (simp add: strip_def s1_def [symmetric] last_rev)
  have hd: "hd (strip c s) \<noteq> c" if "strip c s \<noteq> []"
  proof -
    have "hd s1 = hd (strip c s)" unfolding n using that by (rule hd_append2)
    moreover have "s1 \<noteq> []" unfolding n using that by simp
    ultimately show ?thesis using hd1 by simp
  qed
  have none: "n = 0" if e: "strip c s = []"
  proof (rule ccontr)
    assume "n \<noteq> 0"
    then obtain k where "n = Suc k" by (cases n) auto
    then have "s1 = c # replicate k c" using n e by simp
    then show False using hd1 by simp
  qed
  show thesis by (rule that [of i n]) (use i n none hd last in simp_all)
qed

lemma trim_blank:
  assumes "m = replicate i c @ NUL # r" and "c \<noteq> NUL" and "c = (if c0 = NUL then CHR '' '' else c0)"
  shows "\<exists>m'. trim m c0 = Inr m' \<and> cstr m' = [] \<and> terminated m' \<and> length m' = length m"
proof -
  have "skip_while m (\<lambda>x. x = c) 0 = Inr i"
    using skip_while_finds [of m "[]" "replicate i c" NUL r "\<lambda>x. x = c"] assms(1,2) by (simp add: list_all_iff)
  moreover have "m ! i = NUL" by (simp add: assms(1) nth_append)
  moreover obtain y ys where "m = y # ys" using assms(1) by (cases i) auto
  ultimately show ?thesis using assms(3)
    by (simp add: trim_def Let_def mem_write_def) (simp add: cstr_def terminated_def)
qed

lemma trim_text:
  assumes m: "m = replicate i c @ t @ replicate n c @ NUL # r" and cN: "c \<noteq> NUL"
    and c0: "c = (if c0 = NUL then CHR '' '' else c0)"
    and t: "t \<noteq> []" "hd t \<noteq> c" "last t \<noteq> c" "NUL \<notin> set t"
  shows "\<exists>m'. trim m c0 = Inr m' \<and> cstr m' = t \<and> terminated m' \<and> length m' = length m"
proof -
  obtain x xs where x: "t = x # xs" "x \<noteq> c" "x \<noteq> NUL" using t by (cases t) auto
  obtain ys y where y: "t = ys @ [y]" "y \<noteq> c" using t by (cases t rule: rev_cases) auto
  have "skip_while m (\<lambda>x. x = c) 0 = Inr i"
    using skip_while_finds [of m "[]" "replicate i c" x "xs @ replicate n c @ NUL # r" "\<lambda>x. x = c"] m x
    by (simp add: list_all_iff)
  moreover have "m ! i = x" by (simp add: m x(1) nth_append)
  moreover have "list_all (\<lambda>x. x \<noteq> NUL) (t @ replicate n c)" using t(4) cN by (auto simp: list_all_iff)
  then have "skip_while m (\<lambda>x. x \<noteq> NUL) i = Inr (i + length t + n)"
    using skip_while_finds [of m "replicate i c" "t @ replicate n c" NUL r "\<lambda>x. x \<noteq> NUL"] m
    by (simp add: add.assoc)
  moreover have "skip_back m c (i + length t + n - 1) = Inr (i + length t - 1)"
    using skip_back_finds [of m "replicate i c @ ys" y n c "NUL # r"] m y by simp
  moreover obtain m' where "trim_copy m 0 i (i + length t - 1) = (m', length t)" "length m' = length m"
    "take (length t) m' = take (length t) (drop i m)"
    using trim_copy_moves [of 0 i "length t" m "i + length t - 1"] t(1) m by (auto simp: Suc_leI)
  moreover have "take (length t) (drop i m) = t" "length t < length m" by (simp_all add: m)
  ultimately have "trim m c0 = Inr (t @ NUL # drop (Suc (length t)) m')" "length m' = length m" "length t < length m"
    using c0 x(3) by (simp_all add: trim_def Let_def mem_write_def)
  then show ?thesis using t(4) by (simp add: terminated_def)
qed

lemma trim_text_or_blank:
  assumes "terminated m"
  shows "\<exists>m'. trim m c0 = Inr m' \<and> length m' = length m \<and> terminated m' \<and>
    cstr m' = strip (if c0 = NUL then CHR '' '' else c0) (cstr m)"
proof -
  define c where "c = (if c0 = NUL then CHR '' '' else c0)"
  define t where "t = strip c (cstr m)"
  have cN: "c \<noteq> NUL" by (simp add: c_def)
  obtain r where r: "m = cstr m @ NUL # r" using cstr_decomp [OF assms] by blast
  obtain i n where split: "cstr m = replicate i c @ t @ replicate n c" "t = [] \<longrightarrow> n = 0"
    "t \<noteq> [] \<longrightarrow> hd t \<noteq> c \<and> last t \<noteq> c" unfolding t_def using strip_split [of "cstr m" c] .
  from r have m: "m = replicate i c @ t @ replicate n c @ NUL # r" unfolding split(1) by simp
  have "NUL \<notin> set (replicate i c @ t @ replicate n c)" using NUL_notin_cstr [of m] unfolding split(1) .
  then have noN: "NUL \<notin> set t" by simp
  have "\<exists>m'. trim m c0 = Inr m' \<and> cstr m' = t \<and> terminated m' \<and> length m' = length m"
    using trim_blank [of m i c r c0] trim_text [of m i c t n r c0] m cN split(2,3) noN c_def by (cases "t = []") simp_all
  then show ?thesis unfolding t_def c_def by blast
qed

text \<open>\<open>trim\<close> stays inside the block of the string and leaves in it the string without the given
  character (a blank when that is zero) at its two ends.\<close>

theorem trim_strips:
  assumes "terminated m"
  shows "\<exists>m'. trim m c0 = Inr m' \<and> length m' = length m \<and> terminated m' \<and>
    cstr m' = strip (if c0 = NUL then CHR '' '' else c0) (cstr m)"
  using trim_text_or_blank [OF assms] .

theorem trim_strips_witness:
  "\<exists>m'. trim (''  a b '' @ [NUL, CHR ''x'']) NUL = Inr m' \<and> length m' = 8 \<and> cstr m' = ''a b''"
  using trim_strips [of "''  a b '' @ [NUL, CHR ''x'']" NUL] by (auto simp: terminated_def strip_def cstr_def)

end
