(* ===== verification/Opt.thy ===== *)
theory Opt
  imports Cx_Stdio Stringx
begin

text \<open>
  Options of a program (\<open>opt.c\<close>, \<open>opt.h\<close>): a table of options that the command line and a
  configuration file fill. The table is the array with its sentinel, a pointer into it an index; the
  union of an option's value is a datatype, so that reading another member than the one stored is a
  fault. A string value is a pointer to a text, \<open>None\<close> being \<open>NULL\<close>. The contents of the file, or the
  message why it cannot be opened, are an argument. \<open>errmsg\<close> is passed along.
\<close>

subsection \<open>The table\<close>

datatype opt_type = OPT_NONE | OPT_STRING_STATIC | OPT_STRING | OPT_INTEGER | OPT_BOOL

datatype opt_value = ValS "string option" | ValI int | ValB bool

record opt =
  op_short :: "string option"
  op_key :: "string option"
  op_value :: opt_value
  op_type :: opt_type
  op_desc :: string

definition INIT_OPT_STRING :: "string \<Rightarrow> string \<Rightarrow> string \<Rightarrow> string \<Rightarrow> opt" where
  "INIT_OPT_STRING optshort key val desc =
     \<lparr>op_short = Some optshort, op_key = Some key, op_value = ValS (Some val), op_type = OPT_STRING_STATIC, op_desc = desc\<rparr>"

definition INIT_OPT_INT :: "string \<Rightarrow> string \<Rightarrow> int \<Rightarrow> string \<Rightarrow> opt" where
  "INIT_OPT_INT optshort key val desc =
     \<lparr>op_short = Some optshort, op_key = Some key, op_value = ValI val, op_type = OPT_INTEGER, op_desc = desc\<rparr>"

definition INIT_OPT_BOOL :: "string \<Rightarrow> string \<Rightarrow> bool \<Rightarrow> string \<Rightarrow> opt" where
  "INIT_OPT_BOOL optshort key val desc =
     \<lparr>op_short = Some optshort, op_key = Some key, op_value = ValB val, op_type = OPT_BOOL, op_desc = desc\<rparr>"

definition INIT_OPT_NONE :: opt where
  "INIT_OPT_NONE = \<lparr>op_short = None, op_key = None, op_value = ValS None, op_type = OPT_NONE, op_desc = []\<rparr>"

definition OPTERR_UNKNOW_OPT :: int where "OPTERR_UNKNOW_OPT = 1"
definition OPTERR_MISS_ARG :: int where "OPTERR_MISS_ARG = 2"
definition OPTERR_WRONG_VALUE :: int where "OPTERR_WRONG_VALUE = 3"
definition OPTERR_CONFIG_FILE_OPEN_FAILED :: int where "OPTERR_CONFIG_FILE_OPEN_FAILED = 4"
definition ERRMSG_LEN :: nat where "ERRMSG_LEN = 2048"

text \<open>The text of the last error, which the functions below take and return.\<close>

definition opt_errmsg :: "string \<Rightarrow> string" where
  "opt_errmsg errmsg = errmsg"

subsection \<open>Reading a value\<close>

definition opt_string :: "opt \<Rightarrow> string option res" where
  "opt_string o1 = assertR (op_type o1 = OPT_STRING_STATIC \<or> op_type o1 = OPT_STRING)
     (case op_value o1 of ValS p \<Rightarrow> Inr p | _ \<Rightarrow> Inl BadPointer)"

definition opt_int :: "opt \<Rightarrow> int res" where
  "opt_int o1 = assertR (op_type o1 = OPT_INTEGER) (case op_value o1 of ValI i \<Rightarrow> Inr i | _ \<Rightarrow> Inl BadPointer)"

definition opt_bool :: "opt \<Rightarrow> bool res" where
  "opt_bool o1 = assertR (op_type o1 = OPT_BOOL) (case op_value o1 of ValB b \<Rightarrow> Inr b | _ \<Rightarrow> Inl BadPointer)"

subsection \<open>Storing a value\<close>

text \<open>\<open>strcasecmp\<close> of the C locale, and \<open>strtol\<close> with base 0, stored into an \<open>int\<close>.\<close>

definition tolower_c :: "char \<Rightarrow> char" where
  "tolower_c c = (if 65 \<le> code c \<and> code c \<le> 90 then char_of (code c + 32) else c)"

definition strcasecmp_eq :: "string \<Rightarrow> string \<Rightarrow> bool" where
  "strcasecmp_eq a b \<longleftrightarrow> map tolower_c a = map tolower_c b"

fun digits_num :: "nat \<Rightarrow> nat \<Rightarrow> string \<Rightarrow> nat" where
  "digits_num base acc [] = acc"
| "digits_num base acc (c # cs) = digits_num base (base * acc + (case xdigit c of Some d \<Rightarrow> d | None \<Rightarrow> 0)) cs"

definition digits_of :: "nat \<Rightarrow> string \<Rightarrow> string" where
  "digits_of base = takeWhile (\<lambda>c. case xdigit c of Some d \<Rightarrow> d < base | None \<Rightarrow> False)"

definition strtol_0 :: "string \<Rightarrow> int" where
  "strtol_0 s =
     (let s1 = dropWhile isspace_c s;
          (neg, a) = scan_sign s1;
          r = drop a s1;
          v = (if scan_0x r = 2 \<and> digits_of 16 (drop 2 r) \<noteq> [] then digits_num 16 0 (digits_of 16 (drop 2 r))
               else if take 1 r = ''0'' then digits_num 8 0 (digits_of 8 r)
               else digits_num 10 0 (digits_of 10 r))
      in if neg then max (- (2 ^ 63)) (- int v) else min (2 ^ 63 - 1) (int v))"

definition convert_bool :: "string \<Rightarrow> bool" where
  "convert_bool str =
     (let len = length str
      in if len = 2 \<and> strcasecmp_eq str ''on'' \<or> len = 3 \<and> strcasecmp_eq str ''yes'' \<or> len = 4 \<and> strcasecmp_eq str ''true''
         then True
         else if len = 3 \<and> strcasecmp_eq str ''off'' \<or> len = 2 \<and> strcasecmp_eq str ''no'' \<or> len = 5 \<and> strcasecmp_eq str ''false''
         then False
         else False)"

text \<open>A copy of a text on the heap, trimmed.\<close>

definition trimmed_copy :: "allocator \<Rightarrow> string \<Rightarrow> string res" where
  "trimmed_copy al str =
     (if grant al (length str + 1) then bindR (trim (str @ [NUL]) NUL) (\<lambda>m. Inr (cstr m)) else Inl NullDeref)"

definition opt_parse_value :: "allocator \<Rightarrow> opt \<Rightarrow> string \<Rightarrow> opt res" where
  "opt_parse_value al o1 str =
     (if op_type o1 = OPT_STRING_STATIC
      then bindR (trimmed_copy al str) (\<lambda>s. Inr (o1\<lparr>op_type := OPT_STRING, op_value := ValS (Some s)\<rparr>))
      else if op_type o1 = OPT_STRING
      then bindR (trimmed_copy al str) (\<lambda>s. Inr (o1\<lparr>op_value := ValS (Some s)\<rparr>))
      else if op_type o1 = OPT_INTEGER then Inr (o1\<lparr>op_value := ValI (to_int32 (strtol_0 str))\<rparr>)
      else if op_type o1 = OPT_BOOL then Inr (o1\<lparr>op_value := ValB (convert_bool str)\<rparr>)
      else Inr o1)"

subsection \<open>Finding an option\<close>

text \<open>Both searches run up to the sentinel and return the index of the first entry that fits.\<close>

fun find_from :: "(opt \<Rightarrow> bool res) \<Rightarrow> nat \<Rightarrow> opt list \<Rightarrow> nat option res" where
  "find_from P k [] = Inl OutOfBounds"
| "find_from P k (iter # rest) =
     (if op_short iter = None then Inr None
      else bindR (P iter) (\<lambda>b. if b then Inr (Some k) else find_from P (Suc k) rest))"

definition find_short :: "string \<Rightarrow> opt list \<Rightarrow> nat option res" where
  "find_short optshort opttab =
     find_from (\<lambda>iter. case op_short iter of None \<Rightarrow> Inl NullDeref | Some s \<Rightarrow> Inr (strncmp_eq optshort s (length optshort))) 0 opttab"

definition find_opt :: "string \<Rightarrow> opt list \<Rightarrow> nat option res" where
  "find_opt key opttab =
     find_from (\<lambda>iter. case op_key iter of None \<Rightarrow> Inl NullDeref | Some k \<Rightarrow> Inr (strcasecmp_eq key k)) 0 opttab"

subsection \<open>The command line\<close>

definition first_char :: "string \<Rightarrow> char" where
  "first_char s = (case s of [] \<Rightarrow> NUL | c # _ \<Rightarrow> c)"

definition errmsg_of :: "string \<Rightarrow> string \<Rightarrow> string" where
  "errmsg_of text arg = snprintf_s ERRMSG_LEN (text @ arg)"

function opt_args ::
  "allocator \<Rightarrow> opt list \<Rightarrow> string \<Rightarrow> nat \<Rightarrow> string list \<Rightarrow> (int \<times> opt list \<times> string) res" where
  "opt_args al opttab err idx [] = Inr (0, opttab, err)"
| "opt_args al opttab err idx (z # rest) =
     (if first_char z = CHR ''-''
      then bindR (find_short z opttab) (\<lambda>tmp.
        case tmp of
          None \<Rightarrow> Inr (OPTERR_UNKNOW_OPT, opttab, errmsg_of ''unknown opt '' z)
        | Some k \<Rightarrow>
            if (case op_short (opttab ! k) of Some s \<Rightarrow> strchr_c s (CHR '':'') \<noteq> None | None \<Rightarrow> False)
            then (case rest of
                    [] \<Rightarrow> Inr (OPTERR_MISS_ARG, opttab, errmsg_of ''missing argument for '' z)
                  | v # rest1 \<Rightarrow>
                      if first_char v = CHR ''-''
                      then Inr (OPTERR_MISS_ARG, opttab, errmsg_of ''missing argument for '' z)
                      else bindR (opt_parse_value al (opttab ! k) v) (\<lambda>o1.
                           opt_args al (opttab[k := o1]) err idx rest1))
            else if op_type (opttab ! k) \<noteq> OPT_BOOL
            then Inr (OPTERR_WRONG_VALUE, opttab, errmsg_of ''wrong value type of '' z)
            else opt_args al (opttab[k := (opttab ! k)\<lparr>op_value := ValB True\<rparr>]) err idx rest)
      else bindR (find_short (snprintf_s 16 (print_d (int idx))) opttab) (\<lambda>tmp.
        case tmp of
          None \<Rightarrow> Inr (OPTERR_UNKNOW_OPT, opttab, errmsg_of ''unknown opt '' z)
        | Some k \<Rightarrow> bindR (opt_parse_value al (opttab ! k) z) (\<lambda>o1.
            opt_args al (opttab[k := o1]) err (idx + 1) rest)))"
  by pat_completeness auto
termination by (relation "measure (\<lambda>(_, _, _, _, args). length args)") auto

definition opt_init_from_arg ::
  "allocator \<Rightarrow> opt list \<Rightarrow> string \<Rightarrow> string list \<Rightarrow> (int \<times> opt list \<times> string) res" where
  "opt_init_from_arg al opttab err argv = opt_args al opttab err 0 (drop 1 argv)"

subsection \<open>The configuration file\<close>

abbreviation newline :: char where
  "newline \<equiv> CHR 0x0A"

text \<open>\<open>fgets\<close> into an array of \<open>n\<close> bytes: up to and including the end of the line, as far as it fits.\<close>

definition fgets_c :: "nat \<Rightarrow> string \<Rightarrow> (string \<times> string) option" where
  "fgets_c n s =
     (let a = takeWhile (\<lambda>c. c \<noteq> newline) s;
          l = take (n - 1) (a @ take 1 (drop (length a) s))
      in if l = [] then None else Some (l, drop (length l) s))"

text \<open>\<open>sscanf(line, "%1023[^:]: %1023[^\r\n]", w1, w2)\<close>, when it assigns both.\<close>

definition scan_line :: "string \<Rightarrow> (string \<times> string) option" where
  "scan_line line =
     (let w1 = take 1023 (takeWhile (\<lambda>c. c \<noteq> CHR '':'') line);
          r = drop (length w1) line
      in if w1 = [] \<or> first_char r \<noteq> CHR '':'' then None
         else let w2 = take 1023 (takeWhile (\<lambda>c. c \<noteq> CHR 0x0D \<and> c \<noteq> newline) (dropWhile isspace_c (drop 1 r)))
              in if w2 = [] then None else Some (w1, w2))"

definition skipped_line :: "string \<Rightarrow> bool" where
  "skipped_line line \<longleftrightarrow> first_char line = CHR ''#'' \<or>
     first_char line = CHR ''/'' \<and> first_char (drop 1 line) = CHR ''/'' \<or>
     first_char line = newline \<and> first_char (drop 1 line) = NUL"

lemma fgets_c_shorter:
  assumes "fgets_c n s = Some (l, rest)"
  shows "length rest < length s"
proof -
  have "s \<noteq> []" using assms by (auto simp: fgets_c_def)
  moreover have "rest = drop (length l) s" "l \<noteq> []" using assms by (auto simp: fgets_c_def Let_def split: if_splits)
  ultimately show ?thesis by simp
qed

text \<open>The loop over the lines; the flag of the result tells whether the file is left open.\<close>

function opt_lines :: "allocator \<Rightarrow> opt list \<Rightarrow> string \<Rightarrow> string \<Rightarrow> (int \<times> opt list \<times> string \<times> bool) res" where
  "opt_lines al opttab err s =
     (case fgets_c 1024 s of
        None \<Rightarrow> Inr (0, opttab, err, False)
      | Some (l, rest) \<Rightarrow>
          let line = cstr l
          in if skipped_line line then opt_lines al opttab err rest
             else (case scan_line line of
                    None \<Rightarrow> opt_lines al opttab err rest
                  | Some (w1, w2) \<Rightarrow>
                      bindR (find_opt w1 opttab) (\<lambda>tmp.
                        case tmp of
                          None \<Rightarrow> Inr (OPTERR_UNKNOW_OPT, opttab, errmsg_of ''unknown opt '' w1, True)
                        | Some k \<Rightarrow> bindR (opt_parse_value al (opttab ! k) w2) (\<lambda>o1.
                            opt_lines al (opttab[k := o1]) err rest))))"
  by pat_completeness auto
termination by (relation "measure (\<lambda>(_, _, _, s). length s)") (auto simp: fgets_c_shorter)

declare opt_lines.simps [simp del]

definition opt_init_from_file ::
  "allocator \<Rightarrow> opt list \<Rightarrow> string \<Rightarrow> string + string \<Rightarrow> (int \<times> opt list \<times> string \<times> bool) res" where
  "opt_init_from_file al opttab err file =
     (case file of
        Inl reason \<Rightarrow> Inr (OPTERR_CONFIG_FILE_OPEN_FAILED, opttab, errmsg_of ''fopen: '' reason, False)
      | Inr contents \<Rightarrow> opt_lines al opttab err contents)"

subsection \<open>Release and usage\<close>

fun opt_fini :: "opt list \<Rightarrow> opt list res" where
  "opt_fini [] = Inl OutOfBounds"
| "opt_fini (iter # rest) =
     (if op_short iter = None then Inr (iter # rest)
      else bindR (if op_type iter = OPT_STRING
                  then (case op_value iter of
                          ValS p \<Rightarrow> assertR (p \<noteq> None) (Inr (iter\<lparr>op_value := ValS None\<rparr>))
                        | _ \<Rightarrow> Inl BadPointer)
                  else Inr iter) (\<lambda>iter1.
           bindR (opt_fini rest) (\<lambda>rest1. Inr (iter1 # rest1))))"

text \<open>A line of the usage text; \<open>%-12s\<close> pads on the right.\<close>

definition usage_line :: "opt \<Rightarrow> string \<Rightarrow> string" where
  "usage_line iter optshort =
     (let m0 = snprintf_s 16 optshort @ [NUL];
          m1 = m0 @ replicate (16 - length m0) NUL;
          m2 = (if op_type iter \<noteq> OPT_BOOL then take 2 m1 @ '' <arg>'' @ [NUL] @ drop 9 m1 else m1);
          buf = cstr m2
      in ''  '' @ buf @ replicate (12 - length buf) (CHR '' '') @ '' '' @ op_desc iter @ [newline])"

fun usage_lines :: "opt list \<Rightarrow> string res" where
  "usage_lines [] = Inl OutOfBounds"
| "usage_lines (iter # rest) =
     (case op_short iter of
        None \<Rightarrow> Inr []
      | Some optshort \<Rightarrow> bindR (usage_lines rest) (\<lambda>t. Inr (usage_line iter optshort @ t)))"

definition opt_usage :: "opt list \<Rightarrow> string res" where
  "opt_usage opttab = bindR (usage_lines opttab) (\<lambda>t. Inr (''Usage:'' @ [newline] @ t))"

subsection \<open>The types of the values\<close>

definition opt_typed :: "opt \<Rightarrow> bool" where
  "opt_typed o1 \<longleftrightarrow> op_key o1 \<noteq> None \<and> (case op_type o1 of
     OPT_NONE \<Rightarrow> True
   | OPT_STRING_STATIC \<Rightarrow> \<exists>s. op_value o1 = ValS s
   | OPT_STRING \<Rightarrow> \<exists>s. op_value o1 = ValS s
   | OPT_INTEGER \<Rightarrow> \<exists>i. op_value o1 = ValI i \<and> - (2 ^ 31) \<le> i \<and> i < 2 ^ 31
   | OPT_BOOL \<Rightarrow> \<exists>b. op_value o1 = ValB b)"

definition entries :: "opt list \<Rightarrow> opt list" where
  "entries = takeWhile (\<lambda>o1. op_short o1 \<noteq> None)"

definition tab_ok :: "opt list \<Rightarrow> bool" where
  "tab_ok tab \<longleftrightarrow> entries tab \<noteq> tab \<and> list_all opt_typed (entries tab)"

text \<open>What filling a table may change in an entry: its value, though never into \<open>NULL\<close>, and that a text is
  now on the heap.\<close>

definition refilled :: "opt \<Rightarrow> opt \<Rightarrow> bool" where
  "refilled o1 o2 \<longleftrightarrow> op_short o2 = op_short o1 \<and> op_key o2 = op_key o1 \<and> op_desc o2 = op_desc o1 \<and>
    (op_type o2 = op_type o1 \<or> op_type o1 = OPT_STRING_STATIC \<and> op_type o2 = OPT_STRING) \<and>
    (op_value o1 \<noteq> ValS None \<longrightarrow> op_value o2 \<noteq> ValS None)"

lemma refilled_refl [simp]: "refilled o1 o1"
  by (simp add: refilled_def)

lemma refilled_trans: "refilled a b \<Longrightarrow> refilled b c \<Longrightarrow> refilled a c"
  by (auto simp: refilled_def)

lemma refilled_all_refl [simp]: "list_all2 refilled tab tab"
  by (simp add: list.rel_refl)

lemma refilled_all_trans: "list_all2 refilled a b \<Longrightarrow> list_all2 refilled b c \<Longrightarrow> list_all2 refilled a c"
  using list_all2_trans [of refilled refilled refilled] refilled_trans by blast

lemma entries_short: "o1 \<in> set (entries tab) \<Longrightarrow> op_short o1 \<noteq> None"
  unfolding entries_def by (induction tab) (auto split: if_splits)

lemma entries_nth: "k < length (entries tab) \<Longrightarrow> entries tab ! k = tab ! k"
  by (simp add: entries_def takeWhile_nth)

lemma entries_le: "length (entries tab) \<le> length tab"
  by (simp add: entries_def length_takeWhile_le)

lemma entries_update:
  "k < length (entries tab) \<Longrightarrow> op_short o1 \<noteq> None \<Longrightarrow> entries (tab[k := o1]) = (entries tab)[k := o1]"
proof (induction tab arbitrary: k)
  case (Cons o2 tab)
  then show ?case by (cases k) (auto simp: entries_def split: if_splits)
qed (simp add: entries_def)

lemma tab_ok_update:
  assumes "tab_ok tab" and "k < length (entries tab)" and "refilled (tab ! k) o1" and "opt_typed o1"
  shows "tab_ok (tab[k := o1])" "list_all2 refilled tab (tab[k := o1])" "length (entries (tab[k := o1])) = length (entries tab)"
proof -
  have "entries tab ! k \<in> set (entries tab)" using assms(2) by simp
  then have "op_short (entries tab ! k) \<noteq> None" by (rule entries_short)
  then have "op_short (tab ! k) \<noteq> None" using entries_nth [OF assms(2)] by simp
  then have e: "entries (tab[k := o1]) = (entries tab)[k := o1]"
    using entries_update [OF assms(2)] assms(3) by (simp add: refilled_def)
  have l: "length (entries tab) \<noteq> length tab"
    using assms(1) unfolding tab_ok_def entries_def by (metis takeWhile_eq_take take_all le_refl)
  have "length (entries (tab[k := o1])) \<noteq> length (tab[k := o1])" using l e by simp
  then have "entries (tab[k := o1]) \<noteq> tab[k := o1]" by metis
  moreover have "list_all opt_typed ((entries tab)[k := o1])"
    using assms(1,4) set_update_subset_insert [of "entries tab" k o1] by (auto simp: tab_ok_def list_all_iff)
  ultimately show "tab_ok (tab[k := o1])" by (simp add: tab_ok_def e)
  show "list_all2 refilled tab (tab[k := o1])" using assms(2,3) entries_le [of tab] by (auto simp: list_all2_conv_all_nth nth_list_update)
  show "length (entries (tab[k := o1])) = length (entries tab)" using e by simp
qed

lemma to_int32_range: "- (2 ^ 31) \<le> to_int32 i" "to_int32 i < 2 ^ 31"
  by (simp_all add: to_int32_def)

text \<open>A text is stored as the text without blanks at its ends.\<close>

lemma trimmed_copy_ok:
  assumes "\<And>n. grant al n" and "NUL \<notin> set str"
  shows "trimmed_copy al str = Inr (strip (CHR '' '') str)"
  using trim_text_or_blank [of "str @ [NUL]" NUL] assms by (auto simp: trimmed_copy_def terminated_def)

definition parsed_value :: "opt \<Rightarrow> string \<Rightarrow> opt" where
  "parsed_value o1 str = (case op_type o1 of
     OPT_NONE \<Rightarrow> o1
   | OPT_STRING_STATIC \<Rightarrow> o1\<lparr>op_type := OPT_STRING, op_value := ValS (Some (strip (CHR '' '') str))\<rparr>
   | OPT_STRING \<Rightarrow> o1\<lparr>op_value := ValS (Some (strip (CHR '' '') str))\<rparr>
   | OPT_INTEGER \<Rightarrow> o1\<lparr>op_value := ValI (to_int32 (strtol_0 str))\<rparr>
   | OPT_BOOL \<Rightarrow> o1\<lparr>op_value := ValB (convert_bool str)\<rparr>)"

lemma opt_parse_value_ok:
  assumes "\<And>n. grant al n" and "NUL \<notin> set str"
  shows "opt_parse_value al o1 str = Inr (parsed_value o1 str)"
  using trimmed_copy_ok [OF assms] by (cases "op_type o1") (simp_all add: opt_parse_value_def parsed_value_def)

lemma parsed_value_ok: "refilled o1 (parsed_value o1 str)" "opt_typed o1 \<Longrightarrow> opt_typed (parsed_value o1 str)"
  using to_int32_range by (auto simp: parsed_value_def refilled_def opt_typed_def split: opt_type.splits)

lemma find_from_total:
  assumes "\<And>o1. o1 \<in> set (entries tab) \<Longrightarrow> P o1 = Inr (Q o1)" and "entries tab \<noteq> tab"
  shows "\<exists>r. find_from P k tab = Inr r \<and>
    (case r of None \<Rightarrow> \<forall>o1 \<in> set (entries tab). \<not> Q o1
     | Some i \<Rightarrow> \<exists>j. i = k + j \<and> j < length (entries tab) \<and> Q (tab ! j) \<and> (\<forall>o1 \<in> set (take j tab). \<not> Q o1))"
  using assms
proof (induction tab arbitrary: k)
  case (Cons o1 tab)
  show ?case
  proof (cases "op_short o1 = None \<or> Q o1")
    case True
    then show ?thesis using Cons.prems(1) [of o1] by (cases "op_short o1") (auto simp: entries_def)
  next
    case False
    then obtain r where r: "find_from P (Suc k) tab = Inr r" "case r of None \<Rightarrow> \<forall>o1 \<in> set (entries tab). \<not> Q o1
     | Some i \<Rightarrow> \<exists>j. i = Suc k + j \<and> j < length (entries tab) \<and> Q (tab ! j) \<and> (\<forall>o1 \<in> set (take j tab). \<not> Q o1)"
      using Cons.IH [of "Suc k"] Cons.prems by (auto simp: entries_def)
    have "find_from P k (o1 # tab) = Inr r" using False r(1) Cons.prems(1) [of o1] by (auto simp: entries_def)
    moreover have "case r of None \<Rightarrow> \<forall>o2 \<in> set (entries (o1 # tab)). \<not> Q o2
     | Some i \<Rightarrow> \<exists>j. i = k + j \<and> j < length (entries (o1 # tab)) \<and> Q ((o1 # tab) ! j) \<and> (\<forall>o2 \<in> set (take j (o1 # tab)). \<not> Q o2)"
    proof (cases r)
      case (Some i)
      then obtain j where "i = Suc k + j" "j < length (entries tab)" "Q (tab ! j)" "\<forall>o2 \<in> set (take j tab). \<not> Q o2"
        using r(2) by auto
      then show ?thesis using Some False by (auto simp: entries_def intro!: exI [of _ "Suc j"])
    qed (use r(2) False in \<open>auto simp: entries_def\<close>)
    ultimately show ?thesis by blast
  qed
qed (simp add: entries_def)

text \<open>In a well-typed table both searches succeed or come to the sentinel.\<close>

lemma find_short_total:
  assumes "tab_ok tab"
  shows "\<exists>r. find_short z tab = Inr r \<and> (case r of None \<Rightarrow> True | Some k \<Rightarrow> k < length (entries tab))"
proof -
  let ?Q = "\<lambda>o1. case op_short o1 of None \<Rightarrow> False | Some s \<Rightarrow> strncmp_eq z s (length z)"
  have "(case op_short o1 of None \<Rightarrow> Inl NullDeref | Some s \<Rightarrow> Inr (strncmp_eq z s (length z))) = Inr (?Q o1)"
    if "o1 \<in> set (entries tab)" for o1
    using entries_short [OF that] by auto
  from find_from_total [of tab _ ?Q 0, OF this] assms obtain r where "find_short z tab = Inr r"
    "case r of None \<Rightarrow> \<forall>o1 \<in> set (entries tab). \<not> ?Q o1
     | Some i \<Rightarrow> \<exists>j. i = 0 + j \<and> j < length (entries tab) \<and> ?Q (tab ! j) \<and> (\<forall>o1 \<in> set (take j tab). \<not> ?Q o1)"
    unfolding find_short_def tab_ok_def by blast
  then show ?thesis by (cases r) auto
qed

definition has_key :: "string \<Rightarrow> opt \<Rightarrow> bool" where
  "has_key key o1 \<longleftrightarrow> (case op_key o1 of None \<Rightarrow> False | Some k \<Rightarrow> strcasecmp_eq key k)"

lemma find_opt_total:
  assumes "tab_ok tab"
  shows "\<exists>r. find_opt key tab = Inr r \<and> (case r of None \<Rightarrow> \<forall>o1 \<in> set (entries tab). \<not> has_key key o1
     | Some k \<Rightarrow> k < length (entries tab) \<and> has_key key (tab ! k) \<and> (\<forall>o1 \<in> set (take k tab). \<not> has_key key o1))"
proof -
  have "(case op_key o1 of None \<Rightarrow> Inl NullDeref | Some k \<Rightarrow> Inr (strcasecmp_eq key k)) = Inr (has_key key o1)"
    if "o1 \<in> set (entries tab)" for o1
    using that assms by (auto simp: tab_ok_def list_all_iff opt_typed_def has_key_def)
  from find_from_total [of tab _ "has_key key" 0, OF this] assms obtain r where "find_opt key tab = Inr r"
    "case r of None \<Rightarrow> \<forall>o1 \<in> set (entries tab). \<not> has_key key o1
     | Some i \<Rightarrow> \<exists>j. i = 0 + j \<and> j < length (entries tab) \<and> has_key key (tab ! j) \<and> (\<forall>o1 \<in> set (take j tab). \<not> has_key key o1)"
    unfolding find_opt_def tab_ok_def by blast
  then show ?thesis by (cases r) auto
qed

lemma tab_ok_nth: "tab_ok tab \<Longrightarrow> k < length (entries tab) \<Longrightarrow> opt_typed (tab ! k)"
  by (auto simp: tab_ok_def list_all_length entries_nth)

text \<open>One value stored: the table stays well-typed.\<close>

lemma tab_ok_parsed:
  assumes "tab_ok tab" and "k < length (entries tab)"
  shows "tab_ok (tab[k := parsed_value (tab ! k) v])" "list_all2 refilled tab (tab[k := parsed_value (tab ! k) v])"
  using tab_ok_update [OF assms parsed_value_ok(1) parsed_value_ok(2) [OF tab_ok_nth [OF assms]]] by blast+

definition fills :: "opt list \<Rightarrow> opt list \<Rightarrow> bool" where
  "fills tab tab' \<longleftrightarrow> tab_ok tab' \<and> list_all2 refilled tab tab'"

lemma fills_refl: "tab_ok tab \<Longrightarrow> fills tab tab"
  by (simp add: fills_def)

lemma fills_step: "fills tab1 tab2 \<Longrightarrow> list_all2 refilled tab tab1 \<Longrightarrow> fills tab tab2"
  using refilled_all_trans unfolding fills_def by blast

lemma flag_set_ok:
  assumes "tab_ok tab" and "k < length (entries tab)" and "op_type (tab ! k) = OPT_BOOL"
  shows "tab_ok (tab[k := (tab ! k)\<lparr>op_value := ValB True\<rparr>]) \<and> list_all2 refilled tab (tab[k := (tab ! k)\<lparr>op_value := ValB True\<rparr>])"
proof -
  let ?flag = "(tab ! k)\<lparr>op_value := ValB True\<rparr>"
  have "refilled (tab ! k) ?flag" by (simp add: refilled_def)
  moreover have "opt_typed ?flag" using assms(3) tab_ok_nth [OF assms(1,2)] by (auto simp: opt_typed_def)
  ultimately show ?thesis using tab_ok_update [OF assms(1,2)] by blast
qed

lemma opt_args_fills:
  assumes grants: "\<And>n. grant al n" and "tab_ok tab" and "list_all (\<lambda>z. NUL \<notin> set z) args"
  shows "\<exists>code tab' err'. opt_args al tab err idx args = Inr (code, tab', err') \<and> fills tab tab'"
  using assms(2,3)
proof (induction "length args" arbitrary: tab idx args rule: less_induct)
  case less
  show ?case
  proof (cases args)
    case Nil
    then show ?thesis using less.prems by (simp add: fills_refl)
  next
    case (Cons z rest)
    have noN: "NUL \<notin> set z" "list_all (\<lambda>z. NUL \<notin> set z) rest" using less.prems(2) Cons by simp_all
    have stored: "\<exists>code tab' err'. bindR (opt_parse_value al (tab ! k) v) (\<lambda>o1. opt_args al (tab[k := o1]) err i as)
        = Inr (code, tab', err') \<and> fills tab tab'"
      if "k < length (entries tab)" "NUL \<notin> set v" "length as < length args" "list_all (\<lambda>z. NUL \<notin> set z) as" for k v as i
      using less.hyps [OF that(3) tab_ok_parsed(1) [OF less.prems(1) that(1)] that(4), of v i]
        opt_parse_value_ok [OF grants that(2)] fills_step tab_ok_parsed(2) [OF less.prems(1) that(1)] by fastforce
    show ?thesis
    proof (cases "first_char z = CHR ''-''")
      case dash: True
      obtain r where r: "find_short z tab = Inr r" "case r of None \<Rightarrow> True | Some k \<Rightarrow> k < length (entries tab)"
        using find_short_total [OF less.prems(1)] by blast
      show ?thesis
      proof (cases r)
        case None
        then show ?thesis using Cons dash r(1) less.prems(1) by (simp add: fills_refl)
      next
        case (Some k)
        then have k: "k < length (entries tab)" using r(2) by simp
        let ?flag = "(tab ! k)\<lparr>op_value := ValB True\<rparr>"
        have flag: "\<exists>code tab' err'. opt_args al (tab[k := ?flag]) err idx rest = Inr (code, tab', err') \<and> fills tab tab'"
          if "op_type (tab ! k) = OPT_BOOL"
          using flag_set_ok [OF less.prems(1) k that] less.hyps [of rest "tab[k := ?flag]" idx] noN(2) Cons fills_step by fastforce
        show ?thesis
          using Cons dash r(1) Some less.prems flag fills_refl [OF less.prems(1)] stored [OF k] noN(2)
          by (auto split: list.split)
      qed
    next
      case False
      obtain r where r: "find_short (snprintf_s 16 (print_d (int idx))) tab = Inr r"
        "case r of None \<Rightarrow> True | Some k \<Rightarrow> k < length (entries tab)"
        using find_short_total [OF less.prems(1)] by blast
      then show ?thesis using Cons False fills_refl [OF less.prems(1)] stored [OF _ noN(1) _ noN(2)]
        by (cases r) auto
    qed
  qed
qed

lemma scan_line_chars:
  assumes "scan_line line = Some (w1, w2)"
  shows "set w1 \<subseteq> set line" "set w2 \<subseteq> set line"
proof -
  have w: "w1 = take 1023 (takeWhile (\<lambda>c. c \<noteq> CHR '':'') line)"
    "w2 = take 1023 (takeWhile (\<lambda>c. c \<noteq> CHR 0x0D \<and> c \<noteq> newline) (dropWhile isspace_c (drop 1 (drop (length w1) line))))"
    using assms by (auto simp: scan_line_def Let_def split: if_splits)
  show "set w1 \<subseteq> set line" unfolding w(1) by (auto dest!: in_set_takeD set_takeWhileD)
  show "set w2 \<subseteq> set line"
    unfolding w(2) by (auto dest!: in_set_takeD set_takeWhileD set_dropWhileD in_set_dropD)
qed

lemma opt_lines_fills:
  assumes grants: "\<And>n. grant al n" and "tab_ok tab"
  shows "\<exists>code tab' err' open. opt_lines al tab err s = Inr (code, tab', err', open) \<and> fills tab tab'"
  using assms(2)
proof (induction "length s" arbitrary: tab s rule: less_induct)
  case less
  show ?case
  proof (cases "fgets_c 1024 s")
    case None
    then show ?thesis using less.prems by (auto simp: opt_lines.simps [of al tab err s] fills_refl)
  next
    case (Some lr)
    obtain l rest where lr: "lr = (l, rest)" by (cases lr) auto
    have shorter: "length rest < length s" using fgets_c_shorter Some lr by blast
    note again = less.hyps [OF shorter]
    show ?thesis
    proof (cases "skipped_line (cstr l) \<or> scan_line (cstr l) = None")
      case True
      then show ?thesis using again [OF less.prems] Some lr by (auto simp: opt_lines.simps [of al tab err s] Let_def)
    next
      case False
      then obtain w1 w2 where w: "scan_line (cstr l) = Some (w1, w2)" by auto
      then have "NUL \<notin> set w2" using scan_line_chars(2) [OF w] NUL_notin_cstr by blast
      note v = opt_parse_value_ok [OF grants this]
      obtain r where r: "find_opt w1 tab = Inr r" "case r of None \<Rightarrow> True | Some k \<Rightarrow> k < length (entries tab)"
        using find_opt_total [OF less.prems, of w1] by (auto split: option.splits)
      show ?thesis
      proof (cases r)
        case None
        then show ?thesis using False Some lr w r(1) less.prems by (auto simp: opt_lines.simps [of al tab err s] fills_refl)
      next
        case k: (Some k)
        then have "k < length (entries tab)" using r(2) by simp
        note t = tab_ok_parsed [OF less.prems this]
        have "opt_lines al tab err s = opt_lines al (tab[k := parsed_value (tab ! k) w2]) err rest"
          using False Some lr w r(1) v k by (simp add: opt_lines.simps [of al tab err s] Let_def)
        then show ?thesis using again [OF t(1), of w2] fills_step [OF _ t(2)] by auto
      qed
    qed
  qed
qed

definition readable :: "opt \<Rightarrow> bool" where
  "readable o1 \<longleftrightarrow> (case op_type o1 of
     OPT_NONE \<Rightarrow> True
   | OPT_STRING_STATIC \<Rightarrow> \<exists>s. opt_string o1 = Inr s
   | OPT_STRING \<Rightarrow> \<exists>s. opt_string o1 = Inr s
   | OPT_INTEGER \<Rightarrow> \<exists>i. opt_int o1 = Inr i
   | OPT_BOOL \<Rightarrow> \<exists>b. opt_bool o1 = Inr b)"

lemma opt_typed_readable: "opt_typed o1 \<Longrightarrow> readable o1"
  by (auto simp: opt_typed_def readable_def opt_string_def opt_int_def opt_bool_def split: opt_type.splits)

lemma fills_readable: "fills tab tab' \<Longrightarrow> list_all readable (entries tab')"
  unfolding fills_def tab_ok_def by (simp add: list_all_iff opt_typed_readable)

text \<open>C19: Filling a well-typed table from any command line or from any file never faults, and the
  table stays well-typed: names, keys and descriptions are as before, every option has the type it
  had, but for texts that are now on the heap, and every option can be read by the accessor of its
  type.\<close>

theorem opt_filling_typed:
  assumes "tab_ok tab" and "\<And>n. grant al n" and "list_all (\<lambda>z. NUL \<notin> set z) argv"
  shows "(\<exists>code tab' err'. opt_init_from_arg al tab err argv = Inr (code, tab', err') \<and>
      tab_ok tab' \<and> list_all2 refilled tab tab' \<and> list_all readable (entries tab')) \<and>
    (\<exists>code tab' err' open. opt_init_from_file al tab err conf = Inr (code, tab', err', open) \<and>
      tab_ok tab' \<and> list_all2 refilled tab tab' \<and> list_all readable (entries tab'))"
proof
  have "list_all (\<lambda>z. NUL \<notin> set z) (drop 1 argv)" using assms(3) by (auto simp: list_all_iff dest: in_set_dropD)
  from opt_args_fills [OF assms(2,1) this]
  show "\<exists>code tab' err'. opt_init_from_arg al tab err argv = Inr (code, tab', err') \<and>
      tab_ok tab' \<and> list_all2 refilled tab tab' \<and> list_all readable (entries tab')"
    using fills_readable unfolding opt_init_from_arg_def fills_def by blast
  show "\<exists>code tab' err' open. opt_init_from_file al tab err conf = Inr (code, tab', err', open) \<and>
      tab_ok tab' \<and> list_all2 refilled tab tab' \<and> list_all readable (entries tab')"
  proof (cases conf)
    case (Inl reason)
    then show ?thesis using fills_readable [OF fills_refl [OF assms(1)]] assms(1) by (auto simp: opt_init_from_file_def)
  next
    case (Inr contents)
    then show ?thesis using opt_lines_fills [OF assms(2,1), of err contents] fills_readable
      unfolding opt_init_from_file_def fills_def by fastforce
  qed
qed

definition opt_example :: "opt list" where
  "opt_example = [INIT_OPT_BOOL ''-D'' ''debug'' False ''debug mode'', INIT_OPT_INT ''-p:'' ''pid'' 12 ''process'',
     INIT_OPT_STRING ''-m:'' ''message'' ''no content'' ''test message'', INIT_OPT_NONE]"

lemmas opt_example_defs = opt_example_def INIT_OPT_BOOL_def INIT_OPT_INT_def INIT_OPT_STRING_def INIT_OPT_NONE_def

lemma opt_example_ok: "tab_ok opt_example"
  by (auto simp: opt_example_defs tab_ok_def entries_def opt_typed_def)

theorem opt_filling_typed_witness:
  "\<exists>code tab' err'. opt_init_from_arg generous opt_example [] [''prog'', ''-D'', ''-p'', ''0x10''] = Inr (code, tab', err') \<and>
    tab_ok tab' \<and> list_all2 refilled opt_example tab'"
  using opt_filling_typed [OF opt_example_ok, of generous "[''prog'', ''-D'', ''-p'', ''0x10'']" "[]" "Inr []"]
  by (auto simp: generous_def)

subsection \<open>What a configuration file sets\<close>

definition conf_line :: "string \<times> string \<Rightarrow> string" where
  "conf_line kv = fst kv @ '': '' @ snd kv @ [newline]"

text \<open>A key and a value that stand on a line of their own as they are.\<close>

definition setting_ok :: "string \<times> string \<Rightarrow> bool" where
  "setting_ok kv \<longleftrightarrow> fst kv \<noteq> [] \<and> set (fst kv) \<inter> {CHR '':'', newline, NUL} = {} \<and>
     hd (fst kv) \<noteq> CHR ''#'' \<and> take 2 (fst kv) \<noteq> ''//'' \<and>
     snd kv \<noteq> [] \<and> \<not> isspace_c (hd (snd kv)) \<and> set (snd kv) \<inter> {CHR 0x0D, newline, NUL} = {} \<and>
     length (fst kv) + length (snd kv) \<le> 1020"

lemma fgets_c_line:
  assumes "newline \<notin> set a" and "length a + 1 < n"
  shows "fgets_c n (a @ newline # rest) = Some (a @ [newline], rest)"
proof -
  have "takeWhile (\<lambda>c. c \<noteq> newline) (a @ newline # rest) = a" using assms(1) by (induction a) auto
  then show ?thesis using assms(2) by (simp add: fgets_c_def Let_def)
qed

lemma conf_line_facts:
  assumes "setting_ok (k, v)"
  shows "fgets_c 1024 (conf_line (k, v) @ rest) = Some (conf_line (k, v), rest)" "cstr (conf_line (k, v)) = conf_line (k, v)"
    "\<not> skipped_line (conf_line (k, v))" "scan_line (conf_line (k, v)) = Some (k, v)"
proof -
  let ?a = "k @ '': '' @ v"
  have c: "conf_line (k, v) = ?a @ [newline]" by (simp add: conf_line_def)
  have "newline \<notin> set ?a" "NUL \<notin> set ?a" "length ?a + 1 < 1024" using assms by (auto simp: setting_ok_def)
  then show "fgets_c 1024 (conf_line (k, v) @ rest) = Some (conf_line (k, v), rest)" "cstr (conf_line (k, v)) = conf_line (k, v)"
    using fgets_c_line [of ?a 1024 rest] unfolding c by auto
  obtain x xs where x: "k = x # xs" using assms by (cases k) (auto simp: setting_ok_def)
  show "\<not> skipped_line (conf_line (k, v))"
    using assms x by (cases xs) (auto simp: setting_ok_def skipped_line_def conf_line_def first_char_def)
  obtain y ys where y: "v = y # ys" "\<not> isspace_c y" using assms by (cases v) (auto simp: setting_ok_def)
  have "takeWhile (\<lambda>c. c \<noteq> CHR '':'') (k @ CHR '':'' # r) = k" for r using assms by (auto simp: setting_ok_def takeWhile_append)
  moreover have "takeWhile (\<lambda>c. c \<noteq> CHR 0x0D \<and> c \<noteq> newline) (v @ [newline]) = v" using assms by (auto simp: setting_ok_def takeWhile_append)
  moreover have "length k \<le> 1023" "length v \<le> 1023" "k \<noteq> []" using assms by (auto simp: setting_ok_def)
  moreover have "isspace_c (CHR '' '')" by (simp add: isspace_c_def code_def)
  then have "dropWhile isspace_c ('' '' @ v @ [newline]) = v @ [newline]" using y by simp
  ultimately show "scan_line (conf_line (k, v)) = Some (k, v)"
    using y by (simp add: scan_line_def conf_line_def first_char_def Let_def)
qed

text \<open>A search by key depends on the names and keys only, which filling keeps.\<close>

lemma find_opt_refilled:
  assumes "list_all2 refilled tab tab'"
  shows "find_opt key tab' = find_opt key tab"
proof -
  have "find_from (\<lambda>iter. case op_key iter of None \<Rightarrow> Inl NullDeref | Some k \<Rightarrow> Inr (strcasecmp_eq key k)) n tab' =
    find_from (\<lambda>iter. case op_key iter of None \<Rightarrow> Inl NullDeref | Some k \<Rightarrow> Inr (strcasecmp_eq key k)) n tab" for n
    using assms by (induction arbitrary: n rule: list_all2_induct) (auto simp: refilled_def split: option.split)
  then show ?thesis by (simp add: find_opt_def)
qed

definition set_opt :: "opt list \<Rightarrow> string \<times> string \<Rightarrow> opt list" where
  "set_opt tab kv = (case find_opt (fst kv) tab of Inr (Some i) \<Rightarrow> tab[i := parsed_value (tab ! i) (snd kv)] | _ \<Rightarrow> tab)"

lemma set_opt_fills: "tab_ok tab \<Longrightarrow> fills tab (set_opt tab kv)"
  using find_opt_total [of tab "fst kv"] tab_ok_parsed [of tab]
  by (auto simp: set_opt_def fills_def split: option.splits)

lemma set_opts_fills: "tab_ok tab \<Longrightarrow> fills tab (foldl set_opt tab sets)"
proof (induction sets arbitrary: tab)
  case (Cons kv sets)
  then show ?case using set_opt_fills [OF Cons.prems, of kv] fills_step [of "set_opt tab kv"] by (auto simp: fills_def)
qed (simp add: fills_refl)

lemma set_opts_find: "tab_ok tab \<Longrightarrow> find_opt key (foldl set_opt tab sets) = find_opt key tab"
  using set_opts_fills find_opt_refilled by (auto simp: fills_def)

definition known :: "opt list \<Rightarrow> string \<Rightarrow> bool" where
  "known tab key \<longleftrightarrow> (\<exists>i. find_opt key tab = Inr (Some i))"

lemma opt_lines_sets:
  assumes grants: "\<And>n. grant al n" and "tab_ok tab" and "list_all (\<lambda>kv. setting_ok kv \<and> known tab (fst kv)) sets"
  shows "opt_lines al tab err (concat (map conf_line sets)) = Inr (0, foldl set_opt tab sets, err, False)"
  using assms(2,3)
proof (induction sets arbitrary: tab)
  case Nil
  then show ?case by (simp add: opt_lines.simps fgets_c_def)
next
  case (Cons kv sets)
  obtain k v where kv: "kv = (k, v)" by (cases kv) auto
  have ok: "setting_ok (k, v)" using Cons.prems(2) kv by simp
  note line = conf_line_facts [OF ok]
  obtain i where i: "find_opt k tab = Inr (Some i)" using Cons.prems(2) kv by (auto simp: known_def)
  have "NUL \<notin> set v" using ok by (auto simp: setting_ok_def)
  note v = opt_parse_value_ok [OF grants this]
  have fills: "fills tab (set_opt tab kv)" using set_opt_fills [OF Cons.prems(1)] .
  have "list_all (\<lambda>q. setting_ok q \<and> known (set_opt tab kv) (fst q)) sets"
    using Cons.prems(2) find_opt_refilled [of tab "set_opt tab kv"] fills by (simp add: list_all_iff known_def fills_def)
  then have "opt_lines al (set_opt tab kv) err (concat (map conf_line sets)) = Inr (0, foldl set_opt (set_opt tab kv) sets, err, False)"
    using Cons.IH fills by (simp add: fills_def)
  moreover have "set_opt tab kv = tab[i := parsed_value (tab ! i) v]" using i kv by (simp add: set_opt_def)
  ultimately show ?case using line i v kv by (subst opt_lines.simps) (simp add: Let_def)
qed

lemma set_opts_other:
  assumes "tab_ok tab" and "\<forall>kv \<in> set sets. find_opt (fst kv) tab \<noteq> Inr (Some i)"
  shows "foldl set_opt tab sets ! i = tab ! i"
  using assms
proof (induction sets arbitrary: tab)
  case (Cons kv sets)
  note fills = set_opt_fills [OF Cons.prems(1), of kv]
  have "foldl set_opt (set_opt tab kv) sets ! i = set_opt tab kv ! i"
    using Cons.IH [of "set_opt tab kv"] Cons.prems(2) fills find_opt_refilled [of tab "set_opt tab kv"] by (simp add: fills_def)
  moreover have "set_opt tab kv ! i = tab ! i" using Cons.prems(2) by (auto simp: set_opt_def split: sum.splits option.splits)
  ultimately show ?case by simp
qed simp

lemma find_opt_same_key:
  assumes "tab_ok tab" and "find_opt a tab = Inr (Some i)" and "find_opt b tab = Inr (Some i)"
  shows "map tolower_c a = map tolower_c b"
  using find_opt_total [OF assms(1), of a] find_opt_total [OF assms(1), of b] assms(2,3)
  by (auto simp: has_key_def strcasecmp_eq_def split: option.splits)

lemma set_opts_sets:
  assumes "tab_ok tab" and "list_all (\<lambda>kv. known tab (fst kv)) sets" and "distinct (map (\<lambda>kv. map tolower_c (fst kv)) sets)"
    and "kv \<in> set sets"
  shows "\<exists>i. find_opt (fst kv) tab = Inr (Some i) \<and> i < length tab \<and> foldl set_opt tab sets ! i = parsed_value (tab ! i) (snd kv)"
  using assms
proof (induction sets arbitrary: tab)
  case (Cons q sets)
  note fills = set_opt_fills [OF Cons.prems(1), of q]
  then have ok: "tab_ok (set_opt tab q)" and find: "find_opt key (set_opt tab q) = find_opt key tab" for key
    using find_opt_refilled by (auto simp: fills_def)
  obtain i where i: "find_opt (fst kv) tab = Inr (Some i)" using Cons.prems(2,4) by (auto simp: list_all_iff known_def)
  then have len: "i < length tab" using find_opt_total [OF Cons.prems(1), of "fst kv"] entries_le [of tab] by auto
  show ?case
  proof (cases "kv = q")
    case True
    have "find_opt (fst r) (set_opt tab q) \<noteq> Inr (Some i)" if "r \<in> set sets" for r
      using find_opt_same_key [OF Cons.prems(1), of "fst r" i "fst q"] Cons.prems(3) that i True find by (auto simp: image_iff)
    from set_opts_other [OF ok, of sets i] this have "foldl set_opt (set_opt tab q) sets ! i = set_opt tab q ! i" by blast
    also have "\<dots> = parsed_value (tab ! i) (snd kv)" using i True len by (simp add: set_opt_def)
    finally show ?thesis using i len by simp
  next
    case False
    then have "kv \<in> set sets" using Cons.prems(4) by simp
    then obtain j where j: "find_opt (fst kv) (set_opt tab q) = Inr (Some j)"
      "foldl set_opt (set_opt tab q) sets ! j = parsed_value (set_opt tab q ! j) (snd kv)"
      using Cons.IH [OF ok] Cons.prems(2,3) find by (auto simp: list_all_iff known_def)
    have "j = i" using j(1) i find by simp
    moreover have "find_opt (fst q) tab \<noteq> Inr (Some i)"
      using find_opt_same_key [OF Cons.prems(1) i, of "fst q"] Cons.prems(3) \<open>kv \<in> set sets\<close> by (fastforce simp: image_iff)
    then have "set_opt tab q ! i = tab ! i" by (auto simp: set_opt_def split: sum.splits option.splits)
    ultimately show ?thesis using i j(2) len by simp
  qed
qed simp

text \<open>C24: A configuration file with a line for each of some settings, with keys of the table that
  differ in more than their case, is read to its end; every key then leads to its option with the
  value of its line read by the option's type, and the options without a line are as before.\<close>

theorem opt_file_sets:
  assumes "tab_ok tab" and "\<And>n. grant al n" and "list_all (\<lambda>kv. setting_ok kv \<and> known tab (fst kv)) sets"
    and "distinct (map (\<lambda>kv. map tolower_c (fst kv)) sets)"
  shows "\<exists>tab'. opt_init_from_file al tab err (Inr (concat (map conf_line sets))) = Inr (0, tab', err, False) \<and>
    (\<forall>kv \<in> set sets. \<exists>i. find_opt (fst kv) tab = Inr (Some i) \<and> find_opt (fst kv) tab' = Inr (Some i) \<and> tab' ! i = parsed_value (tab ! i) (snd kv)) \<and>
    (\<forall>i. (\<forall>kv \<in> set sets. find_opt (fst kv) tab \<noteq> Inr (Some i)) \<longrightarrow> tab' ! i = tab ! i)"
proof -
  have known: "list_all (\<lambda>kv. known tab (fst kv)) sets" using assms(3) by (simp add: list_all_iff)
  have "opt_init_from_file al tab err (Inr (concat (map conf_line sets))) = Inr (0, foldl set_opt tab sets, err, False)"
    using opt_lines_sets [OF assms(2,1,3)] by (simp add: opt_init_from_file_def)
  then show ?thesis
    using set_opts_sets [OF assms(1) known assms(4)] set_opts_other [OF assms(1)] set_opts_find [OF assms(1)] by fastforce
qed

theorem opt_file_sets_witness:
  "\<exists>tab'. opt_init_from_file generous opt_example [] (Inr (''debug: yes'' @ [newline] @ ''Message: hello '' @ [newline])) = Inr (0, tab', [], False) \<and>
    (\<exists>i. find_opt ''Message'' tab' = Inr (Some i) \<and> opt_string (tab' ! i) = Inr (Some ''hello''))"
proof -
  let ?sets = "[(''debug'', ''yes''), (''Message'', ''hello '')]"
  have f: "find_opt ''debug'' opt_example = Inr (Some 0)" "find_opt ''Message'' opt_example = Inr (Some 2)"
    by code_simp+
  have "setting_ok kv" if "kv \<in> set ?sets" for kv
    using that by (auto simp: setting_ok_def isspace_c_def code_def)
  with f have "\<exists>tab'. opt_init_from_file generous opt_example [] (Inr (concat (map conf_line ?sets))) = Inr (0, tab', [], False) \<and>
    (\<forall>kv \<in> set ?sets. \<exists>i. find_opt (fst kv) opt_example = Inr (Some i) \<and> find_opt (fst kv) tab' = Inr (Some i) \<and> tab' ! i = parsed_value (opt_example ! i) (snd kv)) \<and>
    (\<forall>i. (\<forall>kv \<in> set ?sets. find_opt (fst kv) opt_example \<noteq> Inr (Some i)) \<longrightarrow> tab' ! i = opt_example ! i)"
    by (intro opt_file_sets) (auto simp: opt_example_ok generous_def known_def)
  then obtain tab' where t: "opt_init_from_file generous opt_example [] (Inr (concat (map conf_line ?sets))) = Inr (0, tab', [], False)"
    "find_opt ''Message'' tab' = Inr (Some 2)" "tab' ! 2 = parsed_value (opt_example ! 2) ''hello ''" using f by auto
  have "opt_string (parsed_value (opt_example ! 2) ''hello '') = Inr (Some ''hello'')" by code_simp
  then show ?thesis using t by (intro exI [of _ tab'] conjI exI [of _ 2]) (simp_all add: conf_line_def)
qed

subsection \<open>Releasing the texts\<close>

text \<open>\<open>opt_fini\<close> of a well-typed table whose texts are on the heap releases them all and leaves the
  rest; the texts are \<open>NULL\<close> then, and a second \<open>opt_fini\<close> aborts when there is one.\<close>

theorem opt_fini_once:
  assumes "tab_ok tab" and "\<forall>o1 \<in> set (entries tab). op_type o1 = OPT_STRING \<longrightarrow> op_value o1 \<noteq> ValS None"
  shows "\<exists>tab'. opt_fini tab = Inr tab' \<and>
    tab' = map (\<lambda>o1. if op_type o1 = OPT_STRING then o1\<lparr>op_value := ValS None\<rparr> else o1) (entries tab)
      @ drop (length (entries tab)) tab \<and>
    ((\<exists>o1 \<in> set (entries tab). op_type o1 = OPT_STRING) \<longrightarrow> opt_fini tab' = Inl AssertFail)"
proof -
  let ?f = "\<lambda>o1. if op_type o1 = OPT_STRING then o1\<lparr>op_value := ValS None\<rparr> else o1"
  have "opt_fini tab = Inr (map ?f (entries tab) @ drop (length (entries tab)) tab) \<and>
    ((\<exists>o1 \<in> set (entries tab). op_type o1 = OPT_STRING) \<longrightarrow>
      opt_fini (map ?f (entries tab) @ drop (length (entries tab)) tab) = Inl AssertFail)"
    using assms unfolding tab_ok_def
  proof (induction tab)
    case (Cons o1 tab)
    show ?case
    proof (cases "op_short o1 = None")
      case False
      then have e: "entries (o1 # tab) = o1 # entries tab" by (simp add: entries_def)
      have ih: "opt_fini tab = Inr (map ?f (entries tab) @ drop (length (entries tab)) tab)"
        "(\<exists>o1 \<in> set (entries tab). op_type o1 = OPT_STRING) \<longrightarrow>
          opt_fini (map ?f (entries tab) @ drop (length (entries tab)) tab) = Inl AssertFail"
        using Cons e by auto
      show ?thesis
      proof (cases "op_type o1 = OPT_STRING")
        case True
        then obtain v where "op_value o1 = ValS (Some v)" using Cons.prems e by (auto simp: opt_typed_def)
        then show ?thesis using False True ih(1) e by auto
      qed (use False ih e in auto)
    qed (simp add: entries_def)
  qed (simp add: entries_def)
  then show ?thesis by blast
qed

theorem opt_fini_once_witness:
  "\<exists>tab tab'. opt_parse_value generous (opt_example ! 2) ''hi'' = Inr (tab ! 2) \<and> opt_fini tab = Inr tab' \<and> opt_fini tab' = Inl AssertFail"
proof -
  let ?tab = "opt_example[2 := parsed_value (opt_example ! 2) ''hi'']"
  have s: "opt_parse_value generous (opt_example ! 2) ''hi'' = Inr (?tab ! 2)"
    using opt_parse_value_ok [of generous "''hi''" "opt_example ! 2"] by (simp add: generous_def) (simp add: opt_example_defs)
  have k: "2 < length (entries opt_example)" by (simp add: opt_example_defs entries_def)
  have "\<exists>o1 \<in> set (entries ?tab). op_type o1 = OPT_STRING"
    "\<forall>o1 \<in> set (entries ?tab). op_type o1 = OPT_STRING \<longrightarrow> op_value o1 \<noteq> ValS None"
    by (simp_all add: opt_example_defs parsed_value_def entries_def)
  then show ?thesis using opt_fini_once [OF tab_ok_parsed(1) [OF opt_example_ok k], of "''hi''"] s by blast
qed

end
