(* ===== verification/Demo_Loop.thy ===== *)
theory Demo_Loop
  imports Cx_Prelude
begin

text \<open>
  The main loop that the demonstration programs under \<open>src/demos\<close> have in common: rounds of work until a
  signal has set \<open>exit_flag\<close>. What happens to the program is a list of events, the delivery of a signal
  or a round with the answers that the operating system gives in it. A signal that arrives within a
  round is seen when the round is over, so it stands behind it.
\<close>

subsection \<open>Signals and rounds\<close>

text \<open>The handler returns the new value of \<open>exit_flag\<close>.\<close>

definition signal_handler :: "int \<Rightarrow> int" where
  "signal_handler sig = 1"

datatype 'w event = Deliver int | Round 'w

text \<open>\<open>while (exit_flag == 0) body\<close>; the value is \<open>None\<close> while the program still runs.\<close>

fun exit_loop :: "('w \<Rightarrow> 's \<Rightarrow> 's res option) \<Rightarrow> int \<Rightarrow> 's \<Rightarrow> 'w event list \<Rightarrow> 's res option" where
  "exit_loop body exit_flag s [] = (if exit_flag = 0 then None else Some (Inr s))"
| "exit_loop body exit_flag s (ev # evs) =
     (if exit_flag \<noteq> 0 then Some (Inr s)
      else case ev of
             Deliver sig \<Rightarrow> exit_loop body (signal_handler sig) s evs
           | Round w \<Rightarrow>
               (case body w s of
                  None \<Rightarrow> None
                | Some (Inl e) \<Rightarrow> Some (Inl e)
                | Some (Inr s') \<Rightarrow> exit_loop body exit_flag s' evs))"

text \<open>The answers of the operating system are possible in the states in which the rounds start.\<close>

fun rounds_possible :: "('w \<Rightarrow> 's \<Rightarrow> bool) \<Rightarrow> ('w \<Rightarrow> 's \<Rightarrow> 's res option) \<Rightarrow> 's \<Rightarrow> 'w event list \<Rightarrow> bool" where
  "rounds_possible possible body s [] = True"
| "rounds_possible possible body s (Deliver sig # evs) = True"
| "rounds_possible possible body s (Round w # evs) =
     (possible w s \<and> (case body w s of Some (Inr s') \<Rightarrow> rounds_possible possible body s' evs | _ \<Rightarrow> True))"

definition each_round :: "('w \<Rightarrow> bool) \<Rightarrow> 'w event list \<Rightarrow> bool" where
  "each_round P evs \<longleftrightarrow> list_all (\<lambda>ev. case ev of Deliver sig \<Rightarrow> True | Round w \<Rightarrow> P w) evs"

lemma each_round_possible: "each_round P evs \<Longrightarrow> rounds_possible (\<lambda>w s. P w) body s evs"
proof (induction evs arbitrary: s)
  case (Cons ev evs)
  then show ?case by (cases ev) (auto simp: each_round_def split: option.split sum.split)
qed simp

definition signalled :: "'w event list \<Rightarrow> bool" where
  "signalled evs \<longleftrightarrow> list_ex (\<lambda>ev. case ev of Deliver sig \<Rightarrow> True | Round w \<Rightarrow> False) evs"

lemma signalled_simps [simp]:
  "\<not> signalled []" "signalled (Deliver sig # evs)" "signalled (Round w # evs) = signalled evs"
  by (simp_all add: signalled_def)

text \<open>The rounds before the first signal.\<close>

fun rounds_done :: "'w event list \<Rightarrow> nat" where
  "rounds_done [] = 0"
| "rounds_done (Deliver sig # evs) = 0"
| "rounds_done (Round w # evs) = Suc (rounds_done evs)"

lemma exit_loop_stop [simp]: "f \<noteq> 0 \<Longrightarrow> exit_loop body f s evs = Some (Inr s)"
  by (cases evs) simp_all

subsection \<open>Programs with an invariant\<close>

text \<open>A round that starts in a good state with possible answers ends, in a good state unless the program
  aborts; \<open>good\<close> may count the rounds. Then a program that gets a signal ends likewise, and without a
  signal it does not leave the loop.\<close>

locale round_loop =
  fixes body :: "'w \<Rightarrow> 's \<Rightarrow> 's res option"
    and good :: "nat \<Rightarrow> 's \<Rightarrow> bool"
    and possible :: "'w \<Rightarrow> 's \<Rightarrow> bool"
  assumes round_law: "\<And>n w s. good n s \<Longrightarrow> possible w s \<Longrightarrow>
    \<exists>x. body w s = Some x \<and> (\<forall>s'. x = Inr s' \<longrightarrow> good (Suc n) s')"
begin

lemma loop_ends:
  assumes "good n s" and "rounds_possible possible body s evs" and "signalled evs"
  shows "\<exists>x. exit_loop body 0 s evs = Some x \<and> (\<forall>s'. x = Inr s' \<longrightarrow> good (n + rounds_done evs) s')"
  using assms
proof (induction evs arbitrary: n s)
  case (Cons ev evs)
  show ?case
  proof (cases ev)
    case (Deliver sig)
    then show ?thesis using Cons.prems(1) by (simp add: signal_handler_def)
  next
    case (Round w)
    obtain x where x: "body w s = Some x" "\<And>s'. x = Inr s' \<Longrightarrow> good (Suc n) s'"
      using round_law [of n s w] Cons.prems Round by auto
    then show ?thesis using Cons.IH [of "Suc n"] Cons.prems Round by (cases x) auto
  qed
qed simp

lemma loop_goes_on:
  assumes "good n s" and "rounds_possible possible body s evs" and "\<not> signalled evs"
  shows "\<forall>s'. exit_loop body 0 s evs \<noteq> Some (Inr s')"
  using assms
proof (induction evs arbitrary: n s)
  case (Cons ev evs)
  then obtain w where w: "ev = Round w" "possible w s" by (cases ev) auto
  obtain x where "body w s = Some x" "\<And>s'. x = Inr s' \<Longrightarrow> good (Suc n) s'" using round_law [OF Cons.prems(1) w(2)] by auto
  then show ?case using Cons.IH [of "Suc n"] Cons.prems w by (cases x) auto
qed simp

end

text \<open>A program whose rounds do not abort.\<close>

locale safe_loop = round_loop +
  assumes safe_law: "\<And>n w s. good n s \<Longrightarrow> possible w s \<Longrightarrow> \<exists>s'. body w s = Some (Inr s')"
begin

lemma loop_returns:
  assumes "good n s" and "rounds_possible possible body s evs" and "signalled evs"
  shows "\<exists>s'. exit_loop body 0 s evs = Some (Inr s') \<and> good (n + rounds_done evs) s'"
  using assms
proof (induction evs arbitrary: n s)
  case (Cons ev evs)
  show ?case
  proof (cases ev)
    case (Deliver sig)
    then show ?thesis using Cons.prems(1) by (simp add: signal_handler_def)
  next
    case (Round w)
    then obtain s1 where s1: "body w s = Some (Inr s1)" using safe_law [of n s w] Cons.prems by auto
    then have "good (Suc n) s1" using round_law [of n s w] Cons.prems Round by auto
    then show ?thesis using Cons.IH [of "Suc n" s1] Cons.prems Round s1 by auto
  qed
qed simp

end

end
