(* ===== verification/Demo_Bus.thy ===== *)
theory Demo_Bus
  imports Apix_System Opt Demo_Loop
begin

text \<open>
  The program \<open>src/demos/apix_unix_tcp_serial.c\<close>: a bus with a Unix socket, a TCP socket and a serial
  line, whose addresses are options, which polls until it gets a signal. The messages of the bus and their
  level are not part of its model.
\<close>

subsection \<open>The code\<close>

definition opttab :: "opt list" where
  "opttab =
     [INIT_OPT_BOOL ''-h'' ''help'' False ''print this usage'',
      INIT_OPT_BOOL ''-D'' ''debug'' False ''debug mode [defaut: false]'',
      INIT_OPT_STRING ''-u:'' ''unix'' ''./apix-unix-domain'' ''unix domain'',
      INIT_OPT_STRING ''-t:'' ''tcp'' ''0.0.0.0:12248'' ''tcp socket'',
      INIT_OPT_STRING ''-s:'' ''serial'' ''/dev/ttyUSB0'' ''serial dev file'',
      INIT_OPT_NONE]"

text \<open>\<open>opt_string\<close> of the pointer that \<open>find_opt\<close> returned, used as a text.\<close>

definition opt_text :: "opt list \<Rightarrow> nat option \<Rightarrow> string res" where
  "opt_text tab tmp =
     (case tmp of
        None \<Rightarrow> Inl NullDeref
      | Some k \<Rightarrow> bindR (opt_string (tab ! k)) (\<lambda>p. case p of None \<Rightarrow> Inl NullDeref | Some s \<Rightarrow> Inr s))"

text \<open>The static sinks are zero at the start; later their values are those of the sinks on the bus.\<close>

definition zero_sink :: apisink where
  "zero_sink = \<lparr>sk_name = [], sk_ops = 0, sk_bus = False, sk_fds = {}, sk_nfds = 0\<rparr>"

definition zero_sinks :: posix_sinks where
  "zero_sinks = \<lparr>px_unix = zero_sink, px_tcp = zero_sink, px_serial = zero_sink\<rparr>"

definition static_sink :: "apibus \<Rightarrow> string \<Rightarrow> apisink" where
  "static_sink bus name = (case find (\<lambda>s. sk_name s = name) (bus_sinks bus) of Some s \<Rightarrow> s | None \<Rightarrow> zero_sink)"

definition static_sinks :: "apibus \<Rightarrow> posix_sinks" where
  "static_sinks bus = \<lparr>px_unix = static_sink bus APISINK_UNIX, px_tcp = static_sink bus APISINK_TCP,
     px_serial = static_sink bus APISINK_SERIAL\<rparr>"

text \<open>The structure \<open>sp\<close> on the stack; the address that \<open>apibus_ioctl\<close> gets is that of \<open>sp\<close>.\<close>

definition demo_param :: ioctl_serial_param where
  "demo_param = \<lparr>sp_baud = SERIAL_ARG_BAUD_115200, sp_bits = SERIAL_ARG_BITS_8, sp_parity = SERIAL_ARG_PARITY_N,
     sp_stop = SERIAL_ARG_STOP_1\<rparr>"

definition open_serial_line :: "allocator \<Rightarrow> sys \<Rightarrow> apibus \<Rightarrow> string \<Rightarrow> (int \<times> apibus) res" where
  "open_serial_line al sys bus addr =
     (let sys1 = sys\<lparr>sys_param := (\<lambda>_. demo_param)\<rparr>
      in bindR (apibus_open_serial (posix_env al sys1) bus addr) (\<lambda>(fd, bus1).
           assertR (fd \<noteq> - 1)
             (assertR (apibus_ioctl (posix_env al sys1) bus1 fd 0 0 \<noteq> - 1) (Inr (fd, bus1)))))"

text \<open>What the operating system answers while the three descriptors are opened, one after the other.\<close>

record demo_os =
  os_unix :: sys
  os_tcp :: sys
  os_serial :: sys

definition run_setup :: "allocator \<Rightarrow> demo_os \<Rightarrow> opt list \<Rightarrow> apibus res" where
  "run_setup al os tab =
     bindR (find_opt ''unix'' tab) (\<lambda>ud.
     bindR (find_opt ''tcp'' tab) (\<lambda>tcp.
     bindR (find_opt ''serial'' tab) (\<lambda>serial.
     bindR (apibus_new al) (\<lambda>bus0.
     bindR (apibus_enable_posix bus0 zero_sinks) (\<lambda>(_, bus1).
     bindR (opt_text tab ud) (\<lambda>addr.
     bindR (apibus_open_unix (posix_env al (os_unix os)) bus1 addr) (\<lambda>(fd, bus2).
     assertR (fd \<noteq> - 1)
       (bindR (opt_text tab tcp) (\<lambda>addr.
        bindR (apibus_open_tcp (posix_env al (os_tcp os)) bus2 addr) (\<lambda>(fd, bus3).
        assertR (fd \<noteq> - 1)
          (bindR (opt_text tab serial) (\<lambda>addr.
           bindR (open_serial_line al (os_serial os) bus3 addr) (\<lambda>(_, bus4). Inr bus4)))))))))))))"

text \<open>A round: one poll, with the answers of the operating system, the time of day and the time in seconds.\<close>

definition bus_round :: "allocator \<Rightarrow> sys \<times> (nat \<times> nat) \<times> nat \<Rightarrow> apibus \<Rightarrow> apibus res option" where
  "bus_round al w bus =
     (let (sys, tod, now) = w
      in map_option (\<lambda>r. bindR r (\<lambda>(_, bus1). Inr bus1)) (apibus_poll al (posix_env al sys) tod now bus))"

definition run_apibus ::
  "allocator \<Rightarrow> demo_os \<Rightarrow> (sys \<times> (nat \<times> nat) \<times> nat) event list \<Rightarrow> opt list \<Rightarrow> apibus res option" where
  "run_apibus al os evs tab =
     (case run_setup al os tab of
        Inl e \<Rightarrow> Some (Inl e)
      | Inr bus \<Rightarrow>
          map_option (\<lambda>r. bindR r (\<lambda>bus1.
            let (_, bus2) = apibus_disable_posix bus1 (static_sinks bus1) in Inr (apibus_destroy bus2)))
            (exit_loop (bus_round al) 0 bus evs))"

text \<open>The result of \<open>opt_init_from_arg\<close> is not looked at.\<close>

definition main_bus ::
  "allocator \<Rightarrow> demo_os \<Rightarrow> (sys \<times> (nat \<times> nat) \<times> nat) event list \<Rightarrow> string list \<Rightarrow> apibus res option" where
  "main_bus al os evs argv =
     (case opt_init_from_arg al opttab [] argv of
        Inl e \<Rightarrow> Some (Inl e)
      | Inr (_, tab, _) \<Rightarrow> run_apibus al os evs tab)"

subsection \<open>The options\<close>

lemma opttab_ok: "tab_ok opttab"
  by (auto simp: tab_ok_def entries_def opttab_def INIT_OPT_BOOL_def INIT_OPT_STRING_def INIT_OPT_NONE_def opt_typed_def)

lemma opttab_keys:
  "find_opt ''unix'' opttab = Inr (Some 2)" "find_opt ''tcp'' opttab = Inr (Some 3)" "find_opt ''serial'' opttab = Inr (Some 4)"
  by code_simp+

lemma entries_refilled: "list_all2 refilled tab tab' \<Longrightarrow> length (entries tab') = length (entries tab)"
  by (induction rule: list_all2_induct) (auto simp: entries_def refilled_def)

text \<open>Whatever the command line says, the three addresses are texts afterwards.\<close>

lemma options_are_texts:
  assumes "fills opttab tab"
  shows "find_opt ''unix'' tab = Inr (Some 2)" "find_opt ''tcp'' tab = Inr (Some 3)" "find_opt ''serial'' tab = Inr (Some 4)"
    "k \<in> {2, 3, 4} \<Longrightarrow> \<exists>s. opt_text tab (Some k) = Inr s"
proof -
  show "find_opt ''unix'' tab = Inr (Some 2)" "find_opt ''tcp'' tab = Inr (Some 3)" "find_opt ''serial'' tab = Inr (Some 4)"
    using opttab_keys find_opt_refilled [of opttab tab] assms by (simp_all add: fills_def)
  assume k: "k \<in> {2, 3, 4}"
  have "list_all2 refilled opttab tab" and ok: "tab_ok tab" using assms by (simp_all add: fills_def)
  then have r: "refilled (opttab ! k) (tab ! k)" using k list_all2_nthD [of refilled opttab tab k] by (auto simp: opttab_def)
  have "length (entries opttab) = 5" by (simp add: entries_def opttab_def INIT_OPT_BOOL_def INIT_OPT_STRING_def INIT_OPT_NONE_def)
  then have len: "k < length (entries tab)" using entries_refilled [of opttab tab] assms k by (auto simp: fills_def)
  have static: "op_type (opttab ! k) = OPT_STRING_STATIC" "op_value (opttab ! k) \<noteq> ValS None"
    using k by (auto simp: opttab_def INIT_OPT_STRING_def)
  have "opt_typed (tab ! k)" using tab_ok_nth [OF ok len] .
  then show "\<exists>s. opt_text tab (Some k) = Inr s"
    using r static by (auto simp: refilled_def opt_typed_def opt_text_def opt_string_def assertR_def)
qed

subsection \<open>Shutting down\<close>

lemma remove_all_heads: "foldl (\<lambda>xs x. remove1 x xs) (ys @ zs) ys = zs"
  by (induction ys) simp_all

lemma remove_all [simp]: "foldl (\<lambda>xs x. remove1 x xs) ys ys = []"
  using remove_all_heads [of ys "[]"] by simp

lemma sinkfds_destroy_only:
  "foldl sinkfd_destroy bus sfs = bus\<lparr>bus_sinkfds := foldl (\<lambda>xs x. remove1 x xs) (bus_sinkfds bus) sfs\<rparr>"
  by (induction sfs arbitrary: bus) (simp_all add: sinkfd_destroy_def)

lemma destroy_sinks_loop_all:
  "bus_sinks bus = sks \<Longrightarrow> bus_sinkfds bus = [] \<Longrightarrow> destroy_sinks_loop bus sks = bus\<lparr>bus_sinks := []\<rparr>"
  by (induction sks arbitrary: bus) (simp_all add: apibus_del_sink_def apisink_fini_def sink_sinkfds_def)

text \<open>\<open>apibus_destroy\<close> empties every list of the bus, and does nothing else.\<close>

lemma apibus_destroy_empties:
  "apibus_destroy bus = bus\<lparr>bus_requests := [], bus_responses := [], bus_stations := [], bus_topic_msgs := [],
     bus_topics := [], bus_sinkfds := [], bus_sinks := []\<rparr>"
  by (simp add: apibus_destroy_def Let_def sinkfds_destroy_only destroy_sinks_loop_all)

lemma disable_sink_only: "disable_sink bus sink = (s, bus') \<Longrightarrow> \<exists>sks sfs. bus' = bus\<lparr>bus_sinks := sks, bus_sinkfds := sfs\<rparr>"
  by (auto simp: disable_sink_def apibus_del_sink_def apisink_fini_def Let_def sinkfds_destroy_only split: if_splits)

lemma apibus_disable_posix_only:
  assumes "apibus_disable_posix bus st = (st', bus')"
  shows "\<exists>sks sfs. bus' = bus\<lparr>bus_sinks := sks, bus_sinkfds := sfs\<rparr>"
proof -
  obtain u bus1 t bus2 s where "disable_sink bus (px_unix st) = (u, bus1)" "disable_sink bus1 (px_tcp st) = (t, bus2)"
    "disable_sink bus2 (px_serial st) = (s, bus')" using assms by (auto simp: apibus_disable_posix_def split: prod.splits)
  then show ?thesis by (auto dest!: disable_sink_only, blast)
qed

lemma shut_down:
  assumes "apibus_disable_posix bus st = (st', bus')"
  shows "apibus_destroy bus' = bus\<lparr>bus_requests := [], bus_responses := [], bus_stations := [], bus_topic_msgs := [],
     bus_topics := [], bus_sinkfds := [], bus_sinks := []\<rparr>"
  using apibus_disable_posix_only [OF assms] by (auto simp: apibus_destroy_empties)

subsection \<open>Polling\<close>

lemma posix_watch_closed: "posix_watch bus sink fd bound = Inr bus' \<Longrightarrow> bus_closed bus' = bus_closed bus"
  by (auto simp: posix_watch_def bindR_eq_Inr_iff)

lemma posix_receive_closed: "posix_receive bus tod pos nread = Inr bus' \<Longrightarrow> bus_closed bus' = bus_closed bus"
  by (auto simp: posix_receive_def bindR_eq_Inr_iff sinkfd_destroy_def split: option.splits if_splits)

lemma unix_accept_closed: "unix_accept al sys bus sink pos = Inr bus' \<Longrightarrow> bus_closed bus' = bus_closed bus"
  by (auto simp: unix_accept_def Let_def bindR_eq_Inr_iff dest: posix_watch_closed split: if_splits)

lemma poll_loops_closed:
  "unix_poll_loop al sys sink ready nr poss bus = Inr bus' \<Longrightarrow> bus_closed bus' = bus_closed bus"
  "serial_poll_loop sys ready nr poss bus = Inr bus' \<Longrightarrow> bus_closed bus' = bus_closed bus"
  by (induction poss arbitrary: bus nr)
    (auto simp: bindR_eq_Inr_iff split: if_splits dest!: posix_receive_closed unix_accept_closed)

lemma sink_poll_closed:
  "unix_poll al sys bus sink = Inr (r, bus') \<Longrightarrow> bus_closed bus' = bus_closed bus"
  "serial_poll sys bus sink = Inr (r, bus') \<Longrightarrow> bus_closed bus' = bus_closed bus"
  by (auto simp: unix_poll_def serial_poll_def bindR_eq_Inr_iff split: prod.splits if_splits dest: poll_loops_closed)

lemma poll_sinks_closed: "poll_sinks (posix_env al sys) bus sks = Inr bus' \<Longrightarrow> bus_closed bus' = bus_closed bus"
  by (induction sks arbitrary: bus)
    (auto simp: posix_env_def unix_ops_def tcp_ops_def serial_ops_def bindR_eq_Inr_iff split: if_splits dest!: sink_poll_closed)

text \<open>A poll closes no descriptor.\<close>

lemma apibus_poll_closed:
  assumes "bus_ok bus" and "posix_polls sys (bus\<lparr>bus_poll_cnt := 0, bus_poll_ts := tod\<rparr>) (bus_sinks bus)"
    and "apibus_poll al (posix_env al sys) tod now bus = Some (Inr (r, bus'))"
  shows "bus_closed bus' = bus_closed bus"
proof -
  obtain bus1 bus2 sfs where p: "poll_sinks (posix_env al sys) (bus\<lparr>bus_poll_cnt := 0, bus_poll_ts := tod\<rparr>) (bus_sinks bus) = Inr bus1"
    "parse_sinkfds al now bus1 (bus_sinkfds bus1) = Some (Inr (bus2, sfs))"
    "handle_all al (posix_env al sys) now (poll_idle (bus2\<lparr>bus_sinkfds := sfs\<rparr>)) = Inr bus'"
    using assms(3) by (auto simp: apibus_poll_def bindR_eq_Inr_iff split: sum.splits)
  have "bus_ok (bus\<lparr>bus_poll_cnt := 0, bus_poll_ts := tod\<rparr>)" using assms(1) by (simp add: bus_ok_def bus_fds_def)
  then have "bus_ok bus1" using px.poll_sinks_ok [OF p(1) _ assms(2)] by blast
  then have "bus_closed bus2 = bus_closed bus1"
    using parse_sinkfds_ends [of "bus_sinkfds bus1" al now bus1] p(2) by (auto simp: bus_ok_def parsed_def)
  moreover have "bus_closed (poll_idle (bus2\<lparr>bus_sinkfds := sfs\<rparr>)) = bus_closed bus2"
    using poll_idle_only [of "bus2\<lparr>bus_sinkfds := sfs\<rparr>"] by auto
  ultimately show ?thesis using handle_all_kept [OF p(3)] poll_sinks_closed [OF p(1)] by simp
qed

definition round_ok :: "sys \<times> (nat \<times> nat) \<times> nat \<Rightarrow> apibus \<Rightarrow> bool" where
  "round_ok w bus = (let (sys, tod, now) = w in posix_polls sys (bus\<lparr>bus_poll_cnt := 0, bus_poll_ts := tod\<rparr>) (bus_sinks bus))"

definition bus_good :: "apibus \<Rightarrow> bool" where
  "bus_good bus \<longleftrightarrow> bus_inv bus \<and> bus_closed bus = []"

interpretation demo_bus: round_loop "bus_round al" "\<lambda>_. bus_good" round_ok
proof
  fix w :: "sys \<times> (nat \<times> nat) \<times> nat" and bus
  assume "bus_good bus" "round_ok w bus"
  moreover obtain sys tod now where w: "w = (sys, tod, now)" by (cases w)
  ultimately have b: "bus_inv bus" "bus_closed bus = []"
    "posix_polls sys (bus\<lparr>bus_poll_cnt := 0, bus_poll_ts := tod\<rparr>) (bus_sinks bus)"
    by (simp_all add: bus_good_def round_ok_def)
  then obtain x where x: "apibus_poll al (posix_env al sys) tod now bus = Some x" "\<And>r bus'. x = Inr (r, bus') \<Longrightarrow> bus_inv bus'"
    using px.apibus_poll_ends [of bus sys tod al al now] by (auto simp: bus_inv_def)
  moreover have "bus_closed bus' = []" if "x = Inr (r, bus')" for r bus'
    using apibus_poll_closed [of bus sys tod al now r bus'] b x(1) that by (simp add: bus_inv_def)
  ultimately show "\<exists>x. bus_round al w bus = Some x \<and> (\<forall>s'. x = Inr s' \<longrightarrow> bus_good s')"
    by (auto simp: bus_round_def w bus_good_def bindR_eq_Inr_iff)
qed

subsection \<open>Opening\<close>

text \<open>Descriptors that are opened one after the other have different numbers.\<close>

definition opened_by :: "sys \<Rightarrow> int set" where
  "opened_by sys = insert (sys_socket sys) (range (sys_open sys))"

definition opens_apart :: "demo_os \<Rightarrow> bool" where
  "opens_apart os \<longleftrightarrow> opened_by (os_unix os) \<inter> opened_by (os_tcp os) = {} \<and>
     (opened_by (os_unix os) \<union> opened_by (os_tcp os)) \<inter> opened_by (os_serial os) = {}"

lemma opened_by_param [simp]: "opened_by (sys\<lparr>sys_param := p\<rparr>) = opened_by sys"
  by (simp add: opened_by_def)

lemma posix_opens_iff: "posix_opens sys bus \<longleftrightarrow> opened_by sys \<inter> set (bus_fds bus) = {}"
  by (auto simp: posix_opens_def opened_by_def)

lemma posix_attach_opens:
  assumes "posix_attach al bus sink fd l addr = Inr (r, bus')"
  shows "r = fd \<and> bus_fds bus' = fd # bus_fds bus \<and> bus_closed bus' = bus_closed bus \<and>
    map sk_name (bus_sinks bus') = map sk_name (bus_sinks bus)"
proof -
  obtain sf where r: "r = fd" and w: "posix_watch (bus\<lparr>bus_sinkfds := sf\<lparr>sf_fd := fd, sf_listen := l,
      sf_addr := snprintf_s SINKFD_ADDR_SIZE addr, sf_sink := Some sink\<rparr> # bus_sinkfds bus\<rparr>) sink fd (\<lambda>_. fd + 1) = Inr bus'"
    using assms by (auto simp: posix_attach_def bindR_eq_Inr_iff)
  show ?thesis using posix_watch_frame [OF w] posix_watch_closed [OF w] r by (simp add: bus_fds_def sinks_only_def)
qed

lemma opened:
  assumes "apibus_open (posix_env al sys) bus name addr = Inr (fd, bus')" and "fd \<noteq> - 1"
  shows "fd \<in> opened_by sys \<and> bus_fds bus' = fd # bus_fds bus \<and> bus_closed bus' = bus_closed bus \<and>
    map sk_name (bus_sinks bus') = map sk_name (bus_sinks bus)"
proof -
  obtain f l sink where "posix_attach al bus sink f l addr = Inr (fd, bus')" "f \<in> opened_by sys"
    using assms by (auto simp: apibus_open_def posix_env_def unix_ops_def tcp_ops_def serial_ops_def unix_open_def tcp_open_def
        serial_open_def Let_def bindR_eq_Inr_iff opened_by_def split: option.splits if_splits)
  then show ?thesis using posix_attach_opens by blast
qed

lemma opened_good:
  assumes "apibus_open (posix_env al sys) bus name addr = Inr (fd, bus')" and "fd \<noteq> - 1" and "bus_good bus"
    and "opened_by sys \<inter> set (bus_fds bus) = {}"
  shows "bus_good bus' \<and> bus_fds bus' = fd # bus_fds bus \<and> fd \<in> opened_by sys"
proof -
  have "bus_ok bus' \<and> sinks_only bus bus'"
    using px.apibus_open_ok [OF assms(1)] assms(3,4) by (simp add: bus_good_def bus_inv_def posix_opens_iff)
  then have "bus_inv bus'" using sinks_only_inv [of bus bus'] assms(3) by (simp add: bus_good_def)
  then show ?thesis using opened [OF assms(1,2)] assms(3) by (simp add: bus_good_def)
qed

text \<open>The sinks as \<open>apibus_enable_posix\<close> puts them on a new bus.\<close>

definition enabled_sink :: "string \<Rightarrow> nat \<Rightarrow> apisink" where
  "enabled_sink name ops = \<lparr>sk_name = name, sk_ops = ops, sk_bus = True, sk_fds = {}, sk_nfds = 0\<rparr>"

lemma enabled:
  assumes "grant al 144"
  shows "\<exists>bus0 bus1. apibus_new al = Inr bus0 \<and> apibus_enable_posix bus0 zero_sinks = Inr (0, bus1) \<and> bus_good bus1 \<and>
    bus_fds bus1 = [] \<and> bus_sent bus1 = [] \<and>
    bus_sinks bus1 = [enabled_sink APISINK_SERIAL 2, enabled_sink APISINK_TCP 1, enabled_sink APISINK_UNIX 0]"
  using assms
  by (simp add: apibus_new_def apibus_enable_posix_def enable_sink_def apisink_init_def zero_sinks_def zero_sink_def
      APISINK_NAME_SIZE_def sink_names assertR_def snprintf_s_def apibus_add_sink_def strcmp_eq_def enabled_sink_def cstr_def
      bus_good_def bus_inv_def bus_ok_def bus_quiet_def bus_fds_def one_subscription_def)

lemma run_setup_good:
  assumes "run_setup al os tab = Inr bus" and "opens_apart os"
  shows "bus_good bus \<and> length (bus_fds bus) = 3"
proof -
  obtain bus0 bus1 r where e: "apibus_new al = Inr bus0" "apibus_enable_posix bus0 zero_sinks = Inr (r, bus1)"
    using assms(1) by (auto simp: run_setup_def bindR_eq_Inr_iff)
  then have "grant al 144" by (auto simp: apibus_new_def split: if_splits)
  then have b1: "bus_good bus1" "bus_fds bus1 = []" using enabled [of al] e by auto
  obtain a1 f1 bus2 a2 f2 bus3 a3 f3 where
    o1: "apibus_open (posix_env al (os_unix os)) bus1 APISINK_UNIX a1 = Inr (f1, bus2)" "f1 \<noteq> - 1"
    and o2: "apibus_open (posix_env al (os_tcp os)) bus2 APISINK_TCP a2 = Inr (f2, bus3)" "f2 \<noteq> - 1"
    and o3: "apibus_open (posix_env al ((os_serial os)\<lparr>sys_param := (\<lambda>_. demo_param)\<rparr>)) bus3 APISINK_SERIAL a3 = Inr (f3, bus)"
      "f3 \<noteq> - 1"
    using assms(1) e by (auto simp: run_setup_def bindR_eq_Inr_iff assertR_eq_Inr_iff apibus_open_unix_def apibus_open_tcp_def
        apibus_open_serial_def open_serial_line_def Let_def)
  have b2: "bus_good bus2" "bus_fds bus2 = [f1]" "f1 \<in> opened_by (os_unix os)"
    using opened_good [OF o1 b1(1)] b1(2) by simp_all
  have b3: "bus_good bus3" "bus_fds bus3 = [f2, f1]" "f2 \<in> opened_by (os_tcp os)"
    using opened_good [OF o2 b2(1)] b2 assms(2) by (auto simp: opens_apart_def)
  have "f1 \<notin> opened_by (os_serial os)" "f2 \<notin> opened_by (os_serial os)" using b2(3) b3(3) assms(2) by (auto simp: opens_apart_def)
  then show ?thesis using opened_good [OF o3 b3(1)] b3(2) by simp
qed

text \<open>With an operating system that gives what is asked for, and an address for TCP with a colon, all three
  are opened, the serial line with eight data bits, no parity and 115200 bits per second.\<close>

definition serves :: "sys \<Rightarrow> bool" where
  "serves sys \<longleftrightarrow> 0 \<le> sys_socket sys \<and> sys_socket sys < FD_SETSIZE \<and> (\<forall>fd sa. sys_bind sys fd sa \<noteq> - 1) \<and>
     (\<forall>fd n. sys_listen sys fd n \<noteq> - 1)"

definition serves_line :: "sys \<Rightarrow> string \<Rightarrow> bool" where
  "serves_line sys dev \<longleftrightarrow> 0 \<le> sys_open sys dev \<and> sys_open sys dev < FD_SETSIZE \<and> sys_tcgetattr sys (sys_open sys dev) = 0 \<and>
     sys_tcsetattr sys (sys_open sys dev)
       \<lparr>tio_cflag = B115200 OR CLOCAL OR CREAD OR CS8, tio_ispeed = B115200, tio_vtime = 0, tio_vmin = 0\<rparr> = 0"

definition posix_sinks_on :: "apibus \<Rightarrow> bool" where
  "posix_sinks_on bus \<longleftrightarrow> map (\<lambda>s. (sk_name s, sk_ops s)) (bus_sinks bus) = [(APISINK_SERIAL, 2), (APISINK_TCP, 1), (APISINK_UNIX, 0)]"

lemma posix_attach_works:
  assumes "\<And>n. grant al n" and "0 \<le> fd" and "fd < FD_SETSIZE" and "posix_sinks_on bus"
  shows "\<exists>sf bus'. posix_attach al bus sink fd l addr = Inr (fd, bus') \<and> posix_sinks_on bus' \<and>
    bus_sinkfds bus' = sf # bus_sinkfds bus \<and> sf_fd sf = fd \<and> sf_sink sf = Some sink \<and>
    bus_sent bus' = bus_sent bus \<and> bus_closed bus' = bus_closed bus"
proof -
  let ?watched = "map (\<lambda>s :: apisink. if sk_name s = sk_name sink then s\<lparr>sk_fds := sk_fds s \<union> {fd}, sk_nfds := fd + 1\<rparr> else s)"
  have "map (\<lambda>s. (sk_name s, sk_ops s)) (?watched sks) = map (\<lambda>s. (sk_name s, sk_ops s)) sks" for sks by (induction sks) simp_all
  then have on: "posix_sinks_on (bus\<lparr>bus_sinkfds := sfs, bus_sinks := ?watched (bus_sinks bus)\<rparr>)" for sfs
    using assms(4) by (simp add: posix_sinks_on_def del: map_map)
  obtain sf where "posix_attach al bus sink fd l addr =
      Inr (fd, bus\<lparr>bus_sinkfds := sf # bus_sinkfds bus, bus_sinks := ?watched (bus_sinks bus)\<rparr>)" "sf_fd sf = fd" "sf_sink sf = Some sink"
    using assms(1-3) by (simp add: posix_attach_def sinkfd_new_def atbuf_new_def calloc_c_def Let_def posix_watch_def FD_SET_def)
  then show ?thesis using on by auto
qed

lemma posix_sinks_found:
  assumes "posix_sinks_on bus"
  shows "\<exists>s. sk_ops s = 0 \<and> apibus_open env bus APISINK_UNIX addr = (case op_open (env 0) of None \<Rightarrow> Inl AssertFail | Some f \<Rightarrow> f bus s addr)"
    "\<exists>s. sk_ops s = 1 \<and> apibus_open env bus APISINK_TCP addr = (case op_open (env 1) of None \<Rightarrow> Inl AssertFail | Some f \<Rightarrow> f bus s addr)"
    "\<exists>s. sk_ops s = 2 \<and> apibus_open env bus APISINK_SERIAL addr = (case op_open (env 2) of None \<Rightarrow> Inl AssertFail | Some f \<Rightarrow> f bus s addr)"
  using assms by (auto simp: posix_sinks_on_def apibus_open_def strcmp_eq_def sink_names cstr_def)

lemma line_opens:
  assumes "\<And>n. grant al n" and "serves_line sys dev" and "posix_sinks_on bus"
  shows "\<exists>sf s bus'. open_serial_line al sys bus dev = Inr (sys_open sys dev, bus') \<and> bus_sinkfds bus' = sf # bus_sinkfds bus \<and>
    sf_fd sf = sys_open sys dev \<and> sf_sink sf = Some s \<and> sk_ops s = 2 \<and>
    bus_sent bus' = bus_sent bus \<and> bus_closed bus' = bus_closed bus"
proof -
  let ?sys = "sys\<lparr>sys_param := (\<lambda>_. demo_param)\<rparr>" and ?fd = "sys_open sys dev"
  obtain s where s: "sk_ops s = 2" "apibus_open_serial (posix_env al ?sys) bus dev = serial_open al ?sys bus s dev"
    using posix_sinks_found(3) [OF assms(3), of "posix_env al ?sys" dev]
    by (auto simp: apibus_open_serial_def posix_env_def serial_ops_def)
  have fd: "0 \<le> ?fd" "?fd < FD_SETSIZE" using assms(2) by (simp_all add: serves_line_def)
  obtain sf bus' where a: "posix_attach al bus s ?fd 0 dev = Inr (?fd, bus')" "bus_sinkfds bus' = sf # bus_sinkfds bus"
      "sf_fd sf = ?fd" "sf_sink sf = Some s" "bus_sent bus' = bus_sent bus" "bus_closed bus' = bus_closed bus"
    using posix_attach_works [OF assms(1) fd assms(3)] by blast
  have "serial_termios demo_param =
      Some \<lparr>tio_cflag = B115200 OR CLOCAL OR CREAD OR CS8, tio_ispeed = B115200, tio_vtime = 0, tio_vmin = 0\<rparr>"
    by (simp add: serial_termios_def demo_param_def serial_baud_def cfsetispeed_def serial_bits_def serial_parity_def serial_stop_def serial_args
        termios_bits)
  then have "apibus_ioctl (posix_env al ?sys) bus' ?fd 0 0 = 0"
    using a(2-4) s(1) assms(2)
    by (simp add: apibus_ioctl_def find_sinkfd_in_apibus_def posix_env_def serial_ops_def serial_ioctl_def serves_line_def)
  then show ?thesis using s a fd(1) by (auto simp: open_serial_line_def serial_open_def assertR_def)
qed

lemma listeners_open:
  assumes "\<And>n. grant al n" and "serves sys" and "posix_sinks_on bus"
  shows "\<exists>sf bus'. apibus_open_unix (posix_env al sys) bus addr = Inr (sys_socket sys, bus') \<and> posix_sinks_on bus' \<and>
      bus_sinkfds bus' = sf # bus_sinkfds bus \<and> sf_fd sf = sys_socket sys" (is ?unix)
    "CHR '':'' \<in> set addr \<Longrightarrow>
      \<exists>sf bus'. apibus_open_tcp (posix_env al sys) bus addr = Inr (sys_socket sys, bus') \<and> posix_sinks_on bus' \<and>
      bus_sinkfds bus' = sf # bus_sinkfds bus \<and> sf_fd sf = sys_socket sys"
proof -
  have fd: "0 \<le> sys_socket sys" "sys_socket sys < FD_SETSIZE" using assms(2) by (simp_all add: serves_def)
  obtain u where u: "apibus_open_unix (posix_env al sys) bus addr = unix_open al sys bus u addr"
    using posix_sinks_found(1) [OF assms(3), of "posix_env al sys" addr] by (auto simp: apibus_open_unix_def posix_env_def unix_ops_def)
  obtain t where t: "apibus_open_tcp (posix_env al sys) bus addr = tcp_open al sys bus t addr"
    using posix_sinks_found(2) [OF assms(3), of "posix_env al sys" addr] by (auto simp: apibus_open_tcp_def posix_env_def tcp_ops_def)
  show ?unix
    using posix_attach_works [OF assms(1) fd assms(3), of u 1 addr] assms(2) fd u by (auto simp: unix_open_def serves_def)
  assume "CHR '':'' \<in> set addr"
  then obtain sa where "tcp_sockaddr al sys addr = Inr sa" using strchr_c_None [of addr "CHR '':''"] assms(1) by (auto simp: tcp_sockaddr_def)
  then show "\<exists>sf bus'. apibus_open_tcp (posix_env al sys) bus addr = Inr (sys_socket sys, bus') \<and> posix_sinks_on bus' \<and>
      bus_sinkfds bus' = sf # bus_sinkfds bus \<and> sf_fd sf = sys_socket sys"
    using posix_attach_works [OF assms(1) fd assms(3), of t 1 addr] assms(2) fd t by (auto simp: tcp_open_def serves_def)
qed

lemma setup_works:
  assumes "\<And>n. grant al n" and "fills opttab tab" and "opt_text tab (Some 3) = Inr t" and "CHR '':'' \<in> set t"
    and "opt_text tab (Some 4) = Inr dev"
    and "serves (os_unix os)" and "serves (os_tcp os)" and "serves_line (os_serial os) dev"
  shows "\<exists>bus. run_setup al os tab = Inr bus \<and>
    bus_fds bus = [sys_open (os_serial os) dev, sys_socket (os_tcp os), sys_socket (os_unix os)]"
proof -
  obtain u where u: "opt_text tab (Some 2) = Inr u" using options_are_texts(4) [OF assms(2), of 2] by auto
  obtain bus0 bus1 where b1: "apibus_new al = Inr bus0" "apibus_enable_posix bus0 zero_sinks = Inr (0, bus1)" "posix_sinks_on bus1"
      "bus_sinkfds bus1 = []"
    using enabled [OF assms(1)] by (auto simp: posix_sinks_on_def enabled_sink_def bus_fds_def)
  obtain s2 bus2 where b2: "apibus_open_unix (posix_env al (os_unix os)) bus1 u = Inr (sys_socket (os_unix os), bus2)"
      "posix_sinks_on bus2" "bus_sinkfds bus2 = [s2]" "sf_fd s2 = sys_socket (os_unix os)"
    using listeners_open(1) [OF assms(1,6) b1(3), of u] b1(4) by auto
  obtain s3 bus3 where b3: "apibus_open_tcp (posix_env al (os_tcp os)) bus2 t = Inr (sys_socket (os_tcp os), bus3)"
      "posix_sinks_on bus3" "bus_sinkfds bus3 = [s3, s2]" "sf_fd s3 = sys_socket (os_tcp os)"
    using listeners_open(2) [OF assms(1,7) b2(2) assms(4)] b2(3) by auto
  obtain s4 bus4 where b4: "open_serial_line al (os_serial os) bus3 dev = Inr (sys_open (os_serial os) dev, bus4)"
      "bus_sinkfds bus4 = [s4, s3, s2]" "sf_fd s4 = sys_open (os_serial os) dev"
    using line_opens [OF assms(1,8) b3(2)] b3(3) by auto
  have "sys_socket (os_unix os) \<noteq> - 1" "sys_socket (os_tcp os) \<noteq> - 1" using assms(6,7) by (auto simp: serves_def)
  then have "run_setup al os tab = Inr bus4"
    using options_are_texts(1-3) [OF assms(2)] u assms(3,5) b1 b2(1) b3(1) b4(1) by (simp add: run_setup_def assertR_def)
  then show ?thesis using b2(4) b3(4) b4(2,3) by (simp add: bus_fds_def)
qed

subsection \<open>Properties\<close>

text \<open>Every list of the bus is empty.\<close>

definition bus_emptied :: "apibus \<Rightarrow> bool" where
  "bus_emptied bus \<longleftrightarrow> bus_requests bus = [] \<and> bus_responses bus = [] \<and> bus_stations bus = [] \<and> bus_topic_msgs bus = [] \<and>
     bus_topics bus = [] \<and> bus_sinkfds bus = [] \<and> bus_sinks bus = []"

text \<open>C6: The bus program, whatever its command line, when every allocation is granted and the operating system
  hands out unused descriptors: when a signal is delivered it ends, and unless it aborted before, all seven
  lists of its bus are empty then; until a signal is delivered it does not end, unless it aborts. It never
  closes a descriptor of the bus, not even at its end. And whatever a bus holds, \<open>apibus_destroy\<close> empties all
  its lists.\<close>

theorem demo_bus_ends:
  assumes "\<And>n. grant al n" and "list_all (\<lambda>z. NUL \<notin> set z) argv" and "opens_apart os"
    and "\<And>code tab err bus. opt_init_from_arg al opttab [] argv = Inr (code, tab, err) \<Longrightarrow> run_setup al os tab = Inr bus \<Longrightarrow>
      rounds_possible round_ok (bus_round al) bus evs"
  shows "(if signalled evs
    then \<exists>x. main_bus al os evs argv = Some x \<and> (\<forall>bus. x = Inr bus \<longrightarrow> bus_emptied bus \<and> bus_closed bus = [])
    else \<forall>bus. main_bus al os evs argv \<noteq> Some (Inr bus)) \<and> bus_emptied (apibus_destroy any)"
proof -
  have "list_all (\<lambda>z. NUL \<notin> set z) (drop 1 argv)" using assms(2) by (cases argv) simp_all
  then obtain code tab err where tab: "opt_init_from_arg al opttab [] argv = Inr (code, tab, err)"
    using opt_args_fills [OF assms(1) opttab_ok] unfolding opt_init_from_arg_def by blast
  have any: "bus_emptied (apibus_destroy any)" for any by (simp add: apibus_destroy_empties bus_emptied_def)
  show ?thesis
  proof (cases "run_setup al os tab")
    case (Inl e)
    then show ?thesis using tab any by (simp add: main_bus_def run_apibus_def)
  next
    case (Inr bus)
    have good: "bus_good bus" and rounds: "rounds_possible round_ok (bus_round al) bus evs"
      using run_setup_good [OF Inr assms(3)] assms(4) [OF tab Inr] by simp_all
    have main: "main_bus al os evs argv = map_option (\<lambda>r. bindR r (\<lambda>bus1.
        let (_, bus2) = apibus_disable_posix bus1 (static_sinks bus1) in Inr (apibus_destroy bus2)))
        (exit_loop (bus_round al) 0 bus evs)" using tab Inr by (simp add: main_bus_def run_apibus_def)
    show ?thesis
    proof (cases "signalled evs")
      case True
      then show ?thesis
        using demo_bus.loop_ends [OF good rounds] any
        by (fastforce simp: main bindR_eq_Inr_iff shut_down bus_good_def bus_emptied_def split: prod.splits)
    next
      case False
      then show ?thesis
        using demo_bus.loop_goes_on [OF good rounds] any by (auto simp: main bindR_eq_Inr_iff)
    qed
  qed
qed

definition example_os :: demo_os where
  "example_os = \<lparr>os_unix = example_sys, os_tcp = example_sys\<lparr>sys_socket := 4, sys_open := (\<lambda>_. 4)\<rparr>,
     os_serial = example_sys\<lparr>sys_socket := 5, sys_open := (\<lambda>_. 5)\<rparr>\<rparr>"

lemma example_os_ok: "opens_apart example_os" "serves (os_unix example_os)" "serves (os_tcp example_os)"
  "serves_line (os_serial example_os) dev"
  by (auto simp: example_os_def example_sys_def opens_apart_def opened_by_def serves_def serves_line_def FD_SETSIZE_def)

lemma example_setup: "\<exists>bus. run_setup generous example_os opttab = Inr bus \<and> bus_fds bus = [5, 4, 3]"
proof -
  have "opt_text opttab (Some 3) = Inr ''0.0.0.0:12248''" "opt_text opttab (Some 4) = Inr ''/dev/ttyUSB0''"
    by (simp_all add: opt_text_def opttab_def INIT_OPT_STRING_def opt_string_def assertR_def)
  from setup_works [OF _ fills_refl [OF opttab_ok] this(1) _ this(2) example_os_ok(2-4)] show ?thesis
    by (simp add: generous_def example_os_def example_sys_def)
qed

theorem demo_bus_ends_witness:
  "\<exists>bus. main_bus generous example_os [Deliver 2] [''bus''] = Some (Inr bus) \<and> bus_emptied bus \<and> bus_closed bus = []"
proof -
  obtain bus0 where b0: "run_setup generous example_os opttab = Inr bus0" using example_setup by blast
  have tab: "opt_init_from_arg generous opttab [] [''bus''] = Inr (0, opttab, [])" by (simp add: opt_init_from_arg_def)
  obtain st bus2 where "apibus_disable_posix bus0 (static_sinks bus0) = (st, bus2)" by fastforce
  then have b: "main_bus generous example_os [Deliver 2] [''bus''] = Some (Inr (apibus_destroy bus2))"
    using b0 tab by (simp add: main_bus_def run_apibus_def signal_handler_def)
  have "(if signalled [Deliver 2 :: (sys \<times> (nat \<times> nat) \<times> nat) event]
    then \<exists>x. main_bus generous example_os [Deliver 2] [''bus''] = Some x \<and> (\<forall>bus. x = Inr bus \<longrightarrow> bus_emptied bus \<and> bus_closed bus = [])
    else \<forall>bus. main_bus generous example_os [Deliver 2] [''bus''] \<noteq> Some (Inr bus)) \<and> bus_emptied (apibus_destroy bus0)"
    by (rule demo_bus_ends) (simp_all add: generous_def example_os_ok code_def)
  then show ?thesis using b by auto
qed

end
