(* ===== verification/Log.thy ===== *)
theory Log
  imports Cx_Stdio
begin

text \<open>
  Messages (\<open>log.c\<close>) as compiled for a Unix system. The state is the limit and what was printed. The
  text that \<open>vprintf\<close> makes of the format and the arguments is an argument, and so are the parts of the
  local time: the year as \<open>%Y\<close> prints it, and the fifteen characters of \<open>-%m-%d %H:%M:%S\<close>. The copies
  into the three arrays on the stack are checked against their sizes.
\<close>

subsection \<open>The code\<close>

definition LOG_LV_NONE :: int where "LOG_LV_NONE = 0"
definition LOG_LV_DEBUG :: int where "LOG_LV_DEBUG = 1"
definition LOG_LV_INFO :: int where "LOG_LV_INFO = 2"
definition LOG_LV_NOTICE :: int where "LOG_LV_NOTICE = 3"
definition LOG_LV_WARN :: int where "LOG_LV_WARN = 4"
definition LOG_LV_ERROR :: int where "LOG_LV_ERROR = 5"
definition LOG_LV_FATAL :: int where "LOG_LV_FATAL = 6"

lemmas log_levels = LOG_LV_NONE_def LOG_LV_DEBUG_def LOG_LV_INFO_def LOG_LV_NOTICE_def LOG_LV_WARN_def
  LOG_LV_ERROR_def LOG_LV_FATAL_def

record log_state =
  lg_limit :: int
  lg_out :: string

record local_time =
  lt_year :: int
  lt_rest :: string
  lt_usec :: int

definition log_set_level :: "int \<Rightarrow> log_state \<Rightarrow> int \<times> log_state" where
  "log_set_level level s = (lg_limit s, s\<lparr>lg_limit := level\<rparr>)"

definition colored :: "string \<Rightarrow> string \<Rightarrow> string" where
  "colored color c = CHR 0x1B # color @ c @ CHR 0x1B # ''[0;0m''"

definition log_prefix :: "int \<Rightarrow> string option" where
  "log_prefix level =
     (if level = LOG_LV_NONE then Some []
      else if level = LOG_LV_DEBUG then Some (colored ''[1;36m'' ''D'')
      else if level = LOG_LV_INFO then Some (colored ''[1;29m'' ''I'')
      else if level = LOG_LV_NOTICE then Some (colored ''[1;29m'' ''N'')
      else if level = LOG_LV_WARN then Some (colored ''[1;33m'' ''W'')
      else if level = LOG_LV_ERROR then Some (colored ''[1;31m'' ''E'')
      else if level = LOG_LV_FATAL then Some (colored ''[1;31m'' ''F'')
      else None)"

text \<open>Copies of a text with its terminator to the start of an array, and behind the text in it.\<close>

definition strcpy_to :: "mem \<Rightarrow> string \<Rightarrow> mem res" where
  "strcpy_to m s = mem_write m 0 (s @ [NUL])"

definition strcat_to :: "mem \<Rightarrow> string \<Rightarrow> mem res" where
  "strcat_to m s = (if terminated m then mem_write m (length (cstr m)) (s @ [NUL]) else Inl OutOfBounds)"

text \<open>\<open>%04d\<close>\<close>

definition dec_pad4 :: "int \<Rightarrow> string" where
  "dec_pad4 i = (if i < 0 then CHR ''-'' # replicate (3 - length (dec_string (nat (- i)))) (CHR ''0'') @ dec_string (nat (- i))
                 else replicate (4 - length (dec_string (nat i))) (CHR ''0'') @ dec_string (nat i))"

text \<open>
  \<open>strftime\<close> stores nothing defined when the text with its terminator exceeds the given 30 bytes; the
  array was set to zero, which the model keeps then.
\<close>

definition time_stamp :: "local_time \<Rightarrow> mem res" where
  "time_stamp lt =
     (let text = print_d (lt_year lt) @ lt_rest lt
      in bindR (if length text < 30 then strcpy_to (replicate 32 NUL) text else Inr (replicate 32 NUL)) (\<lambda>buf.
         bindR (strcpy_to (replicate 16 NUL) (''.'' @ dec_pad4 (lt_usec lt div 100))) (\<lambda>usec_buf.
           strcat_to buf (cstr usec_buf))))"

definition log_line :: "int \<Rightarrow> string \<Rightarrow> local_time \<Rightarrow> log_state \<Rightarrow> (int \<times> log_state) res" where
  "log_line level text lt s =
     (case log_prefix level of
        None \<Rightarrow> Inr (1, s\<lparr>lg_out := lg_out s @ ''__log_message: Invalid level passed.'' @ [CHR 0x0A]\<rparr>)
      | Some p \<Rightarrow>
          bindR (strcpy_to (replicate 40 NUL) p) (\<lambda>pre.
          bindR (time_stamp lt) (\<lambda>buf.
            Inr (0, s\<lparr>lg_out := lg_out s @ ''['' @ cstr buf @ ''] '' @ cstr pre @ '' - '' @ text @ [CHR 0x0A]\<rparr>))))"

definition log_message :: "int \<Rightarrow> string \<Rightarrow> string \<Rightarrow> local_time \<Rightarrow> log_state \<Rightarrow> (int \<times> log_state) res" where
  "log_message level format text lt s =
     assertR (format \<noteq> [])
       (if level < lg_limit s \<and> level \<noteq> LOG_LV_NONE then Inr (0, s) else log_line level text lt s)"

text \<open>The macros of \<open>log.h\<close>.\<close>

definition LOG_NONE :: "string \<Rightarrow> string \<Rightarrow> local_time \<Rightarrow> log_state \<Rightarrow> (int \<times> log_state) res" where
  "LOG_NONE format text lt s = log_message LOG_LV_NONE format text lt s"

definition LOG_DEBUG :: "string \<Rightarrow> string \<Rightarrow> local_time \<Rightarrow> log_state \<Rightarrow> (int \<times> log_state) res" where
  "LOG_DEBUG format text lt s = log_message LOG_LV_DEBUG format text lt s"

definition LOG_INFO :: "string \<Rightarrow> string \<Rightarrow> local_time \<Rightarrow> log_state \<Rightarrow> (int \<times> log_state) res" where
  "LOG_INFO format text lt s = log_message LOG_LV_INFO format text lt s"

definition LOG_NOTICE :: "string \<Rightarrow> string \<Rightarrow> local_time \<Rightarrow> log_state \<Rightarrow> (int \<times> log_state) res" where
  "LOG_NOTICE format text lt s = log_message LOG_LV_NOTICE format text lt s"

definition LOG_WARN :: "string \<Rightarrow> string \<Rightarrow> local_time \<Rightarrow> log_state \<Rightarrow> (int \<times> log_state) res" where
  "LOG_WARN format text lt s = log_message LOG_LV_WARN format text lt s"

definition LOG_ERROR :: "string \<Rightarrow> string \<Rightarrow> local_time \<Rightarrow> log_state \<Rightarrow> (int \<times> log_state) res" where
  "LOG_ERROR format text lt s = log_message LOG_LV_ERROR format text lt s"

definition LOG_FATAL :: "string \<Rightarrow> string \<Rightarrow> local_time \<Rightarrow> log_state \<Rightarrow> (int \<times> log_state) res" where
  "LOG_FATAL format text lt s = log_message LOG_LV_FATAL format text lt s"

subsection \<open>The arrays are large enough\<close>

lemma dec_string_NUL [simp]: "NUL \<notin> set (dec_string n)"
  using dec_string_digits [of NUL n] by (auto simp: isdigit_c_def code_def)

lemma print_d_NUL [simp]: "NUL \<notin> set (print_d i)"
  by (simp add: print_d_def)

lemma strcpy_to_zeros:
  assumes "length s < n" and "NUL \<notin> set s"
  shows "\<exists>m. strcpy_to (replicate n NUL) s = Inr m \<and> cstr m = s \<and> terminated m \<and> length m = n"
  using assms by (simp add: strcpy_to_def mem_write_def terminated_def)

lemma strcat_to_fits:
  assumes "terminated m" and "length (cstr m) + length s < length m" and "NUL \<notin> set s"
  shows "\<exists>m'. strcat_to m s = Inr m' \<and> cstr m' = cstr m @ s"
proof -
  have "take (length (cstr m)) m = cstr m" by (rule cstr_prefix)
  then have "strcat_to m s = Inr ((cstr m @ s) @ NUL # drop (length (cstr m) + length s + 1) m)"
    using assms by (simp add: strcat_to_def mem_write_def)
  moreover have "cstr ((cstr m @ s) @ NUL # r) = cstr m @ s" for r
    unfolding cstr_append_NUL using assms(3) by (intro cstr_id) simp
  ultimately show ?thesis by blast
qed

text \<open>Times that \<open>localtime\<close> and \<open>gettimeofday\<close> can give: \<open>tm_year\<close> is an \<open>int\<close>.\<close>

definition time_ok :: "local_time \<Rightarrow> bool" where
  "time_ok lt \<longleftrightarrow> \<bar>lt_year lt\<bar> < 10 ^ 10 \<and> length (lt_rest lt) = 15 \<and> NUL \<notin> set (lt_rest lt) \<and> 0 \<le> lt_usec lt \<and> lt_usec lt < 1000000"

lemma time_stamp_fits:
  assumes "time_ok lt"
  shows "\<exists>buf. time_stamp lt = Inr buf \<and> cstr buf = print_d (lt_year lt) @ lt_rest lt @ ''.'' @ dec_pad4 (lt_usec lt div 100)"
proof -
  let ?text = "print_d (lt_year lt) @ lt_rest lt" and ?us = "''.'' @ dec_pad4 (lt_usec lt div 100)"
  have "nat \<bar>lt_year lt\<bar> < 10 ^ 10" using assms by (simp add: time_ok_def nat_less_iff)
  then have "length (dec_string (nat \<bar>lt_year lt\<bar>)) \<le> 10" by (rule dec_string_length) simp
  then have tx: "length ?text \<le> 26" "NUL \<notin> set ?text" using assms by (auto simp: print_d_def time_ok_def)
  have u: "nat (lt_usec lt div 100) < 10 ^ 4" "0 \<le> lt_usec lt div 100"
    using assms by (auto simp: time_ok_def pos_imp_zdiv_nonneg_iff)
  then have "length (dec_string (nat (lt_usec lt div 100))) \<le> 4" by (intro dec_string_length) simp_all
  then have us: "length ?us = 5" "NUL \<notin> set ?us" using u(2) by (simp_all add: dec_pad4_def)
  obtain m where m: "strcpy_to (replicate 32 NUL) ?text = Inr m" "cstr m = ?text" "terminated m" "length m = 32"
    using strcpy_to_zeros [of ?text 32] tx by auto
  obtain k where k: "strcpy_to (replicate 16 NUL) ?us = Inr k" "cstr k = ?us" using strcpy_to_zeros [of ?us 16] us by auto
  obtain b where "strcat_to m ?us = Inr b" "cstr b = ?text @ ?us" using strcat_to_fits [of m ?us] m(2-4) us tx(1) by auto
  then show ?thesis using m(1) k tx(1) by (simp add: time_stamp_def Let_def)
qed

text \<open>A message with a format stays within the arrays, and what it prints.\<close>

lemma log_message_eq:
  assumes "time_ok lt" and "format \<noteq> []"
  shows "log_message level format text lt s =
    (if level < lg_limit s \<and> level \<noteq> LOG_LV_NONE then Inr (0, s)
     else case log_prefix level of
       None \<Rightarrow> Inr (1, s\<lparr>lg_out := lg_out s @ ''__log_message: Invalid level passed.'' @ [CHR 0x0A]\<rparr>)
     | Some p \<Rightarrow> Inr (0, s\<lparr>lg_out := lg_out s @
         ''['' @ print_d (lt_year lt) @ lt_rest lt @ ''.'' @ dec_pad4 (lt_usec lt div 100) @ ''] '' @ p @ '' - '' @ text @ [CHR 0x0A]\<rparr>))"
proof (cases "log_prefix level")
  case None
  then show ?thesis using assms(2) by (simp add: log_message_def log_line_def)
next
  case (Some p)
  then have "length p < 40" "NUL \<notin> set p" by (auto simp: log_prefix_def colored_def split: if_splits)
  then obtain m where "strcpy_to (replicate 40 NUL) p = Inr m" "cstr m = p" using strcpy_to_zeros by blast
  then show ?thesis using time_stamp_fits [OF assms(1)] Some assms(2) by (auto simp: log_message_def log_line_def)
qed

text \<open>C37: A message with a format stays within the arrays whatever the time: below the limit nothing is
  printed, an unknown level is reported with result 1, and every other message is printed as one line
  with its time stamp and the prefix of its level.\<close>

theorem log_message_prints:
  assumes "time_ok lt" and "format \<noteq> []"
  shows "log_message level format text lt s =
    (if level < lg_limit s \<and> level \<noteq> LOG_LV_NONE then Inr (0, s)
     else case log_prefix level of
       None \<Rightarrow> Inr (1, s\<lparr>lg_out := lg_out s @ ''__log_message: Invalid level passed.'' @ [CHR 0x0A]\<rparr>)
     | Some p \<Rightarrow> Inr (0, s\<lparr>lg_out := lg_out s @
         ''['' @ print_d (lt_year lt) @ lt_rest lt @ ''.'' @ dec_pad4 (lt_usec lt div 100) @ ''] '' @ p @ '' - '' @ text @ [CHR 0x0A]\<rparr>))"
  using log_message_eq [OF assms] .

theorem log_message_prints_witness:
  "log_message LOG_LV_INFO ''x'' ''hi'' \<lparr>lt_year = 2024, lt_rest = ''-01-02 03:04:05'', lt_usec = 0\<rparr> \<lparr>lg_limit = LOG_LV_ERROR, lg_out = []\<rparr>
    = Inr (0, \<lparr>lg_limit = LOG_LV_ERROR, lg_out = []\<rparr>)"
  using log_message_prints [of "\<lparr>lt_year = 2024, lt_rest = ''-01-02 03:04:05'', lt_usec = 0\<rparr>" "''x''" LOG_LV_INFO "''hi''"
      "\<lparr>lg_limit = LOG_LV_ERROR, lg_out = []\<rparr>"] by (simp add: time_ok_def log_levels)

end
