(* ===== verification/Demo_Clients.thy ===== *)
theory Demo_Clients
  imports Demo_Bus Log
begin

text \<open>
  The programs \<open>src/demos/apix_tcp.c\<close> and \<open>src/demos/apix_serial.c\<close>: clients that send the same request
  again and again and print what they receive, the one over a socket of its own, the other through a bus
  with a serial line. Pauses, and calls whose results are not used (\<open>setsockopt\<close>, \<open>getsockname\<close>), have no
  counterpart in the model; releasing the packet is modelled in \<open>Lifetimes\<close>.
\<close>

subsection \<open>The code that both have\<close>

definition client_request :: "allocator \<Rightarrow> srrp_packet res" where
  "client_request al = srrp_write_request al 3333 ''/8888/echo'' ''{msg:'hello'}''"

text \<open>\<open>LOG_INFO("%d, %s", nr, buf)\<close>: the block is read up to its terminator, if the message is printed.\<close>

definition show_block :: "int \<Rightarrow> mem \<Rightarrow> local_time \<Rightarrow> log_state \<Rightarrow> log_state res" where
  "show_block nr buf lt lg =
     bindR (if LOG_LV_INFO < lg_limit lg then Inr []
            else if terminated buf then Inr (print_d nr @ '', '' @ cstr buf) else Inl OutOfBounds) (\<lambda>text.
     bindR (LOG_INFO ''%d, %s'' text lt lg) (\<lambda>(_, lg1). Inr lg1))"

text \<open>The 256 bytes of \<open>buf\<close>, set to zero, after a call that stored \<open>bytes\<close> at their start.\<close>

definition CLIENT_BUF_SIZE :: nat where "CLIENT_BUF_SIZE = 256"

definition received_into :: "mem \<Rightarrow> mem res" where
  "received_into bytes = mem_write (replicate CLIENT_BUF_SIZE NUL) 0 bytes"

subsection \<open>The client with a socket\<close>

text \<open>What the program has sent, what it has closed and what it has printed.\<close>

record client =
  cl_sent :: "(int \<times> mem) list"
  cl_closed :: "int list"
  cl_log :: log_state

text \<open>One pass of the loop: the answers of the operating system, and the times of the two messages.\<close>

definition tcp_round :: "allocator \<Rightarrow> int \<Rightarrow> sys \<times> local_time \<times> local_time \<Rightarrow> client \<Rightarrow> client res option" where
  "tcp_round al fd w cl =
     (let (sys, lt1, lt2) = w
      in Some (bindR (client_request al) (\<lambda>pac.
           bindR (mem_read (pk_raw pac) 0 (unat (pk_len pac))) (\<lambda>bytes.
           bindR (show_block (sys_send sys fd bytes) (pk_raw pac) lt1 (cl_log cl)) (\<lambda>lg1.
           bindR (received_into (case sys_recv sys fd CLIENT_BUF_SIZE of None \<Rightarrow> [] | Some got \<Rightarrow> got)) (\<lambda>buf.
           bindR (show_block (case sys_recv sys fd CLIENT_BUF_SIZE of None \<Rightarrow> - 1 | Some got \<Rightarrow> int (length got)) buf lt2 lg1) (\<lambda>lg2.
             Inr (cl\<lparr>cl_sent := cl_sent cl @ [(fd, bytes)], cl_log := lg2\<rparr>))))))))"

text \<open>What the operating system answers while the connection is made; \<open>ntoa\<close> is \<open>inet_ntoa\<close>.\<close>

record connect_os =
  co_sys :: sys
  co_connect :: "int \<Rightarrow> sockaddr \<Rightarrow> int"
  co_ntoa :: "32 word \<Rightarrow> string"
  co_time :: local_time

definition demo_tcp :: "allocator \<Rightarrow> connect_os \<Rightarrow> (sys \<times> local_time \<times> local_time) event list \<Rightarrow> client \<Rightarrow> (int \<times> client) res option" where
  "demo_tcp al os evs cl =
     (let fd = sys_socket (co_sys os);
          addr = sys_inet_addr (co_sys os) ''127.0.0.1'';
          port = htons 12248
      in if fd = - 1 then Some (Inr (- 1, cl))
         else if co_connect os fd (Sin addr port) = - 1 then Some (Inr (- 1, cl\<lparr>cl_closed := cl_closed cl @ [fd]\<rparr>))
         else case LOG_DEBUG ''Socket (C #%d) connected to %s:%d''
                (''Socket (C #'' @ print_d fd @ '') connected to '' @ co_ntoa os addr @ '':'' @ print_d (uint (htons port)))
                (co_time os) (cl_log cl) of
                Inl e \<Rightarrow> Some (Inl e)
              | Inr (_, lg) \<Rightarrow>
                  map_option (\<lambda>r. bindR r (\<lambda>cl1. Inr (0, cl1))) (exit_loop (tcp_round al fd) 0 (cl\<lparr>cl_log := lg\<rparr>) evs))"

definition main_tcp :: "allocator \<Rightarrow> connect_os \<Rightarrow> (sys \<times> local_time \<times> local_time) event list \<Rightarrow> client \<Rightarrow> client res option" where
  "main_tcp al os evs cl =
     (let (_, lg) = log_set_level LOG_LV_DEBUG (cl_log cl)
      in map_option (\<lambda>r. bindR r (\<lambda>(_, cl1). Inr cl1)) (demo_tcp al os evs (cl\<lparr>cl_log := lg\<rparr>)))"

subsection \<open>The client with a serial line\<close>

definition SERIAL_ADDR :: string where "SERIAL_ADDR = ''/dev/ttyUSB0''"

definition serial_round ::
  "allocator \<Rightarrow> int \<Rightarrow> sys \<times> local_time \<times> local_time \<Rightarrow> apibus \<times> log_state \<Rightarrow> (apibus \<times> log_state) res option" where
  "serial_round al fd w s =
     (let (sys, lt1, lt2) = w; (bus, lg) = s
      in Some (bindR (client_request al) (\<lambda>pac.
           bindR (apibus_send (posix_env al sys) bus fd (pk_raw pac) (unat (pk_len pac))) (\<lambda>(nr, bus1).
           bindR (show_block nr (pk_raw pac) lt1 lg) (\<lambda>lg1.
           let (nr, got) = apibus_recv (posix_env al sys) bus1 fd CLIENT_BUF_SIZE
           in bindR (received_into got) (\<lambda>buf.
              bindR (show_block nr buf lt2 lg1) (\<lambda>lg2. Inr (bus1, lg2))))))))"

definition serial_end :: "allocator \<Rightarrow> sys \<Rightarrow> int \<Rightarrow> apibus \<times> log_state \<Rightarrow> (apibus \<times> log_state) res" where
  "serial_end al sys fd s =
     (let (bus, lg) = s;
          (_, bus1) = apibus_close (posix_env al sys) bus fd;
          (_, bus2) = apibus_disable_posix bus1 (static_sinks bus1)
      in Inr (apibus_destroy bus2, lg))"

definition demo_serial ::
  "allocator \<Rightarrow> sys \<Rightarrow> (sys \<times> local_time \<times> local_time) event list \<Rightarrow> log_state \<Rightarrow> (apibus \<times> log_state) res option" where
  "demo_serial al sys evs lg =
     (case bindR (apibus_new al) (\<lambda>bus0.
           bindR (apibus_enable_posix bus0 zero_sinks) (\<lambda>(_, bus1). open_serial_line al sys bus1 SERIAL_ADDR)) of
        Inl e \<Rightarrow> Some (Inl e)
      | Inr (fd, bus) \<Rightarrow>
          map_option (\<lambda>r. bindR r (serial_end al sys fd)) (exit_loop (serial_round al fd) 0 (bus, lg) evs))"

definition main_serial ::
  "allocator \<Rightarrow> sys \<Rightarrow> (sys \<times> local_time \<times> local_time) event list \<Rightarrow> log_state \<Rightarrow> (apibus \<times> log_state) res option" where
  "main_serial al sys evs lg = (let (_, lg1) = log_set_level LOG_LV_DEBUG lg in demo_serial al sys evs lg1)"

subsection \<open>Rounds\<close>

text \<open>The bytes of the request.\<close>

definition request_bytes :: mem where
  "request_bytes = ''>0,$,0028,0d05:/8888/echo?{msg:'hello'}'' @ [NUL]"

lemma client_request_bytes:
  assumes "\<And>n. grant al n"
  shows "\<exists>p. client_request al = Inr p \<and> pk_raw p = request_bytes \<and> unat (pk_len p) = 40"
proof -
  have "hex4 40 = ''0028''" "hex4 3333 = ''0d05''"
    by (simp_all add: hex4_def hex_string.simps hex_char_def char_of_def bit_0 bit_Suc) (simp add: numeral_2_eq_2)
  then show ?thesis
    using assms
    by (simp add: client_request_def request_bytes_def srrp_write_request_def srrp_write_body_def Let_def assertR_def srrp_consts
        padded_def snprintf_s_def)
qed

text \<open>A line that \<open>LOG_INFO\<close> prints.\<close>

definition info_line :: "local_time \<Rightarrow> int \<Rightarrow> string \<Rightarrow> string" where
  "info_line lt nr text = ''['' @ print_d (lt_year lt) @ lt_rest lt @ ''.'' @ dec_pad4 (lt_usec lt div 100) @ ''] '' @
     colored ''[1;29m'' ''I'' @ '' - '' @ print_d nr @ '', '' @ text @ [CHR 0x0A]"

lemma show_block_prints:
  assumes "lg_limit lg \<le> LOG_LV_INFO" and "terminated buf" and "time_ok lt"
  shows "show_block nr buf lt lg = Inr (lg\<lparr>lg_out := lg_out lg @ info_line lt nr (cstr buf)\<rparr>)"
  using assms log_message_eq [OF assms(3), of "''%d, %s''"]
  by (simp add: show_block_def LOG_INFO_def info_line_def log_prefix_def log_levels)

text \<open>What was received can be printed: it is a text, or at least leaves room for a terminator.\<close>

definition printable :: "mem \<Rightarrow> bool" where
  "printable got \<longleftrightarrow> length got \<le> CLIENT_BUF_SIZE \<and> (length got < CLIENT_BUF_SIZE \<or> NUL \<in> set got)"

lemma received_into_terminated:
  assumes "printable got"
  shows "\<exists>buf. received_into got = Inr buf \<and> terminated buf \<and> cstr buf = cstr got"
proof -
  have "takeWhile (\<lambda>c. c \<noteq> NUL) (got @ replicate n NUL) = takeWhile (\<lambda>c. c \<noteq> NUL) got" for n
    by (induction got) simp_all
  then show ?thesis
    using assms by (auto simp: received_into_def mem_write_def printable_def CLIENT_BUF_SIZE_def terminated_def cstr_def)
qed

text \<open>A round of the client with a socket, whatever is sent and received.\<close>

definition got_of :: "sys \<Rightarrow> int \<Rightarrow> mem" where
  "got_of sys fd = (case sys_recv sys fd CLIENT_BUF_SIZE of None \<Rightarrow> [] | Some got \<Rightarrow> got)"

definition got_nr :: "sys \<Rightarrow> int \<Rightarrow> int" where
  "got_nr sys fd = (case sys_recv sys fd CLIENT_BUF_SIZE of None \<Rightarrow> - 1 | Some got \<Rightarrow> int (length got))"

lemma cstr_request_bytes: "cstr request_bytes = butlast request_bytes" "terminated request_bytes"
  by (simp_all add: request_bytes_def cstr_def terminated_def)

lemma tcp_round_works:
  assumes "\<And>n. grant al n" and "lg_limit (cl_log cl) \<le> LOG_LV_INFO" and "time_ok lt1" and "time_ok lt2" and "printable (got_of sys fd)"
  shows "tcp_round al fd (sys, lt1, lt2) cl = Some (Inr (cl\<lparr>cl_sent := cl_sent cl @ [(fd, request_bytes)],
    cl_log := (cl_log cl)\<lparr>lg_out := lg_out (cl_log cl) @ info_line lt1 (sys_send sys fd request_bytes) (butlast request_bytes) @
      info_line lt2 (got_nr sys fd) (cstr (got_of sys fd))\<rparr>\<rparr>))"
proof -
  obtain p where p: "client_request al = Inr p" "pk_raw p = request_bytes" "unat (pk_len p) = 40"
    using client_request_bytes [OF assms(1)] by blast
  have "mem_read request_bytes 0 40 = Inr request_bytes" by (simp add: request_bytes_def mem_read_def)
  moreover obtain buf where "received_into (got_of sys fd) = Inr buf" "terminated buf" "cstr buf = cstr (got_of sys fd)"
    using received_into_terminated [OF assms(5)] by blast
  ultimately show ?thesis
    using p assms(2-4) cstr_request_bytes
    by (simp add: tcp_round_def show_block_prints got_nr_def [symmetric] got_of_def [symmetric])
qed

text \<open>A round of the client with a serial line.\<close>

definition line_got :: "sys \<Rightarrow> int \<Rightarrow> mem" where
  "line_got sys fd = (case sys_read sys fd CLIENT_BUF_SIZE of None \<Rightarrow> [] | Some got \<Rightarrow> got)"

definition line_nr :: "sys \<Rightarrow> int \<Rightarrow> int" where
  "line_nr sys fd = (case sys_read sys fd CLIENT_BUF_SIZE of None \<Rightarrow> - 1 | Some got \<Rightarrow> int (length got))"

definition on_line :: "apibus \<Rightarrow> int \<Rightarrow> bool" where
  "on_line bus fd \<longleftrightarrow> (\<exists>sf s. find_sinkfd_in_apibus bus fd = Some sf \<and> sf_sink sf = Some s \<and> sk_ops s = 2)"

lemma serial_round_works:
  assumes "\<And>n. grant al n" and "lg_limit lg \<le> LOG_LV_INFO" and "time_ok lt1" and "time_ok lt2" and "printable (line_got sys fd)"
    and "on_line bus fd"
  shows "serial_round al fd (sys, lt1, lt2) (bus, lg) = Some (Inr (bus\<lparr>bus_sent := bus_sent bus @ [(fd, request_bytes)]\<rparr>,
    lg\<lparr>lg_out := lg_out lg @ info_line lt1 (sys_write sys fd request_bytes) (butlast request_bytes) @
      info_line lt2 (line_nr sys fd) (cstr (line_got sys fd))\<rparr>))"
proof -
  obtain p where p: "client_request al = Inr p" "pk_raw p = request_bytes" "unat (pk_len p) = 40"
    using client_request_bytes [OF assms(1)] by blast
  have read: "mem_read request_bytes 0 40 = Inr request_bytes" by (simp add: request_bytes_def mem_read_def)
  obtain sf s where s: "find_sinkfd_in_apibus bus fd = Some sf" "sf_sink sf = Some s" "sk_ops s = 2"
    using assms(6) by (auto simp: on_line_def)
  have "find_sinkfd_in_apibus (bus\<lparr>bus_sent := x\<rparr>) fd = Some sf" for x using s(1) by (simp add: find_sinkfd_in_apibus_def)
  then have "apibus_send (posix_env al sys) bus fd request_bytes 40 =
      Inr (sys_write sys fd request_bytes, bus\<lparr>bus_sent := bus_sent bus @ [(fd, request_bytes)]\<rparr>)"
    "apibus_recv (posix_env al sys) (bus\<lparr>bus_sent := x\<rparr>) fd CLIENT_BUF_SIZE = (line_nr sys fd, line_got sys fd)" for x
    using s read by (auto simp: apibus_send_def apibus_recv_def posix_env_def serial_ops_def serial_send_def serial_recv_def
        line_nr_def line_got_def split: option.split)
  moreover obtain buf where "received_into (line_got sys fd) = Inr buf" "terminated buf" "cstr buf = cstr (line_got sys fd)"
    using received_into_terminated [OF assms(5)] by blast
  ultimately show ?thesis
    using p assms(2-4) cstr_request_bytes by (simp add: serial_round_def show_block_prints)
qed

subsection \<open>Whole runs\<close>

definition tcp_good :: "int \<Rightarrow> client \<Rightarrow> nat \<Rightarrow> client \<Rightarrow> bool" where
  "tcp_good fd cl0 n cl \<longleftrightarrow> cl_sent cl = cl_sent cl0 @ replicate n (fd, request_bytes) \<and> cl_closed cl = cl_closed cl0 \<and>
     lg_limit (cl_log cl) = LOG_LV_DEBUG"

definition tcp_possible :: "allocator \<Rightarrow> int \<Rightarrow> sys \<times> local_time \<times> local_time \<Rightarrow> bool" where
  "tcp_possible al fd w \<longleftrightarrow> (let (sys, lt1, lt2) = w
     in (\<forall>n. grant al n) \<and> time_ok lt1 \<and> time_ok lt2 \<and> printable (got_of sys fd))"

interpretation tcp_client: safe_loop "tcp_round al fd" "tcp_good fd cl0" "\<lambda>w s. tcp_possible al fd w"
proof -
  have "\<exists>s'. tcp_round al fd w s = Some (Inr s') \<and> tcp_good fd cl0 (Suc n) s'" if "tcp_good fd cl0 n s" "tcp_possible al fd w"
    for n w s
  proof -
    obtain sys lt1 lt2 where w: "w = (sys, lt1, lt2)" by (cases w)
    have g: "\<And>n. grant al n" "lg_limit (cl_log s) \<le> LOG_LV_INFO" "time_ok lt1" "time_ok lt2" "printable (got_of sys fd)"
      using that by (auto simp: w tcp_possible_def tcp_good_def log_levels)
    show ?thesis using tcp_round_works [OF g] that(1) by (simp add: w tcp_good_def replicate_append_same)
  qed
  then show "safe_loop (tcp_round al fd) (tcp_good fd cl0) (\<lambda>w s. tcp_possible al fd w)" by unfold_locales (metis option.inject sum.inject(2))+
qed

definition line_good :: "int \<Rightarrow> apibus \<times> log_state \<Rightarrow> nat \<Rightarrow> apibus \<times> log_state \<Rightarrow> bool" where
  "line_good fd s0 n s \<longleftrightarrow> fst s = (fst s0)\<lparr>bus_sent := bus_sent (fst s0) @ replicate n (fd, request_bytes)\<rparr> \<and>
     on_line (fst s0) fd \<and> lg_limit (snd s) = LOG_LV_DEBUG"

definition line_possible :: "allocator \<Rightarrow> int \<Rightarrow> sys \<times> local_time \<times> local_time \<Rightarrow> bool" where
  "line_possible al fd w \<longleftrightarrow> (let (sys, lt1, lt2) = w
     in (\<forall>n. grant al n) \<and> time_ok lt1 \<and> time_ok lt2 \<and> printable (line_got sys fd))"

interpretation line_client: safe_loop "serial_round al fd" "line_good fd s0" "\<lambda>w s. line_possible al fd w"
proof -
  have "\<exists>s'. serial_round al fd w s = Some (Inr s') \<and> line_good fd s0 (Suc n) s'" if "line_good fd s0 n s" "line_possible al fd w"
    for n w s
  proof -
    obtain sys lt1 lt2 bus lg where w: "w = (sys, lt1, lt2)" "s = (bus, lg)" by (cases w, cases s)
    have "on_line bus fd" using that(1) by (simp add: w line_good_def on_line_def find_sinkfd_in_apibus_def)
    then have g: "\<And>n. grant al n" "lg_limit lg \<le> LOG_LV_INFO" "time_ok lt1" "time_ok lt2" "printable (line_got sys fd)" "on_line bus fd"
      using that by (auto simp: w line_possible_def line_good_def log_levels)
    show ?thesis using serial_round_works [OF g] that(1) by (simp add: w line_good_def replicate_append_same)
  qed
  then show "safe_loop (serial_round al fd) (line_good fd s0) (\<lambda>w s. line_possible al fd w)"
    by unfold_locales (metis option.inject sum.inject(2))+
qed

lemma connect_message:
  assumes "time_ok lt" and "lg_limit lg = LOG_LV_DEBUG"
  shows "\<exists>out. LOG_DEBUG ''Socket (C #%d) connected to %s:%d'' msg lt lg = Inr (0, lg\<lparr>lg_out := out\<rparr>)"
  using log_message_eq [OF assms(1), of "''Socket (C #%d) connected to %s:%d''" LOG_LV_DEBUG msg lg] assms(2)
  by (auto simp: LOG_DEBUG_def log_prefix_def log_levels)

text \<open>The client with a socket: connected, with answers that can be printed, it ends when a signal is
  delivered, having sent the request once for every round; it has not closed its socket.\<close>

theorem tcp_client_runs:
  assumes "sys_socket (co_sys os) = fd" and "fd \<noteq> - 1" and "\<And>sa. co_connect os fd sa \<noteq> - 1" and "time_ok (co_time os)"
    and "each_round (tcp_possible al fd) evs" and "signalled evs"
  shows "\<exists>cl'. main_tcp al os evs cl = Some (Inr cl') \<and>
    cl_sent cl' = cl_sent cl @ replicate (rounds_done evs) (fd, request_bytes) \<and> cl_closed cl' = cl_closed cl"
proof -
  let ?lg = "(cl_log cl)\<lparr>lg_limit := LOG_LV_DEBUG\<rparr>"
  let ?addr = "sys_inet_addr (co_sys os) ''127.0.0.1''"
  obtain out where d: "LOG_DEBUG ''Socket (C #%d) connected to %s:%d'' (''Socket (C #'' @ print_d fd @ '') connected to '' @
      co_ntoa os ?addr @ '':'' @ print_d (uint (htons (htons 12248)))) (co_time os) ?lg = Inr (0, ?lg\<lparr>lg_out := out\<rparr>)"
    using connect_message [OF assms(4)] by fastforce
  have "tcp_good fd cl 0 (cl\<lparr>cl_log := ?lg\<lparr>lg_out := out\<rparr>\<rparr>)" by (simp add: tcp_good_def)
  from tcp_client.loop_returns [OF this each_round_possible [OF assms(5)] assms(6)]
  obtain cl' where "exit_loop (tcp_round al fd) 0 (cl\<lparr>cl_log := ?lg\<lparr>lg_out := out\<rparr>\<rparr>) evs = Some (Inr cl')"
    "tcp_good fd cl (rounds_done evs) cl'" by auto
  then show ?thesis
    using assms(1-3) d by (simp add: main_tcp_def log_set_level_def demo_tcp_def Let_def tcp_good_def)
qed

text \<open>An operating system for the examples: descriptor 3, an answer of the bus, and a time.\<close>

definition client_sys :: sys where
  "client_sys = example_sys\<lparr>sys_recv := (\<lambda>_ _. Some ''STATION NOT FOUND''), sys_read := (\<lambda>_ _. Some ''STATION NOT FOUND'')\<rparr>"

definition some_time :: local_time where
  "some_time = \<lparr>lt_year = 2024, lt_rest = ''-01-02 03:04:05'', lt_usec = 0\<rparr>"

definition client_start :: client where
  "client_start = \<lparr>cl_sent = [], cl_closed = [], cl_log = \<lparr>lg_limit = LOG_LV_INFO, lg_out = []\<rparr>\<rparr>"

lemma some_time_ok: "time_ok some_time"
  by (simp add: some_time_def time_ok_def)

lemma client_sys_round: "tcp_possible generous fd (client_sys, some_time, some_time)" "line_possible generous fd (client_sys, some_time, some_time)"
  by (simp_all add: tcp_possible_def line_possible_def some_time_ok generous_def got_of_def line_got_def client_sys_def printable_def
      CLIENT_BUF_SIZE_def)

theorem tcp_client_runs_witness:
  "\<exists>cl'. main_tcp generous \<lparr>co_sys = client_sys, co_connect = (\<lambda>_ _. 0), co_ntoa = (\<lambda>_. ''127.0.0.1''), co_time = some_time\<rparr>
      [Round (client_sys, some_time, some_time), Deliver 2] client_start = Some (Inr cl') \<and>
    cl_sent cl' = [(3, request_bytes)] \<and> cl_closed cl' = []"
  using tcp_client_runs [of "\<lparr>co_sys = client_sys, co_connect = (\<lambda>_ _. 0), co_ntoa = (\<lambda>_. ''127.0.0.1''), co_time = some_time\<rparr>" 3
      generous "[Round (client_sys, some_time, some_time), Deliver 2]" client_start] client_sys_round(1) [of 3] some_time_ok
  by (simp add: each_round_def client_start_def client_sys_def example_sys_def)

lemma line_set_up:
  assumes "\<And>n. grant al n" and "serves_line sys dev"
  shows "\<exists>bus0 r bus1 bus sf s. apibus_new al = Inr bus0 \<and> apibus_enable_posix bus0 zero_sinks = Inr (r, bus1) \<and>
    open_serial_line al sys bus1 dev = Inr (sys_open sys dev, bus) \<and> bus_sinkfds bus = [sf] \<and> sf_fd sf = sys_open sys dev \<and>
    sf_sink sf = Some s \<and> sk_ops s = 2 \<and> bus_closed bus = [] \<and> bus_sent bus = []"
proof -
  obtain bus0 bus1 where b: "apibus_new al = Inr bus0" "apibus_enable_posix bus0 zero_sinks = Inr (0, bus1)" "bus_sinkfds bus1 = []"
      "posix_sinks_on bus1" "bus_closed bus1 = []" "bus_sent bus1 = []"
    using enabled [OF assms(1)] by (auto simp: posix_sinks_on_def enabled_sink_def bus_fds_def bus_good_def)
  then show ?thesis using line_opens [OF assms b(4)] by auto
qed

lemma line_client_ends:
  assumes "bus_sinkfds bus = [sf]" and "sf_fd sf = fd" and "sf_sink sf = Some s" and "sk_ops s = 2"
  shows "\<exists>bus'. serial_end al sys fd (bus, lg) = Inr (bus', lg) \<and> bus_sinkfds bus' = [] \<and> bus_sinks bus' = [] \<and>
    bus_sent bus' = bus_sent bus \<and> bus_closed bus' = bus_closed bus @ [fd]"
proof -
  have "apibus_close (posix_env al sys) bus fd = (0, sinkfd_destroy (close_fd bus fd) sf)"
    using assms by (simp add: apibus_close_def find_sinkfd_in_apibus_def posix_env_def serial_ops_def serial_close_def
        posix_detach_def find_sinkfd_in_apisink_def sink_sinkfds_def)
  moreover obtain st bus2 where "apibus_disable_posix (sinkfd_destroy (close_fd bus fd) sf)
      (static_sinks (sinkfd_destroy (close_fd bus fd) sf)) = (st, bus2)" by fastforce
  ultimately show ?thesis using shut_down by (simp add: serial_end_def sinkfd_destroy_def close_fd_def)
qed

text \<open>The client with a serial line that can be opened and set up, under the same conditions; it closes its
  descriptor.\<close>

theorem line_client_runs:
  assumes "\<And>n. grant al n" and "serves_line sys SERIAL_ADDR" and "sys_open sys SERIAL_ADDR = fd"
    and "each_round (line_possible al fd) evs" and "signalled evs"
  shows "\<exists>bus lg'. main_serial al sys evs lg = Some (Inr (bus, lg')) \<and> bus_sinkfds bus = [] \<and>
    bus_sent bus = replicate (rounds_done evs) (fd, request_bytes) \<and> bus_closed bus = [fd]"
proof -
  let ?lg = "lg\<lparr>lg_limit := LOG_LV_DEBUG\<rparr>"
  obtain bus0 r bus1 bus sf s where b: "apibus_new al = Inr bus0" "apibus_enable_posix bus0 zero_sinks = Inr (r, bus1)"
      "open_serial_line al sys bus1 SERIAL_ADDR = Inr (fd, bus)" "bus_sinkfds bus = [sf]" "sf_fd sf = fd"
      "sf_sink sf = Some s" "sk_ops s = 2" "bus_closed bus = []" "bus_sent bus = []"
    using line_set_up [OF assms(1,2)] assms(3) by auto
  then have "line_good fd (bus, ?lg) 0 (bus, ?lg)" by (simp add: line_good_def on_line_def find_sinkfd_in_apibus_def)
  from line_client.loop_returns [OF this each_round_possible [OF assms(4)] assms(5)]
  obtain bus2 lg2 where l: "exit_loop (serial_round al fd) 0 (bus, ?lg) evs = Some (Inr (bus2, lg2))"
    "bus2 = bus\<lparr>bus_sent := replicate (rounds_done evs) (fd, request_bytes)\<rparr>" using b(9) by (auto simp: line_good_def)
  obtain bus3 where "serial_end al sys fd (bus2, lg2) = Inr (bus3, lg2)" "bus_sinkfds bus3 = []" "bus_sent bus3 = bus_sent bus2"
      "bus_closed bus3 = [fd]"
    using line_client_ends [of bus2 sf fd s al sys lg2] b(4-8) l(2) by auto
  then show ?thesis using b(1-3) l by (simp add: main_serial_def log_set_level_def demo_serial_def)
qed

theorem line_client_runs_witness:
  "\<exists>bus lg'. main_serial generous client_sys [Round (client_sys, some_time, some_time), Deliver 2] \<lparr>lg_limit = LOG_LV_INFO, lg_out = []\<rparr> =
      Some (Inr (bus, lg')) \<and> bus_sent bus = [(3, request_bytes)] \<and> bus_closed bus = [3]"
proof -
  have "serves_line client_sys SERIAL_ADDR" "sys_open client_sys SERIAL_ADDR = 3"
    by (simp_all add: serves_line_def client_sys_def example_sys_def FD_SETSIZE_def)
  from line_client_runs [OF _ this, of generous "[Round (client_sys, some_time, some_time), Deliver 2]"
      "\<lparr>lg_limit = LOG_LV_INFO, lg_out = []\<rparr>"] client_sys_round(2) [of 3]
  show ?thesis by (auto simp: each_round_def generous_def)
qed

text \<open>C40: A client that receives 256 bytes without a terminator reads past its buffer when it prints them.\<close>

theorem client_overreads:
  assumes "\<And>n. grant al n" and "lg_limit (cl_log cl) \<le> LOG_LV_INFO" and "time_ok lt1"
    and "sys_recv sys fd CLIENT_BUF_SIZE = Some got" and "length got = CLIENT_BUF_SIZE" and "NUL \<notin> set got"
  shows "tcp_round al fd (sys, lt1, lt2) cl = Some (Inl OutOfBounds)"
proof -
  obtain p where p: "client_request al = Inr p" "pk_raw p = request_bytes" "unat (pk_len p) = 40"
    using client_request_bytes [OF assms(1)] by blast
  have "mem_read request_bytes 0 40 = Inr request_bytes" by (simp add: request_bytes_def mem_read_def)
  moreover have "received_into got = Inr got" using assms(5) by (simp add: received_into_def mem_write_def)
  moreover have "show_block n got lt2 lg = Inl OutOfBounds" if "lg_limit lg \<le> LOG_LV_INFO" for n lg
    using assms(6) that by (simp add: show_block_def terminated_def)
  ultimately show ?thesis
    using p assms(2-4) cstr_request_bytes by (simp add: tcp_round_def show_block_prints)
qed

theorem client_overreads_witness:
  "tcp_round generous 3 (client_sys\<lparr>sys_recv := (\<lambda>_ n. Some (replicate n CHR ''x''))\<rparr>, some_time, some_time) client_start = Some (Inl OutOfBounds)"
  by (rule client_overreads [where got = "replicate CLIENT_BUF_SIZE CHR ''x''"])
    (simp_all only: length_replicate set_replicate_conv_if, simp_all add: generous_def client_start_def some_time_ok CLIENT_BUF_SIZE_def)

lemma tcp_round_sends:
  assumes "\<And>n. grant al n" and "tcp_round al fd w cl = Some (Inr cl1)"
  shows "cl_sent cl1 = cl_sent cl @ [(fd, request_bytes)]"
proof -
  obtain p where p: "client_request al = Inr p" "pk_raw p = request_bytes" "unat (pk_len p) = 40"
    using client_request_bytes [OF assms(1)] by blast
  have "mem_read request_bytes 0 40 = Inr request_bytes" by (simp add: request_bytes_def mem_read_def)
  then show ?thesis using assms(2) p by (auto simp: tcp_round_def bindR_eq_Inr_iff split: prod.splits)
qed

lemma request_texts:
  "srrp_header_ok ''/8888/echo''" "srrp_data_ok ''{msg:'hello'}''" "length ''/8888/echo'' < SRRP_HEADER_LEN"
  by (simp_all add: srrp_header_ok_def srrp_data_ok_def sublist_code SRRP_HEADER_LEN_def)

lemma scan_dstid_8888: "scan_dstid (padded SRRP_HEADER_LEN ''/8888/echo'') = Inr (Some 8888)"
  by (simp add: scan_dstid_def padded_def SRRP_HEADER_LEN_def terminated_def cstr_def scan_d_def scan_sign_def isspace_c_def
      isdigit_c_def code_def strtol32_def to_int32_def)

text \<open>C18: The client and the bus: what a round of the client sends arrives at a bus without a station 8888. The
  bus sends an answer to the connection of the client, and the round that receives it prints that there
  is no such station.\<close>

theorem client_meets_bus:
  assumes "\<And>n. grant al n" and "tcp_round al fd w cl = Some (Inr cl1)" and "lg_limit (cl_log cl1) \<le> LOG_LV_INFO"
    and "bus_inv bus" and "list_all drained (bus_sinkfds bus)" and "list_all (waiting now) (bus_requests bus)"
    and "list_all (\<lambda>st. st_fd st \<in> set (bus_fds bus)) (bus_stations bus)"
    and "find_station (bus_stations bus) 8888 = None" and "arrives bsys bus sink pos (snd (last (cl_sent cl1)))"
    and "time_ok lt1" and "time_ok lt2"
  shows "\<exists>bus' answer. apibus_poll al (posix_env al bsys) tod now bus = Some (Inr (0, bus')) \<and>
    bus_sent bus' = bus_sent bus @ [(sf_fd pos, answer)] \<and>
    (\<forall>sys. sys_recv sys fd CLIENT_BUF_SIZE = Some answer \<longrightarrow>
      (\<exists>cl2. tcp_round al fd (sys, lt1, lt2) cl1 = Some (Inr cl2) \<and> lg_out (cl_log cl2) = lg_out (cl_log cl1) @
        info_line lt1 (sys_send sys fd request_bytes) (butlast request_bytes) @ info_line lt2 17 ''STATION NOT FOUND''))"
proof -
  obtain p where p: "srrp_write_request al 3333 ''/8888/echo'' ''{msg:'hello'}'' = Inr p" "pk_raw p = request_bytes"
    using client_request_bytes [OF assms(1)] by (auto simp: client_request_def)
  have arr: "arrives bsys bus sink pos (pk_raw p)" using assms(9) tcp_round_sends [OF assms(1,2)] p(2) by simp
  have route: "route (bus_stations bus) 3333 (sf_fd pos) (Some 8888) = None" using assms(8) by (simp add: route_def)
  have "tcp_round al fd (sys, lt1, lt2) cl1 = Some (Inr (cl1\<lparr>cl_sent := cl_sent cl1 @ [(fd, request_bytes)],
    cl_log := (cl_log cl1)\<lparr>lg_out := lg_out (cl_log cl1) @ info_line lt1 (sys_send sys fd request_bytes) (butlast request_bytes) @
      info_line lt2 17 ''STATION NOT FOUND''\<rparr>\<rparr>))" if "sys_recv sys fd CLIENT_BUF_SIZE = Some ''STATION NOT FOUND''" for sys
    using tcp_round_works [OF assms(1,3,10,11), of sys fd] that by (simp add: got_of_def got_nr_def printable_def CLIENT_BUF_SIZE_def cstr_def)
  moreover obtain bus' where "apibus_poll al (posix_env al bsys) tod now bus = Some (Inr (0, bus'))"
      "bus_sent bus' = bus_sent bus @ [(sf_fd pos, ''STATION NOT FOUND'')]"
    using request_crosses [OF assms(4-7) p(1) request_texts assms(1) assms(1) arr scan_dstid_8888, of tod] route by auto
  ultimately show ?thesis by fastforce
qed

theorem client_meets_bus_witness:
  "\<exists>cl1 bus' answer cl2. tcp_round generous 3 (client_sys, some_time, some_time) client_start = Some (Inr cl1) \<and>
    apibus_poll generous (posix_env generous (example_sys\<lparr>sys_recv := (\<lambda>_ _. Some request_bytes)\<rparr>)) (7, 0) 7 system_bus = Some (Inr (0, bus')) \<and>
    bus_sent bus' = [(4, answer)] \<and>
    tcp_round generous 3 (client_sys\<lparr>sys_recv := (\<lambda>_ _. Some answer)\<rparr>, some_time, some_time) cl1 = Some (Inr cl2)"
proof -
  have g: "grant generous n" "lg_limit (cl_log client_start) \<le> LOG_LV_INFO" for n by (simp_all add: generous_def client_start_def)
  have "printable (got_of client_sys 3)" by (simp add: got_of_def client_sys_def printable_def CLIENT_BUF_SIZE_def)
  from tcp_round_works [OF g some_time_ok some_time_ok this]
  obtain cl1 where c: "tcp_round generous 3 (client_sys, some_time, some_time) client_start = Some (Inr cl1)"
      "cl_sent cl1 = [(3, request_bytes)]" "lg_limit (cl_log cl1) \<le> LOG_LV_INFO"
    by (auto simp: client_start_def)
  have "arrives (example_sys\<lparr>sys_recv := (\<lambda>_ _. Some request_bytes)\<rparr>) system_bus unix_example (system_conn 4) (snd (last (cl_sent cl1)))"
    unfolding c(2) using system_arrives [of request_bytes] by (simp add: request_bytes_def)
  moreover have "find_station (bus_stations system_bus) 8888 = None" by (simp add: system_bus_state find_station_def)
  ultimately obtain bus' answer where b: "apibus_poll generous (posix_env generous (example_sys\<lparr>sys_recv := (\<lambda>_ _. Some request_bytes)\<rparr>))
      (7, 0) 7 system_bus = Some (Inr (0, bus'))" "bus_sent bus' = bus_sent system_bus @ [(sf_fd (system_conn 4), answer)]"
      "\<And>sys. sys_recv sys 3 CLIENT_BUF_SIZE = Some answer \<Longrightarrow> \<exists>cl2. tcp_round generous 3 (sys, some_time, some_time) cl1 = Some (Inr cl2)"
    using client_meets_bus [OF g(1) c(1,3) system_bus_ok(1) system_drained system_state(1,2) _ _ some_time_ok some_time_ok,
        where now = 7 and tod = "(7, 0)"] by blast
  obtain cl2 where "tcp_round generous 3 (client_sys\<lparr>sys_recv := (\<lambda>_ _. Some answer)\<rparr>, some_time, some_time) cl1 = Some (Inr cl2)"
    using b(3) [of "client_sys\<lparr>sys_recv := (\<lambda>_ _. Some answer)\<rparr>"] by auto
  then show ?thesis using c(1) b(1) b(2) [unfolded system_bus_state system_conn_ok append.simps] by blast
qed

end
