(* ===== verification/Cx_Store.thy ===== *)
theory Cx_Store
  imports Cx_Prelude
begin

text \<open>
  The heap as a store of blocks under addresses, for the functions that allocate and free: a block that
  was freed is gone, and freeing it again is a fault. The contract of an object that is created, used and
  destroyed is a locale; in it, any interleaving of such calls leaves no block behind and frees none twice.
\<close>

subsection \<open>Blocks\<close>

record 'c store =
  cells :: "nat \<rightharpoonup> 'c"
  next_addr :: nat

definition store_ok :: "'c store \<Rightarrow> bool" where
  "store_ok st \<longleftrightarrow> (\<forall>a \<in> dom (cells st). 0 < a \<and> a < next_addr st) \<and> 0 < next_addr st"

text \<open>\<open>malloc\<close> or \<open>calloc\<close> of \<open>n\<close> bytes that are to hold \<open>c\<close>; address 0 is \<open>NULL\<close>.\<close>

definition new_cell :: "allocator \<Rightarrow> nat \<Rightarrow> 'c \<Rightarrow> 'c store \<Rightarrow> nat \<times> 'c store" where
  "new_cell al n c st =
     (if grant al n
      then (next_addr st, \<lparr>cells = (cells st)(next_addr st \<mapsto> c), next_addr = next_addr st + 1\<rparr>)
      else (0, st))"

definition set_cell :: "nat \<Rightarrow> 'c \<Rightarrow> 'c store \<Rightarrow> 'c store" where
  "set_cell a c st = st\<lparr>cells := (cells st)(a \<mapsto> c)\<rparr>"

definition free_c :: "nat \<Rightarrow> 'c store \<Rightarrow> 'c store res" where
  "free_c a st =
     (if a = 0 then Inr st
      else if cells st a = None then Inl BadPointer else Inr (st\<lparr>cells := (cells st)(a := None)\<rparr>))"

lemma store_ok_fresh: "store_ok st \<Longrightarrow> cells st (next_addr st) = None" "store_ok st \<Longrightarrow> cells st 0 = None"
  "store_ok st \<Longrightarrow> 0 < next_addr st"
  by (auto simp: store_ok_def domIff)

lemma store_ok_less: "store_ok st \<Longrightarrow> cells st a = Some c \<Longrightarrow> 0 < a \<and> a < next_addr st"
  by (auto simp: store_ok_def dom_def)

lemma store_ok_iff: "store_ok st \<longleftrightarrow> 0 < next_addr st \<and> (\<forall>a c. cells st a = Some c \<longrightarrow> 0 < a \<and> a < next_addr st)"
  by (auto simp: store_ok_def dom_def)

lemma store_ok_above: "store_ok st \<Longrightarrow> next_addr st \<le> a \<Longrightarrow> cells st a = None"
  by (meson store_ok_less not_le option.exhaust)

lemma store_ok_restrict [simp]: "store_ok st \<Longrightarrow> store_ok (st\<lparr>cells := cells st |` A\<rparr>)"
  by (auto simp: store_ok_def)

lemma store_ok_step [simp]:
  "store_ok st \<Longrightarrow> store_ok \<lparr>cells = (cells st)(next_addr st \<mapsto> c), next_addr = Suc (next_addr st)\<rparr>"
  "store_ok st \<Longrightarrow> store_ok (st\<lparr>cells := (cells st)(a := None)\<rparr>)"
  "store_ok st \<Longrightarrow> cells st a = Some c' \<Longrightarrow> store_ok (st\<lparr>cells := (cells st)(a \<mapsto> c)\<rparr>)"
  by (auto simp: store_ok_def dom_def)

lemma free_c_live: "store_ok st \<Longrightarrow> cells st a = Some c \<Longrightarrow> free_c a st = Inr (st\<lparr>cells := (cells st)(a := None)\<rparr>)"
  by (auto simp: free_c_def store_ok_def dom_def)

subsection \<open>Objects\<close>

text \<open>Steps of a program that creates objects, uses those it has and destroys them; the second component of
  a state are the addresses of the objects it has.\<close>

inductive life_step ::
  "('c store \<Rightarrow> (nat \<times> 'c store) res) \<Rightarrow> ('u \<Rightarrow> nat \<Rightarrow> 'c store \<Rightarrow> 'c store res) \<Rightarrow> (nat \<Rightarrow> 'c store \<Rightarrow> 'c store res) \<Rightarrow>
   'c store \<times> nat set \<Rightarrow> 'c store \<times> nat set \<Rightarrow> bool"
  for create "use" destroy where
  life_create: "create st = Inr (p, st1) \<Longrightarrow> life_step create use destroy (st, live) (st1, if p = 0 then live else insert p live)"
| life_use: "p \<in> live \<Longrightarrow> use u p st = Inr st1 \<Longrightarrow> life_step create use destroy (st, live) (st1, live)"
| life_destroy: "p \<in> live \<Longrightarrow> destroy p st = Inr st1 \<Longrightarrow> life_step create use destroy (st, live) (st1, live - {p})"

text \<open>The store is \<open>m0\<close> together with the blocks of the objects, which do not overlap.\<close>

definition own :: "((nat \<rightharpoonup> 'c) \<Rightarrow> nat \<Rightarrow> nat set option) \<Rightarrow> (nat \<rightharpoonup> 'c) \<Rightarrow> nat \<Rightarrow> nat set" where
  "own blocks m p = (case blocks m p of None \<Rightarrow> {} | Some B \<Rightarrow> B)"

definition life_inv :: "((nat \<rightharpoonup> 'c) \<Rightarrow> nat \<Rightarrow> nat set option) \<Rightarrow> (nat \<rightharpoonup> 'c) \<Rightarrow> 'c store \<times> nat set \<Rightarrow> bool" where
  "life_inv blocks m0 s \<longleftrightarrow> (let (st, live) = s; m = cells st in store_ok st \<and>
     (\<forall>p \<in> live. blocks m p \<noteq> None \<and> own blocks m p \<inter> dom m0 = {}) \<and>
     (\<forall>p \<in> live. \<forall>q \<in> live. p \<noteq> q \<longrightarrow> own blocks m p \<inter> own blocks m q = {}) \<and>
     m |` (- (\<Union>p \<in> live. own blocks m p)) = m0)"

lemma restrict_all [simp]: "m |` UNIV = m"
  by (simp add: restrict_map_def)

lemma restrict_eqD: "m1 |` (- A) = m2 |` (- B) \<Longrightarrow> a \<notin> A \<Longrightarrow> a \<notin> B \<Longrightarrow> m1 a = m2 a"
  by (metis ComplI restrict_in)

text \<open>The blocks that belong to the object at an address, and what the three calls do to them.\<close>

locale lifetime =
  fixes create :: "'c store \<Rightarrow> (nat \<times> 'c store) res"
    and "use" :: "'u \<Rightarrow> nat \<Rightarrow> 'c store \<Rightarrow> 'c store res"
    and destroy :: "nat \<Rightarrow> 'c store \<Rightarrow> 'c store res"
    and blocks :: "(nat \<rightharpoonup> 'c) \<Rightarrow> nat \<Rightarrow> nat set option"
  assumes create_law: "\<And>st p st1. store_ok st \<Longrightarrow> create st = Inr (p, st1) \<Longrightarrow> store_ok st1 \<and>
      (if p = 0 then cells st1 = cells st
       else \<exists>B. blocks (cells st1) p = Some B \<and> B \<inter> dom (cells st) = {} \<and> cells st1 |` (- B) = cells st)"
    and use_law: "\<And>st u p st1 B. store_ok st \<Longrightarrow> blocks (cells st) p = Some B \<Longrightarrow> use u p st = Inr st1 \<Longrightarrow> store_ok st1 \<and>
      (\<exists>B'. blocks (cells st1) p = Some B' \<and> B' \<inter> dom (cells st |` (- B)) = {} \<and> cells st1 |` (- B') = cells st |` (- B))"
    and destroy_law: "\<And>st p B. store_ok st \<Longrightarrow> blocks (cells st) p = Some B \<Longrightarrow>
      \<exists>st1. destroy p st = Inr st1 \<and> store_ok st1 \<and> cells st1 = cells st |` (- B)"
    and gone_law: "\<And>st p. p \<noteq> 0 \<Longrightarrow> cells st p = None \<Longrightarrow> destroy p st = Inl BadPointer"
    and blocks_local: "\<And>m m' p B. blocks m p = Some B \<Longrightarrow> (\<forall>a \<in> B. m' a = m a) \<Longrightarrow> blocks m' p = Some B"
    and blocks_dom: "\<And>m p B. blocks m p = Some B \<Longrightarrow> p \<in> B \<and> B \<subseteq> dom m"
begin

text \<open>A call that replaces the blocks \<open>B\<close> of one object by \<open>B'\<close> leaves the other objects as they are.\<close>

lemma others_kept:
  assumes "blocks (cells st) q = Some C" and "C \<inter> B = {}" and "B' \<inter> dom (cells st |` (- B)) = {}"
    and "cells st1 |` (- B') = cells st |` (- B)"
  shows "blocks (cells st1) q = Some C \<and> C \<inter> B' = {}"
proof -
  have "C \<subseteq> dom (cells st |` (- B))" using blocks_dom [OF assms(1)] assms(2) by auto
  then have C: "C \<inter> B' = {}" using assms(3) by blast
  then have "\<forall>a \<in> C. cells st1 a = cells st a" using restrict_eqD [OF assms(4)] assms(2) by blast
  then show ?thesis using blocks_local [OF assms(1)] C by blast
qed

lemma replaced:
  assumes "life_inv blocks m0 (st, K \<union> L)" and "\<forall>q \<in> K. own blocks (cells st) q \<inter> B = {}" and "B = (\<Union>p \<in> L. own blocks (cells st) p)"
    and "B' \<inter> dom (cells st |` (- B)) = {}" and "cells st1 |` (- B') = cells st |` (- B)" and "store_ok st1"
    and "L' = {} \<and> B' = {} \<or> (\<exists>p. L' = {p} \<and> blocks (cells st1) p = Some B')"
  shows "life_inv blocks m0 (st1, K \<union> L')"
proof -
  let ?own = "own blocks (cells st)" and ?own1 = "own blocks (cells st1)"
  have live: "\<forall>p \<in> K \<union> L. blocks (cells st) p \<noteq> None \<and> ?own p \<inter> dom m0 = {}"
    and apart: "\<forall>p \<in> K \<union> L. \<forall>q \<in> K \<union> L. p \<noteq> q \<longrightarrow> ?own p \<inter> ?own q = {}"
    and rest: "cells st |` (- (\<Union>p \<in> K \<union> L. ?own p)) = m0"
    using assms(1) unfolding life_inv_def Let_def prod.case by - (elim conjE, assumption)+
  have q: "blocks (cells st1) q = blocks (cells st) q \<and> blocks (cells st) q \<noteq> None \<and> ?own q \<inter> B' = {}" if "q \<in> K" for q
  proof -
    have "q \<in> K \<union> L" using that by simp
    then obtain C where C: "blocks (cells st) q = Some C" using bspec [OF live] by (metis option.exhaust)
    then have o: "?own q = C" by (simp add: own_def)
    have "C \<inter> B = {}" using bspec [OF assms(2) that] o by simp
    then show ?thesis using others_kept [OF C _ assms(4,5)] C o by simp
  qed
  then have o: "?own1 q = ?own q" if "q \<in> K" for q using that by (simp add: own_def)
  have L': "(\<Union>p \<in> L'. ?own1 p) = B'" "\<forall>p \<in> L'. blocks (cells st1) p \<noteq> None \<and> ?own1 p = B'"
    using assms(7) by (elim disjE conjE exE, simp, simp add: own_def)+
  have m0: "cells st |` (- ((\<Union>q \<in> K. ?own q) \<union> B)) = m0" using rest assms(3) by (simp add: UN_Un)
  have "dom m0 \<subseteq> dom (cells st |` (- B))" unfolding m0 [symmetric] by (auto simp: restrict_map_def split: if_splits)
  then have d: "B' \<inter> dom m0 = {}" using assms(4) by blast
  have "cells st1 |` (- ((\<Union>q \<in> K. ?own q) \<union> B')) = (cells st1 |` (- B')) |` (- (\<Union>q \<in> K. ?own q))"
    by (simp add: Int_commute)
  also have "\<dots> = cells st |` (- ((\<Union>q \<in> K. ?own q) \<union> B))" by (simp add: assms(5) Int_commute)
  finally have m1: "cells st1 |` (- (\<Union>q \<in> K \<union> L'. ?own1 q)) = m0" using m0 o L'(1) by (simp add: UN_Un)
  have "\<forall>p \<in> K \<union> L'. \<forall>q \<in> K \<union> L'. p \<noteq> q \<longrightarrow> ?own1 p \<inter> ?own1 q = {}"
  proof (intro ballI impI)
    fix p q assume pq: "p \<in> K \<union> L'" "q \<in> K \<union> L'" "p \<noteq> q"
    have "\<forall>p \<in> K. \<forall>q \<in> K. p \<noteq> q \<longrightarrow> ?own p \<inter> ?own q = {}" using apart by blast
    then show "?own1 p \<inter> ?own1 q = {}" using pq q o L'(2) assms(7) by (metis Int_commute UnE empty_iff singletonD)
  qed
  moreover have "\<forall>p \<in> K \<union> L'. blocks (cells st1) p \<noteq> None \<and> ?own1 p \<inter> dom m0 = {}"
  proof
    fix p assume "p \<in> K \<union> L'"
    then show "blocks (cells st1) p \<noteq> None \<and> ?own1 p \<inter> dom m0 = {}"
    proof
      assume p: "p \<in> K"
      then have "?own p \<inter> dom m0 = {}" using live by blast
      then show ?thesis using q [OF p] o [OF p] by simp
    qed (use L'(2) d in auto)
  qed
  ultimately show ?thesis using assms(6) m1 unfolding life_inv_def Let_def prod.case by - (intro conjI; assumption)
qed

lemma life_step_inv:
  assumes "life_step create use destroy s s'" and "life_inv blocks m0 s"
  shows "life_inv blocks m0 s'"
  using assms
proof (cases rule: life_step.cases)
  case (life_create st p st1 live)
  have ok: "store_ok st" using assms(2) life_create(1) by (simp add: life_inv_def Let_def)
  note c = create_law [OF ok life_create(3)]
  show ?thesis
  proof (cases "p = 0")
    case True
    then show ?thesis using c assms(2) life_create(1,2) by (simp add: life_inv_def Let_def)
  next
    case False
    then obtain B where B: "blocks (cells st1) p = Some B" "B \<inter> dom (cells st) = {}" "cells st1 |` (- B) = cells st" using c by auto
    have "life_inv blocks m0 (st1, live \<union> {p})"
      by (rule replaced [where L = "{}" and B = "{}" and B' = B]) (use assms(2) life_create(1) c B in auto)
    then show ?thesis using False life_create(2) by simp
  qed
next
  case (life_use p live u st st1)
  have ok: "store_ok st" and inv: "life_inv blocks m0 (st, (live - {p}) \<union> {p})"
    using assms(2) life_use by (simp_all add: life_inv_def Let_def insert_absorb)
  obtain B where B: "blocks (cells st) p = Some B" using inv by (auto simp: life_inv_def Let_def)
  obtain B' where B': "store_ok st1" "blocks (cells st1) p = Some B'" "B' \<inter> dom (cells st |` (- B)) = {}" "cells st1 |` (- B') = cells st |` (- B)"
    using use_law [OF ok B life_use(4)] by auto
  have "life_inv blocks m0 (st1, (live - {p}) \<union> {p})"
    by (rule replaced [OF inv, where B' = B' and B = B])
      (use inv B B' in \<open>auto simp: own_def life_inv_def Let_def\<close>)
  then show ?thesis using life_use by (simp add: insert_absorb)
next
  case (life_destroy p live st st1)
  have ok: "store_ok st" and inv: "life_inv blocks m0 (st, (live - {p}) \<union> {p})"
    using assms(2) life_destroy by (simp_all add: life_inv_def Let_def insert_absorb)
  obtain B where B: "blocks (cells st) p = Some B" using inv by (auto simp: life_inv_def Let_def)
  have B': "store_ok st1" "cells st1 = cells st |` (- B)" using destroy_law [OF ok B] life_destroy(4) by auto
  have "life_inv blocks m0 (st1, (live - {p}) \<union> {})"
    by (rule replaced [OF inv, where B' = "{}" and B = B])
      (use inv B B' in \<open>auto simp: own_def life_inv_def Let_def\<close>)
  then show ?thesis using life_destroy by simp
qed

lemma life_run_inv:
  assumes "(life_step create use destroy)\<^sup>*\<^sup>* (st0, {}) s" and "store_ok st0"
  shows "life_inv blocks (cells st0) s"
  using assms(1)
proof (induction rule: rtranclp_induct)
  case base
  then show ?case using assms(2) by (simp add: life_inv_def Let_def)
qed (rule life_step_inv)

text \<open>No block is left behind, every object can be destroyed, and a destroyed one not again.\<close>

lemma no_leak:
  assumes "(life_step create use destroy)\<^sup>*\<^sup>* (st0, {}) (st, {})" and "store_ok st0"
  shows "cells st = cells st0"
  using life_run_inv [OF assms] by (simp add: life_inv_def Let_def)

lemma destroyed_once:
  assumes "(life_step create use destroy)\<^sup>*\<^sup>* (st0, {}) (st, live)" and "store_ok st0" and "p \<in> live"
  shows "\<exists>st1. destroy p st = Inr st1 \<and> destroy p st1 = Inl BadPointer"
proof -
  have ok: "store_ok st" "blocks (cells st) p \<noteq> None" using life_run_inv [OF assms(1,2)] assms(3) by (auto simp: life_inv_def Let_def)
  then obtain B where B: "blocks (cells st) p = Some B" by blast
  obtain st1 where st1: "destroy p st = Inr st1" "cells st1 = cells st |` (- B)" using destroy_law [OF ok(1) B] by blast
  have "p \<in> B" "p \<in> dom (cells st)" using blocks_dom [OF B] by auto
  then have "p \<noteq> 0" "cells st1 p = None" using store_ok_less [OF ok(1)] st1(2) by (auto simp: dom_def)
  then show ?thesis using st1(1) gone_law by blast
qed

end

end
