(* ===== verification/Ringbuf.thy ===== *)
theory Ringbuf
  imports Byte_Fifo
begin

text \<open>
  \<open>src/ringbuf.c\<close>: the fixed-size ring buffer. The record is the C struct, the block is the list of
  its bytes. Two offsets and no separate count: equal offsets mean empty, so the invariant keeps
  the ring from being filled completely. The lemmas show that writes below the spare space append,
  that draining returns everything in order, that a write which fills the ring loses its contents,
  and that a short read of a wrapped ring leaves the block.
\<close>

subsection \<open>State and operations\<close>

record ringbuf =
  rb_rawbuf :: mem
  rb_size :: nat
  rb_offset_in :: nat
  rb_offset_out :: nat

definition RINGBUF_DEFAULT_SIZE :: nat where
  "RINGBUF_DEFAULT_SIZE = 4096"

definition ringbuf_new :: "allocator \<Rightarrow> nat \<Rightarrow> ringbuf option" where
  "ringbuf_new al sz0 =
     (let sz = (if sz0 = 0 then RINGBUF_DEFAULT_SIZE else sz0)
      in if \<not> grant al 32 then None
         else case calloc_c al sz of
           None \<Rightarrow> None
         | Some raw \<Rightarrow> Some \<lparr>rb_rawbuf = raw, rb_size = sz, rb_offset_in = 0, rb_offset_out = 0\<rparr>)"

definition ringbuf_size :: "ringbuf \<Rightarrow> nat" where
  "ringbuf_size b = rb_size b"

definition ringbuf_used :: "ringbuf \<Rightarrow> nat" where
  "ringbuf_used b =
     (if rb_offset_in b \<ge> rb_offset_out b then size_sub (rb_offset_in b) (rb_offset_out b)
      else size_add (rb_offset_in b) (size_sub (rb_size b) (rb_offset_out b)))"

definition ringbuf_spare :: "ringbuf \<Rightarrow> nat" where
  "ringbuf_spare b = size_sub (rb_size b) (ringbuf_used b)"

definition ringbuf_write_pos :: "ringbuf \<Rightarrow> nat" where
  "ringbuf_write_pos b = rb_offset_in b"

definition ringbuf_read_pos :: "ringbuf \<Rightarrow> nat" where
  "ringbuf_read_pos b = rb_offset_out b"

definition ringbuf_write_advance :: "ringbuf \<Rightarrow> nat \<Rightarrow> ringbuf res" where
  "ringbuf_write_advance b len =
     assertR (ringbuf_spare b \<ge> len)
       (Inr (b\<lparr>rb_offset_in := size_add (rb_offset_in b) len mod rb_size b\<rparr>))"

definition ringbuf_read_advance :: "ringbuf \<Rightarrow> nat \<Rightarrow> ringbuf res" where
  "ringbuf_read_advance b len =
     assertR (ringbuf_used b \<ge> len)
       (Inr (b\<lparr>rb_offset_out := size_add (rb_offset_out b) len mod rb_size b\<rparr>))"

text \<open>\<open>memcpy\<close> of \<open>n\<close> bytes at offset \<open>k\<close> of the source to offset \<open>off\<close> of the block.\<close>

definition ringbuf_copy_in :: "mem \<Rightarrow> nat \<Rightarrow> mem \<Rightarrow> nat \<Rightarrow> nat \<Rightarrow> mem res" where
  "ringbuf_copy_in raw off ptr k n = bindR (mem_read ptr k n) (\<lambda>src. mem_write raw off src)"

definition ringbuf_write :: "ringbuf \<Rightarrow> mem \<Rightarrow> nat \<Rightarrow> (nat \<times> ringbuf) res" where
  "ringbuf_write b ptr len =
     assertR (len < rb_size b)
       (bindR
         (if rb_offset_in b \<ge> rb_offset_out b
          then let spare_right = size_sub (rb_size b) (rb_offset_in b);
                   spare_left = rb_offset_out b
               in if len \<le> spare_right
                  then bindR (ringbuf_copy_in (rb_rawbuf b) (ringbuf_write_pos b) ptr 0 len) (\<lambda>raw.
                       Inr (len, raw))
                  else bindR (ringbuf_copy_in (rb_rawbuf b) (ringbuf_write_pos b) ptr 0 spare_right) (\<lambda>raw.
                       if len - spare_right \<le> spare_left
                       then bindR (ringbuf_copy_in raw 0 ptr spare_right (len - spare_right)) (\<lambda>raw'.
                            Inr (spare_right + (len - spare_right), raw'))
                       else bindR (ringbuf_copy_in raw 0 ptr spare_right spare_left) (\<lambda>raw'.
                            Inr (spare_right + spare_left, raw')))
          else let spare = size_sub (rb_offset_out b) (rb_offset_in b)
               in if len \<le> spare
                  then bindR (ringbuf_copy_in (rb_rawbuf b) (ringbuf_write_pos b) ptr 0 len) (\<lambda>raw.
                       Inr (len, raw))
                  else bindR (ringbuf_copy_in (rb_rawbuf b) (ringbuf_write_pos b) ptr 0 spare) (\<lambda>raw.
                       Inr (spare, raw)))
         (\<lambda>(cpy_cnt, raw).
            bindR (ringbuf_write_advance (b\<lparr>rb_rawbuf := raw\<rparr>) cpy_cnt) (\<lambda>b'.
              Inr (cpy_cnt, b'))))"

text \<open>
  \<open>ringbuf_peek\<close> returns the count and the bytes it stores through \<open>ptr\<close>, which the caller sized
  for \<open>sz\<close> bytes: storing more is out of bounds of the caller's array.
\<close>

definition ringbuf_peek :: "ringbuf \<Rightarrow> nat \<Rightarrow> (nat \<times> mem) res" where
  "ringbuf_peek b sz =
     (let cpy_cnt = (if sz < ringbuf_used b then sz else ringbuf_used b)
      in if rb_offset_in b \<ge> rb_offset_out b
         then bindR (mem_read (rb_rawbuf b) (ringbuf_read_pos b) cpy_cnt) (\<lambda>out. Inr (cpy_cnt, out))
         else let cpy_right = size_sub (rb_size b) (rb_offset_out b);
                  cpy_left = size_sub cpy_cnt cpy_right
              in bindR (mem_read (rb_rawbuf b) (ringbuf_read_pos b) cpy_right) (\<lambda>right.
                 bindR (mem_read (rb_rawbuf b) 0 cpy_left) (\<lambda>left.
                   if sz < cpy_right + cpy_left then Inl OutOfBounds
                   else Inr (cpy_cnt, right @ left))))"

definition ringbuf_read :: "ringbuf \<Rightarrow> nat \<Rightarrow> (nat \<times> mem \<times> ringbuf) res" where
  "ringbuf_read b sz =
     bindR (ringbuf_peek b sz) (\<lambda>(cpy_cnt, out).
     bindR (ringbuf_read_advance b cpy_cnt) (\<lambda>b'. Inr (cpy_cnt, out, b')))"

subsection \<open>Invariant and abstraction\<close>

definition ringbuf_inv :: "ringbuf \<Rightarrow> bool" where
  "ringbuf_inv b \<longleftrightarrow> length (rb_rawbuf b) = rb_size b \<and> rb_offset_in b < rb_size b \<and>
     rb_offset_out b < rb_size b \<and> 2 * rb_size b < size_mod"

definition ringbuf_content :: "ringbuf \<Rightarrow> string" where
  "ringbuf_content b =
     (if rb_offset_out b \<le> rb_offset_in b
      then take (rb_offset_in b - rb_offset_out b) (drop (rb_offset_out b) (rb_rawbuf b))
      else drop (rb_offset_out b) (rb_rawbuf b) @ take (rb_offset_in b) (rb_rawbuf b))"

lemma ringbuf_used_eq: "ringbuf_inv b \<Longrightarrow> ringbuf_used b = length (ringbuf_content b)"
  by (auto simp: ringbuf_inv_def ringbuf_used_def ringbuf_content_def size_sub_exact size_add_exact)

lemma ringbuf_content_length:
  "ringbuf_inv b \<Longrightarrow> length (ringbuf_content b) =
     (if rb_offset_out b \<le> rb_offset_in b then rb_offset_in b - rb_offset_out b
      else rb_offset_in b + (rb_size b - rb_offset_out b))"
  by (auto simp: ringbuf_inv_def ringbuf_content_def)

lemma ringbuf_content_less: "ringbuf_inv b \<Longrightarrow> length (ringbuf_content b) < rb_size b"
  by (auto simp: ringbuf_content_length) (auto simp: ringbuf_inv_def)

lemma ringbuf_spare_eq: "ringbuf_inv b \<Longrightarrow> ringbuf_spare b = rb_size b - length (ringbuf_content b)"
  using ringbuf_content_less [of b]
  by (simp add: ringbuf_spare_def ringbuf_used_eq size_sub_exact ringbuf_inv_def)

lemma ringbuf_copy_in_ok:
  "k + n \<le> length ptr \<Longrightarrow> off + n \<le> length raw \<Longrightarrow>
     ringbuf_copy_in raw off ptr k n =
       Inr (take off raw @ take n (drop k ptr) @ drop (off + n) raw)"
  by (simp add: ringbuf_copy_in_def mem_read_ok mem_write_ok min_absorb2)

text \<open>What the copying part of a write leaves in the block, by where the free space lies.\<close>

lemma ringbuf_write_straight:
  assumes inv: "ringbuf_inv b" and ptr: "len \<le> length ptr"
    and fits: "len \<le> (if rb_offset_out b \<le> rb_offset_in b then rb_size b else rb_offset_out b) - rb_offset_in b"
    and small: "len < rb_size b"
  shows "ringbuf_write b ptr len =
    Inr (len, b\<lparr>rb_rawbuf := take (rb_offset_in b) (rb_rawbuf b) @ take len ptr @
                     drop (rb_offset_in b + len) (rb_rawbuf b),
                rb_offset_in := (rb_offset_in b + len) mod rb_size b\<rparr>)"
proof -
  let ?raw = "take (rb_offset_in b) (rb_rawbuf b) @ take len ptr @ drop (rb_offset_in b + len) (rb_rawbuf b)"
  have off: "rb_offset_in b + len \<le> length (rb_rawbuf b)" "rb_offset_in b + len < size_mod"
    using inv fits by (auto simp: ringbuf_inv_def split: if_splits)
  have copy: "ringbuf_copy_in (rb_rawbuf b) (rb_offset_in b) ptr 0 len = Inr ?raw"
    using off ptr by (simp add: ringbuf_copy_in_ok)
  have "ringbuf_spare (b\<lparr>rb_rawbuf := ?raw\<rparr>) = ringbuf_spare b"
    by (simp add: ringbuf_spare_def ringbuf_used_def)
  moreover have "len \<le> ringbuf_spare b"
    using inv fits by (auto simp: ringbuf_spare_eq ringbuf_content_length ringbuf_inv_def split: if_splits)
  ultimately have adv: "ringbuf_write_advance (b\<lparr>rb_rawbuf := ?raw\<rparr>) len =
      Inr (b\<lparr>rb_rawbuf := ?raw, rb_offset_in := (rb_offset_in b + len) mod rb_size b\<rparr>)"
    using off by (simp add: ringbuf_write_advance_def size_add_exact)
  show ?thesis
  proof (cases "rb_offset_out b \<le> rb_offset_in b")
    case True
    then have "len \<le> size_sub (rb_size b) (rb_offset_in b)"
      using inv fits by (simp add: size_sub_exact ringbuf_inv_def)
    then show ?thesis using True small by (simp add: ringbuf_write_def Let_def ringbuf_write_pos_def copy adv)
  next
    case False
    then have "len \<le> size_sub (rb_offset_out b) (rb_offset_in b)"
      using inv fits by (simp add: size_sub_exact ringbuf_inv_def)
    then show ?thesis using False small by (simp add: ringbuf_write_def Let_def ringbuf_write_pos_def copy adv)
  qed
qed

lemma ringbuf_straight_content:
  assumes inv: "ringbuf_inv b" and n: "length xs = n" and fits: "n < ringbuf_spare b"
    and sp: "n \<le> (if rb_offset_out b \<le> rb_offset_in b then rb_size b else rb_offset_out b) - rb_offset_in b"
  defines "b' \<equiv> b\<lparr>rb_rawbuf := take (rb_offset_in b) (rb_rawbuf b) @ xs @
                     drop (rb_offset_in b + n) (rb_rawbuf b),
                rb_offset_in := (rb_offset_in b + n) mod rb_size b\<rparr>"
  shows "ringbuf_inv b'" and "ringbuf_content b' = ringbuf_content b @ xs"
proof -
  show "ringbuf_inv b'"
    using inv n sp by (auto simp: b'_def ringbuf_inv_def split: if_splits)
  have lt: "n < rb_size b - length (ringbuf_content b)" using inv fits by (simp add: ringbuf_spare_eq)
  have in_range: "rb_offset_in b < rb_size b" using inv by (simp add: ringbuf_inv_def)
  have "if rb_offset_out b \<le> rb_offset_in b
      then rb_offset_in b + n < rb_size b \<or> rb_offset_in b + n = rb_size b \<and> 0 < rb_offset_out b
      else rb_offset_in b + n < rb_offset_out b"
    using inv sp lt in_range by (simp add: ringbuf_content_length split: if_splits) linarith+
  then consider (straight) "rb_offset_out b \<le> rb_offset_in b" "rb_offset_in b + n < rb_size b"
    | (to_end) "rb_offset_out b \<le> rb_offset_in b" "rb_offset_in b + n = rb_size b" "0 < rb_offset_out b"
    | (wrapped) "rb_offset_in b < rb_offset_out b" "rb_offset_in b + n < rb_offset_out b"
    by (metis not_le_imp_less)
  then show "ringbuf_content b' = ringbuf_content b @ xs"
  proof cases
    case straight
    then obtain k where "rb_offset_in b = rb_offset_out b + k" by (auto dest: le_Suc_ex)
    with straight inv n show ?thesis
      by (simp add: b'_def ringbuf_content_def ringbuf_inv_def drop_take)
  next
    case to_end
    with inv n show ?thesis
      by (simp add: b'_def ringbuf_content_def ringbuf_inv_def drop_take)
  next
    case wrapped
    with inv n show ?thesis
      by (simp add: b'_def ringbuf_content_def ringbuf_inv_def)
  qed
qed

lemma ringbuf_write_wrapping:
  assumes inv: "ringbuf_inv b" and ptr: "len \<le> length ptr"
    and le: "rb_offset_out b \<le> rb_offset_in b" and over: "rb_size b - rb_offset_in b < len"
    and small: "len < rb_size b"
  defines "r \<equiv> rb_size b - rb_offset_in b"
  defines "n \<equiv> min (len - r) (rb_offset_out b)"
  shows "ringbuf_write b ptr len =
    Inr (r + n, b\<lparr>rb_rawbuf := take n (drop r ptr) @
                     drop n (take (rb_offset_in b) (rb_rawbuf b) @ take r ptr), rb_offset_in := n\<rparr>)"
proof -
  let ?raw1 = "take (rb_offset_in b) (rb_rawbuf b) @ take r ptr"
  let ?raw2 = "take n (drop r ptr) @ drop n ?raw1"
  have sz: "length (rb_rawbuf b) = rb_size b" "rb_offset_in b < rb_size b" "2 * rb_size b < size_mod"
    using inv by (auto simp: ringbuf_inv_def)
  have r: "size_sub (rb_size b) (rb_offset_in b) = r" "rb_offset_in b + r = rb_size b" "r < len"
    using sz over by (auto simp: r_def size_sub_exact)
  have n: "n \<le> len - r" "n \<le> rb_offset_out b" "n < rb_size b"
    using le sz by (auto simp: n_def)
  have c1: "ringbuf_copy_in (rb_rawbuf b) (rb_offset_in b) ptr 0 r = Inr ?raw1"
    using r sz ptr by (simp add: ringbuf_copy_in_ok)
  have c2: "ringbuf_copy_in ?raw1 0 ptr r n = Inr ?raw2"
    using r n sz ptr by (simp add: ringbuf_copy_in_ok)
  have spare: "ringbuf_spare (b\<lparr>rb_rawbuf := ?raw2\<rparr>) = r + rb_offset_out b"
    using le r sz by (simp add: ringbuf_spare_def ringbuf_used_def size_sub_exact)
  have "size_add (rb_offset_in b) (r + n) mod rb_size b = n"
    using r n sz by (simp add: size_add_def add.assoc [symmetric])
  then have adv: "ringbuf_write_advance (b\<lparr>rb_rawbuf := ?raw2\<rparr>) (r + n) =
      Inr (b\<lparr>rb_rawbuf := ?raw2, rb_offset_in := n\<rparr>)"
    using spare n by (simp add: ringbuf_write_advance_def)
  show ?thesis
  proof (cases "len - r \<le> rb_offset_out b")
    case True
    then have "n = len - r" by (simp add: n_def)
    with True show ?thesis using le r small c1 c2 adv
      by (simp add: ringbuf_write_def Let_def ringbuf_write_pos_def)
  next
    case False
    then have "n = rb_offset_out b" by (simp add: n_def)
    with False show ?thesis using le r small c1 c2 adv
      by (simp add: ringbuf_write_def Let_def ringbuf_write_pos_def)
  qed
qed

lemma ringbuf_wrapping_content:
  assumes inv: "ringbuf_inv b" and ptr: "r + n \<le> length ptr"
    and le: "rb_offset_out b \<le> rb_offset_in b" and r: "r = rb_size b - rb_offset_in b"
    and n: "n < rb_offset_out b"
  defines "b' \<equiv> b\<lparr>rb_rawbuf := take n (drop r ptr) @
                     drop n (take (rb_offset_in b) (rb_rawbuf b) @ take r ptr), rb_offset_in := n\<rparr>"
  shows "ringbuf_inv b'" and "ringbuf_content b' = ringbuf_content b @ take (r + n) ptr"
proof -
  show "ringbuf_inv b'" using inv ptr le r n by (auto simp: ringbuf_inv_def b'_def)
  let ?lo = "take (rb_offset_in b) (rb_rawbuf b)"
  have lo: "length ?lo = rb_offset_in b" "n \<le> rb_offset_in b" "length (take n (drop r ptr)) = n"
    using inv ptr le n by (auto simp: ringbuf_inv_def)
  then have "drop (rb_offset_out b) (rb_rawbuf b') = drop (rb_offset_out b) ?lo @ take r ptr"
    using n le by (simp add: b'_def)
  moreover have "take n (rb_rawbuf b') = take n (drop r ptr)" using lo(3) by (simp add: b'_def)
  moreover have "ringbuf_content b' = drop (rb_offset_out b) (rb_rawbuf b') @ take n (rb_rawbuf b')"
    using n by (simp add: ringbuf_content_def b'_def)
  moreover have "ringbuf_content b = drop (rb_offset_out b) ?lo"
    using le by (simp add: ringbuf_content_def drop_take)
  ultimately show "ringbuf_content b' = ringbuf_content b @ take (r + n) ptr"
    by (simp only: take_add append_assoc)
qed

lemma ringbuf_write_spec:
  assumes inv: "ringbuf_inv b" and ptr: "len \<le> length ptr" and fits: "len < ringbuf_spare b"
  obtains b' where "ringbuf_write b ptr len = Inr (len, b')" and "ringbuf_inv b'"
    and "ringbuf_content b' = ringbuf_content b @ take len ptr" and "rb_size b' = rb_size b"
proof (cases "len \<le> (if rb_offset_out b \<le> rb_offset_in b then rb_size b else rb_offset_out b) - rb_offset_in b")
  case True
  have len: "length (take len ptr) = len" "len < rb_size b"
    using ptr fits inv by (auto simp: ringbuf_spare_eq)
  show thesis
    by (rule that [OF ringbuf_write_straight [OF inv ptr True len(2)]
          ringbuf_straight_content [OF inv len(1) fits True]]) simp
next
  case False
  let ?r = "rb_size b - rb_offset_in b"
  have sp: "len < rb_size b - length (ringbuf_content b)" using fits inv by (simp add: ringbuf_spare_eq)
  have le: "rb_offset_out b \<le> rb_offset_in b" and over: "?r < len" and small: "len < rb_size b"
    and n: "len - ?r < rb_offset_out b"
    using False sp inv by (auto simp: ringbuf_content_length ringbuf_inv_def split: if_splits)
  have m: "min (len - ?r) (rb_offset_out b) = len - ?r" "?r + (len - ?r) = len"
    using n over by auto
  have p: "?r + (len - ?r) \<le> length ptr" using m ptr by simp
  show thesis
    using ringbuf_wrapping_content(2) [OF inv p le refl n]
    by (intro that [OF ringbuf_write_wrapping [OF inv ptr le over small, unfolded m]
          ringbuf_wrapping_content(1) [OF inv p le refl n]]) (simp_all only: m, simp)
qed

lemma ringbuf_write_full:
  assumes inv: "ringbuf_inv b" and ptr: "len \<le> length ptr" and full: "ringbuf_spare b \<le> len"
    and small: "len < rb_size b"
  obtains b' where "ringbuf_write b ptr len = Inr (ringbuf_spare b, b')"
    and "rb_offset_in b' = rb_offset_out b'" and "rb_offset_out b' = rb_offset_out b"
proof -
  have sz: "rb_offset_in b < rb_size b" "rb_offset_out b < rb_size b" "2 * rb_size b < size_mod"
    using inv by (auto simp: ringbuf_inv_def)
  have spare: "ringbuf_spare b = (if rb_offset_out b \<le> rb_offset_in b
      then rb_size b - rb_offset_in b + rb_offset_out b else rb_offset_out b - rb_offset_in b)"
    using inv sz by (auto simp: ringbuf_spare_eq ringbuf_content_length)
  show thesis
  proof (cases "rb_offset_out b \<le> rb_offset_in b")
    case le: True
    show thesis
    proof (cases "len \<le> rb_size b - rb_offset_in b")
      case True
      then have "rb_offset_out b = 0" "rb_offset_in b + len = rb_size b" "ringbuf_spare b = len"
        using full spare le sz by auto
      then show thesis using ringbuf_write_straight [OF inv ptr _ small] True le
        by (intro that) simp+
    next
      case False
      then have over: "rb_size b - rb_offset_in b < len" by simp
      have "min (len - (rb_size b - rb_offset_in b)) (rb_offset_out b) = rb_offset_out b"
        using full spare le by auto
      then show thesis using ringbuf_write_wrapping [OF inv ptr le over small] spare le
        by (intro that) simp+
    qed
  next
    case False
    let ?n = "rb_offset_out b - rb_offset_in b"
    have "size_sub (rb_offset_out b) (rb_offset_in b) = ?n" using sz False by (simp add: size_sub_exact)
    moreover have n: "?n \<le> len" "?n < rb_size b" "?n \<le> length ptr"
      using full spare False sz ptr by auto
    ultimately have eq: "ringbuf_write b ptr len = ringbuf_write b ptr ?n"
      using False small by (cases "len = ?n") (simp_all add: ringbuf_write_def Let_def)
    have "(rb_offset_in b + ?n) mod rb_size b = rb_offset_out b" using False sz by simp
    then show thesis
      using ringbuf_write_straight [OF inv n(3) _ n(2)] False spare by (intro that) (simp add: eq, simp, simp)
  qed
qed

lemma ringbuf_read_all:
  assumes inv: "ringbuf_inv b" and sz: "length (ringbuf_content b) \<le> sz"
  shows "ringbuf_read b sz = Inr (length (ringbuf_content b), ringbuf_content b,
    b\<lparr>rb_offset_out := rb_offset_in b\<rparr>)"
proof -
  have bounds: "length (rb_rawbuf b) = rb_size b" "rb_offset_in b < rb_size b"
    "rb_offset_out b < rb_size b" "2 * rb_size b < size_mod" using inv by (auto simp: ringbuf_inv_def)
  have cnt: "(if sz < ringbuf_used b then sz else ringbuf_used b) = length (ringbuf_content b)"
    using inv sz by (simp add: ringbuf_used_eq)
  have peek: "ringbuf_peek b sz = Inr (length (ringbuf_content b), ringbuf_content b)"
  proof (cases "rb_offset_out b \<le> rb_offset_in b")
    case True
    then show ?thesis using bounds unfolding ringbuf_peek_def cnt Let_def
      by (auto simp: ringbuf_read_pos_def ringbuf_content_def mem_read_def)
  next
    case False
    then have "size_sub (rb_size b) (rb_offset_out b) = rb_size b - rb_offset_out b"
      "size_sub (length (ringbuf_content b)) (rb_size b - rb_offset_out b) = rb_offset_in b"
      "length (ringbuf_content b) = rb_size b - rb_offset_out b + rb_offset_in b"
      using bounds inv by (simp_all add: size_sub_exact ringbuf_content_length)
    then show ?thesis using False bounds sz unfolding ringbuf_peek_def cnt Let_def
      by (auto simp: ringbuf_read_pos_def ringbuf_content_def mem_read_def)
  qed
  have "size_add (rb_offset_out b) (length (ringbuf_content b)) mod rb_size b = rb_offset_in b"
    using bounds inv by (auto simp: size_add_exact ringbuf_content_length)
  then show ?thesis using inv
    by (simp add: ringbuf_read_def peek ringbuf_read_advance_def ringbuf_used_eq)
qed

subsection \<open>The ring is a byte FIFO\<close>

definition ringbuf_put :: "ringbuf \<Rightarrow> string \<Rightarrow> (nat \<times> ringbuf) res" where
  "ringbuf_put b xs = ringbuf_write b xs (length xs)"

definition ringbuf_get :: "ringbuf \<Rightarrow> nat \<Rightarrow> (string \<times> ringbuf) res" where
  "ringbuf_get b n = bindR (ringbuf_read b n) (\<lambda>(_, out, b'). Inr (out, b'))"

interpretation rfifo: byte_fifo ringbuf_inv ringbuf_content ringbuf_spare ringbuf_put ringbuf_get
proof
  fix b :: ringbuf and xs :: string
  assume inv: "ringbuf_inv b" and xs: "length xs < ringbuf_spare b"
  from ringbuf_write_spec [OF inv _ xs, of xs] obtain b' where
    "ringbuf_write b xs (length xs) = Inr (length xs, b')" "ringbuf_inv b'"
    "ringbuf_content b' = ringbuf_content b @ xs" "rb_size b' = rb_size b" by auto
  with inv show "\<exists>b'. ringbuf_put b xs = Inr (length xs, b') \<and> ringbuf_inv b' \<and>
      ringbuf_content b' = ringbuf_content b @ xs \<and> ringbuf_spare b \<le> ringbuf_spare b' + length xs"
    by (auto simp: ringbuf_put_def ringbuf_spare_eq)
next
  fix b :: ringbuf and n :: nat
  assume inv: "ringbuf_inv b" and n: "length (ringbuf_content b) \<le> n"
  then have "ringbuf_inv (b\<lparr>rb_offset_out := rb_offset_in b\<rparr>)"
    "ringbuf_content (b\<lparr>rb_offset_out := rb_offset_in b\<rparr>) = []"
    by (auto simp: ringbuf_inv_def ringbuf_content_def)
  with ringbuf_read_all [OF inv n]
  show "\<exists>b'. ringbuf_get b n = Inr (ringbuf_content b, b') \<and> ringbuf_inv b' \<and> ringbuf_content b' = []"
    by (simp add: ringbuf_get_def)
qed

subsection \<open>Properties\<close>

definition ringbuf_example :: ringbuf where
  "ringbuf_example = \<lparr>rb_rawbuf = ''cdefab'', rb_size = 6, rb_offset_in = 2, rb_offset_out = 4\<rparr>"

text \<open>C30: a write of fewer bytes than are spare is taken whole, around the end of the block if
  necessary: the bytes follow what the ring holds and the invariant is kept.\<close>

theorem ringbuf_write_appends:
  assumes "ringbuf_inv b" and "len \<le> length ptr" and "len < ringbuf_spare b"
  shows "\<exists>b'. ringbuf_write b ptr len = Inr (len, b') \<and> ringbuf_inv b' \<and>
    ringbuf_content b' = ringbuf_content b @ take len ptr"
  using ringbuf_write_spec [OF assms] by metis

theorem ringbuf_write_appends_witness:
  "\<exists>b'. ringbuf_write (ringbuf_example\<lparr>rb_offset_in := 5, rb_offset_out := 3\<rparr>) ''xyz'' 3 = Inr (3, b') \<and>
    ringbuf_inv b' \<and> ringbuf_content b' = ''faxyz''"
proof -
  let ?b = "ringbuf_example\<lparr>rb_offset_in := 5, rb_offset_out := 3\<rparr>"
  have "ringbuf_inv ?b" "3 \<le> length ''xyz''" "3 < ringbuf_spare ?b"
    by (simp_all add: ringbuf_example_def ringbuf_inv_def size_mod_def ringbuf_spare_def
        ringbuf_used_def size_sub_def)
  from ringbuf_write_appends [OF this] show ?thesis
    by (simp add: ringbuf_example_def ringbuf_content_def)
qed

text \<open>a write that reaches the spare space fills the ring, and a full ring looks empty: the
  call reports the spare space as written and every stored byte is lost.\<close>

theorem ringbuf_write_full_loses_all:
  assumes "ringbuf_inv b" and "len \<le> length ptr" and "ringbuf_spare b \<le> len" and "len < rb_size b"
  shows "\<exists>b'. ringbuf_write b ptr len = Inr (ringbuf_spare b, b') \<and> ringbuf_content b' = [] \<and>
    ringbuf_used b' = 0"
proof -
  obtain b' where "ringbuf_write b ptr len = Inr (ringbuf_spare b, b')"
    "rb_offset_in b' = rb_offset_out b'" "rb_offset_out b' = rb_offset_out b"
    using ringbuf_write_full [OF assms] .
  then show ?thesis using assms(1)
    by (simp add: ringbuf_content_def ringbuf_used_def ringbuf_inv_def size_sub_exact)
qed

theorem ringbuf_write_full_loses_all_witness:
  "ringbuf_content ringbuf_example = ''abcd'' \<and>
   (\<exists>b'. ringbuf_write ringbuf_example ''xy'' 2 = Inr (2, b') \<and> ringbuf_content b' = [] \<and> ringbuf_used b' = 0)"
proof
  have "ringbuf_inv ringbuf_example" "2 \<le> length ''xy''" "ringbuf_spare ringbuf_example \<le> 2"
    "2 < rb_size ringbuf_example" and spare: "ringbuf_spare ringbuf_example = 2"
    by (simp_all add: ringbuf_example_def ringbuf_inv_def size_mod_def ringbuf_spare_def
        ringbuf_used_def size_sub_def size_add_def)
  from ringbuf_write_full_loses_all [OF this(1-4)]
  show "\<exists>b'. ringbuf_write ringbuf_example ''xy'' 2 = Inr (2, b') \<and> ringbuf_content b' = [] \<and>
      ringbuf_used b' = 0" by (simp add: spare)
qed (simp add: ringbuf_example_def ringbuf_content_def)

text \<open>pieces written one after the other into an empty ring, together shorter than the ring,
  are read back as their concatenation by one read that asks for at least that many bytes.\<close>

theorem ringbuf_writes_then_read:
  assumes "ringbuf_inv b" and "ringbuf_content b = []"
    and "length (concat xss) < ringbuf_spare b" and "length (concat xss) \<le> n"
  shows "\<exists>b'. bindR (puts ringbuf_put b xss) (\<lambda>b1. ringbuf_get b1 n) = Inr (concat xss, b') \<and>
    ringbuf_inv b' \<and> ringbuf_content b' = []"
  using assms by (rule rfifo.puts_then_get)

theorem ringbuf_writes_then_read_witness:
  "\<exists>b'. bindR (puts ringbuf_put (ringbuf_example\<lparr>rb_offset_in := 4\<rparr>) [''12'', ''345''])
     (\<lambda>b1. ringbuf_get b1 9) = Inr (''12345'', b') \<and> ringbuf_inv b' \<and> ringbuf_content b' = []"
proof -
  let ?b = "ringbuf_example\<lparr>rb_offset_in := 4\<rparr>"
  have "ringbuf_inv ?b" "ringbuf_content ?b = []" "length (concat [''12'', ''345'']) < ringbuf_spare ?b"
    by (simp_all add: ringbuf_example_def ringbuf_inv_def size_mod_def ringbuf_spare_def
        ringbuf_used_def ringbuf_content_def size_sub_def)
  from ringbuf_writes_then_read [OF this, of 9] show ?thesis by simp
qed

text \<open>reading fewer bytes than lie before the end of a wrapped ring leaves the block: the
  count of the second copy is below zero and wraps to a huge size.\<close>

theorem ringbuf_short_read_of_wrapped_ring:
  assumes "ringbuf_inv b" and "rb_offset_in b < rb_offset_out b" and "sz < rb_size b - rb_offset_out b"
  shows "ringbuf_read b sz = Inl OutOfBounds"
proof -
  have bounds: "length (rb_rawbuf b) = rb_size b" "rb_offset_out b < rb_size b" "2 * rb_size b < size_mod"
    using assms(1) by (auto simp: ringbuf_inv_def)
  have right: "size_sub (rb_size b) (rb_offset_out b) = rb_size b - rb_offset_out b"
    using bounds by (simp add: size_sub_exact)
  have "sz < ringbuf_used b" using assms bounds by (simp add: ringbuf_used_eq ringbuf_content_length)
  moreover have "size_sub sz (rb_size b - rb_offset_out b) = size_mod - (rb_size b - rb_offset_out b - sz)"
    using assms bounds by (intro size_sub_wraps) auto
  moreover have "rb_size b < size_mod - (rb_size b - rb_offset_out b - sz)" using bounds by linarith
  ultimately show ?thesis using assms(2) bounds right
    by (simp add: ringbuf_read_def ringbuf_peek_def Let_def ringbuf_read_pos_def mem_read_def)
qed

theorem ringbuf_short_read_of_wrapped_ring_witness:
  "ringbuf_content ringbuf_example = ''abcd'' \<and> ringbuf_read ringbuf_example 1 = Inl OutOfBounds"
proof
  show "ringbuf_read ringbuf_example 1 = Inl OutOfBounds"
    by (rule ringbuf_short_read_of_wrapped_ring)
      (simp_all add: ringbuf_example_def ringbuf_inv_def size_mod_def)
qed (simp add: ringbuf_example_def ringbuf_content_def)

end
