(* ===== verification/Json.thy ===== *)
theory Json
  imports Cx_Stdio
begin

text \<open>
  The reader of values in a JSON-like text (\<open>json.c\<close>): an object holds a copy of the text and the
  position behind the key last found. A pointer into the text is its distance from the start;
  texts are shorter than 2 GB, so that the \<open>int\<close> indices hold every position.
\<close>

subsection \<open>State and operations\<close>

datatype json_errno = JSON_ERR_OK | JSON_ERR_BRACE | JSON_ERR_KEY | JSON_ERR_TYPE

record json_object =
  jo_errno :: json_errno
  jo_raw :: string
  jo_walk_idx :: nat

definition json_object_new :: "allocator \<Rightarrow> string \<Rightarrow> json_object res" where
  "json_object_new al str =
     (if \<not> grant al 24 \<or> \<not> grant al (length str + 1) then Inl NullDeref
      else Inr \<lparr>jo_errno = JSON_ERR_OK, jo_raw = str, jo_walk_idx = 0\<rparr>)"

definition json_fail :: "json_object \<Rightarrow> json_errno \<Rightarrow> int \<times> json_object" where
  "json_fail jo e = (- 1, jo\<lparr>jo_errno := e\<rparr>)"

text \<open>The search for a key, which both loops of \<open>json_walk\<close> begin with: the text is read from position
  \<open>pos\<close> on, counting braces, and compared with the key where exactly one is open.\<close>

fun json_scan :: "string \<Rightarrow> nat \<Rightarrow> int \<Rightarrow> string \<Rightarrow> nat option res" where
  "json_scan key pos cnt [] = Inr None"
| "json_scan key pos cnt (c # cs) =
     (if c = CHR ''{'' then json_scan key (Suc pos) (cnt + 1) cs
      else if c = CHR ''}'' then json_scan key (Suc pos) (cnt - 1) cs
      else if cnt = 1 \<and> (key @ [NUL]) ! 0 = c
      then bindR (memcmp_eq (key @ [NUL]) (c # cs @ [NUL]) (length key)) (\<lambda>e.
           if e then Inr (Some pos) else json_scan key (Suc pos) cnt cs)
      else json_scan key (Suc pos) cnt cs)"

definition json_blank :: "char \<Rightarrow> bool" where
  "json_blank c \<longleftrightarrow> c = CHR '' '' \<or> c = CHR '':''"

function json_walk :: "allocator \<Rightarrow> json_object \<Rightarrow> nat \<Rightarrow> string \<Rightarrow> (int \<times> json_object) res" where
  "json_walk al jo pos path =
     assertR (path \<noteq> [] \<and> path ! 0 = CHR ''/'')
       (assertR (tl path \<noteq> [])
         (let key = takeWhile (\<lambda>c. c \<noteq> CHR ''/'') (tl path);
              path_next = dropWhile (\<lambda>c. c \<noteq> CHR ''/'') (tl path)
          in if path_next \<noteq> [] \<and> \<not> grant al (length key + 1) then Inl NullDeref
             else bindR (json_scan key pos 0 (drop pos (jo_raw jo))) (\<lambda>r.
               case r of
                 None \<Rightarrow> Inr (json_fail jo JSON_ERR_KEY)
               | Some i \<Rightarrow>
                   if path_next = [] then Inr (0, jo\<lparr>jo_walk_idx := i + length key\<rparr>)
                   else (case dropWhile json_blank (drop (i + length key) (jo_raw jo)) of
                           [] \<Rightarrow> Inr (json_fail jo JSON_ERR_KEY)
                         | c # cs \<Rightarrow>
                             if c \<noteq> CHR ''{'' then Inr (json_fail jo JSON_ERR_TYPE)
                             else json_walk al jo (length (jo_raw jo) - length (c # cs)) path_next))))"
  by pat_completeness auto

termination
proof (relation "measure (\<lambda>(al, jo, pos, path). length path)", goal_cases)
  case (2 al jo pos path key path_next)
  have "length path_next \<le> length (tl path)" unfolding 2(2) by (rule length_dropWhile_le)
  moreover from 2 have "path_next \<noteq> []" by simp
  ultimately show ?case by (cases path) auto
qed simp

declare json_walk.simps [simp del]

text \<open>The inner loop of the two readers: the end of the value, or the error that is set. \<open>inside\<close> are
  the characters of the value; only blanks may stand between it and the comma or brace.\<close>

fun json_value_end :: "(char \<Rightarrow> bool) \<Rightarrow> nat \<Rightarrow> nat option \<Rightarrow> string \<Rightarrow> json_errno + nat" where
  "json_value_end inside j value_end [] = Inl JSON_ERR_BRACE"
| "json_value_end inside j value_end (c # cs) =
     (let value_end1 = (case value_end of None \<Rightarrow> j | Some v \<Rightarrow> v)
      in if value_end = None \<and> inside c then json_value_end inside (Suc j) None cs
         else if c = CHR '' '' then json_value_end inside (Suc j) (Some value_end1) cs
         else if c = CHR '','' \<or> c = CHR ''}'' then Inr value_end1
         else Inl JSON_ERR_TYPE)"

definition isprint_c :: "char \<Rightarrow> bool" where
  "isprint_c c \<longleftrightarrow> 32 \<le> code c \<and> code c \<le> 126"

definition json_text_char :: "char \<Rightarrow> bool" where
  "json_text_char c \<longleftrightarrow> isprint_c c \<and> c \<noteq> CHR '' '' \<and> c \<noteq> CHR '','' \<and> c \<noteq> CHR ''}''"

text \<open>\<open>value\<close> is the caller's buffer, \<open>size\<close> the size passed for it. The number of bytes copied is
  \<open>value_end - str - i - 2\<close> in \<open>size_t\<close>.\<close>

definition json_read_string :: "json_object \<Rightarrow> mem \<Rightarrow> nat \<Rightarrow> (int \<times> json_object \<times> mem) res" where
  "json_read_string jo buf sz =
     (let raw = jo_raw jo; rest = dropWhile json_blank (drop (jo_walk_idx jo) raw);
          i = length raw - length rest
      in case rest of
           [] \<Rightarrow> Inr (- 1, jo\<lparr>jo_errno := JSON_ERR_TYPE\<rparr>, buf)
         | c # cs \<Rightarrow>
             if \<not> isprint_c c then Inr (- 1, jo\<lparr>jo_errno := JSON_ERR_TYPE\<rparr>, buf)
             else (case json_value_end json_text_char i None (c # cs) of
                    Inl e \<Rightarrow> Inr (- 1, jo\<lparr>jo_errno := e\<rparr>, buf)
                  | Inr value_end \<Rightarrow>
                      if (c \<noteq> CHR 0x27 \<and> c \<noteq> CHR 0x22) \<or> c \<noteq> raw ! (value_end - 1)
                      then Inr (- 1, jo\<lparr>jo_errno := JSON_ERR_TYPE\<rparr>, buf)
                      else let cnt = size_sub (value_end - i) 2; cnt1 = (if cnt > size_sub sz 1 then size_sub sz 1 else cnt)
                           in bindR (mem_read (raw @ [NUL]) (i + 1) cnt1) (\<lambda>bytes.
                              bindR (mem_write buf 0 bytes) (\<lambda>buf1.
                              bindR (mem_write buf1 cnt1 [NUL]) (\<lambda>buf2. Inr (0, jo, buf2))))))"

definition json_get_string :: "allocator \<Rightarrow> json_object \<Rightarrow> string \<Rightarrow> mem \<Rightarrow> nat \<Rightarrow> (int \<times> json_object \<times> mem) res" where
  "json_get_string al jo path buf sz =
     bindR (json_walk al jo 0 path) (\<lambda>(rc, jo1).
       if rc \<noteq> 0 then Inr (rc, jo1, buf) else json_read_string jo1 buf sz)"

definition json_read_int :: "json_object \<Rightarrow> (int \<times> json_object \<times> int option) res" where
  "json_read_int jo =
     (let raw = jo_raw jo; rest = dropWhile json_blank (drop (jo_walk_idx jo) raw);
          i = length raw - length rest
      in case rest of
           [] \<Rightarrow> Inr (- 1, jo\<lparr>jo_errno := JSON_ERR_TYPE\<rparr>, None)
         | c # cs \<Rightarrow>
             if \<not> isdigit_c c then Inr (- 1, jo\<lparr>jo_errno := JSON_ERR_TYPE\<rparr>, None)
             else (case json_value_end isdigit_c i None (c # cs) of
                    Inl e \<Rightarrow> Inr (- 1, jo\<lparr>jo_errno := e\<rparr>, None)
                  | Inr value_end \<Rightarrow>
                      bindR (mem_read (raw @ [NUL]) i (value_end - i)) (\<lambda>bytes.
                      bindR (mem_write (replicate 32 NUL) 0 bytes) (\<lambda>tmp.
                        if \<not> terminated tmp then Inl OutOfBounds else Inr (0, jo, Some (atoi_c (cstr tmp)))))))"

definition json_get_int :: "allocator \<Rightarrow> json_object \<Rightarrow> string \<Rightarrow> (int \<times> json_object \<times> int option) res" where
  "json_get_int al jo path =
     bindR (json_walk al jo 0 path) (\<lambda>(rc, jo1).
       if rc \<noteq> 0 then Inr (rc, jo1, None) else json_read_int jo1)"

subsection \<open>Documents\<close>

text \<open>
  What the reader is for: a value is a number, a quoted text or an object, printed with a colon after
  each key and a comma between fields. A key is a word of small letters. The reader looks a key up by
  its letters alone, so a document is well formed for it when no key occurs inside an earlier key or an
  earlier text of the same object.
\<close>

datatype jval = JInt nat | JStr string | JObj "(string \<times> jval) list"

fun jprint :: "jval \<Rightarrow> string" and jfields :: "(string \<times> jval) list \<Rightarrow> string" where
  "jprint (JInt n) = dec_string n"
| "jprint (JStr s) = CHR 0x27 # s @ [CHR 0x27]"
| "jprint (JObj fs) = CHR ''{'' # jfields fs"
| "jfields [] = ''}''"
| "jfields ((k, v) # fs) = k @ '': '' @ jprint v @ (if fs = [] then ''}'' else '', '' @ jfields fs)"

definition letter :: "char \<Rightarrow> bool" where
  "letter c \<longleftrightarrow> 97 \<le> code c \<and> code c \<le> 122"

definition jkey :: "string \<Rightarrow> bool" where
  "jkey k \<longleftrightarrow> k \<noteq> [] \<and> list_all letter k"

definition jtext :: "string \<Rightarrow> bool" where
  "jtext s \<longleftrightarrow> list_all (\<lambda>c. json_text_char c \<and> c \<noteq> CHR 0x27 \<and> c \<noteq> CHR ''{'') s"

text \<open>The words that stand at the level of a field: its key, and its value when that is a text.\<close>

definition jwords :: "string \<times> jval \<Rightarrow> string list" where
  "jwords f = fst f # (case snd f of JStr s \<Rightarrow> [s] | _ \<Rightarrow> [])"

fun jok :: "jval \<Rightarrow> bool" and jok_fields :: "(string \<times> jval) list \<Rightarrow> bool" where
  "jok (JInt n) = (n < 2 ^ 31)"
| "jok (JStr s) = jtext s"
| "jok (JObj fs) = jok_fields fs"
| "jok_fields [] = True"
| "jok_fields ((k, v) # fs) = (jkey k \<and> jok v \<and> jok_fields fs \<and>
     list_all (\<lambda>f. list_all (\<lambda>w. \<not> sublist (fst f) w) (jwords (k, v))) fs)"

fun jlookup :: "jval \<Rightarrow> string list \<Rightarrow> jval option" where
  "jlookup v [] = Some v"
| "jlookup (JObj fs) (k # ks) = (case map_of fs k of None \<Rightarrow> None | Some v \<Rightarrow> jlookup v ks)"
| "jlookup v (k # ks) = None"

definition jpath :: "string list \<Rightarrow> string" where
  "jpath ks = concat (map (\<lambda>k. CHR ''/'' # k) ks)"

subsection \<open>Searching a key\<close>

lemma letter_plain:
  "letter c \<Longrightarrow> c \<notin> {CHR ''{'', CHR ''}'', CHR '':'', CHR '' '', CHR '','', CHR 0x27, CHR ''/'', NUL} \<and> \<not> isdigit_c c"
  by (auto simp: letter_def code_def isdigit_c_def)

lemma jkey_chars: "jkey k \<Longrightarrow> c \<in> set k \<Longrightarrow> letter c"
  by (simp add: jkey_def list_all_iff)

lemma jkey_NUL: "jkey k \<Longrightarrow> NUL \<notin> set k"
  using jkey_chars letter_plain by blast

lemma memcmp_key:
  assumes "length key \<le> Suc (length xs)" and "NUL \<notin> set key"
  shows "memcmp_eq (key @ [NUL]) (xs @ [NUL]) (length key) = Inr (prefix key xs)"
proof -
  have "take (length key) (xs @ [NUL]) = key \<longleftrightarrow> prefix key xs"
  proof
    assume e: "take (length key) (xs @ [NUL]) = key"
    then have "length key \<le> length xs" using assms
      by (cases "length key = Suc (length xs)") auto
    then show "prefix key xs" using e by (metis take_append take_is_prefix append_Nil2 diff_is_0_eq take_0)
  next
    assume "prefix key xs"
    then show "take (length key) (xs @ [NUL]) = key" by (auto simp: prefix_def)
  qed
  then show ?thesis using assms(1) by (auto simp: memcmp_eq_def mem_read_def)
qed

lemma json_scan_pass:
  assumes "\<And>c. c \<in> set seg \<Longrightarrow> c \<noteq> CHR ''{'' \<and> c \<noteq> CHR ''}''"
    and "cnt = 1 \<Longrightarrow> (\<forall>i < length seg. \<not> prefix key (drop i (seg @ rest))) \<and> length key \<le> length rest \<and> jkey key"
  shows "json_scan key pos cnt (seg @ rest) = json_scan key (pos + length seg) cnt rest"
  using assms
proof (induction seg arbitrary: pos)
  case (Cons c cs)
  have plain: "c \<noteq> CHR ''{'' \<and> c \<noteq> CHR ''}''" using Cons.prems(1) by simp
  have IH: "json_scan key (Suc pos) cnt (cs @ rest) = json_scan key (Suc pos + length cs) cnt rest"
  proof (rule Cons.IH)
    show "(\<forall>i < length cs. \<not> prefix key (drop i (cs @ rest))) \<and> length key \<le> length rest \<and> jkey key" if "cnt = 1"
    proof -
      from Cons.prems(2) [OF that] have all: "\<forall>i < length (c # cs). \<not> prefix key (drop i ((c # cs) @ rest))"
        and "length key \<le> length rest \<and> jkey key" by blast+
      moreover have "\<not> prefix key (drop i (cs @ rest))" if "i < length cs" for i
        using all [rule_format, of "Suc i"] that by simp
      ultimately show ?thesis by blast
    qed
  qed (use Cons.prems(1) in simp)
  have "memcmp_eq (key @ [NUL]) (c # cs @ rest @ [NUL]) (length key) = Inr False" if "cnt = 1"
  proof -
    from Cons.prems(2) [OF that] have "\<not> prefix key (c # cs @ rest)" "length key \<le> length rest" "NUL \<notin> set key"
      using jkey_NUL [of key] by (auto dest!: spec [of _ 0])
    then show ?thesis using memcmp_key [of key "c # cs @ rest"] by simp
  qed
  then show ?case using plain IH by (cases "cnt = 1") simp_all
qed simp

text \<open>A word and the character behind it are passed over when the key is not in the word.\<close>

lemma no_key_in_word:
  assumes "jkey key" and "\<not> sublist key w" and "\<not> letter d" and "i < length (w @ [d])"
  shows "\<not> prefix key (drop i ((w @ [d]) @ rest))"
proof
  assume "prefix key (drop i ((w @ [d]) @ rest))"
  then have p: "prefix key (drop i w @ d # rest)" using assms(4) by simp
  have "d \<notin> set key" using assms(1,3) by (auto simp: jkey_def list_all_iff)
  then have "prefix key (drop i w)"
    using p by (auto simp: prefix_append append_Cons prefix_Cons)
  then obtain zs where "drop i w = key @ zs" by (auto simp: prefix_def)
  then have "w = take i w @ key @ zs" by (metis append_take_drop_id)
  then show False using assms(2) by (metis sublist_appendI)
qed

lemma json_scan_word:
  assumes "jkey key" and "\<not> sublist key w" and "\<not> letter d" and "length key \<le> length rest"
    and "\<And>c. c \<in> set (w @ [d]) \<Longrightarrow> c \<noteq> CHR ''{'' \<and> c \<noteq> CHR ''}''"
  shows "json_scan key pos cnt (w @ d # rest) = json_scan key (pos + length w + 1) cnt rest"
proof -
  have "json_scan key pos cnt ((w @ [d]) @ rest) = json_scan key (pos + length (w @ [d])) cnt rest"
    by (rule json_scan_pass) (use assms no_key_in_word [OF assms(1-3)] in auto)
  then show ?thesis by simp
qed

lemma json_scan_match:
  assumes "jkey key"
  shows "json_scan key pos 1 (key @ rest) = Inr (Some pos)"
proof -
  obtain c cs where key: "key = c # cs" "letter c" "NUL \<notin> set key"
    using assms letter_plain by (cases key) (auto simp: jkey_def list_all_iff)
  have "memcmp_eq (key @ [NUL]) ((key @ rest) @ [NUL]) (length key) = Inr True"
    using memcmp_key [of key "key @ rest"] key(3) by simp
  then show ?thesis using letter_plain [OF key(2)] by (simp add: key(1))
qed

text \<open>Inside an inner object nothing is compared: its text is passed over as a whole.\<close>

lemma json_scan_plain:
  "cnt \<noteq> 1 \<Longrightarrow> (\<And>c. c \<in> set seg \<Longrightarrow> c \<noteq> CHR ''{'' \<and> c \<noteq> CHR ''}'') \<Longrightarrow>
    json_scan key pos cnt (seg @ rest) = json_scan key (pos + length seg) cnt rest"
  by (rule json_scan_pass) auto

lemma jkey_no_brace: "jkey k \<Longrightarrow> CHR ''{'' \<notin> set k \<and> CHR ''}'' \<notin> set k"
  using jkey_chars letter_plain by blast

lemma jtext_no_brace: "jtext s \<Longrightarrow> CHR ''{'' \<notin> set s \<and> CHR ''}'' \<notin> set s"
  by (auto simp: jtext_def list_all_iff json_text_char_def)

lemma dec_no_brace: "CHR ''{'' \<notin> set (dec_string n) \<and> CHR ''}'' \<notin> set (dec_string n)"
  using dec_string_digits [of _ n] by (force simp: isdigit_c_def code_def)

lemma json_scan_skips_value:
  "jok v \<Longrightarrow> 2 \<le> cnt \<Longrightarrow> json_scan key pos cnt (jprint v @ rest) = json_scan key (pos + length (jprint v)) cnt rest"
  "jok_fields fs \<Longrightarrow> 2 \<le> cnt \<Longrightarrow> json_scan key pos cnt (jfields fs @ rest) = json_scan key (pos + length (jfields fs)) (cnt - 1) rest"
proof (induction v and fs arbitrary: pos cnt rest and pos cnt rest rule: jprint_jfields.induct)
  case (1 n)
  have "json_scan key pos cnt (dec_string n @ rest) = json_scan key (pos + length (dec_string n)) cnt rest"
    by (rule json_scan_plain) (use 1 dec_no_brace [of n] in auto)
  then show ?case by simp
next
  case (2 s)
  then show ?case using jtext_no_brace [of s] by (intro json_scan_plain) auto
next
  case (3 fs)
  then show ?case using 3(1) [of "cnt + 1" "Suc pos" rest] by simp
next
  case 4
  then show ?case by simp
next
  case (5 k v fs)
  let ?tl = "(if fs = [] then ''}'' else '', '' @ jfields fs) @ rest"
  have a: "json_scan key p cnt ((k @ '': '') @ x) = json_scan key (p + length (k @ '': '')) cnt x" for p x
    by (rule json_scan_plain) (use 5 jkey_no_brace [of k] in auto)
  have b: "json_scan key p cnt ('', '' @ x) = json_scan key (p + 2) cnt x" for p x
    using json_scan_plain [of cnt "'', ''" key p x] 5 by simp
  have c: "json_scan key p cnt (jprint v @ x) = json_scan key (p + length (jprint v)) cnt x" for p x
    by (rule 5(1)) (use 5 in auto)
  have "json_scan key p cnt ?tl = json_scan key (p + length (if fs = [] then ''}'' else '', '' @ jfields fs)) (cnt - 1) rest" for p
    using b 5(2) [of cnt "p + 2" rest] 5(3,4) by (cases "fs = []") (simp_all add: add.assoc)
  with a [of pos "jprint v @ ?tl"] c show ?case by (simp add: add.assoc)
qed

subsection \<open>Finding a field\<close>

lemma no_key_in_digits: "jkey key \<Longrightarrow> \<not> sublist key (dec_string n)"
proof
  assume k: "jkey key" and "sublist key (dec_string n)"
  then have "set key \<subseteq> set (dec_string n)" by (metis set_mono_sublist)
  moreover obtain c where "c \<in> set key" using k by (cases key) (auto simp: jkey_def)
  ultimately have "c \<in> set key" "c \<in> set (dec_string n)" by auto
  then show False using jkey_chars [OF k] dec_string_digits letter_plain by blast
qed

lemma no_key_in_nothing: "jkey key \<Longrightarrow> \<not> sublist key []"
  by (auto simp: jkey_def)

lemma not_letters [simp]:
  "\<not> letter (CHR '':'')" "\<not> letter (CHR '' '')" "\<not> letter (CHR '','')" "\<not> letter (CHR 0x27)"
  by (simp_all add: letter_def code_def)

text \<open>A field that does not contain the key is passed over, with the separator behind it.\<close>

lemma json_scan_skips_field:
  assumes "jkey key" and "jkey k" and "jok v" and "list_all (\<lambda>w. \<not> sublist key w) (jwords (k, v))"
    and "length key \<le> length rest"
  shows "json_scan key pos 1 ((k @ '': '' @ jprint v @ '', '') @ rest) =
    json_scan key (pos + length (k @ '': '' @ jprint v @ '', '')) 1 rest"
proof -
  have sep: "json_scan key p 1 (d # x) = json_scan key (Suc p) 1 x"
    if "\<not> letter d" "d \<noteq> CHR ''{''" "d \<noteq> CHR ''}''" "length key \<le> length x" for p d x
    using json_scan_word [OF assms(1) no_key_in_nothing [OF assms(1)] that(1,4), of p 1] that by simp
  have word: "json_scan key p 1 (w @ d # x) = json_scan key (p + length w + 1) 1 x"
    if "\<not> sublist key w" "\<not> letter d" "d \<noteq> CHR ''{''" "d \<noteq> CHR ''}''" "CHR ''{'' \<notin> set w \<and> CHR ''}'' \<notin> set w"
      "length key \<le> length x" for p w d x
    by (rule json_scan_word [OF assms(1) that(1,2,6)]) (use that in auto)
  have key: "json_scan key pos 1 (k @ '': '' @ x) = json_scan key (pos + length k + 2) 1 x" if "length key \<le> length x" for x
    using word [of k "CHR '':''" "CHR '' '' # x" pos] sep [of "CHR '' ''" x] that assms(4) jkey_no_brace [OF assms(2)]
    by (simp add: jwords_def)
  have val: "json_scan key p 1 (jprint v @ '', '' @ rest) = json_scan key (p + length (jprint v) + 2) 1 rest" for p
  proof (cases v)
    case (JInt n)
    then show ?thesis
      using word [of "dec_string n" "CHR '',''" "CHR '' '' # rest" p] sep [of "CHR '' ''" rest] assms(5)
        no_key_in_digits [OF assms(1)] dec_no_brace by simp
  next
    case (JStr s)
    then show ?thesis
      using sep [of "CHR 0x27" "s @ CHR 0x27 # '', '' @ rest" p] word [of s "CHR 0x27" "'', '' @ rest" "Suc p"]
        sep [of "CHR '',''" "CHR '' '' # rest"] sep [of "CHR '' ''" rest] assms(3-5) jtext_no_brace [of s]
      by (simp add: jwords_def)
  next
    case (JObj fs)
    have "json_scan key (Suc p) 2 (jfields fs @ '', '' @ rest) = json_scan key (Suc p + length (jfields fs)) 1 ('', '' @ rest)"
      using json_scan_skips_value(2) [of fs 2] assms(3) JObj by simp
    then show ?thesis
      using JObj sep [of "CHR '',''" "CHR '' '' # rest"] sep [of "CHR '' ''" rest] assms(5) by simp
  qed
  show ?thesis using key [of "jprint v @ '', '' @ rest"] val assms(5) by (simp add: add.assoc)
qed

lemma json_scan_finds:
  assumes "jok_fields fs" and "map_of fs key = Some v"
  shows "\<exists>pre post. jfields fs = pre @ key @ '': '' @ jprint v @ post \<and> post \<noteq> [] \<and> hd post \<in> {CHR '','', CHR ''}''} \<and>
    jkey key \<and> jok v \<and> json_scan key pos 1 (jfields fs @ rest) = Inr (Some (pos + length pre))"
  using assms
proof (induction fs arbitrary: pos)
  case (Cons f fs)
  obtain k w where f: "f = (k, w)" by fastforce
  have kw: "jkey k" "jok w" "jok_fields fs" "list_all (\<lambda>f. list_all (\<lambda>x. \<not> sublist (fst f) x) (jwords (k, w))) fs"
    using Cons.prems(1) by (auto simp: f)
  show ?case
  proof (cases "k = key")
    case True
    let ?post = "if fs = [] then ''}'' else '', '' @ jfields fs"
    have "v = w" using Cons.prems(2) True by (simp add: f)
    then show ?thesis
      using json_scan_match [of key pos "'': '' @ jprint v @ ?post @ rest"] kw True
      by (intro exI [of _ "[]"] exI [of _ ?post]) (simp add: f)
  next
    case False
    then have m: "map_of fs key = Some v" using Cons.prems(2) by (simp add: f)
    then have fs: "fs \<noteq> []" "\<exists>x. (key, x) \<in> set fs" by (auto dest: map_of_SomeD)
    let ?p = "k @ '': '' @ jprint w @ '', ''"
    obtain pre post where IH: "jfields fs = pre @ key @ '': '' @ jprint v @ post" "post \<noteq> []"
      "hd post \<in> {CHR '','', CHR ''}''}" "jkey key" "jok v"
      "json_scan key (pos + length ?p) 1 (jfields fs @ rest) = Inr (Some (pos + length ?p + length pre))"
      using Cons.IH [OF kw(3) m, of "pos + length ?p"] by blast
    have "list_all (\<lambda>x. \<not> sublist key x) (jwords (k, w))" using kw(4) fs(2) by (auto simp: list_all_iff)
    then have "json_scan key pos 1 (?p @ jfields fs @ rest) = json_scan key (pos + length ?p) 1 (jfields fs @ rest)"
      by (rule json_scan_skips_field [OF IH(4) kw(1,2)]) (simp add: IH(1))
    then show ?thesis using IH fs(1)
      by (intro exI [of _ "?p @ pre"] exI [of _ post]) (simp add: f)
  qed
qed simp

text \<open>The walk along a path of keys ends behind the key whose value is the one looked up.\<close>

lemma jpath_Cons: "jpath (k # ks) = CHR ''/'' # k @ jpath ks"
  by (simp add: jpath_def)

lemma path_split:
  assumes "jkey k"
  shows "takeWhile (\<lambda>c. c \<noteq> CHR ''/'') (k @ jpath ks) = k" "dropWhile (\<lambda>c. c \<noteq> CHR ''/'') (k @ jpath ks) = jpath ks"
proof -
  have "c \<noteq> CHR ''/''" if "c \<in> set k" for c using jkey_chars [OF assms that] letter_plain by blast
  moreover have "jpath ks = [] \<or> hd (jpath ks) = CHR ''/''" by (cases ks) (simp_all add: jpath_def)
  ultimately show "takeWhile (\<lambda>c. c \<noteq> CHR ''/'') (k @ jpath ks) = k" "dropWhile (\<lambda>c. c \<noteq> CHR ''/'') (k @ jpath ks) = jpath ks"
    by (simp_all add: takeWhile_append2 dropWhile_append2) (auto simp: dropWhile_eq_self_iff takeWhile_eq_Nil_iff)
qed

lemma json_scan_object:
  assumes "jok_fields fs" and "map_of fs key = Some v"
  shows "\<exists>pre post. jprint (JObj fs) = pre @ key @ '': '' @ jprint v @ post \<and> post \<noteq> [] \<and>
    hd post \<in> {CHR '','', CHR ''}''} \<and> jkey key \<and> jok v \<and>
    json_scan key pos 0 (jprint (JObj fs) @ rest) = Inr (Some (pos + length pre))"
proof -
  obtain pre post where "jfields fs = pre @ key @ '': '' @ jprint v @ post" "post \<noteq> []" "hd post \<in> {CHR '','', CHR ''}''}"
    "jkey key" "jok v" "json_scan key (Suc pos) 1 (jfields fs @ rest) = Inr (Some (Suc pos + length pre))"
    using json_scan_finds [OF assms, of "Suc pos" rest] by blast
  then show ?thesis by (intro exI [of _ "CHR ''{'' # pre"] exI [of _ post]) simp
qed

lemma json_walk_step:
  assumes "jkey k" and "json_scan k p 0 (drop p (jo_raw jo)) = Inr (Some i)" and "\<And>n. grant al n"
  shows "json_walk al jo p (jpath (k # ks)) =
    (if ks = [] then Inr (0, jo\<lparr>jo_walk_idx := i + length k\<rparr>)
     else case dropWhile json_blank (drop (i + length k) (jo_raw jo)) of
            [] \<Rightarrow> Inr (json_fail jo JSON_ERR_KEY)
          | c # cs \<Rightarrow> if c \<noteq> CHR ''{'' then Inr (json_fail jo JSON_ERR_TYPE)
              else json_walk al jo (length (jo_raw jo) - length (c # cs)) (jpath ks))"
proof -
  have "jpath ks = [] \<longleftrightarrow> ks = []" by (cases ks) (simp_all add: jpath_def)
  then show ?thesis
    unfolding jpath_Cons json_walk.simps [of al jo p "CHR ''/'' # k @ jpath ks"]
    using assms(1,2) path_split [OF assms(1), of ks] by (simp add: jkey_def assms(3) Let_def)
qed

lemma json_walk_finds:
  assumes "jok v" and "jlookup v ks = Some w" and "ks \<noteq> []" and "jo_raw jo = a @ jprint v @ b" and "\<And>n. grant al n"
  shows "\<exists>i post. json_walk al jo (length a) (jpath ks) = Inr (0, jo\<lparr>jo_walk_idx := i\<rparr>) \<and>
    drop i (jo_raw jo) = '': '' @ jprint w @ post \<and> post \<noteq> [] \<and> hd post \<in> {CHR '','', CHR ''}''} \<and> i \<le> length (jo_raw jo)"
  using assms(1-4)
proof (induction ks arbitrary: v a b)
  case (Cons k ks)
  obtain fs u where v: "v = JObj fs" "map_of fs k = Some u" "jlookup u ks = Some w"
    using Cons.prems(2) by (cases v) (auto split: option.splits)
  obtain pre post where s: "jprint v = pre @ k @ '': '' @ jprint u @ post" "post \<noteq> []" "hd post \<in> {CHR '','', CHR ''}''}"
    "jkey k" "jok u" "json_scan k (length a) 0 (jprint v @ b) = Inr (Some (length a + length pre))"
    using json_scan_object [of fs k u "length a" b] Cons.prems(1) v(2) unfolding v(1) jok.simps by metis
  let ?i = "length a + length pre + length k"
  have scan: "json_scan k (length a) 0 (drop (length a) (jo_raw jo)) = Inr (Some (length a + length pre))"
    using s(6) by (simp add: Cons.prems(4))
  have rest: "drop ?i (jo_raw jo) = '': '' @ jprint u @ post @ b"
    by (simp add: Cons.prems(4) s(1) flip: drop_drop)
  have le: "?i \<le> length (jo_raw jo)" by (simp add: Cons.prems(4) s(1))
  note walk = json_walk_step [OF s(4) scan assms(5), of ks]
  show ?case
  proof (cases ks)
    case Nil
    then have "json_walk al jo (length a) (jpath (k # ks)) = Inr (0, jo\<lparr>jo_walk_idx := ?i\<rparr>)"
      using walk by simp
    then show ?thesis using rest Nil v(3) s(2,3) le by (intro exI [of _ ?i] exI [of _ "post @ b"]) simp
  next
    case (Cons k' ks')
    then obtain fs' where u: "u = JObj fs'" using v(3) by (cases u) auto
    let ?a = "a @ pre @ k @ '': ''"
    have raw: "jo_raw jo = ?a @ jprint u @ post @ b" by (simp add: Cons.prems(4) s(1))
    have "dropWhile json_blank (drop ?i (jo_raw jo)) = jprint u @ post @ b"
      unfolding rest u by (simp add: json_blank_def)
    then have "json_walk al jo (length a) (jpath (k # ks)) = json_walk al jo (length ?a) (jpath ks)"
      using Cons unfolding walk by (simp add: u) (simp add: raw u)
    then show ?thesis using Cons.IH [OF s(5) v(3) _ raw] Cons by simp
  qed
qed simp

lemma jlookup_ok: "jok v \<Longrightarrow> jlookup v ks = Some w \<Longrightarrow> jok w"
proof (induction v ks rule: jlookup.induct)
  case (2 fs k ks)
  then obtain u where u: "map_of fs k = Some u" "jlookup u ks = Some w" by (auto split: option.splits)
  have "jok_fields fs \<Longrightarrow> map_of fs k = Some u \<Longrightarrow> jok u"
    by (induction fs) (auto split: if_splits)
  then show ?case using 2 u by simp
qed auto

subsection \<open>Reading a value\<close>

lemma json_value_end_run:
  assumes "list_all inside xs" and "\<not> inside c" and "c = CHR '','' \<or> c = CHR ''}''"
  shows "json_value_end inside j None (xs @ c # cs) = Inr (j + length xs)"
  using assms by (induction xs arbitrary: j) (auto simp: Let_def)

lemma json_read_int_number:
  assumes "drop i (jo_raw jo) = '': '' @ dec_string n @ post" and "post \<noteq> []" and "hd post \<in> {CHR '','', CHR ''}''}"
    and "n < 2 ^ 31" and "i \<le> length (jo_raw jo)"
  shows "json_read_int (jo\<lparr>jo_walk_idx := i\<rparr>) = Inr (0, jo\<lparr>jo_walk_idx := i\<rparr>, Some (int n))"
proof -
  obtain p ps where post: "post = p # ps" "p = CHR '','' \<or> p = CHR ''}''" using assms(2,3) by (cases post) auto
  obtain d ds where dec: "dec_string n = d # ds" by (cases "dec_string n") simp_all
  have dig: "isdigit_c d" "list_all isdigit_c (dec_string n)"
    using dec_string_digits [of _ n] dec by (auto simp: list_all_iff)
  have blank: "dropWhile json_blank (drop i (jo_raw jo)) = dec_string n @ post"
    using dig(1) by (simp add: assms(1) dec json_blank_def) (auto simp: isdigit_c_def code_def)
  have "length (jo_raw jo) = i + 2 + length (dec_string n @ post)"
    using arg_cong [OF assms(1), of length] assms(5) by simp
  then have pos: "length (jo_raw jo) - length (dec_string n @ post) = i + 2" by simp
  have "drop (i + 2) (jo_raw jo) = dec_string n @ post" by (metis assms(1) append_Cons append_Nil drop0 drop_Suc_Cons drop_drop add.commute numeral_2_eq_2)
  then have "mem_read (jo_raw jo @ [NUL]) (i + 2) (length (dec_string n)) = Inr (dec_string n)"
    using pos assms(5) by (simp add: mem_read_def)
  moreover have short: "length (dec_string n) \<le> 10" by (rule dec_string_length) (use assms(4) in simp_all)
  moreover have "json_value_end isdigit_c (i + 2) None (dec_string n @ post) = Inr (i + 2 + length (dec_string n))"
    unfolding post(1) by (rule json_value_end_run) (use dig post(2) in \<open>auto simp: isdigit_c_def code_def\<close>)
  moreover have "NUL \<notin> set (dec_string n)" using dec_string_digits [of NUL n] by (auto simp: isdigit_c_def code_def)
  moreover from this have "cstr (dec_string n @ NUL # x) = dec_string n" for x by simp
  moreover have "replicate (32 - length (dec_string n)) NUL = NUL # replicate (31 - length (dec_string n)) NUL"
    using short by (simp add: Suc_diff_le flip: replicate_Suc)
  ultimately show ?thesis
    using blank pos dig(1) dec atoi_dec_string [OF assms(4)]
    by (simp add: json_read_int_def Let_def mem_write_def terminated_def)
qed

lemma json_read_string_text:
  assumes "drop i (jo_raw jo) = '': '' @ jprint (JStr s) @ post" and "post \<noteq> []" and "hd post \<in> {CHR '','', CHR ''}''}"
    and "jtext s" and "i \<le> length (jo_raw jo)" and "length s < length buf" and "length buf < 2 ^ 32"
  shows "json_read_string (jo\<lparr>jo_walk_idx := i\<rparr>) buf (length buf) =
    Inr (0, jo\<lparr>jo_walk_idx := i\<rparr>, s @ NUL # drop (length s + 1) buf)"
proof -
  let ?t = "jprint (JStr s)"
  obtain p ps where post: "post = p # ps" "p = CHR '','' \<or> p = CHR ''}''" using assms(2,3) by (cases post) auto
  have chars: "list_all json_text_char ?t"
    using assms(4) by (auto simp: jtext_def list_all_iff json_text_char_def isprint_c_def code_def)
  have blank: "dropWhile json_blank (drop i (jo_raw jo)) = ?t @ post"
    by (simp add: assms(1) json_blank_def)
  have len: "length (jo_raw jo) = i + 2 + length (?t @ post)"
    using arg_cong [OF assms(1), of length] assms(5) by simp
  then have pos: "length (jo_raw jo) - length (?t @ post) = i + 2" by simp
  have "drop (i + 2) (jo_raw jo) = drop 2 (drop i (jo_raw jo))" by (simp add: add.commute)
  then have tl: "drop (i + 2) (jo_raw jo) = ?t @ post" by (simp add: assms(1))
  then have "drop (i + 3) (jo_raw jo) = s @ CHR 0x27 # post"
    by (metis (no_types) add_Suc_right append_Cons append_Nil append_assoc drop_Suc jprint.simps(2) list.sel(3) numeral_2_eq_2
        numeral_3_eq_3 tl_drop)
  then have read: "mem_read (jo_raw jo @ [NUL]) (i + 3) (length s) = Inr s" using len by (simp add: mem_read_def)
  have "jo_raw jo ! (i + 2 + (length s + 1)) = (?t @ post) ! (length s + 1)"
    using len by (subst tl [symmetric], subst nth_drop) simp_all
  then have quote: "jo_raw jo ! Suc (Suc (Suc (i + length s))) = CHR 0x27" by (simp add: nth_append)
  have vend: "json_value_end json_text_char (i + 2) None (?t @ post) = Inr (i + 2 + length ?t)"
    unfolding post(1) by (rule json_value_end_run) (use chars post(2) in \<open>auto simp: json_text_char_def\<close>)
  have cnt: "size_sub (length ?t) 2 = length s" "size_sub (length buf) 1 = length buf - 1"
    using assms(6,7) by (simp_all add: size_sub_exact size_mod_def)
  have "isprint_c (CHR 0x27)" by (simp add: isprint_c_def code_def)
  moreover have "\<not> length buf - 1 < length s" using assms(6) by simp
  ultimately show ?thesis
    using blank pos vend read quote cnt assms(6)
    by (simp add: json_read_string_def Let_def mem_write_def numeral_3_eq_3 add.assoc)
qed

subsection \<open>Properties\<close>

text \<open>C15: in the text of a document every value is found under its path: a number is read as that
  number, a text is copied with a terminator into a buffer that is large enough, and asking an inner
  object for a number is an error of type.\<close>

theorem json_finds_value:
  assumes "jok v" and "jlookup v ks = Some w" and "ks \<noteq> []" and "jo_raw jo = jprint v" and "\<And>n. grant al n"
    and "length buf < 2 ^ 32"
  shows "\<exists>i. case w of
      JInt n \<Rightarrow> json_get_int al jo (jpath ks) = Inr (0, jo\<lparr>jo_walk_idx := i\<rparr>, Some (int n))
    | JStr s \<Rightarrow> length s < length buf \<longrightarrow>
        json_get_string al jo (jpath ks) buf (length buf) = Inr (0, jo\<lparr>jo_walk_idx := i\<rparr>, s @ NUL # drop (length s + 1) buf)
    | JObj fs \<Rightarrow> json_get_int al jo (jpath ks) = Inr (- 1, jo\<lparr>jo_walk_idx := i, jo_errno := JSON_ERR_TYPE\<rparr>, None)"
proof -
  obtain i post where walk: "json_walk al jo 0 (jpath ks) = Inr (0, jo\<lparr>jo_walk_idx := i\<rparr>)"
    and rest: "drop i (jo_raw jo) = '': '' @ jprint w @ post" "post \<noteq> []" "hd post \<in> {CHR '','', CHR ''}''}"
      "i \<le> length (jo_raw jo)"
    using json_walk_finds [of v ks w jo "[]" "[]" al] assms by auto
  have ok: "jok w" using assms(1,2) by (rule jlookup_ok)
  show ?thesis
  proof (cases w)
    case (JInt n)
    then show ?thesis using walk rest ok json_read_int_number [of i jo n post]
      by (intro exI [of _ i]) (simp add: json_get_int_def)
  next
    case (JStr s)
    then show ?thesis using walk rest ok json_read_string_text [of i jo s post buf] assms(6)
      by (intro exI [of _ i]) (simp add: json_get_string_def)
  next
    case (JObj fs)
    then have "dropWhile json_blank (drop i (jo_raw jo)) = CHR ''{'' # jfields fs @ post"
      using rest(1) by (simp add: json_blank_def)
    then show ?thesis using walk JObj
      by (intro exI [of _ i]) (simp add: json_get_int_def json_read_int_def Let_def isdigit_c_def code_def)
  qed
qed

definition json_example :: jval where
  "json_example = JObj [(''header'', JStr ''/hello/x''), (''test'', JObj [(''len'', JInt 12), (''name'', JStr ''yon'')])]"

theorem json_finds_value_witness:
  "\<exists>i. json_get_int generous \<lparr>jo_errno = JSON_ERR_OK, jo_raw = jprint json_example, jo_walk_idx = 0\<rparr> ''/test/len'' =
     Inr (0, \<lparr>jo_errno = JSON_ERR_OK, jo_raw = jprint json_example, jo_walk_idx = i\<rparr>, Some 12)"
proof -
  have "jok json_example"
    by (simp add: json_example_def jkey_def letter_def code_def jtext_def json_text_char_def isprint_c_def jwords_def
        sublist_Cons_right)
  moreover have "jlookup json_example [''test'', ''len''] = Some (JInt 12)" by (simp add: json_example_def)
  ultimately show ?thesis
    using json_finds_value [of json_example "[''test'', ''len'']" "JInt 12"
        "\<lparr>jo_errno = JSON_ERR_OK, jo_raw = jprint json_example, jo_walk_idx = 0\<rparr>" generous "[]"]
    by (simp add: jpath_def generous_def)
qed

text \<open>a quote that stands alone is taken for a quoted text of \<open>2 ^ 64 - 1\<close> bytes: one byte less than
  the size of the caller's buffer is copied, out of the text when it is not that long.\<close>

theorem json_lone_quote_overreads:
  assumes "jo_raw jo = a @ CHR 0x27 # CHR ''}'' # b" and "jo_walk_idx jo = length a" and "length b + 3 < sz" and "sz < 2 ^ 32"
  shows "json_read_string jo buf sz = Inl OutOfBounds"
proof -
  have "size_sub 1 2 = size_mod - 1" by (simp add: size_sub_wraps size_mod_def)
  moreover have "size_sub sz 1 = sz - 1" using assms(3,4) by (simp add: size_sub_exact size_mod_def)
  moreover have "\<not> sz - 1 \<le> length b + 2" using assms(3) by simp
  moreover have "sz - 1 < size_mod - 1" using assms(3,4) by (simp add: size_mod_def)
  moreover have "dropWhile json_blank (drop (jo_walk_idx jo) (jo_raw jo)) = CHR 0x27 # CHR ''}'' # b"
    by (simp add: assms json_blank_def)
  moreover have "json_value_end json_text_char (length a) None (CHR 0x27 # CHR ''}'' # b) = Inr (length a + 1)"
    using json_value_end_run [of json_text_char "[CHR 0x27]" "CHR ''}''" "length a" b]
    by (simp add: json_text_char_def isprint_c_def code_def)
  ultimately show ?thesis
    using assms(3) by (simp add: json_read_string_def Let_def assms(1) isprint_c_def code_def mem_read_def nth_append)
qed

theorem json_lone_quote_overreads_witness:
  "json_read_string \<lparr>jo_errno = JSON_ERR_OK, jo_raw = ''{a:'' @ [CHR 0x27, CHR ''}''], jo_walk_idx = 3\<rparr> (replicate 8 NUL) 8 =
     Inl OutOfBounds"
  by (rule json_lone_quote_overreads [of _ "''{a:''" "[]"]) simp_all

text \<open>a number of 32 digits or more overflows the array of 32 bytes it is copied into, or leaves it
  without a terminator for \<open>atoi\<close>.\<close>

theorem json_long_number_overflows:
  assumes "jo_raw jo = a @ ds @ CHR ''}'' # b" and "jo_walk_idx jo = length a" and "list_all isdigit_c ds" and "32 \<le> length ds"
  shows "json_read_int jo = Inl OutOfBounds"
proof -
  obtain d ds' where ds: "ds = d # ds'" using assms(4) by (cases ds) auto
  then have d: "isdigit_c d" "\<not> json_blank d"
    using assms(3) by (auto simp: isdigit_c_def code_def json_blank_def)
  have "dropWhile json_blank (drop (jo_walk_idx jo) (jo_raw jo)) = ds @ CHR ''}'' # b"
    using d by (simp add: assms(1,2) ds)
  moreover have "json_value_end isdigit_c (length a) None (ds @ CHR ''}'' # b) = Inr (length a + length ds)"
    by (rule json_value_end_run) (use assms(3) in \<open>simp_all add: isdigit_c_def code_def\<close>)
  moreover have "mem_read (jo_raw jo @ [NUL]) (length a) (length ds) = Inr ds"
    by (simp add: mem_read_def assms(1))
  moreover have "NUL \<notin> set ds" using assms(3) by (auto simp: list_all_iff isdigit_c_def code_def)
  ultimately show ?thesis
    using d(1) assms(4) by (simp add: json_read_int_def Let_def assms(1) ds mem_write_def terminated_def)
qed

theorem json_long_number_overflows_witness:
  "json_read_int \<lparr>jo_errno = JSON_ERR_OK, jo_raw = ''{a:'' @ replicate 40 (CHR ''1'') @ ''}'', jo_walk_idx = 3\<rparr> = Inl OutOfBounds"
  by (rule json_long_number_overflows [of _ "''{a:''" "replicate 40 (CHR ''1'')" "[]"])
    (simp_all add: isdigit_c_def code_def list_all_iff)

end
