(* ===== verification/Lifetimes.thy ===== *)
theory Lifetimes
  imports Cx_Store Apix Ringbuf Json
begin

text \<open>
  The functions that allocate and free the objects of the library, on a store of blocks: the two byte
  buffers, JSON objects, packets, the descriptors of the bus and the entries of its lists. The other
  theories take these objects as values; here they are blocks that point to each other.
\<close>

subsection \<open>What a block holds\<close>

text \<open>\<open>struct atbuf\<close> and \<open>struct ringbuf\<close>, which have the same members.\<close>

record buf_struct =
  bf_rawbuf :: nat
  bf_size :: nat
  bf_offset_in :: nat
  bf_offset_out :: nat

datatype cell =
    Bytes mem
  | Buf buf_struct
  | Jo json_errno nat nat      \<comment> \<open>\<open>errno\<close>, \<open>raw\<close>, \<open>walk_idx\<close> of a \<open>json_object\<close>\<close>
  | Pac srrp_packet
  | Sinkfd nat nat             \<comment> \<open>\<open>txbuf\<close>, \<open>rxbuf\<close> of a \<open>sinkfd\<close>\<close>
  | Owner nat                  \<comment> \<open>\<open>pac\<close> of an \<open>api_request\<close>, \<open>api_response\<close> or \<open>api_topic_msg\<close>\<close>

subsection \<open>Buffers\<close>

text \<open>The code that \<open>atbuf_new\<close> and \<open>ringbuf_new\<close> have in common.\<close>

definition buf_new :: "allocator \<Rightarrow> nat \<Rightarrow> cell store \<Rightarrow> (nat \<times> cell store) res" where
  "buf_new al sz st =
     (let (self, st1) = new_cell al 32 (Buf \<lparr>bf_rawbuf = 0, bf_size = 0, bf_offset_in = 0, bf_offset_out = 0\<rparr>) st
      in if self = 0 then Inr (0, st1)
         else let (raw, st2) = new_cell al sz (Bytes (replicate sz NUL)) st1
              in if raw = 0 then bindR (free_c self st2) (\<lambda>st3. Inr (0, st3))
                 else Inr (self, set_cell self (Buf \<lparr>bf_rawbuf = raw, bf_size = sz, bf_offset_in = 0, bf_offset_out = 0\<rparr>) st2))"

definition atbuf_new_at :: "allocator \<Rightarrow> nat \<Rightarrow> cell store \<Rightarrow> (nat \<times> cell store) res" where
  "atbuf_new_at al sz0 st = buf_new al (if sz0 = 0 then ATBUF_DEFAULT_SIZE else sz0) st"

definition atbuf_delete :: "nat \<Rightarrow> cell store \<Rightarrow> cell store res" where
  "atbuf_delete self st =
     (if self = 0 then Inr st
      else case cells st self of
             Some (Buf b) \<Rightarrow> bindR (free_c (bf_rawbuf b) st) (free_c self)
           | _ \<Rightarrow> Inl BadPointer)"

text \<open>\<open>realloc\<close> frees the old block when it has a new one.\<close>

definition atbuf_realloc_at :: "allocator \<Rightarrow> nat \<Rightarrow> nat \<Rightarrow> cell store \<Rightarrow> (int \<times> cell store) res" where
  "atbuf_realloc_at al len self st =
     (case cells st self of
        Some (Buf b) \<Rightarrow>
          (case cells st (bf_rawbuf b) of
             Some (Bytes m) \<Rightarrow>
               (case realloc_c al m len of
                  None \<Rightarrow> Inr (- 1, st)
                | Some m' \<Rightarrow>
                    let (newbuf, st1) = new_cell al len (Bytes m') st
                    in bindR (free_c (bf_rawbuf b) st1) (\<lambda>st2.
                       Inr (0, set_cell self (Buf (b\<lparr>bf_rawbuf := newbuf, bf_size := len\<rparr>)) st2)))
           | _ \<Rightarrow> Inl BadPointer)
      | _ \<Rightarrow> Inl BadPointer)"

definition ringbuf_new_at :: "allocator \<Rightarrow> nat \<Rightarrow> cell store \<Rightarrow> (nat \<times> cell store) res" where
  "ringbuf_new_at al sz0 st = buf_new al (if sz0 = 0 then RINGBUF_DEFAULT_SIZE else sz0) st"

definition ringbuf_delete :: "nat \<Rightarrow> cell store \<Rightarrow> cell store res" where
  "ringbuf_delete self st =
     (if self = 0 then Inr st
      else case cells st self of
             Some (Buf b) \<Rightarrow> bindR (free_c (bf_rawbuf b) st) (free_c self)
           | _ \<Rightarrow> Inl BadPointer)"

subsection \<open>JSON objects\<close>

text \<open>\<open>memset\<close> dereferences the result of \<open>malloc\<close>; a failed \<open>strdup\<close> leaves \<open>raw\<close> as \<open>NULL\<close>.\<close>

definition json_object_new_at :: "allocator \<Rightarrow> string \<Rightarrow> cell store \<Rightarrow> (nat \<times> cell store) res" where
  "json_object_new_at al str st =
     (let (jo, st1) = new_cell al 24 (Jo JSON_ERR_OK 0 0) st
      in if jo = 0 then Inl NullDeref
         else let (raw, st2) = new_cell al (length str + 1) (Bytes (str @ [NUL])) st1
              in Inr (jo, set_cell jo (Jo JSON_ERR_OK raw raw) st2))"

definition json_object_delete :: "nat \<Rightarrow> cell store \<Rightarrow> cell store res" where
  "json_object_delete jo st =
     assertR (jo \<noteq> 0)
       (case cells st jo of
          Some (Jo e raw idx) \<Rightarrow> bindR (free_c raw st) (free_c jo)
        | _ \<Rightarrow> Inl BadPointer)"

subsection \<open>Packets and the entries of the bus\<close>

definition srrp_free :: "nat \<Rightarrow> cell store \<Rightarrow> cell store res" where
  "srrp_free pac st = free_c pac st"

text \<open>The macros that delete an entry, after \<open>list_del\<close> has taken it off its list.\<close>

definition entry_delete :: "nat \<Rightarrow> cell store \<Rightarrow> cell store res" where
  "entry_delete a st =
     (case cells st a of
        Some (Owner pac) \<Rightarrow> bindR (srrp_free pac st) (free_c a)
      | _ \<Rightarrow> if a = 0 then Inl NullDeref else Inl BadPointer)"

definition api_request_delete :: "nat \<Rightarrow> cell store \<Rightarrow> cell store res" where
  "api_request_delete req st = entry_delete req st"

definition api_response_delete :: "nat \<Rightarrow> cell store \<Rightarrow> cell store res" where
  "api_response_delete resp st = entry_delete resp st"

definition api_topic_msg_delete :: "nat \<Rightarrow> cell store \<Rightarrow> cell store res" where
  "api_topic_msg_delete tmsg st = entry_delete tmsg st"

text \<open>The loops of \<open>apibus_destroy\<close> over the requests, the responses and the topic messages.\<close>

fun entries_delete :: "nat list \<Rightarrow> cell store \<Rightarrow> cell store res" where
  "entries_delete [] st = Inr st"
| "entries_delete (pos # rest) st = bindR (entry_delete pos st) (entries_delete rest)"

text \<open>A descriptor with its two buffers; the list links are those of \<open>Cx_List\<close>.\<close>

definition sinkfd_new_at :: "allocator \<Rightarrow> cell store \<Rightarrow> (nat \<times> cell store) res" where
  "sinkfd_new_at al st =
     (let (sinkfd, st1) = new_cell al 144 (Sinkfd 0 0) st
      in if sinkfd = 0 then Inl NullDeref
         else bindR (atbuf_new_at al 0 st1) (\<lambda>(tx, st2).
              bindR (atbuf_new_at al 0 st2) (\<lambda>(rx, st3).
                Inr (sinkfd, set_cell sinkfd (Sinkfd tx rx) st3))))"

definition sinkfd_destroy_at :: "nat \<Rightarrow> cell store \<Rightarrow> cell store res" where
  "sinkfd_destroy_at sinkfd st =
     (case cells st sinkfd of
        Some (Sinkfd tx rx) \<Rightarrow>
          bindR (atbuf_delete tx st) (\<lambda>st1.
          bindR (atbuf_delete rx st1) (free_c sinkfd))
      | _ \<Rightarrow> if sinkfd = 0 then Inl NullDeref else Inl BadPointer)"

subsection \<open>The blocks of an object\<close>

definition buf_blocks :: "(nat \<rightharpoonup> cell) \<Rightarrow> nat \<Rightarrow> nat set option" where
  "buf_blocks m p =
     (case m p of
        Some (Buf b) \<Rightarrow> (case m (bf_rawbuf b) of Some (Bytes x) \<Rightarrow> Some {p, bf_rawbuf b} | _ \<Rightarrow> None)
      | _ \<Rightarrow> None)"

definition json_blocks :: "(nat \<rightharpoonup> cell) \<Rightarrow> nat \<Rightarrow> nat set option" where
  "json_blocks m p =
     (case m p of
        Some (Jo e raw idx) \<Rightarrow>
          if raw = 0 then Some {p} else (case m raw of Some (Bytes x) \<Rightarrow> Some {p, raw} | _ \<Rightarrow> None)
      | _ \<Rightarrow> None)"

definition buf_or_null :: "(nat \<rightharpoonup> cell) \<Rightarrow> nat \<Rightarrow> nat set option" where
  "buf_or_null m p = (if p = 0 then Some {} else buf_blocks m p)"

definition sinkfd_blocks :: "(nat \<rightharpoonup> cell) \<Rightarrow> nat \<Rightarrow> nat set option" where
  "sinkfd_blocks m p =
     (case m p of
        Some (Sinkfd tx rx) \<Rightarrow>
          (case (buf_or_null m tx, buf_or_null m rx) of
             (Some T, Some R) \<Rightarrow> if T \<inter> R = {} then Some (insert p (T \<union> R)) else None
           | _ \<Rightarrow> None)
      | _ \<Rightarrow> None)"

lemma buf_blocks_Some:
  "buf_blocks m p = Some B \<longleftrightarrow> (\<exists>b x. m p = Some (Buf b) \<and> m (bf_rawbuf b) = Some (Bytes x) \<and> B = {p, bf_rawbuf b})"
  by (auto simp: buf_blocks_def split: option.splits cell.splits)

lemma json_blocks_Some:
  "json_blocks m p = Some B \<longleftrightarrow> (\<exists>e raw idx. m p = Some (Jo e raw idx) \<and>
     (raw = 0 \<and> B = {p} \<or> raw \<noteq> 0 \<and> (\<exists>x. m raw = Some (Bytes x)) \<and> B = {p, raw}))"
  by (auto simp: json_blocks_def split: option.splits cell.splits)

lemma sinkfd_blocks_Some:
  "sinkfd_blocks m p = Some B \<longleftrightarrow> (\<exists>tx rx T R. m p = Some (Sinkfd tx rx) \<and> buf_or_null m tx = Some T \<and> buf_or_null m rx = Some R \<and>
     T \<inter> R = {} \<and> B = insert p (T \<union> R))"
  by (auto simp: sinkfd_blocks_def split: option.splits cell.splits)

lemma restrict_one: "m(a := None) = m |` (- {a})"
  by (auto simp: restrict_map_def)

lemma restrict_two: "(m(a := None))(b := None) = m |` (- {b, a})"
  by (auto simp: restrict_map_def)

lemma buf_new_law:
  assumes "store_ok st" and "buf_new al sz st = Inr (p, st1)"
  shows "store_ok st1 \<and> next_addr st \<le> next_addr st1 \<and>
    (if p = 0 then cells st1 = cells st
     else \<exists>B. buf_blocks (cells st1) p = Some B \<and> B \<inter> dom (cells st) = {} \<and> cells st1 |` (- B) = cells st)"
proof -
  let ?a = "next_addr st"
  have a: "cells st ?a = None" "cells st (Suc ?a) = None" "0 < ?a" using store_ok_above [OF assms(1)] store_ok_fresh(3) [OF assms(1)] by simp_all
  note ok = store_ok_step(1) [OF assms(1)]
  show ?thesis
  proof (cases "grant al 32 \<and> grant al sz")
    case True
    let ?b = "Buf \<lparr>bf_rawbuf = Suc ?a, bf_size = sz, bf_offset_in = 0, bf_offset_out = 0\<rparr>"
    have st1: "p = ?a" "st1 = \<lparr>cells = (cells st)(?a \<mapsto> ?b, Suc ?a \<mapsto> Bytes (replicate sz NUL)), next_addr = Suc (Suc ?a)\<rparr>"
      using assms(2) True a(3) by (auto simp: buf_new_def new_cell_def set_cell_def fun_upd_twist)
    then have "store_ok st1" using a(3) by (auto simp: store_ok_iff dest: store_ok_less [OF assms(1)])
    then show ?thesis using st1 a by (auto simp: buf_blocks_Some restrict_map_def)
  next
    case False
    then have "p = 0 \<and> cells st1 = cells st \<and> (next_addr st1 = ?a \<or> next_addr st1 = Suc ?a)"
      using assms(2) a ok by (auto simp: buf_new_def new_cell_def free_c_def split: if_splits)
    then show ?thesis by (auto simp: store_ok_iff dest: store_ok_less [OF assms(1)] intro: store_ok_fresh(3) [OF assms(1)])
  qed
qed

lemma buf_delete_law:
  assumes "store_ok st" and "buf_blocks (cells st) p = Some B"
  shows "\<exists>st1. atbuf_delete p st = Inr st1 \<and> store_ok st1 \<and> next_addr st1 = next_addr st \<and> cells st1 = cells st |` (- B)"
proof -
  obtain b x where b: "cells st p = Some (Buf b)" "cells st (bf_rawbuf b) = Some (Bytes x)" "B = {p, bf_rawbuf b}"
    using assms(2) by (auto simp: buf_blocks_Some)
  have "p \<noteq> bf_rawbuf b" "p \<noteq> 0" "bf_rawbuf b \<noteq> 0" using b store_ok_less [OF assms(1)] by auto
  then show ?thesis using b assms(1) by (simp add: atbuf_delete_def free_c_def restrict_two)
qed

lemma ringbuf_delete_same: "ringbuf_delete = atbuf_delete"
  by (intro ext) (simp add: ringbuf_delete_def atbuf_delete_def)

lemma realloc_law:
  assumes "store_ok st" and "buf_blocks (cells st) p = Some B" and "atbuf_realloc_at al len p st = Inr (r, st1)"
  shows "store_ok st1 \<and>
    (\<exists>B'. buf_blocks (cells st1) p = Some B' \<and> B' \<inter> dom (cells st |` (- B)) = {} \<and> cells st1 |` (- B') = cells st |` (- B))"
proof -
  obtain b x where b: "cells st p = Some (Buf b)" "cells st (bf_rawbuf b) = Some (Bytes x)" "B = {p, bf_rawbuf b}"
    using assms(2) by (auto simp: buf_blocks_Some)
  have ne: "p \<noteq> bf_rawbuf b" "bf_rawbuf b \<noteq> 0" "p < next_addr st" "bf_rawbuf b < next_addr st"
    using b store_ok_less [OF assms(1)] by auto
  show ?thesis
  proof (cases "grant al len")
    case False
    then show ?thesis using assms b by (auto simp: atbuf_realloc_at_def realloc_c_def buf_blocks_Some)
  next
    case True
    let ?n = "next_addr st" and ?b = "Buf (b\<lparr>bf_rawbuf := next_addr st, bf_size := len\<rparr>)"
    obtain m' where st1: "st1 = \<lparr>cells = (cells st)(?n \<mapsto> Bytes m', bf_rawbuf b := None, p \<mapsto> ?b), next_addr = Suc ?n\<rparr>"
      using assms(3) b ne True by (auto simp: atbuf_realloc_at_def realloc_c_def new_cell_def free_c_def set_cell_def)
    have "store_ok st1" using b(1) by (auto simp: st1 store_ok_iff split: if_splits dest: store_ok_less [OF assms(1)])
    moreover have "cells st ?n = None" using store_ok_fresh(1) [OF assms(1)] .
    ultimately show ?thesis using ne b by (auto simp: st1 buf_blocks_Some restrict_map_def)
  qed
qed

subsection \<open>Interpretations\<close>

abbreviation no_use :: "unit \<Rightarrow> nat \<Rightarrow> cell store \<Rightarrow> cell store res" where
  "no_use u p st \<equiv> Inr st"

definition resize :: "allocator \<Rightarrow> nat \<Rightarrow> nat \<Rightarrow> cell store \<Rightarrow> cell store res" where
  "resize al len p st = bindR (atbuf_realloc_at al len p st) (\<lambda>(_, st1). Inr st1)"

lemma buf_blocks_local: "buf_blocks m p = Some B \<Longrightarrow> \<forall>a \<in> B. m' a = m a \<Longrightarrow> buf_blocks m' p = Some B"
  by (auto simp: buf_blocks_Some)

lemma buf_blocks_dom: "buf_blocks m p = Some B \<Longrightarrow> p \<in> B \<and> B \<subseteq> dom m"
  by (auto simp: buf_blocks_Some)

lemma buf_lifetime:
  assumes "\<And>st u p st1 B. store_ok st \<Longrightarrow> buf_blocks (cells st) p = Some B \<Longrightarrow> us u p st = Inr st1 \<Longrightarrow> store_ok st1 \<and>
    (\<exists>B'. buf_blocks (cells st1) p = Some B' \<and> B' \<inter> dom (cells st |` (- B)) = {} \<and> cells st1 |` (- B') = cells st |` (- B))"
  shows "lifetime (buf_new al sz) us atbuf_delete buf_blocks"
proof
  fix st p st1
  assume "store_ok st" "buf_new al sz st = Inr (p, st1)"
  then show "store_ok st1 \<and> (if p = 0 then cells st1 = cells st
      else \<exists>B. buf_blocks (cells st1) p = Some B \<and> B \<inter> dom (cells st) = {} \<and> cells st1 |` (- B) = cells st)"
    using buf_new_law by blast
next
  fix st p B
  assume "store_ok st" "buf_blocks (cells st) p = Some B"
  then show "\<exists>st1. atbuf_delete p st = Inr st1 \<and> store_ok st1 \<and> cells st1 = cells st |` (- B)" using buf_delete_law by blast
qed (use assms in \<open>auto simp: atbuf_delete_def intro: buf_blocks_local dest: buf_blocks_dom\<close>)

lemma resize_law:
  assumes "store_ok st" and "buf_blocks (cells st) p = Some B" and "resize al len p st = Inr st1"
  shows "store_ok st1 \<and>
    (\<exists>B'. buf_blocks (cells st1) p = Some B' \<and> B' \<inter> dom (cells st |` (- B)) = {} \<and> cells st1 |` (- B') = cells st |` (- B))"
  using realloc_law [OF assms(1,2)] assms(3) by (auto simp: resize_def bindR_eq_Inr_iff)

lemma resized_lifetime: "lifetime (buf_new al sz) (resize al) atbuf_delete buf_blocks"
  by (rule buf_lifetime) (rule resize_law)

lemma plain_lifetime: "lifetime (buf_new al sz) no_use atbuf_delete buf_blocks"
  by (rule buf_lifetime) auto

interpretation atbufs: lifetime "atbuf_new_at al sz" "resize al" atbuf_delete buf_blocks
  unfolding atbuf_new_at_def [abs_def] by (rule resized_lifetime)

interpretation ringbufs: lifetime "ringbuf_new_at al sz" no_use ringbuf_delete buf_blocks
  unfolding ringbuf_new_at_def [abs_def] ringbuf_delete_same by (rule plain_lifetime)

lemma json_new_law:
  assumes "store_ok st" and "json_object_new_at al str st = Inr (p, st1)"
  shows "store_ok st1 \<and> p \<noteq> 0 \<and>
    (\<exists>B. json_blocks (cells st1) p = Some B \<and> B \<inter> dom (cells st) = {} \<and> cells st1 |` (- B) = cells st)"
proof -
  let ?a = "next_addr st"
  have a: "cells st ?a = None" "cells st (Suc ?a) = None" "0 < ?a" "grant al 24"
    using store_ok_above [OF assms(1)] store_ok_fresh(3) [OF assms(1)] assms(2)
    by (auto simp: json_object_new_at_def new_cell_def split: if_splits)
  show ?thesis
  proof (cases "grant al (length str + 1)")
    case True
    have st1: "p = ?a" "st1 = \<lparr>cells = (cells st)(?a \<mapsto> Jo JSON_ERR_OK (Suc ?a) (Suc ?a), Suc ?a \<mapsto> Bytes (str @ [NUL])), next_addr = Suc (Suc ?a)\<rparr>"
      using assms(2) True a by (auto simp: json_object_new_at_def new_cell_def set_cell_def fun_upd_twist)
    then have "store_ok st1" using a(3) by (auto simp: store_ok_iff dest: store_ok_less [OF assms(1)])
    then show ?thesis using st1 a by (auto simp: json_blocks_Some restrict_map_def)
  next
    case False
    then have st1: "p = ?a" "st1 = \<lparr>cells = (cells st)(?a \<mapsto> Jo JSON_ERR_OK 0 0), next_addr = Suc ?a\<rparr>"
      using assms(2) a by (auto simp: json_object_new_at_def new_cell_def set_cell_def)
    then have "store_ok st1" using a(3) by (auto simp: store_ok_iff dest: store_ok_less [OF assms(1)])
    then show ?thesis using st1 a by (auto simp: json_blocks_Some restrict_map_def)
  qed
qed

lemma json_delete_law:
  assumes "store_ok st" and "json_blocks (cells st) p = Some B"
  shows "\<exists>st1. json_object_delete p st = Inr st1 \<and> store_ok st1 \<and> cells st1 = cells st |` (- B)"
proof -
  obtain e raw idx where j: "cells st p = Some (Jo e raw idx)"
    "raw = 0 \<and> B = {p} \<or> raw \<noteq> 0 \<and> (\<exists>x. cells st raw = Some (Bytes x)) \<and> B = {p, raw}"
    using assms(2) by (auto simp: json_blocks_Some)
  have p: "0 < p" using store_ok_less [OF assms(1) j(1)] by simp
  from j(2) show ?thesis
  proof
    assume "raw = 0 \<and> B = {p}"
    then show ?thesis using j(1) p assms(1) by (simp add: json_object_delete_def assertR_def free_c_def restrict_one)
  next
    assume r: "raw \<noteq> 0 \<and> (\<exists>x. cells st raw = Some (Bytes x)) \<and> B = {p, raw}"
    then have "p \<noteq> raw" using j(1) by auto
    then show ?thesis using j(1) p r assms(1) by (auto simp: json_object_delete_def assertR_def free_c_def restrict_two)
  qed
qed

interpretation jsons: lifetime "json_object_new_at al str" no_use json_object_delete json_blocks
proof
  fix st p st1
  assume "store_ok st" "json_object_new_at al str st = Inr (p, st1)"
  then show "store_ok st1 \<and> (if p = 0 then cells st1 = cells st
      else \<exists>B. json_blocks (cells st1) p = Some B \<and> B \<inter> dom (cells st) = {} \<and> cells st1 |` (- B) = cells st)"
    using json_new_law [of st al str p st1] by auto
next
  fix st p B
  assume "store_ok st" "json_blocks (cells st) p = Some B"
  then show "\<exists>st1. json_object_delete p st = Inr st1 \<and> store_ok st1 \<and> cells st1 = cells st |` (- B)" using json_delete_law by blast
qed (auto simp: json_object_delete_def assertR_def json_blocks_Some)

subsection \<open>Descriptors of the bus\<close>

lemma buf_or_null_local: "buf_or_null m p = Some B \<Longrightarrow> \<forall>a \<in> B. m' a = m a \<Longrightarrow> buf_or_null m' p = Some B"
  by (auto simp: buf_or_null_def buf_blocks_Some split: if_splits)

lemma buf_or_null_dom: "buf_or_null m p = Some B \<Longrightarrow> a \<in> B \<Longrightarrow> \<exists>b x. m a = Some (Buf b) \<or> m a = Some (Bytes x)"
  by (auto simp: buf_or_null_def buf_blocks_Some split: if_splits)

lemma atbuf_new_or_null:
  assumes "store_ok st" and "atbuf_new_at al sz st = Inr (p, st1)"
  shows "store_ok st1 \<and> (\<exists>B. buf_or_null (cells st1) p = Some B \<and> B \<inter> dom (cells st) = {} \<and> cells st1 |` (- B) = cells st)"
  using atbufs.create_law [OF assms] by (auto simp: buf_or_null_def)

lemma atbuf_delete_or_null:
  assumes "store_ok st" and "buf_or_null (cells st) p = Some B"
  shows "\<exists>st1. atbuf_delete p st = Inr st1 \<and> store_ok st1 \<and> cells st1 = cells st |` (- B)"
  using assms atbufs.destroy_law [of st p B] by (cases "p = 0") (auto simp: buf_or_null_def atbuf_delete_def)

lemma sinkfd_new_law:
  assumes "store_ok st" and "sinkfd_new_at al st = Inr (p, st4)"
  shows "store_ok st4 \<and> p \<noteq> 0 \<and>
    (\<exists>B. sinkfd_blocks (cells st4) p = Some B \<and> B \<inter> dom (cells st) = {} \<and> cells st4 |` (- B) = cells st)"
proof -
  define st1 where "st1 = \<lparr>cells = (cells st)(next_addr st \<mapsto> Sinkfd 0 0), next_addr = Suc (next_addr st)\<rparr>"
  have ok1: "store_ok st1" using store_ok_step(1) [OF assms(1)] by (simp add: st1_def)
  obtain tx st2 rx st3 where n: "atbuf_new_at al 0 st1 = Inr (tx, st2)" "atbuf_new_at al 0 st2 = Inr (rx, st3)"
      "p = next_addr st" "st4 = set_cell p (Sinkfd tx rx) st3" "p \<noteq> 0"
    using assms(2) by (auto simp: sinkfd_new_at_def new_cell_def bindR_eq_Inr_iff st1_def split: if_splits)
  obtain T where T: "store_ok st2" "buf_or_null (cells st2) tx = Some T" "T \<inter> dom (cells st1) = {}" "cells st2 |` (- T) = cells st1"
    using atbuf_new_or_null [OF ok1 n(1)] by blast
  obtain R where R: "store_ok st3" "buf_or_null (cells st3) rx = Some R" "R \<inter> dom (cells st2) = {}" "cells st3 |` (- R) = cells st2"
    using atbuf_new_or_null [OF T(1) n(2)] by blast
  have p1: "cells st1 p = Some (Sinkfd 0 0)" "cells st p = None" using n(3) store_ok_fresh(1) [OF assms(1)] by (simp_all add: st1_def)
  have "p \<notin> T" using T(3) p1(1) by auto
  then have p2: "cells st2 p = Some (Sinkfd 0 0)" using p1(1) T(4) by (metis ComplI restrict_in)
  then have "p \<notin> R" using R(3) by auto
  then have p3: "cells st3 p = Some (Sinkfd 0 0)" using p2 R(4) by (metis ComplI restrict_in)
  have TR: "T \<inter> R = {}" using buf_or_null_dom [OF T(2)] R(3) by fastforce
  have "\<forall>a \<in> T. cells st4 a = cells st2 a"
    using TR \<open>p \<notin> T\<close> R(4) n(4) by (auto simp: set_cell_def) (metis ComplI IntI empty_iff restrict_in)
  moreover have "\<forall>a \<in> R. cells st4 a = cells st3 a" using \<open>p \<notin> R\<close> n(4) by (auto simp: set_cell_def)
  ultimately have B: "sinkfd_blocks (cells st4) p = Some (insert p (T \<union> R))"
    using buf_or_null_local [OF T(2)] buf_or_null_local [OF R(2)] TR n(4) by (simp add: sinkfd_blocks_Some set_cell_def)
  have "insert p (T \<union> R) \<inter> dom (cells st) = {}"
  proof -
    have "dom (cells st) \<subseteq> dom (cells st1)" by (auto simp: st1_def)
    moreover have "dom (cells st1) \<subseteq> dom (cells st2)" unfolding T(4) [symmetric] by simp
    ultimately show ?thesis using p1(2) T(3) R(3) by blast
  qed
  moreover have "cells st4 |` (- insert p (T \<union> R)) = cells st1 |` (- {p})"
    unfolding T(4) [symmetric] R(4) [symmetric] using n(4) by (auto simp: set_cell_def restrict_map_def)
  moreover have "cells st1 |` (- {p}) = cells st" using p1(2) n(3) by (auto simp: st1_def restrict_map_def)
  moreover have "store_ok st4" using R(1) p3 n(4) by (simp add: set_cell_def)
  ultimately show ?thesis using B n(5) by auto
qed

lemma sinkfd_destroy_law:
  assumes "store_ok st" and "sinkfd_blocks (cells st) p = Some B"
  shows "\<exists>st1. sinkfd_destroy_at p st = Inr st1 \<and> store_ok st1 \<and> cells st1 = cells st |` (- B)"
proof -
  obtain tx rx T R where s: "cells st p = Some (Sinkfd tx rx)" "buf_or_null (cells st) tx = Some T" "buf_or_null (cells st) rx = Some R"
      "T \<inter> R = {}" "B = insert p (T \<union> R)" using assms(2) by (auto simp: sinkfd_blocks_Some)
  have p: "p \<notin> T" "p \<notin> R" using buf_or_null_dom s(1-3) by fastforce+
  obtain st1 where st1: "atbuf_delete tx st = Inr st1" "store_ok st1" "cells st1 = cells st |` (- T)"
    using atbuf_delete_or_null [OF assms(1) s(2)] by blast
  have "\<forall>a \<in> R. cells st1 a = cells st a" using s(4) st1(3) by (auto simp: restrict_map_def)
  then have "buf_or_null (cells st1) rx = Some R" by (rule buf_or_null_local [OF s(3)])
  then obtain st2 where st2: "atbuf_delete rx st1 = Inr st2" "store_ok st2" "cells st2 = cells st1 |` (- R)"
    using atbuf_delete_or_null [OF st1(2)] by blast
  have live: "cells st2 p = Some (Sinkfd tx rx)" using p s(1) st1(3) st2(3) by simp
  let ?st3 = "st2\<lparr>cells := cells st2 |` (- {p})\<rparr>"
  have "cells ?st3 = cells st |` (- B)" using st1(3) st2(3) s(5) by (auto simp: restrict_map_def)
  moreover have "store_ok ?st3" using st2(2) by simp
  moreover have "sinkfd_destroy_at p st = Inr ?st3"
    using s(1) st1(1) st2(1) free_c_live [OF st2(2) live] by (simp add: sinkfd_destroy_at_def restrict_one)
  ultimately show ?thesis by blast
qed

interpretation sinkfds: lifetime "sinkfd_new_at al" no_use sinkfd_destroy_at sinkfd_blocks
proof
  fix st p st1
  assume "store_ok st" "sinkfd_new_at al st = Inr (p, st1)"
  then show "store_ok st1 \<and> (if p = 0 then cells st1 = cells st
      else \<exists>B. sinkfd_blocks (cells st1) p = Some B \<and> B \<inter> dom (cells st) = {} \<and> cells st1 |` (- B) = cells st)"
    using sinkfd_new_law [of st al p st1] by auto
next
  fix st p B
  assume "store_ok st" "sinkfd_blocks (cells st) p = Some B"
  then show "\<exists>st1. sinkfd_destroy_at p st = Inr st1 \<and> store_ok st1 \<and> cells st1 = cells st |` (- B)" by (rule sinkfd_destroy_law)
next
  fix m m' :: "nat \<rightharpoonup> cell" and p B
  assume "sinkfd_blocks m p = Some B" "\<forall>a \<in> B. m' a = m a"
  then show "sinkfd_blocks m' p = Some B"
    using buf_or_null_local [of m _ _ m'] unfolding sinkfd_blocks_Some by (metis UnCI insertCI)
next
  fix m :: "nat \<rightharpoonup> cell" and p B
  assume "sinkfd_blocks m p = Some B"
  then show "p \<in> B \<and> B \<subseteq> dom m" unfolding sinkfd_blocks_Some by (auto dest: buf_or_null_dom)
qed (auto simp: sinkfd_destroy_at_def)

subsection \<open>Properties\<close>

text \<open>C26: The descriptors of the bus, each with its two buffers, created and destroyed in any order: when all are
  destroyed the heap is as it was.\<close>

theorem sinkfds_no_leak:
  assumes "store_ok st0" and "(life_step (sinkfd_new_at al) no_use sinkfd_destroy_at)\<^sup>*\<^sup>* (st0, {}) (st, {})"
  shows "cells st = cells st0"
  using sinkfds.no_leak [OF assms(2,1)] .

definition empty_store :: "cell store" where
  "empty_store = \<lparr>cells = (\<lambda>_. None), next_addr = 1\<rparr>"

lemma empty_store_ok: "store_ok empty_store"
  by (simp add: empty_store_def store_ok_def)

theorem sinkfds_no_leak_witness:
  "\<exists>st1 st2. sinkfd_new_at generous empty_store = Inr (1, st1) \<and> sinkfd_destroy_at 1 st1 = Inr st2 \<and> cells st2 = cells empty_store"
proof -
  obtain st1 where st1: "sinkfd_new_at generous empty_store = Inr (1, st1)"
    by (simp add: sinkfd_new_at_def atbuf_new_at_def buf_new_def new_cell_def set_cell_def generous_def empty_store_def)
  have s1: "life_step (sinkfd_new_at generous) no_use sinkfd_destroy_at (empty_store, {}) (st1, {1})"
    using life_create [where create = "sinkfd_new_at generous" and st = empty_store and p = 1 and live = "{}", OF st1] by simp
  then obtain st2 where st2: "sinkfd_destroy_at 1 st1 = Inr st2"
    using sinkfds.destroyed_once [of generous empty_store st1 "{1}" 1] empty_store_ok by auto
  have "life_step (sinkfd_new_at generous) no_use sinkfd_destroy_at (st1, {1}) (st2, {})"
    using life_destroy [of 1 "{1}" sinkfd_destroy_at st1 st2 "sinkfd_new_at generous" no_use] st2 by simp
  with s1 have "(life_step (sinkfd_new_at generous) no_use sinkfd_destroy_at)\<^sup>*\<^sup>* (empty_store, {}) (st2, {})"
    by (meson r_into_rtranclp rtranclp_trans)
  from sinkfds_no_leak [OF empty_store_ok this] show ?thesis using st1 st2 by blast
qed

text \<open>A buffer that was created, and enlarged any number of times, can be deleted, and not a second time.\<close>

theorem atbuf_deleted_once:
  assumes "store_ok st0" and "(life_step (atbuf_new_at al sz) (resize al) atbuf_delete)\<^sup>*\<^sup>* (st0, {}) (st, live)" and "p \<in> live"
  shows "\<exists>st1. atbuf_delete p st = Inr st1 \<and> atbuf_delete p st1 = Inl BadPointer"
  using atbufs.destroyed_once [OF assms(2,1,3)] .

theorem atbuf_deleted_once_witness:
  "\<exists>st1 st2 st3. atbuf_new_at generous 8 empty_store = Inr (1, st1) \<and> resize generous 16 1 st1 = Inr st2 \<and>
     atbuf_delete 1 st2 = Inr st3 \<and> atbuf_delete 1 st3 = Inl BadPointer"
proof -
  obtain st1 st2 where st1: "atbuf_new_at generous 8 empty_store = Inr (1, st1)" and st2: "resize generous 16 1 st1 = Inr st2"
    by (simp add: resize_def atbuf_realloc_at_def realloc_c_def atbuf_new_at_def buf_new_def new_cell_def set_cell_def free_c_def
        generous_def empty_store_def)
  have "life_step (atbuf_new_at generous 8) (resize generous) atbuf_delete (empty_store, {}) (st1, {1})"
    using life_create [where create = "atbuf_new_at generous 8" and st = empty_store and p = 1 and live = "{}", OF st1] by simp
  moreover have "life_step (atbuf_new_at generous 8) (resize generous) atbuf_delete (st1, {1}) (st2, {1})"
    using life_use [where use = "resize generous" and p = 1 and live = "{1}", OF _ st2] by simp
  ultimately have "(life_step (atbuf_new_at generous 8) (resize generous) atbuf_delete)\<^sup>*\<^sup>* (empty_store, {}) (st2, {1})"
    by (meson r_into_rtranclp rtranclp_trans)
  from atbuf_deleted_once [OF empty_store_ok this] show ?thesis using st1 st2 by blast
qed

text \<open>The values that the other theories compute are those in the store: \<open>atbuf_new\<close> and \<open>atbuf_realloc\<close> on
  blocks do to the heap what the functions on values do to the value.\<close>

definition atbuf_at :: "(nat \<rightharpoonup> cell) \<Rightarrow> nat \<Rightarrow> atbuf option" where
  "atbuf_at m p =
     (case m p of
        Some (Buf b) \<Rightarrow>
          (case m (bf_rawbuf b) of
             Some (Bytes x) \<Rightarrow> Some \<lparr>ab_rawbuf = x, ab_size = bf_size b, ab_offset_in = bf_offset_in b, ab_offset_out = bf_offset_out b\<rparr>
           | _ \<Rightarrow> None)
      | _ \<Rightarrow> None)"

lemma atbuf_new_refines:
  assumes "store_ok st"
  shows "\<exists>p st1. atbuf_new_at al sz st = Inr (p, st1) \<and> (if p = 0 then atbuf_new al sz = None else atbuf_at (cells st1) p = atbuf_new al sz)"
  using store_ok_fresh(3) [OF assms]
  by (auto simp: atbuf_new_at_def buf_new_def atbuf_new_def new_cell_def set_cell_def free_c_def calloc_c_def atbuf_at_def Let_def)

theorem atbuf_realloc_refines:
  assumes "store_ok st" and "atbuf_at (cells st) p = Some b"
  shows "\<exists>st1. atbuf_realloc_at al len p st = Inr (fst (atbuf_realloc al b len), st1) \<and>
    atbuf_at (cells st1) p = Some (snd (atbuf_realloc al b len))"
proof -
  obtain bs x where b: "cells st p = Some (Buf bs)" "cells st (bf_rawbuf bs) = Some (Bytes x)"
      "b = \<lparr>ab_rawbuf = x, ab_size = bf_size bs, ab_offset_in = bf_offset_in bs, ab_offset_out = bf_offset_out bs\<rparr>"
    using assms(2) by (auto simp: atbuf_at_def split: option.splits cell.splits)
  have "bf_rawbuf bs \<noteq> 0" "bf_rawbuf bs < next_addr st" "p < next_addr st" "p \<noteq> bf_rawbuf bs"
    using store_ok_less [OF assms(1)] b(1,2) by auto
  then show ?thesis
    using b by (auto simp: atbuf_realloc_at_def atbuf_realloc_def realloc_c_def new_cell_def free_c_def set_cell_def atbuf_at_def Let_def)
qed

theorem atbuf_realloc_refines_witness:
  "\<exists>st1 st2 b. atbuf_new_at generous 8 empty_store = Inr (1, st1) \<and> atbuf_new generous 8 = Some b \<and>
     atbuf_realloc_at generous 16 1 st1 = Inr (0, st2) \<and> atbuf_at (cells st2) 1 = Some (snd (atbuf_realloc generous b 16))"
proof -
  obtain st1 b where st1: "atbuf_new_at generous 8 empty_store = Inr (1, st1)" "atbuf_new generous 8 = Some b" "atbuf_at (cells st1) 1 = Some b"
    by (simp add: atbuf_new_at_def buf_new_def atbuf_new_def new_cell_def set_cell_def calloc_c_def atbuf_at_def generous_def empty_store_def)
  have "store_ok st1" using atbufs.create_law [OF empty_store_ok st1(1)] by simp
  from atbuf_realloc_refines [OF this st1(3), of generous 16] show ?thesis
    using st1 by (auto simp: atbuf_realloc_def realloc_c_def generous_def)
qed

text \<open>Destroying the entries of a list, each of which holds a packet of its own, frees exactly the entries and
  their packets.\<close>

definition holds :: "cell store \<Rightarrow> nat \<times> nat \<Rightarrow> bool" where
  "holds st e \<longleftrightarrow> cells st (fst e) = Some (Owner (snd e)) \<and> (\<exists>p. cells st (snd e) = Some (Pac p))"

theorem entries_delete_frees:
  assumes "store_ok st" and "list_all (holds st) es" and "distinct (map fst es)" and "distinct (map snd es)"
  shows "\<exists>st1. entries_delete (map fst es) st = Inr st1 \<and> cells st1 = cells st |` (- (fst ` set es \<union> snd ` set es))"
  using assms
proof (induction es arbitrary: st)
  case (Cons e es)
  obtain a q where e: "e = (a, q)" by (cases e)
  have h: "cells st a = Some (Owner q)" "\<exists>p. cells st q = Some (Pac p)" using Cons.prems(2) by (simp_all add: e holds_def)
  then have ne: "a \<noteq> q" "0 < a" "0 < q" using store_ok_less [OF Cons.prems(1)] by auto
  let ?st = "st\<lparr>cells := cells st |` (- {a, q})\<rparr>"
  have "entry_delete a st = Inr ?st"
    using h ne by (auto simp: entry_delete_def srrp_free_def free_c_def restrict_two)
  moreover have "list_all (holds ?st) es"
  proof -
    have "holds ?st x" if "x \<in> set es" for x
    proof -
      have "holds st x" "fst x \<noteq> a" "snd x \<noteq> q" using that Cons.prems(2-4) by (auto simp: e list_all_iff)
      moreover from this have "fst x \<noteq> q" "snd x \<noteq> a" using h by (auto simp: holds_def)
      ultimately show ?thesis by (simp add: holds_def)
    qed
    then show ?thesis by (simp add: list_all_iff)
  qed
  ultimately show ?case
    using Cons.IH [of ?st] Cons.prems e by (auto simp: Int_assoc [symmetric] intro!: arg_cong [where f = "(|`) (cells st)"])
qed simp

theorem entries_delete_frees_witness:
  "\<exists>p st1. srrp_write_request generous 1 ''/8/hello'' ''{}'' = Inr p \<and>
     entries_delete [1] \<lparr>cells = [1 \<mapsto> Owner 2, 2 \<mapsto> Pac p], next_addr = 3\<rparr> = Inr st1 \<and> cells st1 = (\<lambda>_. None)"
proof -
  obtain p where p: "srrp_write_request generous 1 ''/8/hello'' ''{}'' = Inr p" by (simp add: srrp_write_evals)
  let ?st = "\<lparr>cells = [1 \<mapsto> Owner 2, 2 \<mapsto> Pac p], next_addr = 3\<rparr>"
  have "store_ok ?st" by (simp add: store_ok_def)
  moreover have "list_all (holds ?st) [(1, 2)]" by (simp add: holds_def)
  moreover have "cells ?st |` (- {1, 2}) = (\<lambda>_. None)" by (auto simp: restrict_map_def)
  ultimately show ?thesis using entries_delete_frees [of ?st "[(1, 2)]"] p by auto
qed

end
