(* ===== verification/Timer.thy ===== *)
theory Timer
  imports Cx_Prelude
begin

text \<open>
  The timers of a thread (\<open>posix/timer.c\<close>). The state holds the global list \<open>_loops\<close>, the
  \<open>struct timer_loop\<close> and \<open>struct timer\<close> objects by address, each loop with the addresses of its
  timers in list order (justified by \<open>Cx_List\<close>), and the handler calls made so far. An object that
  was freed is no longer in its map, so that a use of its address is a \<open>BadPointer\<close> fault.
  \<open>pthread_self\<close>, \<open>malloc\<close> and \<open>gettimeofday\<close> are arguments of the operations; the handlers are a
  parameter that maps the address of a function to its effect on the state. A \<open>struct timeval\<close>
  holds two 64-bit integers; the largest timeout that \<open>uint64_t\<close> milliseconds can give is below
  \<open>2 ^ 55\<close> seconds, so no sum of the code leaves their range and they are plain integers here.
\<close>

subsection \<open>Time values\<close>

record timeval =
  tv_sec :: int
  tv_usec :: int

text \<open>The macros of \<open>sys/time.h\<close> that the sources use.\<close>

definition timerclear :: timeval where
  "timerclear = \<lparr>tv_sec = 0, tv_usec = 0\<rparr>"

definition timerisset :: "timeval \<Rightarrow> bool" where
  "timerisset t \<longleftrightarrow> tv_sec t \<noteq> 0 \<or> tv_usec t \<noteq> 0"

definition timercmp_less :: "timeval \<Rightarrow> timeval \<Rightarrow> bool" where
  "timercmp_less a b \<longleftrightarrow> (if tv_sec a = tv_sec b then tv_usec a < tv_usec b else tv_sec a < tv_sec b)"

definition timeradd :: "timeval \<Rightarrow> timeval \<Rightarrow> timeval" where
  "timeradd a b =
     (let s = tv_sec a + tv_sec b; u = tv_usec a + tv_usec b
      in if 1000000 \<le> u then \<lparr>tv_sec = s + 1, tv_usec = u - 1000000\<rparr> else \<lparr>tv_sec = s, tv_usec = u\<rparr>)"

subsection \<open>State\<close>

record timer =
  tm_handler :: "nat option"
  tm_arg :: nat
  tm_timeout :: timeval
  tm_repeat :: timeval
  tm_loop :: nat

record timer_loop_t =
  lp_pid :: nat
  lp_timers :: "nat list"

record timer_state =
  ts_loops :: "nat list"
  ts_loop :: "nat \<rightharpoonup> timer_loop_t"
  ts_timer :: "nat \<rightharpoonup> timer"
  ts_calls :: "(nat \<times> nat \<times> nat) list"

type_synonym handlers = "nat \<Rightarrow> nat \<Rightarrow> nat \<Rightarrow> timer_state \<Rightarrow> timer_state res"

definition deref :: "(nat \<rightharpoonup> 'a) \<Rightarrow> nat \<Rightarrow> 'a res" where
  "deref m p = (case m p of None \<Rightarrow> Inl BadPointer | Some x \<Rightarrow> Inr x)"

subsection \<open>Operations\<close>

text \<open>The argument \<open>p\<close> of \<open>timer_loop_new\<close> and the two of \<open>timer_new\<close> are what \<open>malloc\<close> returns.\<close>

definition timer_loop_new :: "nat \<Rightarrow> nat option \<Rightarrow> timer_state \<Rightarrow> nat option \<times> timer_state" where
  "timer_loop_new self p s =
     (case p of None \<Rightarrow> (None, s)
      | Some l \<Rightarrow> (Some l, s\<lparr>ts_loop := (ts_loop s)(l \<mapsto> \<lparr>lp_pid = self, lp_timers = []\<rparr>)\<rparr>))"

definition timer_loop_destroy :: "nat \<Rightarrow> timer_state \<Rightarrow> timer_state res" where
  "timer_loop_destroy l s =
     bindR (deref (ts_loop s) l) (\<lambda>lp.
     assertR (lp_timers lp = [])
       (Inr (s\<lparr>ts_loops := remove1 l (ts_loops s), ts_loop := (ts_loop s)(l := None)\<rparr>)))"

fun find_loop :: "timer_state \<Rightarrow> nat list \<Rightarrow> nat \<Rightarrow> nat option res" where
  "find_loop s [] pid = Inr None"
| "find_loop s (pos # rest) pid =
     bindR (deref (ts_loop s) pos) (\<lambda>lp. if lp_pid lp = pid then Inr (Some pos) else find_loop s rest pid)"

definition find_timer_loop :: "nat \<Rightarrow> timer_state \<Rightarrow> nat option res" where
  "find_timer_loop pid s = find_loop s (ts_loops s) pid"

definition timer_new :: "nat \<Rightarrow> nat option \<Rightarrow> nat option \<Rightarrow> timer_state \<Rightarrow> (nat option \<times> timer_state) res" where
  "timer_new self ploop ptimer s =
     bindR (find_timer_loop self s) (\<lambda>found.
     bindR (case found of
              Some l \<Rightarrow> Inr (l, s)
            | None \<Rightarrow> (case timer_loop_new self ploop s of
                (None, _) \<Rightarrow> Inl NullDeref
              | (Some l, s1) \<Rightarrow> Inr (l, s1\<lparr>ts_loops := l # ts_loops s1\<rparr>))) (\<lambda>(l, s1).
       case ptimer of
         None \<Rightarrow> Inr (None, s1)
       | Some t \<Rightarrow>
           bindR (deref (ts_loop s1) l) (\<lambda>lp.
             Inr (Some t, s1\<lparr>
               ts_timer := (ts_timer s1)(t \<mapsto> \<lparr>tm_handler = None, tm_arg = 0, tm_timeout = timerclear,
                                             tm_repeat = timerclear, tm_loop = l\<rparr>),
               ts_loop := (ts_loop s1)(l \<mapsto> lp\<lparr>lp_timers := t # lp_timers lp\<rparr>)\<rparr>))))"

text \<open>The assertion that opens every operation on a timer, with the timer and its loop.\<close>

definition own_timer :: "nat \<Rightarrow> nat \<Rightarrow> timer_state \<Rightarrow> (timer \<Rightarrow> timer_loop_t \<Rightarrow> 'a res) \<Rightarrow> 'a res" where
  "own_timer self t s f =
     bindR (deref (ts_timer s) t) (\<lambda>x.
     bindR (deref (ts_loop s) (tm_loop x)) (\<lambda>lp. assertR (self = lp_pid lp) (f x lp)))"

definition timer_destroy :: "nat \<Rightarrow> nat \<Rightarrow> timer_state \<Rightarrow> timer_state res" where
  "timer_destroy self t s =
     own_timer self t s (\<lambda>x lp.
       let lp1 = lp\<lparr>lp_timers := remove1 t (lp_timers lp)\<rparr>;
           s1 = s\<lparr>ts_loop := (ts_loop s)(tm_loop x \<mapsto> lp1)\<rparr>
       in bindR (if lp_timers lp1 = [] then timer_loop_destroy (tm_loop x) s1 else Inr s1) (\<lambda>s2.
          Inr (s2\<lparr>ts_timer := (ts_timer s2)(t := None)\<rparr>)))"

definition timer_start :: "nat \<Rightarrow> timeval \<Rightarrow> nat \<Rightarrow> nat \<Rightarrow> nat \<Rightarrow> nat \<Rightarrow> nat \<Rightarrow> timer_state \<Rightarrow> timer_state res" where
  "timer_start self now t handler arg timeout repeat s =
     own_timer self t s (\<lambda>x lp.
       Inr (s\<lparr>ts_timer := (ts_timer s)(t \<mapsto> x\<lparr>
         tm_handler := (if handler = 0 then None else Some handler), tm_arg := arg,
         tm_timeout := \<lparr>tv_sec = tv_sec now + int (timeout div 1000),
                        tv_usec = tv_usec now + int (timeout mod 1000 * 1000)\<rparr>,
         tm_repeat := \<lparr>tv_sec = int (repeat div 1000), tv_usec = int (repeat mod 1000 * 1000)\<rparr>\<rparr>)\<rparr>))"

definition timer_stop :: "nat \<Rightarrow> nat \<Rightarrow> timer_state \<Rightarrow> timer_state res" where
  "timer_stop self t s =
     own_timer self t s (\<lambda>x lp.
       Inr (s\<lparr>ts_timer := (ts_timer s)(t \<mapsto> x\<lparr>tm_handler := None, tm_arg := 0,
         tm_timeout := timerclear, tm_repeat := timerclear\<rparr>)\<rparr>))"

definition timer_trigger :: "nat \<Rightarrow> timeval \<Rightarrow> nat \<Rightarrow> timer_state \<Rightarrow> timer_state res" where
  "timer_trigger self now t s =
     own_timer self t s (\<lambda>x lp. Inr (s\<lparr>ts_timer := (ts_timer s)(t \<mapsto> x\<lparr>tm_timeout := now\<rparr>)\<rparr>))"

subsection \<open>One pass over the timers\<close>

text \<open>The \<open>do ... while\<close> that moves a repeating timer past the present; not returning is \<open>None\<close>.\<close>

partial_function (option) catch_up :: "timeval \<Rightarrow> timeval \<Rightarrow> timeval \<Rightarrow> timeval option" where
  [code]: "catch_up timeout repeat now =
     (let t1 = timeradd timeout repeat
      in if timercmp_less t1 now then catch_up t1 repeat now else Some t1)"

definition timer_body ::
  "handlers \<Rightarrow> timeval \<Rightarrow> nat \<Rightarrow> timeval \<Rightarrow> timer_state \<Rightarrow> (timeval \<times> timer_state) res option" where
  "timer_body call now pos nx s =
     (case ts_timer s pos of
        None \<Rightarrow> Some (Inl BadPointer)
      | Some x \<Rightarrow>
          if \<not> timerisset (tm_timeout x) then Some (Inr (nx, s))
          else if timercmp_less now (tm_timeout x)
          then Some (Inr (if timercmp_less (tm_timeout x) nx then tm_timeout x else nx, s))
          else (case (if \<not> timerisset (tm_repeat x) then Some (timerclear, nx)
                     else map_option (\<lambda>t1. (t1, if timercmp_less t1 nx then t1 else nx))
                            (catch_up (tm_timeout x) (tm_repeat x) now)) of
                 None \<Rightarrow> None
               | Some (t1, nx1) \<Rightarrow>
                   (case tm_handler x of
                      None \<Rightarrow> Some (Inl NullDeref)
                    | Some h \<Rightarrow>
                        Some (bindR (call h pos (tm_arg x)
                          (s\<lparr>ts_timer := (ts_timer s)(pos \<mapsto> x\<lparr>tm_timeout := t1\<rparr>),
                             ts_calls := ts_calls s @ [(h, pos, tm_arg x)]\<rparr>)) (\<lambda>s1. Inr (nx1, s1))))))"

text \<open>
  \<open>list_next_entry\<close> from the head (\<open>None\<close>) of the list of the loop \<open>l\<close> or from a timer; both read the
  object, which has to exist still.
\<close>

definition list_succ :: "nat list \<Rightarrow> nat \<Rightarrow> nat option" where
  "list_succ xs p = (case dropWhile (\<lambda>x. x \<noteq> p) xs of _ # y # _ \<Rightarrow> Some y | _ \<Rightarrow> None)"

definition list_next_entry :: "timer_state \<Rightarrow> nat \<Rightarrow> nat option \<Rightarrow> nat option res" where
  "list_next_entry s l p =
     (case p of
        None \<Rightarrow> bindR (deref (ts_loop s) l) (\<lambda>lp. Inr (case lp_timers lp of [] \<Rightarrow> None | t # _ \<Rightarrow> Some t))
      | Some t \<Rightarrow> bindR (deref (ts_timer s) t) (\<lambda>x.
                  bindR (deref (ts_loop s) (tm_loop x)) (\<lambda>lp. Inr (list_succ (lp_timers lp) t))))"

partial_function (option) timer_walk ::
  "handlers \<Rightarrow> timeval \<Rightarrow> nat \<Rightarrow> nat option \<Rightarrow> nat option \<Rightarrow> timeval \<Rightarrow> timer_state
    \<Rightarrow> (timeval \<times> timer_state) res option" where
  [code]: "timer_walk call now l pos n nx s =
     (case pos of
        None \<Rightarrow> Some (Inr (nx, s))
      | Some t \<Rightarrow>
          (case timer_body call now t nx s of
             None \<Rightarrow> None
           | Some (Inl e) \<Rightarrow> Some (Inl e)
           | Some (Inr (nx1, s1)) \<Rightarrow>
               (case list_next_entry s1 l n of
                  Inl e \<Rightarrow> Some (Inl e)
                | Inr n1 \<Rightarrow> timer_walk call now l n n1 nx1 s1)))"

text \<open>The wait that is reported; the division of C truncates towards zero.\<close>

definition wait_ms :: "timeval \<Rightarrow> timeval \<Rightarrow> int" where
  "wait_ms nx now =
     (if timercmp_less now nx
      then (tv_sec nx - tv_sec now) * 1000 +
           (let d = tv_usec nx - tv_usec now in if 0 \<le> d then d div 1000 else - (- d div 1000))
      else 0)"

text \<open>
  \<open>timer_loop\<close> with the times of its two calls of \<open>gettimeofday\<close>; the results are the return value,
  the wait, which is not stored when \<open>next\<close> is \<open>NULL\<close>, and the state.
\<close>

definition timer_loop ::
  "nat \<Rightarrow> handlers \<Rightarrow> timeval \<Rightarrow> timeval \<Rightarrow> timer_state \<Rightarrow> (int \<times> int \<times> timer_state) res option" where
  "timer_loop self call now now2 s =
     (case find_timer_loop self s of
        Inl e \<Rightarrow> Some (Inl e)
      | Inr None \<Rightarrow> Some (Inl AssertFail)
      | Inr (Some l) \<Rightarrow>
          (case bindR (list_next_entry s l None) (\<lambda>pos. bindR (list_next_entry s l pos) (\<lambda>n. Inr (pos, n))) of
             Inl e \<Rightarrow> Some (Inl e)
           | Inr (pos, n) \<Rightarrow>
               map_option (\<lambda>r. bindR r (\<lambda>(nx, s1). Inr (0, wait_ms nx now2, s1)))
                 (timer_walk call now l pos n (now\<lparr>tv_sec := tv_sec now + 1\<rparr>) s)))"

subsection \<open>Comparisons and the time they stand for\<close>

definition tv_val :: "timeval \<Rightarrow> int" where
  "tv_val t = tv_sec t * 1000000 + tv_usec t"

text \<open>
  A clock value has less than a million microseconds; a timeout can have up to twice as many, since
  \<open>timer_start\<close> adds two parts without a carry.
\<close>

definition tv_norm :: "timeval \<Rightarrow> bool" where
  "tv_norm t \<longleftrightarrow> 0 \<le> tv_sec t \<and> 0 \<le> tv_usec t \<and> tv_usec t < 1000000"

definition tv_near :: "timeval \<Rightarrow> bool" where
  "tv_near t \<longleftrightarrow> 0 \<le> tv_sec t \<and> 0 \<le> tv_usec t \<and> tv_usec t < 2000000"

lemma tv_norm_near: "tv_norm t \<Longrightarrow> tv_near t"
  by (simp add: tv_norm_def tv_near_def)

lemma timerclear_norm [simp]: "tv_norm timerclear" "\<not> timerisset timerclear"
  by (simp_all add: timerclear_def tv_norm_def timerisset_def)

lemma timeradd_val: "tv_val (timeradd a b) = tv_val a + tv_val b"
  by (simp add: timeradd_def tv_val_def Let_def)

lemma timeradd_near: "tv_near a \<Longrightarrow> tv_norm b \<Longrightarrow> tv_near (timeradd a b)"
  by (auto simp: timeradd_def tv_near_def tv_norm_def Let_def)

lemma timeradd_norm: "tv_norm a \<Longrightarrow> tv_norm b \<Longrightarrow> tv_norm (timeradd a b)"
  by (auto simp: timeradd_def tv_norm_def Let_def)

lemma timerisset_val: "tv_norm t \<Longrightarrow> timerisset t \<Longrightarrow> 0 < tv_val t"
  by (auto simp: tv_norm_def timerisset_def tv_val_def)

text \<open>Between clock values the comparison is that of the times; a timeout can look up to a second earlier.\<close>

lemma timercmp_norm: "tv_norm a \<Longrightarrow> tv_norm b \<Longrightarrow> timercmp_less a b \<longleftrightarrow> tv_val a < tv_val b"
  by (auto simp: timercmp_less_def tv_norm_def tv_val_def)

lemma timercmp_near: "tv_near a \<Longrightarrow> tv_norm b \<Longrightarrow> timercmp_less a b \<Longrightarrow> tv_val a < tv_val b + 1000000"
  by (auto simp: timercmp_less_def tv_norm_def tv_near_def tv_val_def split: if_splits)

lemma timercmp_late: "tv_near a \<Longrightarrow> tv_norm b \<Longrightarrow> tv_val a \<le> tv_val b \<Longrightarrow> \<not> timercmp_less b a"
  by (auto simp: timercmp_less_def tv_norm_def tv_near_def tv_val_def split: if_splits)

lemma timercmp_early: "tv_near a \<Longrightarrow> tv_norm b \<Longrightarrow> \<not> timercmp_less b a \<Longrightarrow> tv_val a < tv_val b + 1000000"
  by (auto simp: timercmp_less_def tv_norm_def tv_near_def tv_val_def split: if_splits)

subsection \<open>The loop of a repeating timer\<close>

definition caught_up :: "timeval \<Rightarrow> timeval \<Rightarrow> timeval \<Rightarrow> nat \<Rightarrow> timeval \<Rightarrow> bool" where
  "caught_up t r now k t1 \<longleftrightarrow> 0 < k \<and> tv_val t1 = tv_val t + int k * tv_val r \<and>
    tv_near t1 \<and> \<not> timercmp_less t1 now \<and> (tv_norm t \<longrightarrow> tv_norm t1) \<and>
    (tv_norm t \<and> 1 < k \<longrightarrow> tv_val t1 - tv_val r < tv_val now)"

lemma caught_upD:
  assumes "caught_up t r now k t1"
  shows "0 < k" "tv_val t1 = tv_val t + int k * tv_val r" "tv_near t1" "\<not> timercmp_less t1 now"
    "tv_norm t \<longrightarrow> tv_norm t1" "tv_norm t \<and> 1 < k \<longrightarrow> tv_val t1 - tv_val r < tv_val now"
  using assms unfolding caught_up_def by blast+

lemma catch_up_ends:
  assumes "tv_near t" and "tv_norm r" and "timerisset r" and "tv_norm now"
  shows "\<exists>t1 k. catch_up t r now = Some t1 \<and> caught_up t r now k t1"
  using assms(1)
proof (induction "nat (tv_val now + 1000000 - tv_val t)" arbitrary: t rule: less_induct)
  case less
  let ?t = "timeradd t r"
  have near: "tv_near ?t" using timeradd_near [OF less.prems assms(2)] .
  show ?case
  proof (cases "timercmp_less ?t now")
    case True
    have lt: "tv_val ?t < tv_val now + 1000000" using timercmp_near [OF near assms(4) True] .
    have pos: "0 < tv_val r" using timerisset_val [OF assms(2,3)] .
    have "nat (tv_val now + 1000000 - tv_val ?t) < nat (tv_val now + 1000000 - tv_val t)"
      using lt pos timeradd_val [of t r] by simp
    then obtain t1 k where c: "catch_up ?t r now = Some t1" and d: "caught_up ?t r now k t1"
      using less.hyps [OF _ near] by blast
    note t1 = caught_upD [OF d]
  have one: "tv_val t1 - tv_val r < tv_val now" if "tv_norm t"
    proof (cases "1 < k")
      case False
      then have "k = 1" using t1(1) by simp
      then have "tv_val t1 - tv_val r = tv_val ?t" using t1(2) by simp
      then show ?thesis using timercmp_norm [OF timeradd_norm [OF that assms(2)] assms(4)] True by simp
    qed (use t1(6) timeradd_norm [OF that assms(2)] in simp)
    have "catch_up t r now = Some t1" using True c by (subst catch_up.simps) (simp add: Let_def)
    moreover have "tv_val t1 = tv_val t + int (Suc k) * tv_val r"
      using t1(2) timeradd_val [of t r] by (simp add: algebra_simps)
    then have "caught_up t r now (Suc k) t1"
      using t1(3-5) one timeradd_norm [OF _ assms(2), of t] by (simp add: caught_up_def)
    ultimately show ?thesis by blast
  next
    case False
    then have "catch_up t r now = Some ?t" by (subst catch_up.simps) (simp add: Let_def)
    moreover have "caught_up t r now 1 ?t"
      using near False timeradd_norm [OF _ assms(2), of t] timeradd_val [of t r] by (simp add: caught_up_def)
    ultimately show ?thesis by blast
  qed
qed

text \<open>The loop that moves a repeating timer on always ends. The new timeout is the old one plus
  a positive number of periods; the clock comparison no longer calls it past, and for a timeout with a
  carried second that was due it lies at most one period after the present.\<close>

theorem timer_repeat_ends:
  assumes "tv_near (tm_timeout x)" and "tv_norm (tm_repeat x)" and "timerisset (tm_repeat x)" and "tv_norm now"
  shows "\<exists>t1 k. catch_up (tm_timeout x) (tm_repeat x) now = Some t1 \<and>
    0 < k \<and> tv_val t1 = tv_val (tm_timeout x) + int k * tv_val (tm_repeat x) \<and>
    tv_near t1 \<and> \<not> timercmp_less t1 now \<and>
    (tv_norm (tm_timeout x) \<and> tv_val (tm_timeout x) \<le> tv_val now \<longrightarrow>
      tv_val now \<le> tv_val t1 \<and> tv_val t1 \<le> tv_val now + tv_val (tm_repeat x))"
proof -
  let ?t = "tm_timeout x" and ?r = "tm_repeat x"
  obtain t1 k where c: "catch_up ?t ?r now = Some t1" and d: "caught_up ?t ?r now k t1"
    using catch_up_ends [OF assms] by blast
  note t1 = caught_upD [OF d]
  have "tv_val now \<le> tv_val t1 \<and> tv_val t1 \<le> tv_val now + tv_val ?r"
    if due: "tv_norm ?t \<and> tv_val ?t \<le> tv_val now"
  proof -
    have "tv_val now \<le> tv_val t1" using t1(4,5) due timercmp_norm [OF _ assms(4), of t1] by simp
    moreover have "tv_val t1 \<le> tv_val now + tv_val ?r"
      using t1(1,2,6) due by (cases "k = 1") (simp_all add: not_less)
    ultimately show ?thesis ..
  qed
  then show ?thesis using c t1(1-4) by blast
qed

theorem timer_repeat_ends_witness:
  "\<exists>t1 k. catch_up \<lparr>tv_sec = 1, tv_usec = 0\<rparr> \<lparr>tv_sec = 0, tv_usec = 300000\<rparr> \<lparr>tv_sec = 5, tv_usec = 100000\<rparr> = Some t1 \<and>
    0 < k \<and> tv_val t1 = 1000000 + int k * 300000 \<and> 5100000 \<le> tv_val t1 \<and> tv_val t1 \<le> 5400000"
  using timer_repeat_ends [of "\<lparr>tm_handler = None, tm_arg = 0, tm_timeout = \<lparr>tv_sec = 1, tv_usec = 0\<rparr>,
      tm_repeat = \<lparr>tv_sec = 0, tv_usec = 300000\<rparr>, tm_loop = 0\<rparr>" "\<lparr>tv_sec = 5, tv_usec = 100000\<rparr>"]
  by (auto simp: tv_near_def tv_norm_def timerisset_def tv_val_def)

subsection \<open>Well-formed states\<close>

text \<open>
  The loops on \<open>_loops\<close> are the existing ones, one per thread; every timer is on the list of its
  loop, once, and every address on a list is a timer of that loop with proper times.
\<close>

definition timers_ok :: "timer_state \<Rightarrow> bool" where
  "timers_ok s \<longleftrightarrow> distinct (ts_loops s) \<and> set (ts_loops s) = dom (ts_loop s) \<and>
    (\<forall>l m lp lq. ts_loop s l = Some lp \<and> ts_loop s m = Some lq \<and> lp_pid lp = lp_pid lq \<longrightarrow> l = m) \<and>
    (\<forall>l lp. ts_loop s l = Some lp \<longrightarrow> distinct (lp_timers lp) \<and>
      (\<forall>t. t \<in> set (lp_timers lp) \<longleftrightarrow> (\<exists>x. ts_timer s t = Some x \<and> tm_loop x = l))) \<and>
    (\<forall>t x. ts_timer s t = Some x \<longrightarrow> tm_loop x \<in> dom (ts_loop s) \<and> tv_near (tm_timeout x) \<and> tv_norm (tm_repeat x))"

lemma timers_okD:
  assumes "timers_ok s"
  shows "distinct (ts_loops s)" "set (ts_loops s) = dom (ts_loop s)"
    "ts_loop s l = Some lp \<Longrightarrow> ts_loop s m = Some lq \<Longrightarrow> lp_pid lp = lp_pid lq \<Longrightarrow> l = m"
    "ts_loop s l = Some lp \<Longrightarrow> distinct (lp_timers lp)"
    "ts_loop s l = Some lp \<Longrightarrow> t \<in> set (lp_timers lp) \<longleftrightarrow> (\<exists>x. ts_timer s t = Some x \<and> tm_loop x = l)"
    "ts_timer s t = Some x \<Longrightarrow> tm_loop x \<in> dom (ts_loop s)"
    "ts_timer s t = Some x \<Longrightarrow> tv_near (tm_timeout x)" "ts_timer s t = Some x \<Longrightarrow> tv_norm (tm_repeat x)"
  using assms unfolding timers_ok_def by blast+

lemma deref_simps [simp]: "m p = Some x \<Longrightarrow> deref m p = Inr x" "m p = None \<Longrightarrow> deref m p = Inl BadPointer"
  by (simp_all add: deref_def)

lemma find_loop_finds:
  assumes "set ls \<subseteq> dom (ts_loop s)"
  shows "find_loop s ls pid = Inr (find (\<lambda>l. map_option lp_pid (ts_loop s l) = Some pid) ls)"
  using assms by (induction ls) (auto simp: dom_def)

lemma find_timer_loop_some:
  assumes "timers_ok s" and "ts_loop s l = Some lp"
  shows "find_timer_loop (lp_pid lp) s = Inr (Some l)"
proof -
  let ?P = "\<lambda>l. map_option lp_pid (ts_loop s l) = Some (lp_pid lp)"
  have "l \<in> set (ts_loops s)" using timers_okD(2) [OF assms(1)] assms(2) by auto
  moreover have "?P l" using assms(2) by simp
  ultimately obtain m where m: "find ?P (ts_loops s) = Some m" by (cases "find ?P (ts_loops s)") (auto simp: find_None_iff)
  then have "?P m" by (auto simp: find_Some_iff)
  then have "m = l" using timers_okD(3) [OF assms(1), of m _ l lp] assms(2) by auto
  then show ?thesis using m find_loop_finds [of "ts_loops s" s] timers_okD(2) [OF assms(1)] by (simp add: find_timer_loop_def)
qed

subsection \<open>What a pass fires\<close>

definition due :: "timeval \<Rightarrow> timer \<Rightarrow> bool" where
  "due now x \<longleftrightarrow> timerisset (tm_timeout x) \<and> \<not> timercmp_less now (tm_timeout x)"

definition fired :: "timer_state \<Rightarrow> timeval \<Rightarrow> nat list \<Rightarrow> (nat \<times> nat \<times> nat) list" where
  "fired s now ts = concat (map (\<lambda>t. case ts_timer s t of
      Some x \<Rightarrow> (case tm_handler x of Some h \<Rightarrow> if due now x then [(h, t, tm_arg x)] else [] | None \<Rightarrow> [])
    | None \<Rightarrow> []) ts)"

text \<open>
  What is asked of a handler that is called for the timer \<open>t\<close> if its pass is to fire all due timers: it
  may add timers, and change or destroy \<open>t\<close>, but not touch the other timers, and the loop stays. The
  source does not forbid more, but a handler that destroys the last timer makes its pass read memory that
  was freed (\<open>timer_handler_destroys_last_faults\<close>).
\<close>

definition keeps_others :: "nat \<Rightarrow> timer_state \<Rightarrow> timer_state \<Rightarrow> bool" where
  "keeps_others t s s' \<longleftrightarrow> timers_ok s' \<and> ts_calls s' = ts_calls s \<and>
    (\<forall>u x. u \<noteq> t \<and> ts_timer s u = Some x \<longrightarrow> ts_timer s' u = Some x) \<and>
    (\<forall>l lp. ts_loop s l = Some lp \<longrightarrow> (\<exists>lp' new. ts_loop s' l = Some lp' \<and> lp_pid lp' = lp_pid lp \<and>
      (lp_timers lp' = new @ lp_timers lp \<or> lp_timers lp' = new @ remove1 t (lp_timers lp))))"

definition handlers_local :: "handlers \<Rightarrow> bool" where
  "handlers_local call \<longleftrightarrow> (\<forall>h t a s. timers_ok s \<and> ts_timer s t \<noteq> None \<longrightarrow> (\<exists>s'. call h t a s = Inr s' \<and> keeps_others t s s'))"

definition due_handled :: "timer_state \<Rightarrow> timeval \<Rightarrow> nat list \<Rightarrow> bool" where
  "due_handled s now ts \<longleftrightarrow> (\<forall>t \<in> set ts. \<forall>x. ts_timer s t = Some x \<and> due now x \<longrightarrow> tm_handler x \<noteq> None)"

text \<open>The next wake-up stays a proper time no later than a limit.\<close>

definition wakes_by :: "timeval \<Rightarrow> timeval \<Rightarrow> bool" where
  "wakes_by lim nx \<longleftrightarrow> tv_near nx \<and> \<not> timercmp_less lim nx"

lemma wakes_by_less: "wakes_by lim nx \<Longrightarrow> tv_near t \<Longrightarrow> timercmp_less t nx \<Longrightarrow> wakes_by lim t"
  by (auto simp: wakes_by_def timercmp_less_def split: if_splits)

lemma wakes_by_min: "wakes_by lim nx \<Longrightarrow> tv_near t \<Longrightarrow> wakes_by lim (if timercmp_less t nx then t else nx)"
  using wakes_by_less by simp

text \<open>One round of the loop: it changes nothing but the timer it is at, apart from new timers in front.\<close>

lemma timers_ok_retime:
  assumes "timers_ok s" and "ts_timer s t = Some x" and "tv_near t1"
  shows "timers_ok (s\<lparr>ts_timer := (ts_timer s)(t \<mapsto> x\<lparr>tm_timeout := t1\<rparr>), ts_calls := cs\<rparr>)"
proof -
  have "(\<exists>z. ((ts_timer s)(t \<mapsto> x\<lparr>tm_timeout := t1\<rparr>)) u = Some z \<and> tm_loop z = l) \<longleftrightarrow>
      (\<exists>z. ts_timer s u = Some z \<and> tm_loop z = l)" for u l
    using assms(2) by auto
  then show ?thesis using assms unfolding timers_ok_def by auto
qed

lemma timer_body_step:
  assumes ok: "timers_ok s" and x: "ts_timer s t = Some x" and call: "handlers_local call" and now: "tv_norm now"
    and hd: "due now x \<longrightarrow> tm_handler x \<noteq> None"
  shows "\<exists>nx1 s1. timer_body call now t nx s = Some (Inr (nx1, s1)) \<and> timers_ok s1 \<and>
    ts_calls s1 = ts_calls s @ fired s now [t] \<and>
    keeps_others t (s\<lparr>ts_calls := ts_calls s1\<rparr>) s1 \<and> (\<not> due now x \<longrightarrow> ts_timer s1 = ts_timer s) \<and>
    (wakes_by lim nx \<longrightarrow> wakes_by lim nx1)"
proof (cases "due now x")
  case False
  have "keeps_others t s s" using ok by (auto simp: keeps_others_def intro: exI [of _ "[]"])
  then show ?thesis using False x ok wakes_by_min [of lim nx "tm_timeout x"] timers_okD(7) [OF ok x]
    by (auto simp: timer_body_def due_def fired_def split: option.splits)
next
  case True
  then obtain h where h: "tm_handler x = Some h" using hd by auto
  obtain t1 nx1 where t1: "(if \<not> timerisset (tm_repeat x) then Some (timerclear, nx)
      else map_option (\<lambda>t1. (t1, if timercmp_less t1 nx then t1 else nx)) (catch_up (tm_timeout x) (tm_repeat x) now))
      = Some (t1, nx1)" "tv_near t1" "wakes_by lim nx \<longrightarrow> wakes_by lim nx1"
    using catch_up_ends [OF timers_okD(7,8) [OF ok x] _ now] wakes_by_min [of lim nx]
    by (cases "timerisset (tm_repeat x)") (auto simp: caught_up_def tv_norm_near)
  let ?s = "s\<lparr>ts_timer := (ts_timer s)(t \<mapsto> x\<lparr>tm_timeout := t1\<rparr>), ts_calls := ts_calls s @ [(h, t, tm_arg x)]\<rparr>"
  have "timers_ok ?s" using timers_ok_retime [OF ok x t1(2)] .
  then obtain s1 where s1: "call h t (tm_arg x) ?s = Inr s1" "keeps_others t ?s s1"
    using call unfolding handlers_local_def by fastforce
  have "timer_body call now t nx s = Some (Inr (nx1, s1))"
    using True x t1(1) h s1(1) by (simp add: timer_body_def due_def)
  moreover have "keeps_others t (s\<lparr>ts_calls := ts_calls s1\<rparr>) s1" using s1(2) by (auto simp: keeps_others_def)
  moreover have "ts_calls s1 = ts_calls s @ fired s now [t]" using s1(2) True x h by (simp add: keeps_others_def fired_def)
  moreover have "timers_ok s1" using s1(2) by (simp add: keeps_others_def)
  ultimately show ?thesis using True t1(3) by blast
qed

lemma list_succ_at: "p \<notin> set a \<Longrightarrow> list_succ (a @ p # b) p = (case b of [] \<Rightarrow> None | y # _ \<Rightarrow> Some y)"
  by (induction a) (auto simp: list_succ_def split: list.split)

text \<open>The successor of the timer at hand is still there after its handler.\<close>

lemma keeps_others_suffix:
  assumes k: "keeps_others t s s1" and l: "ts_loop s l = Some lp" "lp_timers lp = pre @ t # ts"
    and d: "distinct (lp_timers lp)"
  obtains lp1 pre1 where "ts_loop s1 l = Some lp1" "lp_pid lp1 = lp_pid lp" "lp_timers lp1 = pre1 @ ts"
proof -
  obtain lp1 new where lp1: "ts_loop s1 l = Some lp1" "lp_pid lp1 = lp_pid lp"
    "lp_timers lp1 = new @ lp_timers lp \<or> lp_timers lp1 = new @ remove1 t (lp_timers lp)"
    using k l(1) unfolding keeps_others_def by blast
  have "t \<notin> set pre" using d l(2) by auto
  then have "remove1 t (lp_timers lp) = pre @ ts" using l(2) by (simp add: remove1_append)
  then have "lp_timers lp1 = (new @ pre @ [t]) @ ts \<or> lp_timers lp1 = (new @ pre) @ ts" using lp1(3) l(2) by auto
  then show thesis using that [OF lp1(1,2)] by blast
qed

lemma timer_walk_head [simp]: "timer_walk call now l None n nx s = Some (Inr (nx, s))"
  by (subst timer_walk.simps) simp

lemma timer_walk_at:
  assumes "timer_body call now t nx s = Some (Inr (nx1, s1))" and "list_next_entry s1 l n = Inr n1"
  shows "timer_walk call now l (Some t) n nx s = timer_walk call now l n n1 nx1 s1"
  by (subst timer_walk.simps) (simp add: assms)

lemma list_next_entry_at:
  assumes "timers_ok s" and "ts_loop s l = Some lp" and "lp_timers lp = pre @ u # us"
  shows "list_next_entry s l (Some u) = Inr (case us of [] \<Rightarrow> None | v # _ \<Rightarrow> Some v)"
proof -
  have "u \<in> set (lp_timers lp)" using assms(3) by simp
  then obtain x where "ts_timer s u = Some x" "tm_loop x = l" using timers_okD(5) [OF assms(1,2)] by blast
  moreover have "u \<notin> set pre" using timers_okD(4) [OF assms(1,2)] assms(3) by auto
  ultimately show ?thesis using assms(2,3) by (simp add: list_next_entry_def list_succ_at)
qed

text \<open>A handler that touches only its own timer leaves what the pass does later as it was.\<close>

lemma later_unchanged:
  assumes "\<And>u. u \<in> set ts \<Longrightarrow> \<exists>y. ts_timer s u = Some y \<and> ts_timer s1 u = Some y"
  shows "fired s1 now ts = fired s now ts" "due_handled s now ts \<Longrightarrow> due_handled s1 now ts"
proof -
  show "fired s1 now ts = fired s now ts"
    unfolding fired_def by (intro arg_cong [where f = concat] map_cong refl) (use assms in fastforce)
  show "due_handled s now ts \<Longrightarrow> due_handled s1 now ts" using assms unfolding due_handled_def by fastforce
qed

lemma list_next_entry_suffix:
  assumes "timers_ok s" and "ts_loop s l = Some lp" and "lp_timers lp = pre @ ts"
  obtains n where "list_next_entry s l (case ts of [] \<Rightarrow> None | u # _ \<Rightarrow> Some u) = Inr n"
    "ts \<noteq> [] \<longrightarrow> n = (case ts of _ # u # _ \<Rightarrow> Some u | _ \<Rightarrow> None)"
proof (cases ts)
  case Nil
  then show thesis using that assms by (simp add: list_next_entry_def)
next
  case (Cons u us)
  then show thesis using that list_next_entry_at [OF assms(1,2), of pre u us] assms(3) by simp
qed

lemma timer_walk_fires:
  assumes call: "handlers_local call" and now: "tv_norm now"
    and "timers_ok s" and "ts_loop s l = Some lp" and "lp_timers lp = pre @ ts" and "due_handled s now ts" and "wakes_by lim nx"
  shows "\<exists>nx1 s1. timer_walk call now l (case ts of [] \<Rightarrow> None | t # _ \<Rightarrow> Some t)
      (case ts of _ # u # _ \<Rightarrow> Some u | _ \<Rightarrow> None) nx s = Some (Inr (nx1, s1)) \<and>
    timers_ok s1 \<and> ts_calls s1 = ts_calls s @ fired s now ts \<and> wakes_by lim nx1 \<and>
    (\<forall>u x. ts_timer s u = Some x \<and> (\<not> due now x \<or> u \<notin> set ts) \<longrightarrow> ts_timer s1 u = Some x)"
  using assms(3-7)
proof (induction ts arbitrary: s lp pre nx)
  case Nil
  then show ?case by (subst timer_walk.simps) (simp add: fired_def)
next
  case (Cons t ts)
  note dist = timers_okD(4) [OF Cons.prems(1,2)]
  have mine: "\<exists>y. ts_timer s u = Some y" if "u \<in> set (t # ts)" for u
    using timers_okD(5) [OF Cons.prems(1,2)] Cons.prems(3) that by auto
  then obtain x where x: "ts_timer s t = Some x" by auto
  have "due now x \<longrightarrow> tm_handler x \<noteq> None" using Cons.prems(4) x unfolding due_handled_def by simp
  from timer_body_step [OF Cons.prems(1) x call now this, of nx lim] Cons.prems(5)
  obtain nx1 s1 where b: "timer_body call now t nx s = Some (Inr (nx1, s1))" and ok: "timers_ok s1"
    and calls: "ts_calls s1 = ts_calls s @ fired s now [t]"
    and keep: "keeps_others t (s\<lparr>ts_calls := ts_calls s1\<rparr>) s1" and same: "\<not> due now x \<longrightarrow> ts_timer s1 = ts_timer s"
    and nx1: "wakes_by lim nx1" by blast
  obtain lp1 pre1 where lp1: "ts_loop s1 l = Some lp1" "lp_pid lp1 = lp_pid lp" "lp_timers lp1 = pre1 @ ts"
    using keeps_others_suffix [OF keep, of l lp pre ts] Cons.prems(2,3) dist by auto
  have others: "ts_timer s1 u = Some y" if "u \<noteq> t" "ts_timer s u = Some y" for u y
    using keep that unfolding keeps_others_def by simp
  have "t \<notin> set ts" using dist Cons.prems(3) by auto
  then have old: "\<exists>y. ts_timer s u = Some y \<and> ts_timer s1 u = Some y" if "u \<in> set ts" for u
    using mine [of u] others [of u] that by (metis list.set_intros(2))
  have "due_handled s now ts" using Cons.prems(4) unfolding due_handled_def by simp
  note later = later_unchanged(1) [OF old, where now = now] later_unchanged(2) [OF old this]
  obtain n1 where n1: "list_next_entry s1 l (case ts of [] \<Rightarrow> None | u # _ \<Rightarrow> Some u) = Inr n1"
    "ts \<noteq> [] \<longrightarrow> n1 = (case ts of _ # u # _ \<Rightarrow> Some u | _ \<Rightarrow> None)" by (rule list_next_entry_suffix [OF ok lp1(1,3)])
  obtain nx2 s2 where s2: "timer_walk call now l (case ts of [] \<Rightarrow> None | t # _ \<Rightarrow> Some t)
      (case ts of _ # u # _ \<Rightarrow> Some u | _ \<Rightarrow> None) nx1 s1 = Some (Inr (nx2, s2))"
    "timers_ok s2" "ts_calls s2 = ts_calls s1 @ fired s1 now ts" "wakes_by lim nx2"
    "\<forall>u x. ts_timer s1 u = Some x \<and> (\<not> due now x \<or> u \<notin> set ts) \<longrightarrow> ts_timer s2 u = Some x"
    using Cons.IH [OF ok lp1(1,3) later(2) nx1] by blast
  have "timer_walk call now l (Some t) (case ts of [] \<Rightarrow> None | u # _ \<Rightarrow> Some u) nx s = Some (Inr (nx2, s2))"
    unfolding timer_walk_at [OF b n1(1)] using s2(1) n1(2) by (cases ts) simp_all
  then have "timer_walk call now l (case t # ts of [] \<Rightarrow> None | t # _ \<Rightarrow> Some t)
      (case t # ts of _ # u # _ \<Rightarrow> Some u | _ \<Rightarrow> None) nx s = Some (Inr (nx2, s2))" by (cases ts) simp_all
  moreover have "ts_timer s2 u = Some y" if "ts_timer s u = Some y" "\<not> due now y \<or> u \<notin> set (t # ts)" for u y
    using s2(5) others [of u y] same x that by (cases "u = t") auto
  moreover have "fired s now (t # ts) = fired s now [t] @ fired s now ts" by (simp add: fired_def)
  ultimately show ?case using s2(2-4) later(1) calls by auto
qed

text \<open>The wait is less than two seconds, and not negative.\<close>

lemma wait_ms_bounds:
  assumes "wakes_by (now\<lparr>tv_sec := tv_sec now + 1\<rparr>) nx" and "tv_norm now" and "tv_norm now2" and "tv_val now \<le> tv_val now2"
  shows "0 \<le> wait_ms nx now2 \<and> wait_ms nx now2 < 2000"
proof (cases "timercmp_less now2 nx")
  case True
  let ?d = "tv_sec nx - tv_sec now2" and ?u = "tv_usec nx - tv_usec now2"
  have "(?d = 1 \<and> ?u \<le> 0 \<and> - 1000000 < ?u) \<or> (?d = 0 \<and> 0 < ?u \<and> ?u < 2000000)"
    using assms True by (auto simp: wakes_by_def tv_norm_def tv_near_def tv_val_def timercmp_less_def split: if_splits)
  then show ?thesis
  proof
    assume d: "?d = 1 \<and> ?u \<le> 0 \<and> - 1000000 < ?u"
    then have "0 \<le> - ?u div 1000" "- ?u div 1000 < 1000" by (auto intro: pos_imp_zdiv_nonneg_iff [THEN iffD2])
    then show ?thesis using True d by (auto simp: wait_ms_def Let_def)
  next
    assume d: "?d = 0 \<and> 0 < ?u \<and> ?u < 2000000"
    then have "0 \<le> ?u div 1000" "?u div 1000 < 2000" by (auto intro: pos_imp_zdiv_nonneg_iff [THEN iffD2])
    then show ?thesis using True d by (auto simp: wait_ms_def Let_def)
  qed
qed (simp add: wait_ms_def)

lemma timer_pass:
  assumes "timers_ok s" and "ts_loop s l = Some lp" and "handlers_local call" and "tv_norm now"
    and "due_handled s now (lp_timers lp)" and "tv_norm now2" and "tv_val now \<le> tv_val now2"
  shows "\<exists>wait s1. timer_loop (lp_pid lp) call now now2 s = Some (Inr (0, wait, s1)) \<and>
    timers_ok s1 \<and> ts_calls s1 = ts_calls s @ fired s now (lp_timers lp) \<and> 0 \<le> wait \<and> wait < 2000 \<and>
    (\<forall>t x. ts_timer s t = Some x \<and> \<not> due now x \<longrightarrow> ts_timer s1 t = Some x)"
proof -
  let ?lim = "now\<lparr>tv_sec := tv_sec now + 1\<rparr>" and ?ts = "lp_timers lp"
  let ?pos = "case ?ts of [] \<Rightarrow> None | t # _ \<Rightarrow> Some t"
  have lim: "wakes_by ?lim ?lim" using assms(4) by (simp add: wakes_by_def tv_norm_def tv_near_def timercmp_less_def)
  obtain n where n: "list_next_entry s l ?pos = Inr n" "?ts \<noteq> [] \<longrightarrow> n = (case ?ts of _ # u # _ \<Rightarrow> Some u | _ \<Rightarrow> None)"
  proof (cases ?ts)
    case Nil
    then show thesis using that assms(2) by (simp add: list_next_entry_def)
  next
    case (Cons t ts)
    then show thesis using that list_next_entry_at [OF assms(1,2), of "[]" t ts] by simp
  qed
  obtain nx s1 where s1: "timer_walk call now l ?pos (case ?ts of _ # u # _ \<Rightarrow> Some u | _ \<Rightarrow> None) ?lim s = Some (Inr (nx, s1))"
    "timers_ok s1" "ts_calls s1 = ts_calls s @ fired s now ?ts" "wakes_by ?lim nx"
    "\<forall>u x. ts_timer s u = Some x \<and> (\<not> due now x \<or> u \<notin> set ?ts) \<longrightarrow> ts_timer s1 u = Some x"
    using timer_walk_fires [OF assms(3,4,1,2) _ assms(5) lim, of "[]"] by auto
  have "list_next_entry s l None = Inr ?pos" using assms(2) by (simp add: list_next_entry_def)
  moreover have "timer_walk call now l ?pos n ?lim s = Some (Inr (nx, s1))"
    using s1(1) n(2) by (cases ?ts) simp_all
  ultimately have "timer_loop (lp_pid lp) call now now2 s = Some (Inr (0, wait_ms nx now2, s1))"
    using find_timer_loop_some [OF assms(1,2)] n(1) by (simp add: timer_loop_def)
  then show ?thesis using s1(2,3,5) wait_ms_bounds [OF s1(4) assms(4,6,7)] by blast
qed

text \<open>C16: A call of \<open>timer_loop\<close> in a thread with timers returns, when the handlers touch no other
  timer than the one they are called for and every due timer has a handler: it calls the handlers of
  the due timers, each once, in list order, and no others; the timers that are not due are as before;
  and the wait it reports lies between zero and two seconds.\<close>

theorem timer_loop_fires_due:
  assumes "timers_ok s" and "ts_loop s l = Some lp" and "handlers_local call" and "tv_norm now"
    and "due_handled s now (lp_timers lp)" and "tv_norm now2" and "tv_val now \<le> tv_val now2"
  shows "\<exists>wait s1. timer_loop (lp_pid lp) call now now2 s = Some (Inr (0, wait, s1)) \<and>
    timers_ok s1 \<and> ts_calls s1 = ts_calls s @ fired s now (lp_timers lp) \<and> 0 \<le> wait \<and> wait < 2000 \<and>
    (\<forall>t x. ts_timer s t = Some x \<and> \<not> due now x \<longrightarrow> ts_timer s1 t = Some x)"
  using timer_pass [OF assms] .

definition timers_example :: timer_state where
  "timers_example = \<lparr>ts_loops = [100], ts_loop = [100 \<mapsto> \<lparr>lp_pid = 7, lp_timers = [1, 2]\<rparr>],
     ts_timer = [1 \<mapsto> \<lparr>tm_handler = Some 50, tm_arg = 5, tm_timeout = \<lparr>tv_sec = 3, tv_usec = 0\<rparr>,
                       tm_repeat = \<lparr>tv_sec = 1, tv_usec = 0\<rparr>, tm_loop = 100\<rparr>,
                 2 \<mapsto> \<lparr>tm_handler = Some 60, tm_arg = 6, tm_timeout = \<lparr>tv_sec = 9, tv_usec = 0\<rparr>,
                       tm_repeat = timerclear, tm_loop = 100\<rparr>],
     ts_calls = []\<rparr>"

lemma timers_example_ok: "timers_ok timers_example"
  unfolding timers_ok_def timers_example_def
  by (auto simp: tv_near_def tv_norm_def timerclear_def split: if_splits)

lemma handlers_local_idle: "handlers_local (\<lambda>h t a s. Inr s)"
  by (auto simp: handlers_local_def keeps_others_def intro: exI [of _ "[]"])

theorem timer_loop_fires_due_witness:
  "\<exists>wait s1. timer_loop 7 (\<lambda>h t a s. Inr s) \<lparr>tv_sec = 5, tv_usec = 0\<rparr> \<lparr>tv_sec = 5, tv_usec = 9\<rparr> timers_example
    = Some (Inr (0, wait, s1)) \<and> ts_calls s1 = [(50, 1, 5)] \<and> wait < 2000"
proof -
  have "due_handled timers_example \<lparr>tv_sec = 5, tv_usec = 0\<rparr> [1, 2]"
    by (auto simp: due_handled_def timers_example_def)
  then show ?thesis
    using timer_loop_fires_due [OF timers_example_ok, of 100 "\<lparr>lp_pid = 7, lp_timers = [1, 2]\<rparr>"
        "\<lambda>h t a s. Inr s" "\<lparr>tv_sec = 5, tv_usec = 0\<rparr>" "\<lparr>tv_sec = 5, tv_usec = 9\<rparr>"] handlers_local_idle
    by (auto simp: timers_example_def fired_def due_def timerisset_def timercmp_less_def tv_norm_def tv_val_def)
qed

subsection \<open>The operations keep states well-formed\<close>

text \<open>Giving a timer other values keeps the state well-formed as long as its loop and the ranges stay.\<close>

lemma timers_ok_update:
  assumes "timers_ok s" and "ts_timer s t = Some x" and "tm_loop y = tm_loop x"
    and "tv_near (tm_timeout y)" and "tv_norm (tm_repeat y)"
  shows "timers_ok (s\<lparr>ts_timer := (ts_timer s)(t \<mapsto> y)\<rparr>)"
proof -
  have "(\<exists>z. ((ts_timer s)(t \<mapsto> y)) u = Some z \<and> tm_loop z = l) \<longleftrightarrow> (\<exists>z. ts_timer s u = Some z \<and> tm_loop z = l)" for u l
    using assms(2,3) by auto
  then show ?thesis using assms unfolding timers_ok_def by auto
qed

lemma own_timer_Inr:
  "own_timer self t s f = Inr s' \<longleftrightarrow>
     (\<exists>x lp. ts_timer s t = Some x \<and> ts_loop s (tm_loop x) = Some lp \<and> self = lp_pid lp \<and> f x lp = Inr s')"
  by (auto simp: own_timer_def deref_def cx split: option.splits)

lemma timer_start_ok:
  assumes "timers_ok s" and "tv_norm now" and "timer_start self now t h a timeout rep s = Inr s'"
  shows "timers_ok s'"
proof -
  obtain x lp where x: "ts_timer s t = Some x" and s': "s' = s\<lparr>ts_timer := (ts_timer s)(t \<mapsto> x\<lparr>
         tm_handler := (if h = 0 then None else Some h), tm_arg := a,
         tm_timeout := \<lparr>tv_sec = tv_sec now + int (timeout div 1000), tv_usec = tv_usec now + int (timeout mod 1000 * 1000)\<rparr>,
         tm_repeat := \<lparr>tv_sec = int (rep div 1000), tv_usec = int (rep mod 1000 * 1000)\<rparr>\<rparr>)\<rparr>"
    using assms(3) unfolding timer_start_def own_timer_Inr by auto
  have m: "timeout mod 1000 \<le> 999" "rep mod 1000 \<le> 999" using mod_less_divisor [of 1000] by (simp_all add: less_Suc_eq_le [symmetric])
  show ?thesis unfolding s' by (rule timers_ok_update [OF assms(1) x])
      (use assms(2) m in \<open>auto simp: tv_norm_def tv_near_def\<close>)
qed

lemma timer_stop_ok: "timers_ok s \<Longrightarrow> timer_stop self t s = Inr s' \<Longrightarrow> timers_ok s'"
  unfolding timer_stop_def own_timer_Inr by (auto intro!: timers_ok_update tv_norm_near)

lemma timer_trigger_ok: "timers_ok s \<Longrightarrow> tv_norm now \<Longrightarrow> timer_trigger self now t s = Inr s' \<Longrightarrow> timers_ok s'"
  unfolding timer_trigger_def own_timer_Inr by (auto intro!: timers_ok_update tv_norm_near dest: timers_okD(8))

lemma timers_ok_loop_added:
  assumes "timers_ok s" and "l \<notin> dom (ts_loop s)" and "\<forall>m lq. ts_loop s m = Some lq \<longrightarrow> lp_pid lq \<noteq> pid"
  shows "timers_ok (s\<lparr>ts_loop := (ts_loop s)(l \<mapsto> \<lparr>lp_pid = pid, lp_timers = []\<rparr>), ts_loops := l # ts_loops s\<rparr>)"
proof -
  have "tm_loop x \<noteq> l" if "ts_timer s t = Some x" for t x using timers_okD(6) [OF assms(1) that] assms(2) by auto
  then show ?thesis using assms unfolding timers_ok_def by (auto split: if_splits)
qed

lemma timers_ok_timer_added:
  assumes "timers_ok s" and "ts_loop s l = Some lp" and "t \<notin> dom (ts_timer s)" and "tm_loop x = l"
    and "tv_near (tm_timeout x)" and "tv_norm (tm_repeat x)"
  shows "timers_ok (s\<lparr>ts_timer := (ts_timer s)(t \<mapsto> x), ts_loop := (ts_loop s)(l \<mapsto> lp\<lparr>lp_timers := t # lp_timers lp\<rparr>)\<rparr>)"
proof -
  have "t \<notin> set (lp_timers lq)" if "ts_loop s m = Some lq" for m lq
    using timers_okD(5) [OF assms(1) that] assms(3) by auto
  then show ?thesis using assms unfolding timers_ok_def by (auto split: if_splits)
qed

lemma find_timer_loop_None:
  assumes "timers_ok s" and "find_timer_loop self s = Inr None" and "ts_loop s m = Some lq"
  shows "lp_pid lq \<noteq> self"
  using find_timer_loop_some [OF assms(1,3)] assms(2) by auto

lemma find_timer_loop_Some:
  assumes "timers_ok s" and "find_timer_loop self s = Inr (Some l)"
  shows "\<exists>lp. ts_loop s l = Some lp \<and> lp_pid lp = self"
  using assms(2) find_loop_finds [of "ts_loops s" s self] timers_okD(2) [OF assms(1)]
  by (auto simp: find_timer_loop_def find_Some_iff)

lemma timer_new_ok:
  assumes "timers_ok s" and "timer_new self pl pt s = Inr (p, s')"
    and "\<forall>l. pl = Some l \<longrightarrow> l \<notin> dom (ts_loop s)" and "\<forall>t. pt = Some t \<longrightarrow> t \<notin> dom (ts_timer s)"
  shows "timers_ok s'"
proof -
  obtain l s1 where s1: "timers_ok s1" "ts_timer s1 = ts_timer s" "l \<in> dom (ts_loop s1)"
    "(case pt of None \<Rightarrow> Inr (None, s1)
       | Some t \<Rightarrow> bindR (deref (ts_loop s1) l) (\<lambda>lp. Inr (Some t, s1\<lparr>
               ts_timer := (ts_timer s1)(t \<mapsto> \<lparr>tm_handler = None, tm_arg = 0, tm_timeout = timerclear,
                                             tm_repeat = timerclear, tm_loop = l\<rparr>),
               ts_loop := (ts_loop s1)(l \<mapsto> lp\<lparr>lp_timers := t # lp_timers lp\<rparr>)\<rparr>))) = Inr (p, s')"
  proof (cases "find_timer_loop self s")
    case (Inr found)
    show thesis
    proof (cases found)
      case (Some l)
      then show thesis using that [of s l] assms(1,2) Inr find_timer_loop_Some [OF assms(1), of self l]
        by (auto simp: timer_new_def)
    next
      case None
      then obtain l where "pl = Some l" using assms(2) Inr by (cases pl) (auto simp: timer_new_def timer_loop_new_def)
      then show thesis
        using that [of "s\<lparr>ts_loop := (ts_loop s)(l \<mapsto> \<lparr>lp_pid = self, lp_timers = []\<rparr>), ts_loops := l # ts_loops s\<rparr>" l]
          assms(2,3) Inr None timers_ok_loop_added [OF assms(1), of l self] find_timer_loop_None [OF assms(1), of self]
        by (auto simp: timer_new_def timer_loop_new_def)
    qed
  qed (use assms(2) in \<open>simp add: timer_new_def\<close>)
  then obtain lp where lp: "ts_loop s1 l = Some lp" by auto
  show ?thesis
  proof (cases pt)
    case (Some t)
    then show ?thesis using s1(4) lp timers_ok_timer_added [OF s1(1) lp, of t] assms(4) s1(2)
      by (auto simp: tv_norm_near)
  qed (use s1 in simp)
qed

text \<open>Taking a timer off and, with the last one, its loop.\<close>

lemma timers_ok_timer_removed:
  assumes "timers_ok s" and "ts_timer s t = Some x" and "ts_loop s (tm_loop x) = Some lp"
  shows "timers_ok (s\<lparr>ts_loop := (ts_loop s)(tm_loop x \<mapsto> lp\<lparr>lp_timers := remove1 t (lp_timers lp)\<rparr>),
    ts_timer := (ts_timer s)(t := None)\<rparr>)"
proof -
  have "t \<notin> set (lp_timers lq)" if "ts_loop s m = Some lq" "m \<noteq> tm_loop x" for m lq
    using timers_okD(5) [OF assms(1) that(1)] assms(2) that(2) by auto
  then show ?thesis using assms unfolding timers_ok_def by (auto split: if_splits simp: distinct_remove1)
qed

lemma timers_ok_loop_removed:
  assumes "timers_ok s" and "ts_loop s l = Some lp" and "lp_timers lp = []"
  shows "timers_ok (s\<lparr>ts_loops := remove1 l (ts_loops s), ts_loop := (ts_loop s)(l := None)\<rparr>)"
proof -
  have "tm_loop x \<noteq> l" if "ts_timer s t = Some x" for t x using timers_okD(5) [OF assms(1,2)] that assms(3) by auto
  then show ?thesis using assms unfolding timers_ok_def by (auto split: if_splits)
qed

lemma timer_destroy_ok:
  assumes "timers_ok s" and "timer_destroy self t s = Inr s'"
  shows "timers_ok s'"
proof -
  obtain x lp where x: "ts_timer s t = Some x" "ts_loop s (tm_loop x) = Some lp" "self = lp_pid lp"
    using assms(2) unfolding timer_destroy_def own_timer_Inr by blast
  let ?lp = "lp\<lparr>lp_timers := remove1 t (lp_timers lp)\<rparr>"
  let ?s = "s\<lparr>ts_loop := (ts_loop s)(tm_loop x \<mapsto> ?lp), ts_timer := (ts_timer s)(t := None)\<rparr>"
  have ok: "timers_ok ?s" using timers_ok_timer_removed [OF assms(1) x(1,2)] .
  show ?thesis
  proof (cases "lp_timers ?lp = []")
    case True
    then have "s' = ?s\<lparr>ts_loops := remove1 (tm_loop x) (ts_loops ?s), ts_loop := (ts_loop ?s)(tm_loop x := None)\<rparr>"
      using assms(2) x by (auto simp: timer_destroy_def own_timer_def timer_loop_destroy_def)
    then show ?thesis using timers_ok_loop_removed [OF ok, of "tm_loop x" ?lp] True by simp
  next
    case False
    then show ?thesis using ok assms(2) x by (auto simp: timer_destroy_def own_timer_def)
  qed
qed

text \<open>The operations of the interface as steps; a new object has an address that is not in use.\<close>

inductive timer_op :: "timer_state \<Rightarrow> timer_state \<Rightarrow> bool" where
  new: "timer_new self pl pt s = Inr (p, s') \<Longrightarrow> \<forall>l. pl = Some l \<longrightarrow> l \<notin> dom (ts_loop s) \<Longrightarrow>
    \<forall>t. pt = Some t \<longrightarrow> t \<notin> dom (ts_timer s) \<Longrightarrow> timer_op s s'"
| destroy: "timer_destroy self t s = Inr s' \<Longrightarrow> timer_op s s'"
| start: "timer_start self now t h a timeout rep s = Inr s' \<Longrightarrow> tv_norm now \<Longrightarrow> timer_op s s'"
| stop: "timer_stop self t s = Inr s' \<Longrightarrow> timer_op s s'"
| trigger: "timer_trigger self now t s = Inr s' \<Longrightarrow> tv_norm now \<Longrightarrow> timer_op s s'"

lemma timer_op_ok: "timer_op s s' \<Longrightarrow> timers_ok s \<Longrightarrow> timers_ok s'"
proof (induction rule: timer_op.induct)
  case (new self pl pt s p s')
  then show ?case using timer_new_ok by blast
qed (blast intro: timer_destroy_ok timer_start_ok timer_stop_ok timer_trigger_ok)+

lemma timer_ops_ok: "timer_op\<^sup>*\<^sup>* s s' \<Longrightarrow> timers_ok s \<Longrightarrow> timers_ok s'"
  by (induction rule: rtranclp_induct) (auto intro: timer_op_ok)

text \<open>Handlers that do to the timers whatever they like, through these operations: they may create, destroy
  and restart any timer, their own and the last one too. When a handler destroys a timer that the pass
  still needs, the pass faults; what is said of a pass is said of one that returns.\<close>

definition handlers_use_ops :: "handlers \<Rightarrow> bool" where
  "handlers_use_ops call \<longleftrightarrow> (\<forall>h t a s s'. call h t a s = Inr s' \<longrightarrow> timer_op\<^sup>*\<^sup>* s s')"

lemma catch_up_near: "catch_up t r now = Some t1 \<Longrightarrow> tv_near t \<longrightarrow> tv_norm r \<longrightarrow> tv_near t1"
proof (erule catch_up.raw_induct [rotated], intro impI)
  fix catch :: "timeval \<Rightarrow> timeval \<Rightarrow> timeval \<Rightarrow> timeval option" and t r now t1
  assume IH: "\<And>t r now t1. catch t r now = Some t1 \<Longrightarrow> tv_near t \<longrightarrow> tv_norm r \<longrightarrow> tv_near t1"
    and run: "(let t1 = timeradd t r in if timercmp_less t1 now then catch t1 r now else Some t1) = Some t1"
    and ok: "tv_near t" "tv_norm r"
  show "tv_near t1" using timeradd_near [OF ok] ok(2) run IH by (auto simp: Let_def split: if_splits)
qed

lemma timer_body_ok:
  assumes "timer_body call now t nx s = Some (Inr (nx1, s1))" and "timers_ok s" and "handlers_use_ops call"
  shows "timers_ok s1"
proof -
  obtain x where x: "ts_timer s t = Some x" using assms(1) by (auto simp: timer_body_def split: option.splits)
  show ?thesis
  proof (cases "s1 = s")
    case False
    then obtain t1 h where t1: "t1 = timerclear \<or> catch_up (tm_timeout x) (tm_repeat x) now = Some t1"
      and call: "call h t (tm_arg x) (s\<lparr>ts_timer := (ts_timer s)(t \<mapsto> x\<lparr>tm_timeout := t1\<rparr>),
        ts_calls := ts_calls s @ [(h, t, tm_arg x)]\<rparr>) = Inr s1"
      using assms(1) x by (auto simp: timer_body_def bindR_eq_Inr_iff split: if_splits option.splits)
    have "tv_near t1" using t1 catch_up_near timers_okD(7,8) [OF assms(2) x] by (auto simp: tv_norm_near)
    from timer_ops_ok [OF _ timers_ok_retime [OF assms(2) x this]] call show ?thesis
      using assms(3) unfolding handlers_use_ops_def by blast
  qed (use assms(2) in simp)
qed

lemma timer_walk_ok:
  "timer_walk call now l pos n nx s = Some r \<Longrightarrow> handlers_use_ops call \<longrightarrow> timers_ok s \<longrightarrow> (\<forall>nx' s'. r = Inr (nx', s') \<longrightarrow> timers_ok s')"
  by (erule timer_walk.raw_induct [rotated])
    (auto split: option.splits sum.splits dest: timer_body_ok)

lemma timer_loop_ok:
  assumes "timer_loop self call now now2 s = Some (Inr (r, w, s'))" and "timers_ok s" and "handlers_use_ops call"
  shows "timers_ok s'"
  using assms timer_walk_ok
  by (auto simp: timer_loop_def bindR_eq_Inr_iff split: sum.splits option.splits)

inductive timer_step :: "timer_state \<Rightarrow> timer_state \<Rightarrow> bool" where
  op: "timer_op s s' \<Longrightarrow> timer_step s s'"
| loop: "timer_loop self call now now2 s = Some (Inr (r, w, s')) \<Longrightarrow> handlers_use_ops call \<Longrightarrow> timer_step s s'"

definition timers_init :: timer_state where
  "timers_init = \<lparr>ts_loops = [], ts_loop = Map.empty, ts_timer = Map.empty, ts_calls = []\<rparr>"

lemma timers_init_ok: "timers_ok timers_init"
  by (simp add: timers_ok_def timers_init_def)

lemma timer_step_ok: "timer_step s s' \<Longrightarrow> timers_ok s \<Longrightarrow> timers_ok s'"
  by (induction rule: timer_step.induct) (auto intro: timer_op_ok timer_loop_ok)

interpretation tsys: stepwise timer_step timers_init timers_ok
  by unfold_locales (rule timers_init_ok, rule timer_step_ok)

text \<open>C20: Whatever operations a program performs on its timers, with new objects at addresses not in use
  and proper clock values, passes of \<open>timer_loop\<close> included, whose handlers perform any of the other
  operations on any timers: in every state that is reached without a fault, every loop is on the global
  list once and belongs to one thread, every timer is on the list of its loop once, and no list holds an
  address that was freed.\<close>

theorem timers_stay_ok:
  assumes "timer_step\<^sup>*\<^sup>* timers_init s"
  shows "timers_ok s"
  using assms by (rule tsys.inv_reached)

text \<open>Two timers, the second one started; its handler destroys it.\<close>

definition once_handlers :: handlers where
  "once_handlers h t a = timer_destroy 7 t"

lemma once_handlers_ops: "handlers_use_ops once_handlers"
  by (auto simp: handlers_use_ops_def once_handlers_def intro: timer_op.destroy)

lemma timers_example_reached:
  "\<exists>s. timer_step\<^sup>*\<^sup>* timers_init s \<and> ts_calls s = [(50, 2, 5)] \<and> ts_loop s 100 = Some \<lparr>lp_pid = 7, lp_timers = [1]\<rparr> \<and>
     ts_timer s 2 = None"
proof -
  let ?now = "\<lparr>tv_sec = 10, tv_usec = 0\<rparr>" and ?later = "\<lparr>tv_sec = 13, tv_usec = 0\<rparr>"
  obtain s1 where s1: "timer_new 7 (Some 100) (Some 1) timers_init = Inr (Some 1, s1)"
    by (simp add: timer_new_def timers_init_def find_timer_loop_def timer_loop_new_def)
  obtain s2 where s2: "timer_new 7 None (Some 2) s1 = Inr (Some 2, s2)"
    using s1 by (auto simp: timer_new_def timers_init_def find_timer_loop_def timer_loop_new_def)
  obtain s3 where s3: "timer_start 7 ?now 2 50 5 2000 0 s2 = Inr s3"
    using s1 s2 by (auto simp: timer_new_def timers_init_def find_timer_loop_def timer_loop_new_def timer_start_def own_timer_def)
  obtain r w s4 where s4: "timer_loop 7 once_handlers ?later ?later s3 = Some (Inr (r, w, s4))"
    "ts_calls s4 = [(50, 2, 5)]" "ts_loop s4 100 = Some \<lparr>lp_pid = 7, lp_timers = [1]\<rparr>" "ts_timer s4 2 = None"
    using s1 s2 s3
    by (auto simp: timer_new_def timers_init_def find_timer_loop_def timer_loop_new_def timer_start_def own_timer_def timer_loop_def
        list_next_entry_def list_succ_def timer_walk.simps timer_body_def timerisset_def timercmp_less_def timerclear_def
        once_handlers_def timer_destroy_def)
  have "timer_op timers_init s1" by (rule timer_op.new [OF s1]) (simp_all add: timers_init_def)
  moreover have "timer_op s1 s2" by (rule timer_op.new [OF s2])
      (use s1 in \<open>auto simp: timer_new_def timers_init_def find_timer_loop_def timer_loop_new_def\<close>)
  moreover have "timer_op s2 s3" by (rule timer_op.start [OF s3]) (simp add: tv_norm_def)
  moreover have "timer_step s3 s4" by (rule timer_step.loop [OF s4(1) once_handlers_ops])
  ultimately have "timer_step\<^sup>*\<^sup>* timers_init s4" by (meson timer_step.op converse_rtranclp_into_rtranclp rtranclp.rtrancl_refl)
  then show ?thesis using s4(2-4) by blast
qed

theorem timers_stay_ok_witness:
  "\<exists>s. timers_ok s \<and> ts_calls s = [(50, 2, 5)] \<and> ts_loop s 100 = Some \<lparr>lp_pid = 7, lp_timers = [1]\<rparr> \<and> ts_timer s 2 = None"
  using timers_example_reached timers_stay_ok by blast

subsection \<open>When a started timer fires\<close>

text \<open>A timer started with a timeout of \<open>ms\<close> milliseconds is due at every clock value from its
  time on, so that the next pass fires it, and is due at no clock value a second or more before its
  time.\<close>

theorem timer_start_due:
  assumes "timer_start self now t h a ms rep s = Inr s'" and "tv_norm now" and "tv_norm later" and "tv_sec now \<noteq> 0"
  shows "\<exists>x. ts_timer s' t = Some x \<and>
    (tv_val now + int ms * 1000 \<le> tv_val later \<longrightarrow> due later x) \<and>
    (due later x \<longrightarrow> tv_val now + int ms * 1000 < tv_val later + 1000000)"
proof -
  obtain x where x: "ts_timer s' t = Some x" "tm_timeout x =
      \<lparr>tv_sec = tv_sec now + int (ms div 1000), tv_usec = tv_usec now + int (ms mod 1000 * 1000)\<rparr>"
    using assms(1) unfolding timer_start_def own_timer_Inr by auto
  have "ms = ms div 1000 * 1000 + ms mod 1000" by simp
  then have "int ms = int (ms div 1000) * 1000 + int (ms mod 1000)" by (metis of_nat_add of_nat_mult of_nat_numeral)
  then have v: "tv_val (tm_timeout x) = tv_val now + int ms * 1000" unfolding x(2) tv_val_def by simp
  have near: "tv_near (tm_timeout x)" using assms(2) mod_less_divisor [of 1000 ms] unfolding x(2) tv_near_def tv_norm_def by auto
  have "timerisset (tm_timeout x)" using assms(2,4) unfolding x(2) timerisset_def tv_norm_def by auto
  then show ?thesis using x(1) v timercmp_late [OF near assms(3)] timercmp_early [OF near assms(3)] by (auto simp: due_def)
qed

theorem timer_start_due_witness:
  "\<exists>s' x. timer_start 7 \<lparr>tv_sec = 10, tv_usec = 0\<rparr> 1 50 5 2500 0 timers_example = Inr s' \<and> ts_timer s' 1 = Some x \<and>
    due \<lparr>tv_sec = 12, tv_usec = 500000\<rparr> x"
proof -
  obtain s' where s': "timer_start 7 \<lparr>tv_sec = 10, tv_usec = 0\<rparr> 1 50 5 2500 0 timers_example = Inr s'"
    by (simp add: timer_start_def own_timer_def timers_example_def)
  then show ?thesis using timer_start_due [OF s', of "\<lparr>tv_sec = 12, tv_usec = 500000\<rparr>"]
    by (auto simp: tv_norm_def tv_val_def)
qed

text \<open>A timer can fire almost a second early: one that is started with 999 milliseconds in the
  last microsecond of a second is due one microsecond later.\<close>

theorem timer_fires_early:
  assumes "timer_start self \<lparr>tv_sec = n, tv_usec = 999999\<rparr> t h a 999 rep s = Inr s'" and "0 < n"
  shows "\<exists>x. ts_timer s' t = Some x \<and> due \<lparr>tv_sec = n + 1, tv_usec = 0\<rparr> x"
  using assms unfolding timer_start_def own_timer_Inr
  by (auto simp: due_def timerisset_def timercmp_less_def)

theorem timer_fires_early_witness:
  "\<exists>s' x. timer_start 7 \<lparr>tv_sec = 10, tv_usec = 999999\<rparr> 1 50 5 999 0 timers_example = Inr s' \<and> ts_timer s' 1 = Some x \<and>
    due \<lparr>tv_sec = 11, tv_usec = 0\<rparr> x"
proof -
  obtain s' where s': "timer_start 7 \<lparr>tv_sec = 10, tv_usec = 999999\<rparr> 1 50 5 999 0 timers_example = Inr s'"
    by (simp add: timer_start_def own_timer_def timers_example_def)
  then show ?thesis using timer_fires_early [OF s'] by auto
qed

text \<open>A handler that destroys the last timer of its thread makes the loop that called it read the
  list head in memory that was freed.\<close>

theorem timer_handler_destroys_last_faults:
  assumes "timers_ok s" and "ts_loop s l = Some lp" and "lp_timers lp = [t]" and "ts_timer s t = Some x"
    and "due now x" and "tm_repeat x = timerclear" and "tm_handler x = Some h"
    and "\<And>s. call h t (tm_arg x) s = timer_destroy (lp_pid lp) t s"
  shows "timer_loop (lp_pid lp) call now now2 s = Some (Inl BadPointer)"
proof -
  have l: "tm_loop x = l" using timers_okD(5) [OF assms(1,2), of t] assms(3,4) by auto
  let ?s = "s\<lparr>ts_timer := (ts_timer s)(t \<mapsto> x\<lparr>tm_timeout := timerclear\<rparr>), ts_calls := ts_calls s @ [(h, t, tm_arg x)]\<rparr>"
  obtain s1 where s1: "timer_destroy (lp_pid lp) t ?s = Inr s1" "ts_loop s1 l = None"
    using assms(2-4) l by (simp add: timer_destroy_def own_timer_def timer_loop_destroy_def)
  have "timer_body call now t nx s = Some (Inr (nx, s1))" for nx
    using assms(4-8) s1(1) by (simp add: timer_body_def due_def)
  moreover have "list_next_entry s1 l None = Inl BadPointer" using s1(2) by (simp add: list_next_entry_def)
  ultimately have "timer_walk call now l (Some t) None nx s = Some (Inl BadPointer)" for nx
    by (subst timer_walk.simps) simp
  then show ?thesis using find_timer_loop_some [OF assms(1,2)] list_next_entry_at [OF assms(1,2), of "[]" t "[]"] assms(2,3)
    by (simp add: timer_loop_def list_next_entry_def)
qed

definition last_timer_example :: timer_state where
  "last_timer_example = \<lparr>ts_loops = [100], ts_loop = [100 \<mapsto> \<lparr>lp_pid = 7, lp_timers = [1]\<rparr>],
     ts_timer = [1 \<mapsto> \<lparr>tm_handler = Some 50, tm_arg = 5, tm_timeout = \<lparr>tv_sec = 3, tv_usec = 0\<rparr>,
                       tm_repeat = timerclear, tm_loop = 100\<rparr>],
     ts_calls = []\<rparr>"

theorem timer_handler_destroys_last_faults_witness:
  "timer_loop 7 (\<lambda>h t a. timer_destroy 7 t) \<lparr>tv_sec = 5, tv_usec = 0\<rparr> \<lparr>tv_sec = 5, tv_usec = 1\<rparr> last_timer_example
    = Some (Inl BadPointer)"
proof -
  have "timers_ok last_timer_example"
    unfolding timers_ok_def last_timer_example_def by (auto simp: tv_near_def tv_norm_def timerclear_def split: if_splits)
  from timer_handler_destroys_last_faults [OF this, of 100 "\<lparr>lp_pid = 7, lp_timers = [1]\<rparr>" 1]
  show ?thesis by (auto simp: last_timer_example_def due_def timerisset_def timercmp_less_def)
qed

end
