(* ===== verification/Task.thy ===== *)
theory Task
  imports Cx_Stdio
begin

text \<open>
  Tasks (\<open>posix/task.c\<close>): a thread that calls a function again and again, and the thread that
  controls it. Both work on the same \<open>struct task\<close>; \<open>task_sys\<close> holds it together with the place each
  of the two threads has reached, and \<open>task_step\<close> lets one of them perform its next access to the
  shared fields. Accesses are taken to be atomic and in program order, the most that an \<open>int\<close> without
  synchronisation can offer. What the task's function returns is arbitrary in each call. A task is
  started once.
\<close>

subsection \<open>The task\<close>

datatype task_type = TASK_T_RUN | TASK_T_TIMEOUT

datatype task_state_t = TASK_S_PENDING | TASK_S_RUNNING | TASK_S_STOPPED

datatype task_control = TASK_C_NONE | TASK_C_SUSPEND | TASK_C_RESUME | TASK_C_STOP

definition TASK_NAME_LEN :: nat where
  "TASK_NAME_LEN = 64"

record task =
  t_id :: nat
  t_name :: string
  t_state :: task_state_t
  t_control :: task_control
  t_type :: task_type
  t_fn :: nat
  t_arg :: nat
  t_timeout :: int

definition task_new :: "allocator \<Rightarrow> string \<Rightarrow> nat \<Rightarrow> nat \<Rightarrow> task option" where
  "task_new al name fn arg =
     (if grant al 112
      then Some \<lparr>t_id = 0, t_name = snprintf_s TASK_NAME_LEN name, t_state = TASK_S_PENDING,
                 t_control = TASK_C_NONE, t_type = TASK_T_RUN, t_fn = fn, t_arg = arg, t_timeout = 0\<rparr>
      else None)"

definition task_new_timeout :: "allocator \<Rightarrow> string \<Rightarrow> nat \<Rightarrow> nat \<Rightarrow> int \<Rightarrow> task option" where
  "task_new_timeout al name fn arg timeout =
     map_option (\<lambda>t. t\<lparr>t_type := TASK_T_TIMEOUT, t_fn := fn, t_timeout := timeout\<rparr>) (task_new al name 0 arg)"

definition task_state :: "task \<Rightarrow> task_state_t" where
  "task_state t = t_state t"

subsection \<open>The thread of the task\<close>

text \<open>
  The places of \<open>task_routine\<close>: before line 27, at the three tests of the loop, at the two
  assignments after the test for \<open>RESUME\<close>, at the assignment and the \<open>sleep\<close> after the test for
  \<open>SUSPEND\<close>, at the call of the function, and after the return.
\<close>

datatype routine_pc =
    NotStarted | Entry | TestStop | TestResume | SetRunning | ClearControl
  | TestSuspend | SetPending | Sleeping | CallFn | Finished

text \<open>
  One access of the routine; \<open>r\<close> is what the task's function returns. The log of calls records the
  function, its argument and, for a task with a timeout, the timeout.
\<close>

record task_sys =
  sy_task :: "task option"
  sy_pc :: routine_pc
  sy_calls :: "(nat \<times> nat \<times> int option) list"

definition fn_call :: "task \<Rightarrow> nat \<times> nat \<times> int option" where
  "fn_call t = (t_fn t, t_arg t, if t_type t = TASK_T_RUN then None else Some (t_timeout t))"

definition task_routine :: "int \<Rightarrow> task \<Rightarrow> task_sys \<Rightarrow> task_sys" where
  "task_routine r t s =
     (case sy_pc s of
        NotStarted \<Rightarrow> s
      | Entry \<Rightarrow> s\<lparr>sy_task := Some (t\<lparr>t_state := TASK_S_RUNNING\<rparr>), sy_pc := TestStop\<rparr>
      | TestStop \<Rightarrow> s\<lparr>sy_pc := if t_control t = TASK_C_STOP then Finished else TestResume\<rparr>
      | TestResume \<Rightarrow> s\<lparr>sy_pc := if t_control t = TASK_C_RESUME then SetRunning else TestSuspend\<rparr>
      | SetRunning \<Rightarrow> s\<lparr>sy_task := Some (t\<lparr>t_state := TASK_S_RUNNING\<rparr>), sy_pc := ClearControl\<rparr>
      | ClearControl \<Rightarrow> s\<lparr>sy_task := Some (t\<lparr>t_control := TASK_C_NONE\<rparr>), sy_pc := TestSuspend\<rparr>
      | TestSuspend \<Rightarrow> s\<lparr>sy_pc := if t_control t = TASK_C_SUSPEND then SetPending else CallFn\<rparr>
      | SetPending \<Rightarrow> s\<lparr>sy_task := Some (t\<lparr>t_state := TASK_S_PENDING\<rparr>), sy_pc := Sleeping\<rparr>
      | Sleeping \<Rightarrow> s\<lparr>sy_pc := TestStop\<rparr>
      | CallFn \<Rightarrow> s\<lparr>sy_pc := if r \<noteq> 0 then Finished else TestStop, sy_calls := sy_calls s @ [fn_call t]\<rparr>
      | Finished \<Rightarrow> s)"

subsection \<open>The controlling thread\<close>

text \<open>
  Its places: outside of the operations, after the assertion of \<open>task_suspend\<close> or \<open>task_resume\<close>, in
  \<open>pthread_join\<close> and after it. The flag tells whether \<open>task_destroy\<close> is what called \<open>task_stop\<close>.
\<close>

datatype control_pc = Outside | Suspending | Resuming | Joining bool | Joined bool

definition task_start :: "nat \<Rightarrow> task \<Rightarrow> task_sys \<Rightarrow> int \<times> task_sys" where
  "task_start tid t s =
     (if tid = 0 then (11, s) else (0, s\<lparr>sy_task := Some (t\<lparr>t_id := tid\<rparr>), sy_pc := Entry\<rparr>))"

definition task_stop_begin :: "task \<Rightarrow> task_sys \<Rightarrow> task_sys" where
  "task_stop_begin t s = s\<lparr>sy_task := Some (t\<lparr>t_control := TASK_C_STOP\<rparr>)\<rparr>"

definition task_stop_end :: "task \<Rightarrow> task_sys \<Rightarrow> task_sys" where
  "task_stop_end t s = s\<lparr>sy_task := Some (t\<lparr>t_state := TASK_S_STOPPED\<rparr>)\<rparr>"

definition task_suspend_store :: "task \<Rightarrow> task_sys \<Rightarrow> task_sys" where
  "task_suspend_store t s = s\<lparr>sy_task := Some (t\<lparr>t_control := TASK_C_SUSPEND\<rparr>)\<rparr>"

definition task_resume_store :: "task \<Rightarrow> task_sys \<Rightarrow> task_sys" where
  "task_resume_store t s = s\<lparr>sy_task := Some (t\<lparr>t_control := TASK_C_RESUME\<rparr>)\<rparr>"

text \<open>
  The steps of the two threads. In \<open>pthread_join\<close> the controller waits until the routine has
  returned. \<open>task_destroy\<close> calls \<open>task_stop\<close> unless the state says that the task is stopped, and frees
  the task. The steps of the routine carry what the task's function returns. There is no step for an
  assertion that fails, which ends the program, nor for a \<open>pthread_join\<close> of a thread that was never
  created or is joined already, which has no defined behaviour.
\<close>

inductive task_step :: "task_sys \<times> control_pc \<Rightarrow> int option \<Rightarrow> task_sys \<times> control_pc \<Rightarrow> bool" where
  routine: "sy_task s = Some t \<Longrightarrow> sy_pc s \<notin> {NotStarted, Finished} \<Longrightarrow>
    task_step (s, c) (Some r) (task_routine r t s, c)"
| start: "sy_task s = Some t \<Longrightarrow> sy_pc s = NotStarted \<Longrightarrow> t_id t = 0 \<Longrightarrow> task_start tid t s = (rc, s') \<Longrightarrow>
    task_step (s, Outside) None (s', Outside)"
| suspend: "sy_task s = Some t \<Longrightarrow> t_state t = TASK_S_RUNNING \<Longrightarrow> task_step (s, Outside) None (s, Suspending)"
| suspend_store: "sy_task s = Some t \<Longrightarrow> task_step (s, Suspending) None (task_suspend_store t s, Outside)"
| resume: "sy_task s = Some t \<Longrightarrow> t_state t = TASK_S_PENDING \<Longrightarrow> task_step (s, Outside) None (s, Resuming)"
| resume_store: "sy_task s = Some t \<Longrightarrow> task_step (s, Resuming) None (task_resume_store t s, Outside)"
| stop: "sy_task s = Some t \<Longrightarrow> t_id t \<noteq> 0 \<Longrightarrow> t_state t \<noteq> TASK_S_STOPPED \<Longrightarrow>
    task_step (s, Outside) None (task_stop_begin t s, Joining False)"
| destroy: "sy_task s = Some t \<Longrightarrow> t_id t \<noteq> 0 \<Longrightarrow> t_state t \<noteq> TASK_S_STOPPED \<Longrightarrow>
    task_step (s, Outside) None (task_stop_begin t s, Joining True)"
| join: "sy_pc s = Finished \<Longrightarrow> task_step (s, Joining d) None (s, Joined d)"
| stop_end: "sy_task s = Some t \<Longrightarrow> task_step (s, Joined False) None (task_stop_end t s, Outside)"
| destroy_end: "sy_task s = Some t \<Longrightarrow> task_step (s, Joined True) None ((task_stop_end t s)\<lparr>sy_task := None\<rparr>, Outside)"
| destroy_stopped: "sy_task s = Some t \<Longrightarrow> t_state t = TASK_S_STOPPED \<Longrightarrow>
    task_step (s, Outside) None (s\<lparr>sy_task := None\<rparr>, Outside)"

inductive_cases joining_stepE: "task_step (s, Joining d) r x"

inductive task_run :: "task_sys \<times> control_pc \<Rightarrow> int option list \<Rightarrow> task_sys \<times> control_pc \<Rightarrow> bool" where
  refl: "task_run x [] x"
| step: "task_run x rs y \<Longrightarrow> task_step y r z \<Longrightarrow> task_run x (rs @ [r]) z"

definition task_init :: "task \<Rightarrow> task_sys \<times> control_pc" where
  "task_init t = (\<lparr>sy_task = Some t, sy_pc = NotStarted, sy_calls = []\<rparr>, Outside)"

subsection \<open>What holds at every moment\<close>

definition task_ok :: "task_sys \<times> control_pc \<Rightarrow> bool" where
  "task_ok x \<longleftrightarrow> (case x of (s, c) \<Rightarrow>
    (case c of Joined _ \<Rightarrow> sy_pc s = Finished | _ \<Rightarrow> True) \<and>
    (case c of Joining _ \<Rightarrow> sy_pc s \<noteq> NotStarted \<and> sy_task s \<noteq> None | _ \<Rightarrow> True) \<and>
    (case sy_task s of
       None \<Rightarrow> sy_pc s = Finished
     | Some t \<Rightarrow> (t_id t = 0 \<longleftrightarrow> sy_pc s = NotStarted) \<and> (t_state t = TASK_S_STOPPED \<longrightarrow> sy_pc s = Finished)))"

lemma task_step_ok: "task_step x r y \<Longrightarrow> task_ok x \<Longrightarrow> task_ok y"
proof (induction rule: task_step.induct)
  case (routine s t c r)
  then show ?case
    by (cases "sy_pc s"; cases c) (auto simp: task_ok_def task_routine_def)
qed (auto simp: task_ok_def task_start_def task_stop_begin_def task_stop_end_def task_suspend_store_def
    task_resume_store_def split: if_splits option.splits)

lemma task_run_ok: "task_run x rs y \<Longrightarrow> task_ok x \<Longrightarrow> task_ok y"
  by (induction rule: task_run.induct) (auto intro: task_step_ok)

lemma task_init_ok: "t_id t = 0 \<Longrightarrow> t_state t = TASK_S_PENDING \<Longrightarrow> task_ok (task_init t)"
  by (simp add: task_ok_def task_init_def)

lemma task_new_timeout_init:
  "task_new_timeout al name fn arg timeout = Some t \<Longrightarrow> t_id t = 0 \<and> t_state t = TASK_S_PENDING"
  by (auto simp: task_new_timeout_def task_new_def split: if_splits)

lemma task_new_init: "task_new al name fn arg = Some t \<Longrightarrow> t_id t = 0 \<and> t_state t = TASK_S_PENDING"
  by (auto simp: task_new_def split: if_splits)

text \<open>A routine that has returned makes no further call.\<close>

lemma finished_stays:
  "task_step x r y \<Longrightarrow> sy_pc (fst x) = Finished \<Longrightarrow> sy_pc (fst y) = Finished \<and> sy_calls (fst y) = sy_calls (fst x)"
  by (induction rule: task_step.induct)
    (auto simp: task_stop_begin_def task_stop_end_def task_suspend_store_def task_resume_store_def)

lemma finished_run:
  "task_run x rs y \<Longrightarrow> sy_pc (fst x) = Finished \<Longrightarrow> sy_pc (fst y) = Finished \<and> sy_calls (fst y) = sy_calls (fst x)"
  by (induction rule: task_run.induct) (auto dest: finished_stays)

text \<open>C23: In whatever order the two threads run: once the task is marked as stopped or has been
  freed, its routine has returned; the function is not called again, and the freed task is not
  touched.\<close>

theorem task_stopped_is_over:
  assumes "task_new al name fn arg = Some t \<or> task_new_timeout al name fn arg timeout = Some t"
    and "task_run (task_init t) rs (s, c)"
    and "case sy_task s of None \<Rightarrow> True | Some t1 \<Rightarrow> task_state t1 = TASK_S_STOPPED"
  shows "sy_pc s = Finished \<and> (\<forall>rs' s' c'. task_run (s, c) rs' (s', c') \<longrightarrow> sy_calls s' = sy_calls s)"
proof -
  have "task_ok (s, c)"
    using task_run_ok [OF assms(2)] task_init_ok assms(1) task_new_init task_new_timeout_init by blast
  then have f: "sy_pc s = Finished" using assms(3) by (auto simp: task_ok_def task_state_def split: option.splits)
  then show ?thesis using finished_run by fastforce
qed

text \<open>A task and the first accesses of its life: it is started and runs for a while.\<close>

definition task_example :: task where
  "task_example = \<lparr>t_id = 0, t_name = ''t'', t_state = TASK_S_PENDING, t_control = TASK_C_NONE,
     t_type = TASK_T_RUN, t_fn = 1, t_arg = 2, t_timeout = 0\<rparr>"

lemma task_example_new: "task_new generous ''t'' 1 2 = Some task_example"
  by (simp add: task_new_def task_example_def generous_def snprintf_s_def TASK_NAME_LEN_def)

abbreviation running_example :: "task_state_t \<Rightarrow> task_control \<Rightarrow> routine_pc \<Rightarrow> task_sys" where
  "running_example st ctl pc \<equiv>
     \<lparr>sy_task = Some \<lparr>t_id = 9, t_name = ''t'', t_state = st, t_control = ctl, t_type = TASK_T_RUN,
        t_fn = 1, t_arg = 2, t_timeout = 0\<rparr>, sy_pc = pc, sy_calls = []\<rparr>"

lemma task_run_snoc: "task_run y rs z \<Longrightarrow> task_step x r y \<Longrightarrow> task_run x (r # rs) z"
proof (induction arbitrary: x r rule: task_run.induct)
  case (refl y)
  then show ?case using task_run.step [OF task_run.refl] by fastforce
next
  case (step y rs z q w)
  then show ?case using task_run.step [of x "r # rs" z q w] by simp
qed

lemmas task_run_Cons = task_run_snoc [rotated]

lemma example_started: "task_step (task_init task_example) None (running_example TASK_S_PENDING TASK_C_NONE Entry, Outside)"
  unfolding task_init_def by (rule task_step.start [where t = task_example and tid = 9 and rc = 0])
    (simp_all add: task_start_def task_example_def)

lemma example_entered:
  "task_step (running_example TASK_S_PENDING c Entry, k) (Some 0) (running_example TASK_S_RUNNING c TestStop, k)"
  using task_step.routine [of "running_example TASK_S_PENDING c Entry" _ k 0] by (simp add: task_routine_def)

lemma example_stopped:
  "task_run (running_example TASK_S_RUNNING TASK_C_NONE TestStop, Outside) [None, Some 0, None, None]
    (running_example TASK_S_STOPPED TASK_C_STOP Finished, Outside)"
proof -
  let ?s = "running_example TASK_S_RUNNING"
  have "task_step (?s TASK_C_NONE TestStop, Outside) None (?s TASK_C_STOP TestStop, Joining False)"
    using task_step.stop [of "?s TASK_C_NONE TestStop"] by (simp add: task_stop_begin_def)
  moreover have "task_step (?s TASK_C_STOP TestStop, Joining False) (Some 0) (?s TASK_C_STOP Finished, Joining False)"
    using task_step.routine [of "?s TASK_C_STOP TestStop" _ "Joining False" 0] by (simp add: task_routine_def)
  moreover have "task_step (?s TASK_C_STOP Finished, Joining False) None (?s TASK_C_STOP Finished, Joined False)"
    by (rule task_step.join) simp
  moreover have "task_step (?s TASK_C_STOP Finished, Joined False) None (running_example TASK_S_STOPPED TASK_C_STOP Finished, Outside)"
    using task_step.stop_end [of "?s TASK_C_STOP Finished"] by (simp add: task_stop_end_def)
  ultimately show ?thesis by (blast intro: task_run_Cons task_run.refl)
qed

theorem task_stopped_is_over_witness:
  "\<exists>s s'. task_run (task_init task_example) [None, Some 0, None, Some 0, None, None] (s, Outside) \<and> sy_pc s = Finished \<and>
    task_run (s, Outside) [None] (s', Outside) \<and> sy_task s' = None \<and> sy_calls s' = sy_calls s"
proof -
  let ?s = "running_example TASK_S_STOPPED TASK_C_STOP Finished"
  have run: "task_run (task_init task_example) [None, Some 0, None, Some 0, None, None] (?s, Outside)"
    by (rule task_run_Cons [OF example_started task_run_Cons [OF example_entered example_stopped]])
  have "task_step (?s, Outside) None (?s\<lparr>sy_task := None\<rparr>, Outside)" using task_step.destroy_stopped [of ?s] by simp
  then have free: "task_run (?s, Outside) [None] (?s\<lparr>sy_task := None\<rparr>, Outside)" by (rule task_run_Cons) (rule task_run.refl)
  have "sy_pc ?s = Finished \<and> sy_calls (?s\<lparr>sy_task := None\<rparr>) = sy_calls ?s"
    using task_stopped_is_over [OF disjI1 [OF task_example_new] run] free by (auto simp: task_state_def)
  then show ?thesis using run free by (intro exI [of _ ?s] exI [of _ "?s\<lparr>sy_task := None\<rparr>"]) simp
qed

subsection \<open>Stopping\<close>

text \<open>How many steps the routine still makes once it is asked to stop, when it sees the request.\<close>

fun stop_distance :: "routine_pc \<Rightarrow> nat" where
  "stop_distance Finished = 0"
| "stop_distance TestStop = 1"
| "stop_distance Entry = 2"
| "stop_distance CallFn = 2"
| "stop_distance Sleeping = 2"
| "stop_distance SetPending = 3"
| "stop_distance TestSuspend = 3"
| "stop_distance _ = 4"

definition stop_seen :: "task_sys \<Rightarrow> bool" where
  "stop_seen s \<longleftrightarrow> (\<exists>t. sy_task s = Some t \<and> t_control t = TASK_C_STOP) \<and> sy_pc s \<notin> {NotStarted, SetRunning, ClearControl}"

lemma stop_seen_routine:
  assumes "stop_seen s" and "sy_task s = Some t" and "sy_pc s \<noteq> Finished"
  shows "stop_seen (task_routine r t s) \<and> stop_distance (sy_pc (task_routine r t s)) < stop_distance (sy_pc s)"
  using assms by (cases "sy_pc s") (auto simp: stop_seen_def task_routine_def)

lemma stop_seen_step:
  assumes "task_step (s, Joining d) r (s', c')" and "stop_seen s"
  shows "c' = Joined d \<and> s' = s \<or>
    c' = Joining d \<and> stop_seen s' \<and> stop_distance (sy_pc s') < stop_distance (sy_pc s)"
  using assms(1) by (cases rule: joining_stepE) (use stop_seen_routine [OF assms(2)] in auto)

text \<open>After the join no operation waits again.\<close>

definition over :: "task_sys \<times> control_pc \<Rightarrow> bool" where
  "over x \<longleftrightarrow> sy_pc (fst x) = Finished \<and> ((\<exists>d. snd x = Joined d) \<or>
    snd x = Outside \<and> (\<forall>t. sy_task (fst x) = Some t \<longrightarrow> t_state t = TASK_S_STOPPED))"

lemma over_step: "task_step x r y \<Longrightarrow> over x \<Longrightarrow> over y"
  by (induction rule: task_step.induct) (auto simp: over_def task_stop_end_def)

lemma stop_seen_run:
  assumes "task_run (s, Joining d) rs y" and "stop_seen s"
  shows "over y \<or> snd y = Joining d \<and> stop_seen (fst y) \<and> length rs + stop_distance (sy_pc (fst y)) \<le> stop_distance (sy_pc s)"
  using assms
proof (induction "(s, Joining d)" rs y rule: task_run.induct)
  case (step rs y r z)
  from step(2,4) consider "over y" | "snd y = Joining d" "stop_seen (fst y)"
    "length rs + stop_distance (sy_pc (fst y)) \<le> stop_distance (sy_pc s)" by blast
  then show ?case
  proof cases
    case 1
    then show ?thesis using over_step step(3) by blast
  next
    case 2
    have st: "task_step (fst y, Joining d) r (fst z, snd z)" using step(3) 2(1) by (metis prod.collapse)
    from stop_seen_step [OF st 2(2)] show ?thesis
    proof
      assume "snd z = Joined d \<and> fst z = fst y"
      moreover have "sy_pc (fst y) = Finished" using st calculation by (auto elim: joining_stepE)
      ultimately show ?thesis by (auto simp: over_def)
    qed (use 2(3) in auto)
  qed
qed simp

lemma joining_not_stuck:
  assumes "sy_task s \<noteq> None" and "sy_pc s \<noteq> NotStarted"
  shows "\<exists>r z. task_step (s, Joining d) r z"
  using assms task_step.join [of s d] task_step.routine [of s _ "Joining d" 0] by (cases "sy_pc s = Finished") auto

text \<open>C17: \<open>task_stop\<close> returns, unless it strikes between the routine's test for \<open>RESUME\<close> and the
  assignment that follows it: whatever the task's function returns, the controller waits for at most
  four more steps of the routine, and it never waits for a routine that cannot go on.\<close>

theorem task_stop_returns:
  assumes "sy_task s = Some t" and "sy_pc s \<notin> {NotStarted, SetRunning, ClearControl}"
    and "task_run (task_stop_begin t s, Joining d) rs (s', c')"
  shows "(\<exists>e. c' = Joining e) \<longrightarrow> length rs \<le> 4 \<and> (\<exists>r z. task_step (s', c') r z)"
proof
  assume c: "\<exists>e. c' = Joining e"
  have "stop_seen (task_stop_begin t s)" using assms(1,2) by (simp add: stop_seen_def task_stop_begin_def)
  from stop_seen_run [OF assms(3) this] c
  have j: "c' = Joining d" "stop_seen s'" "length rs + stop_distance (sy_pc s') \<le> stop_distance (sy_pc (task_stop_begin t s))"
    by (auto simp: over_def)
  have "stop_distance q \<le> 4" for q by (cases q) simp_all
  then have "length rs \<le> 4" using j(3) by (meson add_leD1 le_trans)
  then show "length rs \<le> 4 \<and> (\<exists>r z. task_step (s', c') r z)"
    using joining_not_stuck [of s' d] j(1,2) by (auto simp: stop_seen_def)
qed

theorem task_stop_returns_witness:
  "\<exists>t s'. sy_task (running_example TASK_S_RUNNING TASK_C_NONE CallFn) = Some t \<and>
    task_run (task_stop_begin t (running_example TASK_S_RUNNING TASK_C_NONE CallFn), Joining False) [Some 0] (s', Joining False) \<and>
    (\<exists>r z. task_step (s', Joining False) r z)"
proof -
  let ?s = "running_example TASK_S_RUNNING TASK_C_NONE CallFn"
  let ?b = "task_stop_begin (the (sy_task ?s)) ?s"
  have "task_step (?b, Joining False) (Some 0) (task_routine 0 (the (sy_task ?b)) ?b, Joining False)"
    by (rule task_step.routine) (simp_all add: task_stop_begin_def)
  then have run: "task_run (?b, Joining False) [Some 0] (task_routine 0 (the (sy_task ?b)) ?b, Joining False)"
    by (rule task_run_Cons) (rule task_run.refl)
  then have "\<exists>r z. task_step (task_routine 0 (the (sy_task ?b)) ?b, Joining False) r z"
    using task_stop_returns [OF _ _ run] by auto
  then show ?thesis using run by (intro exI [of _ "the (sy_task ?s)"] exI [of _ "task_routine 0 (the (sy_task ?b)) ?b"] conjI) simp_all
qed

text \<open>The request to stop is overwritten, and the routine goes on.\<close>

definition stop_lost :: "task_sys \<Rightarrow> bool" where
  "stop_lost s \<longleftrightarrow> (\<exists>t. sy_task s = Some t \<and>
    (sy_pc s \<in> {SetRunning, ClearControl} \<or> t_control t = TASK_C_NONE \<and> sy_pc s \<notin> {NotStarted, Finished}))"

lemma stop_lost_routine:
  assumes "stop_lost s" and "sy_task s = Some t"
  shows "stop_lost (task_routine 0 t s)"
  using assms by (cases "sy_pc s") (auto simp: stop_lost_def task_routine_def)

lemma stop_lost_step:
  assumes "task_step (s, Joining d) r (s', c')" and "stop_lost s" and "r = None \<or> r = Some 0"
  shows "c' = Joining d \<and> stop_lost s'"
  using assms(1) by (cases rule: joining_stepE) (use stop_lost_routine [OF assms(2)] assms(2,3) in \<open>auto simp: stop_lost_def\<close>)

lemma stop_lost_run:
  assumes "task_run (s, Joining d) rs y" and "stop_lost s" and "set rs \<subseteq> {None, Some 0}"
  shows "snd y = Joining d \<and> stop_lost (fst y)"
  using assms
proof (induction "(s, Joining d)" rs y rule: task_run.induct)
  case (step rs y r z)
  then have "snd y = Joining d" "stop_lost (fst y)" by auto
  moreover have "task_step (fst y, Joining d) r (fst z, snd z)" using step(3) calculation(1) by (metis prod.collapse)
  ultimately show ?case using stop_lost_step [of "fst y" d r "fst z" "snd z"] step(5) by auto
qed simp

lemma routine_runs:
  assumes "stop_lost s"
  shows "\<exists>s'. task_run (s, Joining d) (replicate n (Some 0)) (s', Joining d)"
  using assms
proof (induction n arbitrary: s)
  case 0
  then show ?case using task_run.refl by auto
next
  case (Suc n)
  then obtain t where t: "sy_task s = Some t" "sy_pc s \<notin> {NotStarted, Finished}" by (auto simp: stop_lost_def)
  obtain s' where "task_run (task_routine 0 t s, Joining d) (replicate n (Some 0)) (s', Joining d)"
    using Suc.IH [OF stop_lost_routine [OF Suc.prems t(1)]] by blast
  then show ?case using task_run_Cons [OF task_step.routine [OF t]] by fastforce
qed

text \<open>C39: When \<open>task_stop\<close> stores its request after the routine has found \<open>RESUME\<close> and before it clears
  the control word, the request is lost: as long as the task's function returns zero, the routine
  never returns and the caller of \<open>task_stop\<close> waits for ever.\<close>

theorem task_stop_lost:
  assumes "sy_task s = Some t" and "sy_pc s \<in> {SetRunning, ClearControl}"
    and "task_run (task_stop_begin t s, Joining d) rs (s', c')" and "set rs \<subseteq> {None, Some 0}"
  shows "c' = Joining d \<and> sy_pc s' \<noteq> Finished"
proof -
  have "stop_lost (task_stop_begin t s)" using assms(1,2) by (simp add: stop_lost_def task_stop_begin_def)
  from stop_lost_run [OF assms(3) this assms(4)] show ?thesis by (auto simp: stop_lost_def)
qed

text \<open>The routine gets there when a resumed task is stopped at once.\<close>

theorem task_stop_lost_witness:
  "\<exists>rs s t s'. task_run (task_init task_example) rs (s, Outside) \<and> sy_task s = Some t \<and>
    task_run (task_stop_begin t s, Joining False) [Some 0, Some 0, Some 0, Some 0, Some 0, Some 0] (s', Joining False) \<and> sy_pc s' \<noteq> Finished"
proof -
  let ?p = "running_example TASK_S_PENDING" and ?s = "running_example TASK_S_RUNNING TASK_C_RESUME"
  have "task_step (?p TASK_C_NONE Entry, Outside) None (?p TASK_C_NONE Entry, Resuming)"
    using task_step.resume [of "?p TASK_C_NONE Entry"] by simp
  moreover have "task_step (?p TASK_C_NONE Entry, Resuming) None (?p TASK_C_RESUME Entry, Outside)"
    using task_step.resume_store [of "?p TASK_C_NONE Entry"] by (simp add: task_resume_store_def)
  moreover have "task_step (?s TestStop, Outside) (Some 0) (?s TestResume, Outside)"
    using task_step.routine [of "?s TestStop" _ Outside 0] by (simp add: task_routine_def)
  moreover have "task_step (?s TestResume, Outside) (Some 0) (?s SetRunning, Outside)"
    using task_step.routine [of "?s TestResume" _ Outside 0] by (simp add: task_routine_def)
  ultimately have run: "task_run (task_init task_example) [None, None, None, Some 0, Some 0, Some 0] (?s SetRunning, Outside)"
    by (blast intro: task_run_Cons task_run.refl example_started example_entered)
  let ?t = "the (sy_task (?s SetRunning))"
  obtain s' where s': "task_run (task_stop_begin ?t (?s SetRunning), Joining False)
      [Some 0, Some 0, Some 0, Some 0, Some 0, Some 0] (s', Joining False)"
    using routine_runs [of "task_stop_begin ?t (?s SetRunning)" False 6] by (auto simp: stop_lost_def task_stop_begin_def numeral_eq_Suc)
  have "sy_pc s' \<noteq> Finished" using task_stop_lost [OF _ _ s'] by simp
  then show ?thesis using run s'
    by (intro exI [of _ "[None, None, None, Some 0, Some 0, Some 0]"] exI [of _ "?s SetRunning"] exI [of _ ?t] exI [of _ s'] conjI) simp_all
qed

end
