(* ===== verification/Module.thy ===== *)
theory Module
  imports Cx_Stdio "HOL-Library.Multiset"
begin

text \<open>
  Loadable modules (\<open>posix/module.c\<close>): the list of the loaded shared objects, newest first (justified
  by \<open>Cx_List\<close>), loading, unloading and looking up, and the reading of parameters. The dynamic loader
  and the directory functions are arguments; \<open>ms_opened\<close> and \<open>ms_closed\<close> record the handles that
  \<open>dlopen\<close> returned and that were given to \<open>dlclose\<close>, \<open>ms_exits\<close> the exit functions called. A
  module's initialiser may change its own module. The code checks no allocation, and the model takes
  them as granted.
\<close>

subsection \<open>State\<close>

datatype MODULE_ERROR = MOD_ERELOAD | MOD_EOPEN | MOD_ESYM | MOD_EINIT | MOD_EEXIT

definition MODULE_ERRMSG_SIZE :: nat where
  "MODULE_ERRMSG_SIZE = 512"

record module =
  m_addr :: nat
  m_filepath :: string
  m_filename :: string
  m_name :: string
  m_param :: "string option"
  m_alias :: "string option"
  m_desc :: "string option"
  m_version :: int
  m_handle :: nat
  m_init_fn :: nat

record mod_state =
  ms_modules :: "module list"
  ms_err :: MODULE_ERROR
  ms_errmsg :: string
  ms_opened :: "nat list"
  ms_closed :: "nat list"
  ms_exits :: "nat list"

text \<open>What the model uses of \<open>dlfcn.h\<close>, and what a module's initialiser does.\<close>

record loader =
  ld_open :: "string \<Rightarrow> nat option"
  ld_sym :: "nat \<Rightarrow> string \<Rightarrow> nat option"
  ld_close :: "nat \<Rightarrow> int"
  ld_error :: string
  ld_init :: "nat \<Rightarrow> module \<Rightarrow> int \<times> module"

definition mod_errno :: "mod_state \<Rightarrow> MODULE_ERROR" where
  "mod_errno s = ms_err s"

definition mod_error :: "mod_state \<Rightarrow> string" where
  "mod_error s = ms_errmsg s"

definition set_error :: "MODULE_ERROR \<Rightarrow> string \<Rightarrow> mod_state \<Rightarrow> mod_state" where
  "set_error e text s = s\<lparr>ms_err := e, ms_errmsg := snprintf_s MODULE_ERRMSG_SIZE text\<rparr>"

subsection \<open>Lookup and attributes\<close>

text \<open>\<open>strrchr\<close>\<close>

fun strrchr_c :: "string \<Rightarrow> char \<Rightarrow> nat option" where
  "strrchr_c [] c = None"
| "strrchr_c (x # xs) c =
     (case strrchr_c xs c of Some i \<Rightarrow> Some (Suc i) | None \<Rightarrow> if x = c then Some 0 else None)"

definition get_filename :: "string \<Rightarrow> string" where
  "get_filename filepath =
     (case strrchr_c filepath (CHR ''/'') of None \<Rightarrow> filepath | Some start \<Rightarrow> drop (start + 1) filepath)"

fun find_in_modules :: "module list \<Rightarrow> string \<Rightarrow> module option" where
  "find_in_modules [] name = None"
| "find_in_modules (pos # rest) name =
     (if strcmp_eq (m_name pos) name \<or> strcmp_eq (m_filename pos) name then Some pos else find_in_modules rest name)"

definition find_module :: "mod_state \<Rightarrow> string \<Rightarrow> module option" where
  "find_module s name = find_in_modules (ms_modules s) name"

fun count_modules :: "module list \<Rightarrow> nat \<Rightarrow> nat" where
  "count_modules [] i = i"
| "count_modules (pos # rest) i = count_modules rest (i + 1)"

definition get_modules_count :: "mod_state \<Rightarrow> nat" where
  "get_modules_count s = count_modules (ms_modules s) 0"

fun store_modules :: "module list \<Rightarrow> nat \<Rightarrow> nat list \<Rightarrow> nat list res" where
  "store_modules [] i buf = Inr buf"
| "store_modules (pos # rest) i buf =
     (if i < length buf then store_modules rest (i + 1) (buf[i := m_addr pos]) else Inl OutOfBounds)"

definition get_modules :: "mod_state \<Rightarrow> nat list \<Rightarrow> nat list res" where
  "get_modules s buf = store_modules (ms_modules s) 0 buf"

definition module_set_name :: "module \<Rightarrow> string \<Rightarrow> module" where
  "module_set_name m name = m\<lparr>m_name := name\<rparr>"

definition module_set_info :: "module \<Rightarrow> string option \<Rightarrow> string option \<Rightarrow> module" where
  "module_set_info m alias desc =
     (let m1 = m\<lparr>m_alias := None, m_desc := None\<rparr>;
          m2 = (case alias of None \<Rightarrow> m1 | Some a \<Rightarrow> m1\<lparr>m_alias := Some a\<rparr>)
      in case desc of None \<Rightarrow> m2 | Some d \<Rightarrow> m2\<lparr>m_desc := Some d\<rparr>)"

definition module_set_version :: "module \<Rightarrow> int \<Rightarrow> module" where
  "module_set_version m version = m\<lparr>m_version := version\<rparr>"

definition module_get_param :: "module \<Rightarrow> string option" where
  "module_get_param m = m_param m"

subsection \<open>Loading and unloading\<close>

text \<open>The first argument is the address \<open>malloc\<close> gives to the new module.\<close>

definition load_module :: "nat \<Rightarrow> loader \<Rightarrow> string \<Rightarrow> string option \<Rightarrow> mod_state \<Rightarrow> module option \<times> mod_state" where
  "load_module addr ld filepath param s =
     (let filename = get_filename filepath
      in if find_module s filename \<noteq> None then (None, s\<lparr>ms_err := MOD_ERELOAD\<rparr>)
         else case ld_open ld filepath of
           None \<Rightarrow> (None, set_error MOD_EOPEN (ld_error ld) s)
         | Some handle \<Rightarrow>
             let s1 = s\<lparr>ms_opened := ms_opened s @ [handle]\<rparr>
             in (case ld_sym ld handle ''__module_init'' of
                  None \<Rightarrow> (None, set_error MOD_ESYM (ld_error ld) (s1\<lparr>ms_closed := ms_closed s1 @ [handle]\<rparr>))
                | Some func \<Rightarrow>
                    let m = \<lparr>m_addr = addr, m_filepath = filepath, m_filename = filename, m_name = filename,
                             m_param = param, m_alias = None, m_desc = None, m_version = 0,
                             m_handle = handle, m_init_fn = func\<rparr>;
                        (r, m1) = ld_init ld func m
                    in if r \<noteq> 0
                       then (None, set_error MOD_EINIT (''module_init of '' @ filepath @ '' failed!'' @ [CHR 0x0A])
                                     (s1\<lparr>ms_closed := ms_closed s1 @ [handle]\<rparr>))
                       else (Some m1, s1\<lparr>ms_modules := m1 # ms_modules s1\<rparr>)))"

definition unload_module :: "loader \<Rightarrow> module \<Rightarrow> mod_state \<Rightarrow> (int \<times> mod_state) res" where
  "unload_module ld m s =
     (let s1 = (case ld_sym ld (m_handle m) ''__module_exit'' of
                  None \<Rightarrow> set_error MOD_ESYM (ld_error ld) s
                | Some func \<Rightarrow> s\<lparr>ms_exits := ms_exits s @ [func]\<rparr>);
          s2 = s1\<lparr>ms_closed := ms_closed s1 @ [m_handle m]\<rparr>
      in assertR (ld_close ld (m_handle m) = 0) (Inr (0, s2\<lparr>ms_modules := remove1 m (ms_modules s2)\<rparr>)))"

text \<open>
  The entries of a directory, each with its name and whether it is a regular file or a link; one
  address is given to each of them.
\<close>

fun load_dir_loop :: "loader \<Rightarrow> string \<Rightarrow> (string \<times> bool \<times> nat) list \<Rightarrow> int \<Rightarrow> mod_state \<Rightarrow> int \<times> mod_state" where
  "load_dir_loop ld dirname [] rc s = (rc, s)"
| "load_dir_loop ld dirname ((d_name, reg, addr) # rest) rc s =
     (if strncmp_eq d_name ''.'' 2 \<or> strncmp_eq d_name ''..'' 3 \<or> \<not> reg then load_dir_loop ld dirname rest rc s
      else if find_module s d_name \<noteq> None then load_dir_loop ld dirname rest rc s
      else case load_module addr ld (snprintf_s 512 (dirname @ ''/'' @ d_name)) None s of
             (None, s1) \<Rightarrow> load_dir_loop ld dirname rest (- 1) s1
           | (Some _, s1) \<Rightarrow> load_dir_loop ld dirname rest rc s1)"

definition load_modules_from_dir ::
  "loader \<Rightarrow> string \<Rightarrow> string + (string \<times> bool \<times> nat) list \<Rightarrow> mod_state \<Rightarrow> int \<times> mod_state" where
  "load_modules_from_dir ld dirname dir s =
     (case dir of Inl reason \<Rightarrow> (- 1, set_error MOD_EOPEN reason s) | Inr ents \<Rightarrow> load_dir_loop ld dirname ents 0 s)"

fun unload_loop :: "loader \<Rightarrow> module list \<Rightarrow> int \<Rightarrow> mod_state \<Rightarrow> (int \<times> mod_state) res" where
  "unload_loop ld [] rc s = Inr (rc, s)"
| "unload_loop ld (pos # rest) rc s =
     bindR (unload_module ld pos s) (\<lambda>(r, s1). unload_loop ld rest (if r \<noteq> 0 then - 1 else rc) s1)"

definition unload_all_modules :: "loader \<Rightarrow> mod_state \<Rightarrow> (int \<times> mod_state) res" where
  "unload_all_modules ld s = unload_loop ld (ms_modules s) 0 s"

subsection \<open>Parameters\<close>

definition param_start :: "string \<Rightarrow> string \<Rightarrow> string option" where
  "param_start name param =
     (case strstr_c param name of
        None \<Rightarrow> None
      | Some i \<Rightarrow> (case strchr_c (drop i param) (CHR ''='') of None \<Rightarrow> None | Some j \<Rightarrow> Some (drop (i + j + 1) param)))"

definition upto_blank :: "string \<Rightarrow> string" where
  "upto_blank s = take (case strchr_c s (CHR '' '') of None \<Rightarrow> length s | Some i \<Rightarrow> i) s"

definition param_get_int :: "string \<Rightarrow> string option \<Rightarrow> int \<times> int option" where
  "param_get_int name param =
     (case param of None \<Rightarrow> (- 1, None)
      | Some p \<Rightarrow> (case param_start name p of None \<Rightarrow> (- 1, None) | Some s \<Rightarrow> (0, Some (atoi_c (upto_blank s)))))"

text \<open>The buffer is set to zero before up to \<open>size - 1\<close> bytes are copied into it.\<close>

definition param_get_string :: "string \<Rightarrow> mem \<Rightarrow> nat \<Rightarrow> string option \<Rightarrow> (int \<times> mem) res" where
  "param_get_string name buf sz param =
     assertR (sz \<noteq> 0)
       (case param of None \<Rightarrow> Inr (- 1, buf)
        | Some p \<Rightarrow>
            (case param_start name p of None \<Rightarrow> Inr (- 1, buf)
             | Some s \<Rightarrow>
                 (case (if take 1 s = ''\"''
                        then (case strchr_c (drop 1 s) (CHR 0x22) of
                                None \<Rightarrow> None | Some e \<Rightarrow> Some (take e (drop 1 s)))
                        else Some (upto_blank s)) of
                    None \<Rightarrow> Inr (- 1, buf)
                  | Some v \<Rightarrow>
                      bindR (mem_write buf 0 (replicate sz NUL)) (\<lambda>buf1.
                      bindR (mem_write buf1 0 (take (sz - 1) v)) (\<lambda>buf2. Inr (0, buf2))))))"

subsection \<open>What a module uses\<close>

text \<open>Version numbers, packed into an \<open>int\<close>; a major number from 128 on would overflow it.\<close>

definition VERSION_MAJOR :: "int \<Rightarrow> int" where
  "VERSION_MAJOR v = drop_bit 24 v"

definition VERSION_MINOR :: "int \<Rightarrow> int" where
  "VERSION_MINOR v = and (drop_bit 16 v) 0xff"

definition VERSION_PATCH :: "int \<Rightarrow> int" where
  "VERSION_PATCH v = and (drop_bit 8 v) 0xff"

definition MAKE_VERSION :: "int \<Rightarrow> int \<Rightarrow> int \<Rightarrow> int" where
  "MAKE_VERSION major minor patch = push_bit 24 major + push_bit 16 minor + push_bit 8 patch"

text \<open>The static variable that each module has for itself: its value after a call, which is returned.\<close>

definition module_self :: "module option \<Rightarrow> module option \<Rightarrow> module option" where
  "module_self m self = (case m of Some x \<Rightarrow> Some x | None \<Rightarrow> self)"

text \<open>The function that \<open>load_module\<close> finds in a module, made of its initialiser.\<close>

definition module_init :: "(module option \<Rightarrow> int) \<Rightarrow> module option \<Rightarrow> module option \<Rightarrow> int \<times> module option" where
  "module_init init_func m self = (let self1 = module_self m self in (init_func self1, self1))"

definition module_exit :: "(module option \<Rightarrow> 'a) \<Rightarrow> module option \<Rightarrow> 'a" where
  "module_exit exit_func self = exit_func self"

definition THIS_MODULE :: "module option \<Rightarrow> module option" where
  "THIS_MODULE self = module_self None self"

definition MODULE_PARAM_GET_INT :: "string \<Rightarrow> module option \<Rightarrow> (int \<times> int option) res" where
  "MODULE_PARAM_GET_INT name self =
     (case THIS_MODULE self of None \<Rightarrow> Inl NullDeref | Some m \<Rightarrow> Inr (param_get_int name (module_get_param m)))"

definition MODULE_PARAM_GET_STRING :: "string \<Rightarrow> mem \<Rightarrow> nat \<Rightarrow> module option \<Rightarrow> (int \<times> mem) res" where
  "MODULE_PARAM_GET_STRING name buf sz self =
     (case THIS_MODULE self of None \<Rightarrow> Inl NullDeref | Some m \<Rightarrow> param_get_string name buf sz (module_get_param m))"

subsection \<open>What holds of the list at every moment\<close>

text \<open>
  No file is loaded twice, and every handle that was opened is either that of a module on the list or
  was closed, as often as it was opened.
\<close>

definition modules_ok :: "mod_state \<Rightarrow> bool" where
  "modules_ok s \<longleftrightarrow> distinct (map m_filename (ms_modules s)) \<and>
    mset (ms_opened s) = mset (ms_closed s) + mset (map m_handle (ms_modules s))"

text \<open>An initialiser changes its module by the functions of the interface only.\<close>

definition init_keeps :: "loader \<Rightarrow> bool" where
  "init_keeps ld \<longleftrightarrow> (\<forall>fn m. m_filename (snd (ld_init ld fn m)) = m_filename m \<and> m_handle (snd (ld_init ld fn m)) = m_handle m)"

lemma find_in_modules_None:
  "find_in_modules ms name = None \<longleftrightarrow> (\<forall>m \<in> set ms. m_name m \<noteq> name \<and> m_filename m \<noteq> name)"
  by (induction ms) (auto simp: strcmp_eq_def)

lemma find_in_modules_Some: "find_in_modules ms name = Some m \<Longrightarrow> m \<in> set ms \<and> (m_name m = name \<or> m_filename m = name)"
  by (induction ms) (auto simp: strcmp_eq_def split: if_splits)

text \<open>The outcomes of \<open>load_module\<close>: a new module in front, or the list as it was.\<close>

lemma load_module_cases:
  assumes "load_module addr ld filepath param s = (r, s')" and "init_keeps ld" and "modules_ok s"
  shows "modules_ok s' \<and> (case r of
      None \<Rightarrow> ms_modules s' = ms_modules s
    | Some m \<Rightarrow> ms_modules s' = m # ms_modules s \<and> m_filename m = get_filename filepath \<and>
        find_module s (get_filename filepath) = None)"
proof (cases "find_module s (get_filename filepath) = None \<and> ld_open ld filepath \<noteq> None")
  case False
  then show ?thesis using assms(1,3) by (auto simp: load_module_def modules_ok_def set_error_def Let_def split: if_splits option.splits)
next
  case True
  then obtain h where h: "ld_open ld filepath = Some h" and new: "find_module s (get_filename filepath) = None" by auto
  have fresh: "get_filename filepath \<notin> m_filename ` set (ms_modules s)"
    using new by (auto simp: find_module_def find_in_modules_None)
  show ?thesis
  proof (cases "ld_sym ld h ''__module_init''")
    case None
    then show ?thesis using assms(1,3) h new by (auto simp: load_module_def modules_ok_def set_error_def Let_def)
  next
    case (Some fn)
    let ?m = "\<lparr>m_addr = addr, m_filepath = filepath, m_filename = get_filename filepath, m_name = get_filename filepath,
       m_param = param, m_alias = None, m_desc = None, m_version = 0, m_handle = h, m_init_fn = fn\<rparr>"
    obtain rc m1 where i: "ld_init ld fn ?m = (rc, m1)" by (cases "ld_init ld fn ?m") auto
    have "m_filename m1 = get_filename filepath" "m_handle m1 = h" using assms(2) i unfolding init_keeps_def by (metis snd_conv module.select_convs)+
    then show ?thesis using assms(1,3) h new Some i fresh
      by (auto simp: load_module_def modules_ok_def set_error_def Let_def split: if_splits)
  qed
qed

lemma unload_module_ok:
  assumes "unload_module ld m s = Inr (r, s')" and "m \<in> set (ms_modules s)" and "modules_ok s"
  shows "modules_ok s' \<and> r = 0 \<and> ms_modules s' = remove1 m (ms_modules s) \<and> ms_closed s' = ms_closed s @ [m_handle m]"
proof -
  obtain e x y where s': "s' = s\<lparr>ms_err := e, ms_errmsg := x, ms_exits := y, ms_closed := ms_closed s @ [m_handle m],
      ms_modules := remove1 m (ms_modules s)\<rparr>" and r: "r = 0"
    using assms(1) by (cases s) (auto simp: unload_module_def set_error_def Let_def cx split: option.splits)
  have "distinct (map m_filename (remove1 m (ms_modules s)))"
    using assms(3) by (auto simp: modules_ok_def distinct_map distinct_remove1 intro: inj_on_diff)
  moreover have "add_mset (m_handle m) (mset (map m_handle (remove1 m (ms_modules s)))) = mset (map m_handle (ms_modules s))"
    using assms(2) by (simp add: image_mset_add_mset [symmetric] del: image_mset_add_mset)
  ultimately show ?thesis using assms(3) r unfolding s' by (simp add: modules_ok_def)
qed

lemma load_dir_loop_ok:
  assumes "init_keeps ld"
  shows "modules_ok s \<Longrightarrow> load_dir_loop ld dirname ents rc s = (r, s') \<Longrightarrow>
    modules_ok s' \<and> (\<exists>new. ms_modules s' = new @ ms_modules s)"
proof (induction ents arbitrary: rc s)
  case (Cons e ents)
  obtain d reg addr where e: "e = (d, reg, addr)" by (cases e) auto
  show ?case
  proof (cases "strncmp_eq d ''.'' 2 \<or> strncmp_eq d ''..'' 3 \<or> \<not> reg \<or> find_module s d \<noteq> None")
    case True
    then show ?thesis using Cons e by (auto split: if_splits)
  next
    case False
    obtain o1 s1 where l: "load_module addr ld (snprintf_s 512 (dirname @ ''/'' @ d)) None s = (o1, s1)" by fastforce
    note c = load_module_cases [OF l assms Cons.prems(1)]
    have "\<exists>rc. load_dir_loop ld dirname ents rc s1 = (r, s')" using Cons.prems(2) False e l by (cases o1) auto
    then obtain new where "modules_ok s'" "ms_modules s' = new @ ms_modules s1" using Cons.IH c by blast
    then show ?thesis using c by (cases o1) (auto intro: exI [of _ "new @ [_]"])
  qed
qed simp

lemma unload_loop_ok:
  assumes "modules_ok s" and "set ms \<subseteq> set (ms_modules s)" and "distinct ms" and "\<And>h. ld_close ld h = 0"
  shows "\<exists>s'. unload_loop ld ms rc s = Inr (rc, s') \<and> modules_ok s' \<and> ms_modules s' = fold remove1 ms (ms_modules s) \<and>
    ms_closed s' = ms_closed s @ map m_handle ms \<and> ms_opened s' = ms_opened s"
  using assms(1-3)
proof (induction ms arbitrary: s)
  case (Cons m ms)
  obtain r s1 where u: "unload_module ld m s = Inr (r, s1)"
    using assms(4) by (cases "unload_module ld m s") (auto simp: unload_module_def Let_def)
  have m: "m \<in> set (ms_modules s)" using Cons.prems(2) by simp
  note o1 = unload_module_ok [OF u m Cons.prems(1)]
  have "ms_opened s1 = ms_opened s"
    using u assms(4) by (auto simp: unload_module_def set_error_def Let_def split: option.splits)
  moreover have "set ms \<subseteq> set (ms_modules s1)"
  proof
    fix x assume x: "x \<in> set ms"
    then have "x \<noteq> m" using Cons.prems(3) by auto
    then show "x \<in> set (ms_modules s1)" using o1 x Cons.prems(2) by auto
  qed
  ultimately show ?case using Cons.IH [of s1] Cons.prems(3) o1 u by auto
qed simp

inductive mod_step :: "mod_state \<Rightarrow> mod_state \<Rightarrow> bool" where
  load: "load_module addr ld filepath param s = (r, s') \<Longrightarrow> init_keeps ld \<Longrightarrow> mod_step s s'"
| load_dir: "load_modules_from_dir ld dirname dir s = (r, s') \<Longrightarrow> init_keeps ld \<Longrightarrow> mod_step s s'"
| unload: "unload_module ld m s = Inr (r, s') \<Longrightarrow> m \<in> set (ms_modules s) \<Longrightarrow> mod_step s s'"
| rename: "s' = s\<lparr>ms_modules := map (\<lambda>x. if x = m then module_set_name m name else x) (ms_modules s)\<rparr> \<Longrightarrow> mod_step s s'"

definition modules_init :: mod_state where
  "modules_init = \<lparr>ms_modules = [], ms_err = MOD_ERELOAD, ms_errmsg = [], ms_opened = [], ms_closed = [], ms_exits = []\<rparr>"

lemma mod_step_ok: "mod_step s s' \<Longrightarrow> modules_ok s \<Longrightarrow> modules_ok s'"
proof (induction rule: mod_step.induct)
  case (load addr ld filepath param s r s')
  then show ?case using load_module_cases by blast
next
  case (load_dir ld dirname dir s r s')
  show ?case
  proof (cases dir)
    case (Inl reason)
    then show ?thesis using load_dir by (auto simp: load_modules_from_dir_def modules_ok_def set_error_def)
  next
    case (Inr ents)
    then show ?thesis using load_dir_loop_ok [OF load_dir.hyps(2) load_dir.prems, of dirname ents 0 r s'] load_dir.hyps(1)
      by (simp add: load_modules_from_dir_def)
  qed
next
  case (unload ld m s r s')
  then show ?case using unload_module_ok by blast
next
  case (rename s' m name s)
  have "map m_filename (ms_modules s') = map m_filename (ms_modules s)" "map m_handle (ms_modules s') = map m_handle (ms_modules s)"
    using rename.hyps by (auto simp: module_set_name_def)
  moreover have "ms_opened s' = ms_opened s" "ms_closed s' = ms_closed s" using rename.hyps by simp_all
  ultimately show ?case using rename.prems by (simp add: modules_ok_def del: mset_map)
qed

lemma modules_init_ok: "modules_ok modules_init"
  by (simp add: modules_ok_def modules_init_def)

interpretation msys: stepwise mod_step modules_init modules_ok
  by unfold_locales (rule modules_init_ok, rule mod_step_ok)

text \<open>C21: Whatever modules a program loads, from files or directories, renames and unloads: no file is
  on the list twice, and every handle that \<open>dlopen\<close> returned is that of a module on the list or was
  given to \<open>dlclose\<close>, as often as it was opened.\<close>

theorem module_handles_balance:
  assumes "mod_step\<^sup>*\<^sup>* modules_init s"
  shows "distinct (map m_filename (ms_modules s)) \<and>
    mset (ms_opened s) = mset (ms_closed s) + mset (map m_handle (ms_modules s))"
  using msys.inv_reached [OF assms] by (simp add: modules_ok_def)

definition loader_example :: loader where
  "loader_example = \<lparr>ld_open = (\<lambda>p. Some (length p)), ld_sym = (\<lambda>h n. Some h), ld_close = (\<lambda>h. 0), ld_error = [],
     ld_init = (\<lambda>fn m. (0, module_set_name m ''mock''))\<rparr>"

lemma loader_example_keeps: "init_keeps loader_example"
  by (simp add: init_keeps_def loader_example_def module_set_name_def)

lemma module_example_reached:
  "\<exists>s m. mod_step\<^sup>*\<^sup>* modules_init s \<and> ms_modules s = [m] \<and> m_filename m = ''mock.so'' \<and> ms_closed s = []"
proof -
  obtain m s where l: "load_module 1 loader_example ''lib/mock.so'' None modules_init = (Some m, s)" "ms_modules s = [m]"
    "m_filename m = ''mock.so''" "ms_closed s = []"
    by (simp add: load_module_def loader_example_def modules_init_def find_module_def get_filename_def module_set_name_def Let_def)
  then show ?thesis using mod_step.load [OF l(1) loader_example_keeps] by blast
qed

theorem module_handles_balance_witness:
  "\<exists>s m. mod_step\<^sup>*\<^sup>* modules_init s \<and> ms_modules s = [m] \<and> m_filename m = ''mock.so'' \<and> mset (ms_opened s) = {#m_handle m#}"
proof -
  obtain m s where s: "mod_step\<^sup>*\<^sup>* modules_init s" "ms_modules s = [m]" "m_filename m = ''mock.so''" "ms_closed s = []"
    using module_example_reached by blast
  then show ?thesis using module_handles_balance [OF s(1)] by auto
qed

text \<open>\<open>unload_all_modules\<close> empties the list and returns 0, when \<open>dlclose\<close> succeeds: every handle
  that was ever opened is closed then.\<close>

theorem unload_all_closes:
  assumes "mod_step\<^sup>*\<^sup>* modules_init s" and "\<And>h. ld_close ld h = 0"
  shows "\<exists>s'. unload_all_modules ld s = Inr (0, s') \<and> ms_modules s' = [] \<and> mset (ms_closed s') = mset (ms_opened s')"
proof -
  from assms(1) have ok: "modules_ok s"
    by (rule msys.inv_reached)
  then have "distinct (ms_modules s)" by (simp add: modules_ok_def distinct_map)
  from unload_loop_ok [OF ok subset_refl this assms(2)] obtain s' where
    "unload_all_modules ld s = Inr (0, s')" "modules_ok s'" "ms_modules s' = fold remove1 (ms_modules s) (ms_modules s)"
    unfolding unload_all_modules_def by blast
  moreover have "fold remove1 xs (xs @ ys) = ys" for xs ys :: "module list" by (induction xs) simp_all
  from this [of "ms_modules s" "[]"] have "fold remove1 (ms_modules s) (ms_modules s) = []" by simp
  ultimately show ?thesis by (auto simp: modules_ok_def)
qed

theorem unload_all_closes_witness:
  "\<exists>s s'. mod_step\<^sup>*\<^sup>* modules_init s \<and> ms_modules s \<noteq> [] \<and> unload_all_modules loader_example s = Inr (0, s') \<and> ms_modules s' = []"
proof -
  obtain m s where s: "mod_step\<^sup>*\<^sup>* modules_init s" "ms_modules s = [m]" using module_example_reached by blast
  have "ld_close loader_example h = 0" for h by (simp add: loader_example_def)
  from unload_all_closes [OF s(1) this] s show ?thesis by auto
qed

subsection \<open>Reading parameters\<close>

lemma param_start_value:
  assumes "p = pre @ name @ ''='' @ v" and "CHR ''='' \<notin> set name" and "\<And>j. j < length pre \<Longrightarrow> \<not> prefix name (drop j p)"
  shows "param_start name p = Some v"
proof -
  have "strstr_c p name = Some (length pre)"
    by (rule strstr_c_eqI) (use assms(1,3) in auto)
  moreover have "strchr_c (name @ ''='' @ v) (CHR ''='') = Some (length name)"
    using strchr_c_first [OF assms(2), of v] by simp
  ultimately show ?thesis by (simp add: param_start_def assms(1))
qed

lemma upto_blank_value:
  assumes "CHR '' '' \<notin> set v" and "rest = [] \<or> hd rest = CHR '' ''"
  shows "upto_blank (v @ rest) = v"
proof (cases rest)
  case Nil
  then show ?thesis using assms(1) by (simp add: upto_blank_def strchr_c_None [THEN iffD2])
next
  case (Cons c cs)
  then show ?thesis using assms strchr_c_first [OF assms(1), of cs] by (simp add: upto_blank_def)
qed

text \<open>A parameter \<open>name=value\<close> in a text of such items is read as that value, by \<open>atoi\<close> or as the
  text itself cut to the buffer, when the name occurs nowhere before it in the text.\<close>

theorem param_reads_value:
  assumes "p = pre @ name @ ''='' @ v @ rest" and "CHR ''='' \<notin> set name"
    and "\<And>j. j < length pre \<Longrightarrow> \<not> prefix name (drop j p)"
    and "CHR '' '' \<notin> set v" and "rest = [] \<or> hd rest = CHR '' ''" and "NUL \<notin> set v"
    and "take 1 (v @ rest) \<noteq> ''\"''" and "0 < sz" and "sz \<le> length buf"
  shows "param_get_int name (Some p) = (0, Some (atoi_c v)) \<and>
    (\<exists>buf'. param_get_string name buf sz (Some p) = Inr (0, buf') \<and> cstr buf' = take (sz - 1) v \<and>
      length buf' = length buf \<and> drop sz buf' = drop sz buf)"
proof
  have st: "param_start name p = Some (v @ rest)" using param_start_value [of p pre name "v @ rest"] assms(1-3) by auto
  note ub = upto_blank_value [OF assms(4,5)]
  show "param_get_int name (Some p) = (0, Some (atoi_c v))" using st ub by (simp add: param_get_int_def)
  let ?w = "take (sz - 1) v" and ?b = "replicate sz NUL @ drop sz buf"
  have w: "length ?w < sz" using assms(8) by simp
  let ?r = "?w @ replicate (sz - length ?w) NUL @ drop sz buf"
  have "mem_write ?b 0 ?w = Inr ?r" using w by (simp add: mem_write_def)
  then have "param_get_string name buf sz (Some p) = Inr (0, ?r)"
    using st ub assms(7-9) by (simp add: param_get_string_def mem_write_ok)
  moreover have "replicate (sz - length ?w) NUL = NUL # replicate (sz - length ?w - 1) NUL"
    using w by (metis Suc_diff_1 replicate_Suc zero_less_diff)
  moreover have "NUL \<notin> set ?w" using assms(6) by (auto dest: in_set_takeD)
  moreover have "length ?r = length buf" "drop sz ?r = drop sz buf" using w assms(9) by simp_all
  ultimately show "\<exists>buf'. param_get_string name buf sz (Some p) = Inr (0, buf') \<and> cstr buf' = ?w \<and>
      length buf' = length buf \<and> drop sz buf' = drop sz buf"
    by (intro exI [of _ ?r]) simp
qed

theorem param_reads_value_witness:
  "param_get_int ''age'' (Some ''name=joe age=18'') = (0, Some 18)"
proof -
  have p: "''name=joe age=18'' = ''name=joe '' @ ''age'' @ ''='' @ ''18'' @ []" by simp
  have "\<not> prefix ''age'' (drop j ''name=joe age=18'')" if "j < length ''name=joe ''" for j
  proof -
    have "j \<in> {0, 1, 2, 3, 4, 5, 6, 7, 8}" using that by auto
    then show ?thesis by auto
  qed
  from param_reads_value [OF p _ this, of 4 "replicate 4 NUL"]
  have "param_get_int ''age'' (Some ''name=joe age=18'') = (0, Some (atoi_c ''18''))" by simp
  moreover have "atoi_c ''18'' = 18" by code_simp
  ultimately show ?thesis by simp
qed

text \<open>A name is also found inside another one.\<close>

lemma param_matches_inside_names: "param_get_int ''b'' (Some ''ab=1 b=2'') = (0, Some 1)"
  by code_simp

text \<open>A version number that was made of its parts gives them back, and fits into an \<open>int\<close>.\<close>

theorem version_roundtrip:
  assumes "0 \<le> major" and "major < 128" and "0 \<le> minor" and "minor < 256" and "0 \<le> patch" and "patch < 256"
  shows "VERSION_MAJOR (MAKE_VERSION major minor patch) = major \<and> VERSION_MINOR (MAKE_VERSION major minor patch) = minor \<and>
    VERSION_PATCH (MAKE_VERSION major minor patch) = patch \<and> MAKE_VERSION major minor patch < 2 ^ 31"
proof -
  have byte: "and x 255 = x mod 256" for x :: int
    using take_bit_eq_mask [of 8 x] by (simp add: mask_eq_exp_minus_1 take_bit_eq_mod)
  let ?v = "major * 16777216 + minor * 65536 + patch * 256"
  have q: "(a * k + r) div k = a" if "0 \<le> r" "r < k" for a k r :: int using that by simp
  have v: "?v = (major * 256 + minor) * 65536 + patch * 256" "?v = (major * 65536 + minor * 256 + patch) * 256 + 0"
    "?v = major * 16777216 + (minor * 65536 + patch * 256)" by simp_all
  have "?v div 16777216 = major" unfolding v(3) by (rule q) (use assms in simp_all)
  moreover have "?v div 65536 mod 256 = minor"
  proof -
    have "?v div 65536 = major * 256 + minor" unfolding v(1) by (rule q) (use assms in simp_all)
    then show ?thesis using assms by simp
  qed
  moreover have "?v div 256 mod 256 = patch"
  proof -
    have "?v div 256 = patch + (major * 256 + minor) * 256" unfolding v(2) by simp
    then have "?v div 256 mod 256 = patch mod 256" by (simp only: mod_mult_self1)
    also have "\<dots> = patch" using assms by simp
    finally show ?thesis .
  qed
  moreover have "?v < 2147483648" using assms by simp
  ultimately show ?thesis
    by (simp only: VERSION_MAJOR_def VERSION_MINOR_def VERSION_PATCH_def MAKE_VERSION_def byte drop_bit_eq_div push_bit_eq_mult) simp
qed

theorem version_roundtrip_witness:
  "VERSION_MAJOR (MAKE_VERSION 1 2 3) = 1 \<and> VERSION_MINOR (MAKE_VERSION 1 2 3) = 2 \<and>
    VERSION_PATCH (MAKE_VERSION 1 2 3) = 3 \<and> MAKE_VERSION 1 2 3 < 2 ^ 31"
  by (rule version_roundtrip) simp_all

text \<open>Within its initialiser a module reads its own parameters, whatever module ran before.\<close>

lemma init_reads_own_param:
  "fst (module_init (\<lambda>self. if MODULE_PARAM_GET_INT name self = Inr x then 0 else - 1) (Some m) self) =
     (if param_get_int name (module_get_param m) = x then 0 else - 1)"
  by (simp add: module_init_def MODULE_PARAM_GET_INT_def THIS_MODULE_def module_self_def)

end
