(* ===== verification/Module_Blocks.thy ===== *)
theory Module_Blocks
  imports Cx_Store Module
begin

text \<open>
  The memory of loadable modules (\<open>posix/module.c\<close>) on a store of blocks: a module with its six texts, as
  \<open>load_module\<close> builds it, \<open>module_set_name\<close> and \<open>module_set_info\<close> change it and \<open>__free_module\<close> releases it. Which
  way \<open>load_module\<close> takes, and what the module's initialiser calls on its module, are arguments here; \<open>Module\<close>
  says what decides the way. The code checks no allocation: a \<open>strdup\<close> that is refused stores \<open>NULL\<close>, and
  where the code dereferences such a pointer the model has a fault.
\<close>

subsection \<open>The code\<close>

text \<open>The members of \<open>struct module\<close> that point to texts.\<close>

datatype field = Filepath | Filename | Name | Param | Alias | Desc

instantiation field :: enum
begin

definition enum_field :: "field list" where
  "enum_field = [Filepath, Filename, Name, Param, Alias, Desc]"

definition enum_all_field :: "(field \<Rightarrow> bool) \<Rightarrow> bool" where
  "enum_all_field P \<longleftrightarrow> list_all P enum_class.enum"

definition enum_ex_field :: "(field \<Rightarrow> bool) \<Rightarrow> bool" where
  "enum_ex_field P \<longleftrightarrow> list_ex P enum_class.enum"

instance
proof
  show UNIV: "(UNIV :: field set) = set enum_class.enum" by (auto simp: enum_field_def intro: field.exhaust)
  show "distinct (enum_class.enum :: field list)" by (simp add: enum_field_def)
  show "enum_class.enum_all P \<longleftrightarrow> Ball (UNIV :: field set) P" for P
    unfolding UNIV by (simp add: enum_all_field_def list_all_iff)
  show "enum_class.enum_ex P \<longleftrightarrow> Bex (UNIV :: field set) P" for P
    unfolding UNIV by (simp add: enum_ex_field_def list_ex_iff)
qed

end

datatype mcell = Text mem | Mod "field \<Rightarrow> nat"

definition strdup_at :: "allocator \<Rightarrow> string \<Rightarrow> mcell store \<Rightarrow> nat \<times> mcell store" where
  "strdup_at al s st = new_cell al (length s + 1) (Text (s @ [NUL])) st"

definition get_filename_at :: "allocator \<Rightarrow> string \<Rightarrow> mcell store \<Rightarrow> (nat \<times> mcell store) res" where
  "get_filename_at al filepath st =
     (let (tmp, st1) = strdup_at al filepath st
      in if tmp = 0 then Inl NullDeref
         else let (retval, st2) = strdup_at al (get_filename filepath) st1
              in bindR (free_c tmp st2) (\<lambda>st3. Inr (retval, st3)))"

fun free_texts :: "nat list \<Rightarrow> mcell store \<Rightarrow> mcell store res" where
  "free_texts [] st = Inr st"
| "free_texts (a # as) st = bindR (free_c a st) (free_texts as)"

definition free_module :: "nat \<Rightarrow> mcell store \<Rightarrow> mcell store res" where
  "free_module m st =
     (case cells st m of
        Some (Mod f) \<Rightarrow> bindR (free_texts [f Name, f Filename, f Filepath, f Param, f Alias, f Desc] st) (free_c m)
      | _ \<Rightarrow> Inl BadPointer)"

text \<open>A member that is stored into, one that is released and set to \<open>NULL\<close>, and one that gets a copy of a text.\<close>

definition put_field :: "field \<Rightarrow> nat \<Rightarrow> nat \<Rightarrow> mcell store \<Rightarrow> mcell store res" where
  "put_field x a m st =
     (case cells st m of Some (Mod f) \<Rightarrow> Inr (set_cell m (Mod (f(x := a))) st) | _ \<Rightarrow> Inl BadPointer)"

definition clear_field :: "field \<Rightarrow> nat \<Rightarrow> mcell store \<Rightarrow> mcell store res" where
  "clear_field x m st =
     (case cells st m of Some (Mod f) \<Rightarrow> bindR (free_c (f x) st) (put_field x 0 m) | _ \<Rightarrow> Inl BadPointer)"

definition fill_field :: "allocator \<Rightarrow> field \<Rightarrow> string \<Rightarrow> nat \<Rightarrow> mcell store \<Rightarrow> mcell store res" where
  "fill_field al x s m st = (let (a, st1) = strdup_at al s st in put_field x a m st1)"

definition fill_opt :: "allocator \<Rightarrow> field \<Rightarrow> string option \<Rightarrow> nat \<Rightarrow> mcell store \<Rightarrow> mcell store res" where
  "fill_opt al x v m st = (case v of None \<Rightarrow> Inr st | Some s \<Rightarrow> fill_field al x s m st)"

definition module_set_name_at :: "allocator \<Rightarrow> string \<Rightarrow> nat \<Rightarrow> mcell store \<Rightarrow> mcell store res" where
  "module_set_name_at al name m st = bindR (clear_field Name m st) (fill_field al Name name m)"

definition module_set_info_at :: "allocator \<Rightarrow> string option \<Rightarrow> string option \<Rightarrow> nat \<Rightarrow> mcell store \<Rightarrow> mcell store res" where
  "module_set_info_at al alias desc m st =
     bindR (clear_field Alias m st) (\<lambda>st1.
     bindR (clear_field Desc m st1) (\<lambda>st2.
     bindR (fill_opt al Alias alias m st2) (fill_opt al Desc desc m)))"

datatype mod_use = SetName string | SetInfo "string option" "string option"

fun use_module :: "allocator \<Rightarrow> mod_use \<Rightarrow> nat \<Rightarrow> mcell store \<Rightarrow> mcell store res" where
  "use_module al (SetName name) m st = module_set_name_at al name m st"
| "use_module al (SetInfo alias desc) m st = module_set_info_at al alias desc m st"

fun run_uses :: "allocator \<Rightarrow> mod_use list \<Rightarrow> nat \<Rightarrow> mcell store \<Rightarrow> mcell store res" where
  "run_uses al [] m st = Inr st"
| "run_uses al (u # us) m st = bindR (use_module al u m st) (run_uses al us m)"

text \<open>The ways through \<open>load_module\<close>: the file is loaded already, it cannot be opened, it has no initialiser,
  the initialiser fails, or all goes well. \<open>others\<close> says whether a module is on the list, with which
  \<open>find_module\<close> compares the file's name.\<close>

datatype load_path = Reload | NoOpen | NoSym | InitFails | Loaded

definition load_module_at ::
  "allocator \<Rightarrow> load_path \<Rightarrow> bool \<Rightarrow> mod_use list \<Rightarrow> string \<Rightarrow> string option \<Rightarrow> mcell store \<Rightarrow> (nat \<times> mcell store) res" where
  "load_module_at al path others init filepath param st =
     bindR (get_filename_at al filepath st) (\<lambda>(filename, st1).
       if filename = 0 \<and> others then Inl NullDeref
       else if path \<in> {Reload, NoOpen, NoSym} then bindR (free_c filename st1) (\<lambda>st2. Inr (0, st2))
       else let (m, st2) = new_cell al 88 (Mod (\<lambda>_. 0)) st1
            in if m = 0 then Inl NullDeref
               else bindR (fill_field al Filepath filepath m st2) (\<lambda>st3.
                    bindR (put_field Filename filename m st3) (\<lambda>st4.
                      if filename = 0 then Inl NullDeref
                      else bindR (fill_field al Name (get_filename filepath) m st4) (\<lambda>st5.
                           bindR (fill_opt al Param param m st5) (\<lambda>st6.
                           bindR (run_uses al init m st6) (\<lambda>st7.
                             if path = InitFails then bindR (free_module m st7) (\<lambda>st8. Inr (0, st8)) else Inr (m, st7)))))))"

subsection \<open>The blocks of a module\<close>

definition mod_whole :: "(nat \<rightharpoonup> mcell) \<Rightarrow> (field \<Rightarrow> nat) \<Rightarrow> bool" where
  "mod_whole m f \<longleftrightarrow> (\<forall>x. f x \<noteq> 0 \<longrightarrow> (\<exists>t. m (f x) = Some (Text t))) \<and> (\<forall>x y. f x \<noteq> 0 \<longrightarrow> f x = f y \<longrightarrow> x = y)"

definition mod_blocks :: "(nat \<rightharpoonup> mcell) \<Rightarrow> nat \<Rightarrow> nat set option" where
  "mod_blocks m p =
     (case m p of
        Some (Mod f) \<Rightarrow> if mod_whole m f then Some (insert p (range f - {0})) else None
      | _ \<Rightarrow> None)"

text \<open>The store is \<open>m0\<close> and the blocks of one module, whose members are \<open>f\<close>.\<close>

definition holds :: "(nat \<rightharpoonup> mcell) \<Rightarrow> nat \<Rightarrow> (field \<Rightarrow> nat) \<Rightarrow> mcell store \<Rightarrow> bool" where
  "holds m0 p f st \<longleftrightarrow> store_ok st \<and> cells st p = Some (Mod f) \<and> mod_whole (cells st) f \<and>
     m0 = cells st |` (- insert p (range f - {0}))"

text \<open>The texts that the members point to, and those of a module as \<open>Module\<close> has it.\<close>

definition texts :: "(nat \<rightharpoonup> mcell) \<Rightarrow> (field \<Rightarrow> nat) \<Rightarrow> field \<Rightarrow> string option" where
  "texts m f x = (case m (f x) of Some (Text t) \<Rightarrow> Some (takeWhile (\<lambda>c. c \<noteq> NUL) t) | _ \<Rightarrow> None)"

fun module_texts :: "module \<Rightarrow> field \<Rightarrow> string option" where
  "module_texts m Filepath = Some (m_filepath m)"
| "module_texts m Filename = Some (m_filename m)"
| "module_texts m Name = Some (m_name m)"
| "module_texts m Param = m_param m"
| "module_texts m Alias = m_alias m"
| "module_texts m Desc = m_desc m"

text \<open>What the calls do to a module as \<open>Module\<close> has it, and that they are given strings.\<close>

fun use_value :: "mod_use \<Rightarrow> module \<Rightarrow> module" where
  "use_value (SetName name) m = module_set_name m name"
| "use_value (SetInfo alias desc) m = module_set_info m alias desc"

fun use_ok :: "mod_use \<Rightarrow> bool" where
  "use_ok (SetName name) \<longleftrightarrow> NUL \<notin> set name"
| "use_ok (SetInfo alias desc) \<longleftrightarrow> (\<forall>s \<in> set_option alias \<union> set_option desc. NUL \<notin> set s)"

lemma mod_blocks_Some:
  "mod_blocks m p = Some B \<longleftrightarrow> (\<exists>f. m p = Some (Mod f) \<and> mod_whole m f \<and> B = insert p (range f - {0}))"
  by (auto simp: mod_blocks_def split: option.splits mcell.splits)

lemma mod_wholeD:
  assumes "mod_whole m f" and "f x \<noteq> 0"
  shows "\<exists>t. m (f x) = Some (Text t)" and "f x = f y \<Longrightarrow> x = y"
  using assms unfolding mod_whole_def by blast+

lemma mod_wholeI:
  assumes "\<And>x. f x \<noteq> 0 \<Longrightarrow> \<exists>t. m (f x) = Some (Text t)" and "\<And>x y. f x \<noteq> 0 \<Longrightarrow> f x = f y \<Longrightarrow> x = y"
  shows "mod_whole m f"
  using assms unfolding mod_whole_def by blast

lemma holdsD:
  assumes "holds m0 p f st"
  shows "store_ok st" and "cells st p = Some (Mod f)" and "mod_whole (cells st) f" and "p \<noteq> 0" and "f x \<noteq> p"
    and "m0 = cells st |` (- insert p (range f - {0}))"
proof -
  show ok: "store_ok st" and p: "cells st p = Some (Mod f)" and w: "mod_whole (cells st) f"
    and "m0 = cells st |` (- insert p (range f - {0}))" using assms by (simp_all add: holds_def)
  show p0: "p \<noteq> 0" using store_ok_less [OF ok p] by simp
  show "f x \<noteq> p" using mod_wholeD(1) [OF w, of x] p p0 by force
qed

lemma holds_blocks: "holds m0 p f st \<Longrightarrow> \<exists>B. mod_blocks (cells st) p = Some B \<and> m0 = cells st |` (- B)"
  by (auto simp: holds_def mod_blocks_Some)

lemma mod_blocks_local:
  assumes "mod_blocks m p = Some B" and "\<forall>a \<in> B. m' a = m a"
  shows "mod_blocks m' p = Some B"
proof -
  obtain f where f: "m p = Some (Mod f)" "mod_whole m f" "B = insert p (range f - {0})" using assms(1) by (auto simp: mod_blocks_Some)
  have "m' (f x) = m (f x)" if "f x \<noteq> 0" for x using assms(2) f(3) that by auto
  then have "mod_whole m' f" using f(2) by (simp add: mod_whole_def)
  moreover have "m' p = Some (Mod f)" using assms(2) f(1,3) by simp
  ultimately show ?thesis using f(3) by (auto simp: mod_blocks_Some)
qed

lemma mod_blocks_dom: "mod_blocks m p = Some B \<Longrightarrow> p \<in> B \<and> B \<subseteq> dom m"
  by (fastforce simp: mod_blocks_Some mod_whole_def)

subsection \<open>What the calls do to the blocks\<close>

lemma clear_field_holds:
  assumes "holds m0 p f st"
  shows "\<exists>st1. clear_field x p st = Inr st1 \<and> holds m0 p (f(x := 0)) st1 \<and>
    texts (cells st1) (f(x := 0)) = (texts (cells st) f)(x := None)"
proof -
  note h = holdsD [OF assms]
  let ?m = "(cells st)(f x := None, p \<mapsto> Mod (f(x := 0)))"
  have z: "cells st 0 = None" using store_ok_fresh(2) [OF h(1)] .
  have fx: "cells st (f x) \<noteq> None \<or> f x = 0" using mod_wholeD(1) [OF h(3)] by force
  have run: "clear_field x p st = Inr (st\<lparr>cells := ?m\<rparr>)"
    using h(2,5) fx z by (auto simp: clear_field_def put_field_def free_c_def set_cell_def fun_upd_idem)
  have ne: "f y \<noteq> f x" if "y \<noteq> x" "f y \<noteq> 0" for y using mod_wholeD(2) [OF h(3) that(2)] that(1) by blast
  have whole: "mod_whole ?m (f(x := 0))"
    by (rule mod_wholeI) (use mod_wholeD [OF h(3)] h(5) ne in \<open>auto split: if_splits\<close>)
  have rng: "range (f(x := 0)) - {0} = range f - {0, f x}"
    using ne by (auto simp: image_iff split: if_splits)
  have m0: "m0 = ?m |` (- insert p (range (f(x := 0)) - {0}))"
    unfolding h(6) rng by (rule ext) (use z h(5) in \<open>auto simp: restrict_map_def\<close>)
  have "store_ok (st\<lparr>cells := ?m\<rparr>)" using h(1,2,4) by (auto simp: store_ok_iff dest: store_ok_less)
  moreover have "texts ?m (f(x := 0)) = (texts (cells st) f)(x := None)"
    by (rule ext) (use h(4,5) z ne in \<open>force simp: texts_def\<close>)
  ultimately show ?thesis using run whole m0 by (auto simp: holds_def)
qed

text \<open>A block that \<open>m1\<close> has becomes the module's when a member that is \<open>NULL\<close> is made to point to it.\<close>

lemma put_field_holds:
  assumes "holds m1 p f st" and "f x = 0" and "m1 a = Some (Text t)"
  shows "\<exists>st1. put_field x a p st = Inr st1 \<and> holds (m1(a := None)) p (f(x := a)) st1 \<and>
    texts (cells st1) (f(x := a)) = (texts (cells st) f)(x \<mapsto> takeWhile (\<lambda>c. c \<noteq> NUL) t)"
proof -
  note h = holdsD [OF assms(1)]
  let ?m = "(cells st)(p \<mapsto> Mod (f(x := a)))"
  have a: "cells st a = Some (Text t)" "a \<noteq> p" "a \<notin> range f - {0}"
    using assms(3) unfolding h(6) by (auto simp: restrict_map_def split: if_splits)
  have a0: "a \<noteq> 0" using store_ok_less [OF h(1) a(1)] by simp
  have run: "put_field x a p st = Inr (st\<lparr>cells := ?m\<rparr>)" using h(2) by (simp add: put_field_def set_cell_def)
  have whole: "mod_whole ?m (f(x := a))"
    by (rule mod_wholeI) (use mod_wholeD [OF h(3)] h(5) a a0 in \<open>auto split: if_splits\<close>)
  have rng: "range (f(x := a)) - {0} = insert a (range f - {0})" using assms(2) a0 by (auto simp: image_iff)
  have m0: "m1(a := None) = ?m |` (- insert p (range (f(x := a)) - {0}))"
    unfolding h(6) rng by (rule ext) (use a h(5) in \<open>auto simp: restrict_map_def\<close>)
  have "store_ok (st\<lparr>cells := ?m\<rparr>)" using h(1,2) by simp
  moreover have "texts ?m (f(x := a)) = (texts (cells st) f)(x \<mapsto> takeWhile (\<lambda>c. c \<noteq> NUL) t)"
    by (rule ext) (use h(5) a in \<open>auto simp: texts_def\<close>)
  ultimately show ?thesis using run whole m0 by (auto simp: holds_def)
qed

lemma new_text_holds:
  assumes "holds m0 p f st"
  shows "holds (m0(next_addr st \<mapsto> Text t)) p f \<lparr>cells = (cells st)(next_addr st \<mapsto> Text t), next_addr = Suc (next_addr st)\<rparr> \<and>
    texts ((cells st)(next_addr st \<mapsto> Text t)) f = texts (cells st) f \<and> m0 (next_addr st) = None"
proof -
  note h = holdsD [OF assms]
  let ?n = "next_addr st"
  have n: "cells st ?n = None" "?n \<noteq> 0" using store_ok_fresh [OF h(1)] by auto
  have pn: "p \<noteq> ?n" using n(1) h(2) by auto
  have fn: "f x \<noteq> ?n" for x using mod_wholeD(1) [OF h(3), of x] n by force
  have "mod_whole ((cells st)(?n \<mapsto> Text t)) f"
    by (rule mod_wholeI) (use mod_wholeD [OF h(3)] fn in \<open>auto\<close>)
  moreover have "?n \<notin> range f" using fn by (metis rangeE)
  then have "m0(?n \<mapsto> Text t) = ((cells st)(?n \<mapsto> Text t)) |` (- insert p (range f - {0}))"
    unfolding h(6) by (intro ext) (use pn in \<open>auto simp: restrict_map_def\<close>)
  moreover have "m0 ?n = None" unfolding h(6) using n(1) by (simp add: restrict_map_def)
  ultimately show ?thesis using h(1,2) pn fn by (auto simp: holds_def texts_def)
qed

lemma fill_field_holds:
  assumes "holds m0 p f st" and "f x = 0"
  shows "\<exists>st1 a. fill_field al x s p st = Inr st1 \<and> holds m0 p (f(x := a)) st1 \<and>
    (grant al (length s + 1) \<longrightarrow> NUL \<notin> set s \<longrightarrow> texts (cells st1) (f(x := a)) = (texts (cells st) f)(x \<mapsto> s))"
proof (cases "grant al (length s + 1)")
  case True
  let ?t = "s @ [NUL]"
  note n = new_text_holds [OF assms(1), of ?t]
  have "(m0(next_addr st \<mapsto> Text ?t))(next_addr st := None) = m0" using n by (auto simp: fun_upd_idem)
  moreover have "takeWhile (\<lambda>c. c \<noteq> NUL) ?t = s" if "NUL \<notin> set s" using that by (induction s) auto
  ultimately show ?thesis using put_field_holds [OF conjunct1 [OF n] assms(2), of "next_addr st" ?t] True n
    by (auto simp: fill_field_def strdup_at_def new_cell_def intro!: exI [of _ "next_addr st"])
next
  case False
  have "f(x := 0) = f" using assms(2) by auto
  then show ?thesis using assms(1) holdsD(1,2) [OF assms(1)] False
    by (auto simp: fill_field_def strdup_at_def new_cell_def put_field_def set_cell_def fun_upd_idem intro!: exI [of _ 0])
qed

lemma fill_opt_holds:
  assumes "holds m0 p f st" and "f x = 0"
  shows "\<exists>st1 a. fill_opt al x v p st = Inr st1 \<and> holds m0 p (f(x := a)) st1 \<and>
    ((\<forall>n. grant al n) \<longrightarrow> (\<forall>s. v = Some s \<longrightarrow> NUL \<notin> set s) \<longrightarrow> texts (cells st1) (f(x := a)) = (texts (cells st) f)(x := v))"
proof (cases v)
  case None
  have "f(x := 0) = f" "texts (cells st) f x = None"
    using assms store_ok_fresh(2) [OF holdsD(1) [OF assms(1)]] by (auto simp: texts_def)
  then show ?thesis using assms(1) None by (auto simp: fill_opt_def fun_upd_idem intro!: exI [of _ 0])
next
  case (Some s)
  then show ?thesis using fill_field_holds [OF assms, of al s] by (auto simp: fill_opt_def)
qed



lemma module_set_name_holds:
  assumes "holds m0 p f st"
  shows "\<exists>st1 g. module_set_name_at al name p st = Inr st1 \<and> holds m0 p g st1 \<and>
    (grant al (length name + 1) \<longrightarrow> NUL \<notin> set name \<longrightarrow> texts (cells st1) g = (texts (cells st) f)(Name \<mapsto> name))"
proof -
  obtain st1 where 1: "clear_field Name p st = Inr st1" "holds m0 p (f(Name := 0)) st1"
    "texts (cells st1) (f(Name := 0)) = (texts (cells st) f)(Name := None)" using clear_field_holds [OF assms] by blast
  show ?thesis using fill_field_holds [OF 1(2), of Name al name] 1(1,3) by (force simp: module_set_name_at_def)
qed

lemma module_set_info_holds:
  assumes "holds m0 p f st"
  shows "\<exists>st1 g. module_set_info_at al alias desc p st = Inr st1 \<and> holds m0 p g st1 \<and>
    ((\<forall>n. grant al n) \<longrightarrow> (\<forall>s. alias = Some s \<or> desc = Some s \<longrightarrow> NUL \<notin> set s) \<longrightarrow>
       texts (cells st1) g = (texts (cells st) f)(Alias := alias, Desc := desc))"
proof -
  obtain st1 where 1: "clear_field Alias p st = Inr st1" "holds m0 p (f(Alias := 0)) st1"
    "texts (cells st1) (f(Alias := 0)) = (texts (cells st) f)(Alias := None)" using clear_field_holds [OF assms] by blast
  obtain st2 where 2: "clear_field Desc p st1 = Inr st2" "holds m0 p (f(Alias := 0, Desc := 0)) st2"
    "texts (cells st2) (f(Alias := 0, Desc := 0)) = (texts (cells st) f)(Alias := None, Desc := None)"
    using clear_field_holds [OF 1(2), of Desc] 1(3) by auto
  obtain st3 a where 3: "fill_opt al Alias alias p st2 = Inr st3" "holds m0 p (f(Alias := 0, Desc := 0, Alias := a)) st3"
    "(\<forall>n. grant al n) \<longrightarrow> (\<forall>s. alias = Some s \<longrightarrow> NUL \<notin> set s) \<longrightarrow>
       texts (cells st3) (f(Alias := 0, Desc := 0, Alias := a)) = (texts (cells st) f)(Alias := None, Desc := None, Alias := alias)"
    using fill_opt_holds [OF 2(2), of Alias al "alias"] unfolding 2(3) by auto
  obtain st4 b where 4: "fill_opt al Desc desc p st3 = Inr st4" "holds m0 p (f(Alias := 0, Desc := 0, Alias := a, Desc := b)) st4"
    "(\<forall>n. grant al n) \<longrightarrow> (\<forall>s. desc = Some s \<longrightarrow> NUL \<notin> set s) \<longrightarrow>
       texts (cells st4) (f(Alias := 0, Desc := 0, Alias := a, Desc := b)) = (texts (cells st3) (f(Alias := 0, Desc := 0, Alias := a)))(Desc := desc)"
    using fill_opt_holds [OF 3(2), of Desc al desc] by auto
  show ?thesis
    by (rule exI [of _ st4], rule exI [of _ "f(Alias := 0, Desc := 0, Alias := a, Desc := b)"])
      (use 1(1) 2(1) 3 4 in \<open>simp add: module_set_info_at_def fun_upd_twist\<close>)
qed

lemma module_set_texts:
  "module_texts (module_set_name md name) = (module_texts md)(Name \<mapsto> name)"
  "module_texts (module_set_info md alias desc) = (module_texts md)(Alias := alias, Desc := desc)"
proof -
  show "module_texts (module_set_name md name) = (module_texts md)(Name \<mapsto> name)"
  proof
    fix x show "module_texts (module_set_name md name) x = ((module_texts md)(Name \<mapsto> name)) x"
      by (cases x) (simp_all add: module_set_name_def)
  qed
  show "module_texts (module_set_info md alias desc) = (module_texts md)(Alias := alias, Desc := desc)"
  proof
    fix x show "module_texts (module_set_info md alias desc) x = ((module_texts md)(Alias := alias, Desc := desc)) x"
      by (cases x) (simp_all add: module_set_info_def Let_def split: option.split)
  qed
qed

lemma use_module_holds:
  assumes "holds m0 p f st"
  shows "\<exists>st1 g. use_module al u p st = Inr st1 \<and> holds m0 p g st1 \<and>
    ((\<forall>n. grant al n) \<longrightarrow> use_ok u \<longrightarrow> texts (cells st) f = module_texts md \<longrightarrow> texts (cells st1) g = module_texts (use_value u md))"
proof (cases u)
  case (SetName name)
  then show ?thesis using module_set_name_holds [OF assms, of al name] by (force simp: module_set_texts)
next
  case (SetInfo a d)
  then show ?thesis using module_set_info_holds [OF assms, of al a d] by (force simp: module_set_texts)
qed

lemma run_uses_holds:
  "holds m0 p f st \<Longrightarrow> \<exists>st1 g. run_uses al us p st = Inr st1 \<and> holds m0 p g st1 \<and>
    ((\<forall>n. grant al n) \<longrightarrow> list_all use_ok us \<longrightarrow> texts (cells st) f = module_texts md \<longrightarrow> texts (cells st1) g = module_texts (fold use_value us md))"
proof (induction us arbitrary: f st md)
  case (Cons u us)
  obtain st1 g where 1: "use_module al u p st = Inr st1" "holds m0 p g st1"
    "(\<forall>n. grant al n) \<longrightarrow> use_ok u \<longrightarrow> texts (cells st) f = module_texts md \<longrightarrow> texts (cells st1) g = module_texts (use_value u md)"
    using use_module_holds [OF Cons.prems, of al u md] by blast
  then show ?case using Cons.IH [OF 1(2), of "use_value u md"] by auto
qed auto

lemma free_texts_law:
  assumes "store_ok st" and "distinct (filter (\<lambda>a. a \<noteq> 0) as)" and "\<forall>a \<in> set as. a \<noteq> 0 \<longrightarrow> cells st a \<noteq> None"
  shows "free_texts as st = Inr (st\<lparr>cells := cells st |` (- (set as - {0}))\<rparr>)"
  using assms
proof (induction as arbitrary: st)
  case (Cons a as)
  show ?case
  proof (cases "a = 0")
    case True
    then show ?thesis using Cons by (simp add: free_c_def)
  next
    case False
    have "((cells st)(a := None)) |` (- (set as - {0})) = cells st |` (- (set (a # as) - {0}))"
      by (rule ext) (use False in \<open>auto simp: restrict_map_def\<close>)
    moreover have "free_texts as (st\<lparr>cells := (cells st)(a := None)\<rparr>) =
      Inr (st\<lparr>cells := ((cells st)(a := None)) |` (- (set as - {0}))\<rparr>)"
      by (subst Cons.IH) (use Cons.prems False in auto)
    ultimately show ?thesis using Cons.prems(3) False by (simp add: free_c_def)
  qed
qed simp

lemma distinct_pointers: "distinct xs \<Longrightarrow> inj_on f {x. f x \<noteq> 0} \<Longrightarrow> distinct (filter (\<lambda>a. a \<noteq> (0::nat)) (map f xs))"
  by (induction xs) (auto dest: inj_onD)

lemma free_module_holds:
  assumes "holds m0 p f st"
  shows "\<exists>st1. free_module p st = Inr st1 \<and> store_ok st1 \<and> cells st1 = m0"
proof -
  note h = holdsD [OF assms]
  let ?xs = "[Name, Filename, Filepath, Param, Alias, Desc]"
  have all: "set ?xs = UNIV" by (auto intro: field.exhaust)
  have "inj_on f {x. f x \<noteq> 0}" using mod_wholeD(2) [OF h(3)] by (auto simp: inj_on_def)
  then have "distinct (filter (\<lambda>a. a \<noteq> 0) (map f ?xs))"
    by (rule distinct_pointers [rotated]) simp
  moreover have "f x \<noteq> 0 \<Longrightarrow> cells st (f x) \<noteq> None" for x using mod_wholeD(1) [OF h(3), of x] by auto
  then have "\<forall>a \<in> set (map f ?xs). a \<noteq> 0 \<longrightarrow> cells st a \<noteq> None" by simp
  ultimately have run: "free_texts (map f ?xs) st = Inr (st\<lparr>cells := cells st |` (- (range f - {0}))\<rparr>)"
    using free_texts_law [OF h(1)] by (simp only: set_map all)
  have "p \<notin> range f" using h(5) by (metis rangeE)
  moreover have "(cells st |` (- (range f - {0})))(p := None) = m0"
    unfolding h(6) by (rule ext) (auto simp: restrict_map_def)
  moreover have "store_ok (st\<lparr>cells := (cells st |` (- (range f - {0})))(p := None)\<rparr>)"
    using h(1) by simp
  ultimately show ?thesis using run h(2,4) by (auto simp: free_module_def free_c_def simp del: free_texts.simps)
qed

subsection \<open>A module's lifetime\<close>

lemma get_filename_law:
  assumes "store_ok st" and "get_filename_at al filepath st = Inr (a, st1)"
  shows "store_ok st1 \<and> (if a = 0 then cells st1 = cells st
    else cells st a = None \<and> cells st1 = (cells st)(a \<mapsto> Text (get_filename filepath @ [NUL])))"
proof -
  have n: "cells st (next_addr st) = None" "cells st (Suc (next_addr st)) = None" "next_addr st \<noteq> 0"
    using store_ok_fresh [OF assms(1)] store_ok_above [OF assms(1)] by simp_all
  show ?thesis using assms n
    by (auto simp: get_filename_at_def strdup_at_def new_cell_def free_c_def store_ok_iff fun_upd_twist [of "next_addr st" "Suc (next_addr st)"]
        fun_upd_idem less_Suc_eq split: if_splits dest: store_ok_less)
qed

text \<open>A module under construction: \<open>filename\<close> is a block of \<open>m1\<close> that becomes a member.\<close>

definition new_module :: "string \<Rightarrow> string option \<Rightarrow> module" where
  "new_module filepath param =
     \<lparr>m_addr = 0, m_filepath = filepath, m_filename = get_filename filepath, m_name = get_filename filepath, m_param = param,
      m_alias = None, m_desc = None, m_version = 0, m_handle = 0, m_init_fn = 0\<rparr>"

lemma new_module_texts:
  "module_texts (new_module filepath param) = (\<lambda>_. None)(Filepath \<mapsto> filepath, Filename \<mapsto> get_filename filepath,
     Name \<mapsto> get_filename filepath, Param := param)"
proof
  fix x show "module_texts (new_module filepath param) x = ((\<lambda>_. None)(Filepath \<mapsto> filepath, Filename \<mapsto> get_filename filepath,
     Name \<mapsto> get_filename filepath, Param := param)) x" by (cases x) (simp_all add: new_module_def)
qed

text \<open>The texts of a module that is built with every allocation granted, of strings.\<close>

definition all_strings :: "allocator \<Rightarrow> string \<Rightarrow> string option \<Rightarrow> mod_use list \<Rightarrow> bool" where
  "all_strings al filepath param init \<longleftrightarrow> (\<forall>n. grant al n) \<and> NUL \<notin> set filepath \<and> (\<forall>s \<in> set_option param. NUL \<notin> set s) \<and>
     list_all use_ok init"

lemma built_law:
  assumes "store_ok st1" and "cells st1 a = Some (Text (name @ [NUL]))" and "new_cell al 88 (Mod (\<lambda>_. 0)) st1 = (m, st2)" and "m \<noteq> 0"
    and "name = get_filename filepath"
  shows "\<exists>st3 st4 st5 st6 st7 g. fill_field al Filepath filepath m st2 = Inr st3 \<and> put_field Filename a m st3 = Inr st4 \<and>
    fill_field al Name name m st4 = Inr st5 \<and> fill_opt al Param param m st5 = Inr st6 \<and>
    run_uses al init m st6 = Inr st7 \<and> holds ((cells st1)(a := None)) m g st7 \<and>
    (all_strings al filepath param init \<longrightarrow> texts (cells st7) g = module_texts (fold use_value init (new_module filepath param)))"
proof -
  let ?f = "(\<lambda>_. 0) :: field \<Rightarrow> nat" and ?m0 = "(cells st1)(a := None)" and ?ok = "all_strings al filepath param init"
  have m: "m = next_addr st1" "st2 = \<lparr>cells = (cells st1)(m \<mapsto> Mod ?f), next_addr = Suc m\<rparr>" and n: "cells st1 m = None"
    using assms(1,3,4) store_ok_fresh [OF assms(1)] by (auto simp: new_cell_def split: if_splits)
  have 2: "holds (cells st1) m ?f st2" "texts (cells st2) ?f = (\<lambda>_. None)"
    using assms(1) n store_ok_fresh [OF assms(1)] by (auto simp: holds_def m mod_whole_def restrict_map_def fun_eq_iff texts_def)
  have nul: "?ok \<Longrightarrow> NUL \<notin> set name" using set_drop_subset unfolding assms(5) all_strings_def get_filename_def
    by (auto split: option.splits dest: in_set_dropD)
  then have tw: "?ok \<Longrightarrow> takeWhile (\<lambda>c. c \<noteq> NUL) (name @ [NUL]) = name" by (induction name) auto
  obtain st3 b where 3: "fill_field al Filepath filepath m st2 = Inr st3" "holds (cells st1) m (?f(Filepath := b)) st3"
    "?ok \<longrightarrow> texts (cells st3) (?f(Filepath := b)) = (\<lambda>_. None)(Filepath \<mapsto> filepath)"
    using fill_field_holds [OF 2(1), where x = Filepath and al = al and s = filepath] 2(2) by (auto simp: all_strings_def)
  obtain st4 where 4: "put_field Filename a m st3 = Inr st4" "holds ?m0 m (?f(Filepath := b, Filename := a)) st4"
    "?ok \<longrightarrow> texts (cells st4) (?f(Filepath := b, Filename := a)) = (\<lambda>_. None)(Filepath \<mapsto> filepath, Filename \<mapsto> name)"
    using put_field_holds [OF 3(2), of Filename, OF _ assms(2)] 3(3) tw by auto
  obtain st5 c where 5: "fill_field al Name name m st4 = Inr st5" "holds ?m0 m (?f(Filepath := b, Filename := a, Name := c)) st5"
    "?ok \<longrightarrow> texts (cells st5) (?f(Filepath := b, Filename := a, Name := c)) =
       (\<lambda>_. None)(Filepath \<mapsto> filepath, Filename \<mapsto> name, Name \<mapsto> name)"
    using fill_field_holds [OF 4(2), of Name al name] 4(3) nul by (auto simp: all_strings_def)
  obtain st6 g where 6: "fill_opt al Param param m st5 = Inr st6" "holds ?m0 m g st6"
    "?ok \<longrightarrow> texts (cells st6) g = module_texts (new_module filepath param)"
    using fill_opt_holds [OF 5(2), of Param al param] 5(3) assms(5) by (auto simp: all_strings_def new_module_texts)
  show ?thesis using run_uses_holds [OF 6(2), of al init "new_module filepath param"] 6 3(1) 4(1) 5(1)
    unfolding all_strings_def by metis
qed

text \<open>\<open>load_module\<close> up to the result of the initialiser.\<close>

lemma load_module_run:
  assumes "store_ok st" and "get_filename_at al filepath st = Inr (a, sta)" and "a \<noteq> 0" and "grant al 88"
    and "path = InitFails \<or> path = Loaded"
  shows "\<exists>m h st7. m \<noteq> 0 \<and> holds (cells st) m h st7 \<and>
    (all_strings al filepath param init \<longrightarrow> texts (cells st7) h = module_texts (fold use_value init (new_module filepath param))) \<and>
    load_module_at al path others init filepath param st =
      (if path = InitFails then bindR (free_module m st7) (\<lambda>st8. Inr (0, st8)) else Inr (m, st7))"
proof -
  have t: "store_ok sta" "cells sta a = Some (Text (get_filename filepath @ [NUL]))" "(cells sta)(a := None) = cells st"
    using get_filename_law [OF assms(1,2)] assms(3) by (auto simp: fun_upd_idem)
  obtain m st2 where m: "new_cell al 88 (Mod (\<lambda>_. 0)) sta = (m, st2)" by fastforce
  then have m0: "m \<noteq> 0" using assms(4) store_ok_fresh(3) [OF t(1)] by (auto simp: new_cell_def)
  obtain st3 st4 st5 st6 st7 h where b: "fill_field al Filepath filepath m st2 = Inr st3" "put_field Filename a m st3 = Inr st4"
    "fill_field al Name (get_filename filepath) m st4 = Inr st5" "fill_opt al Param param m st5 = Inr st6"
    "run_uses al init m st6 = Inr st7" "holds (cells st) m h st7"
    "all_strings al filepath param init \<longrightarrow> texts (cells st7) h = module_texts (fold use_value init (new_module filepath param))"
    using built_law [OF t(1,2) m m0 refl, of param init] unfolding t(3) by blast
  have "load_module_at al path others init filepath param st =
    (if path = InitFails then bindR (free_module m st7) (\<lambda>st8. Inr (0, st8)) else Inr (m, st7))"
    using assms(2,3,5) m m0 b(1-5) by (auto simp: load_module_at_def)
  then show ?thesis using m0 b(6,7) by blast
qed

lemma load_module_law:
  assumes "store_ok st" and "load_module_at al path others init filepath param st = Inr (p, st1)"
  shows "store_ok st1 \<and> (if p = 0 then cells st1 = cells st
    else \<exists>B. mod_blocks (cells st1) p = Some B \<and> B \<inter> dom (cells st) = {} \<and> cells st1 |` (- B) = cells st)"
proof -
  obtain a sta where a: "get_filename_at al filepath st = Inr (a, sta)" using assms(2)
    by (cases "get_filename_at al filepath st") (auto simp: load_module_at_def)
  note g = get_filename_law [OF assms(1) a]
  show ?thesis
  proof (cases "path = InitFails \<or> path = Loaded")
    case True
    then have nz: "a \<noteq> 0" "grant al 88" using assms(2) a
      by (auto simp: load_module_at_def bindR_eq_Inr_iff new_cell_def split: if_splits)
    obtain m h st7 where h: "m \<noteq> 0" "holds (cells st) m h st7"
      "Inr (p, st1) = (if path = InitFails then bindR (free_module m st7) (\<lambda>st8. Inr (0, st8)) else Inr (m, st7))"
      using load_module_run [OF assms(1) a nz True, of param init others] unfolding assms(2) by blast
    show ?thesis
    proof (cases "path = InitFails")
      case True
      then show ?thesis using h(3) free_module_holds [OF h(2)] by auto
    next
      case False
      obtain B where B: "mod_blocks (cells st7) m = Some B" "cells st = cells st7 |` (- B)" using holds_blocks [OF h(2)] by blast
      have "B \<inter> dom (cells st) = {}" unfolding B(2) by auto
      then show ?thesis using B h False holdsD(1) [OF h(2)] by auto
    qed
  next
    case False
    have "store_ok (sta\<lparr>cells := (cells sta)(a := None)\<rparr>)" using g by simp
    moreover have "a \<noteq> 0 \<Longrightarrow> (cells sta)(a := None) = cells st" using g by (auto simp: fun_upd_idem)
    moreover have "path \<in> {Reload, NoOpen, NoSym}" using False by (cases path) auto
    ultimately show ?thesis using assms(2) g a
      by (auto simp: load_module_at_def free_c_def simp del: store_ok_step split: if_splits)
  qed
qed

lemma use_module_law:
  assumes "store_ok st" and "mod_blocks (cells st) p = Some B" and "use_module al u p st = Inr st1"
  shows "store_ok st1 \<and> (\<exists>B'. mod_blocks (cells st1) p = Some B' \<and> B' \<inter> dom (cells st |` (- B)) = {} \<and>
    cells st1 |` (- B') = cells st |` (- B))"
proof -
  obtain f where "holds (cells st |` (- B)) p f st" using assms(1,2) by (auto simp: mod_blocks_Some holds_def)
  then obtain g where g: "holds (cells st |` (- B)) p g st1" using use_module_holds assms(3) by (metis sum.inject(2))
  then obtain B' where B': "mod_blocks (cells st1) p = Some B'" "cells st |` (- B) = cells st1 |` (- B')" using holds_blocks by blast
  then have "B' \<inter> dom (cells st |` (- B)) = {}" unfolding B'(2) by auto
  then show ?thesis using B' holdsD(1) [OF g] by auto
qed

interpretation modules: lifetime "load_module_at al path others init filepath param" "use_module al" free_module mod_blocks
proof (unfold_locales, goal_cases)
  case (1 st p st1)
  then show ?case by (rule load_module_law)
next
  case (2 st u p st1 B)
  then show ?case by (rule use_module_law)
next
  case (3 st p B)
  then obtain f where "holds (cells st |` (- B)) p f st" by (auto simp: mod_blocks_Some holds_def)
  then show ?case using free_module_holds by blast
qed (auto simp: free_module_def intro: mod_blocks_local dest: mod_blocks_dom)

subsection \<open>Programs that load and release modules\<close>

text \<open>A step loads any file, in any way that \<open>load_module\<close> takes, changes a module or releases one.\<close>

definition block_step :: "allocator \<Rightarrow> mcell store \<times> nat set \<Rightarrow> mcell store \<times> nat set \<Rightarrow> bool" where
  "block_step al s s' \<longleftrightarrow> (\<exists>path others init filepath param.
     life_step (load_module_at al path others init filepath param) (use_module al) free_module s s')"

lemma mod_run_inv:
  assumes "(block_step al)\<^sup>*\<^sup>* (st0, {}) s" and "store_ok st0"
  shows "life_inv mod_blocks (cells st0) s"
  using assms(1)
proof (induction rule: rtranclp_induct)
  case base
  then show ?case using assms(2) by (simp add: life_inv_def Let_def)
next
  case (step s s')
  then show ?case unfolding block_step_def by (auto intro: modules.life_step_inv)
qed

text \<open>
  The memory of modules: however a program loads modules (with any file, whether loading succeeds or fails at
  any point), names and describes them and releases them, when it has released all that it got, the store is
  what it was at the start.
\<close>

theorem modules_no_leak:
  assumes "(block_step al)\<^sup>*\<^sup>* (st0, {}) (st, {})" and "store_ok st0"
  shows "cells st = cells st0"
  using mod_run_inv [OF assms] by (simp add: life_inv_def Let_def)

lemma use_value_texts: "module_texts a = module_texts b \<Longrightarrow> module_texts (fold use_value us a) = module_texts (fold use_value us b)"
proof (induction us arbitrary: a b)
  case (Cons u us)
  have "module_texts (use_value u a) = module_texts (use_value u b)" using Cons.prems by (cases u) (simp_all add: module_set_texts)
  from Cons.IH [OF this] show ?case by simp
qed simp

text \<open>The module that the initialiser gets, as the model over values has it.\<close>

lemma load_module_init:
  assumes "load_module addr ld filepath param s = (Some md, s1)"
  shows "\<exists>func m. md = snd (ld_init ld func m) \<and> module_texts m = module_texts (new_module filepath param)"
proof -
  let ?m = "\<lambda>h func. (new_module filepath param)\<lparr>m_addr := addr, m_handle := h, m_init_fn := func\<rparr>"
  have nf: "find_module s (get_filename filepath) = None" using assms by (auto simp: load_module_def Let_def split: if_splits)
  obtain h where h: "ld_open ld filepath = Some h" using assms nf by (cases "ld_open ld filepath") (simp_all add: load_module_def)
  obtain func where f: "ld_sym ld h ''__module_init'' = Some func"
    using assms nf h by (cases "ld_sym ld h ''__module_init''") (simp_all add: load_module_def)
  obtain r m1 where i: "ld_init ld func (?m h func) = (r, m1)" by fastforce
  have "md = m1" using assms nf h f i by (simp add: load_module_def new_module_def Let_def split: if_splits)
  then have "md = snd (ld_init ld func (?m h func))" using i by simp
  moreover have "module_texts (r\<lparr>m_addr := addr, m_handle := h, m_init_fn := func\<rparr>) x = module_texts r x" for r x by (cases x) simp_all
  then have "module_texts (?m h func) = module_texts (new_module filepath param)" by blast
  ultimately show ?thesis by blast
qed

lemma get_filename_granted:
  assumes "store_ok st" and "\<forall>n. grant al n"
  shows "\<exists>a sta. get_filename_at al filepath st = Inr (a, sta) \<and> a \<noteq> 0"
  using assms store_ok_fresh(3) [OF assms(1)] by (simp add: get_filename_at_def strdup_at_def new_cell_def free_c_def)

text \<open>C27: 
  When every allocation is granted and the initialiser makes the calls \<open>init\<close> on its module and succeeds, the
  blocks that \<open>load_module\<close> builds hold the texts of the module that the model over values returns.
\<close>

theorem load_module_refines:
  assumes "store_ok st" and "all_strings al filepath param init"
    and "load_module addr ld filepath param s = (Some md, s1)" and "\<And>func m. snd (ld_init ld func m) = fold use_value init m"
  shows "\<exists>p f st1. load_module_at al Loaded (ms_modules s \<noteq> []) init filepath param st = Inr (p, st1) \<and> p \<noteq> 0 \<and>
    holds (cells st) p f st1 \<and> texts (cells st1) f = module_texts md"
proof -
  have gr: "\<forall>n. grant al n" using assms(2) by (simp add: all_strings_def)
  obtain a sta where a: "get_filename_at al filepath st = Inr (a, sta)" "a \<noteq> 0" using get_filename_granted [OF assms(1) gr] by blast
  obtain m where m: "md = fold use_value init m" "module_texts m = module_texts (new_module filepath param)"
    using load_module_init [OF assms(3)] assms(4) by metis
  show ?thesis using load_module_run [OF assms(1) a spec [OF gr], of Loaded] assms(2) m use_value_texts [OF m(2)] by fastforce
qed

definition no_blocks :: "mcell store" where
  "no_blocks = \<lparr>cells = (\<lambda>_. None), next_addr = 1\<rparr>"

lemma no_blocks_ok: "store_ok no_blocks"
  by (simp add: no_blocks_def store_ok_def)

definition named_loader :: loader where
  "named_loader = \<lparr>ld_open = (\<lambda>path. Some 7), ld_sym = (\<lambda>h name. Some 9), ld_close = (\<lambda>h. 0), ld_error = [],
     ld_init = (\<lambda>func m. (0, module_set_name m ''m''))\<rparr>"

theorem load_module_refines_witness:
  "\<exists>p f st1. load_module_at generous Loaded False [SetName ''m''] ''d/m.so'' (Some ''a=1'') no_blocks = Inr (p, st1) \<and> p \<noteq> 0 \<and>
    holds (cells no_blocks) p f st1 \<and> texts (cells st1) f Filename = Some ''m.so'' \<and> texts (cells st1) f Name = Some ''m'' \<and>
    texts (cells st1) f Param = Some ''a=1''"
proof -
  obtain md s1 where m: "load_module 1 named_loader ''d/m.so'' (Some ''a=1'') modules_init = (Some md, s1)"
    "m_filename md = ''m.so''" "m_name md = ''m''" "m_param md = Some ''a=1''" "ms_modules modules_init = []"
    by (simp add: load_module_def named_loader_def modules_init_def find_module_def get_filename_def module_set_name_def Let_def)
  have "all_strings generous ''d/m.so'' (Some ''a=1'') [SetName ''m'']" by (simp add: all_strings_def generous_def)
  moreover have "snd (ld_init named_loader func m) = fold use_value [SetName ''m''] m" for func m by (simp add: named_loader_def)
  ultimately show ?thesis using load_module_refines [OF no_blocks_ok _ m(1)] m(2-5) by fastforce
qed

theorem modules_no_leak_witness:
  "\<exists>st1 st2. load_module_at generous Loaded False [SetName ''m''] ''m.so'' None no_blocks = Inr (3, st1) \<and>
    free_module 3 st1 = Inr st2 \<and> cells st2 = cells no_blocks"
proof -
  let ?load = "load_module_at generous Loaded False [SetName ''m''] ''m.so'' None" and ?use = "use_module generous"
  obtain st1 where st1: "?load no_blocks = Inr (3, st1)"
    by (simp add: load_module_at_def get_filename_at_def strdup_at_def new_cell_def set_cell_def free_c_def fill_field_def fill_opt_def
        put_field_def clear_field_def module_set_name_at_def generous_def no_blocks_def)
  have s1: "life_step ?load ?use free_module (no_blocks, {}) (st1, {3})"
    using life_create [where create = ?load and st = no_blocks and p = 3 and live = "{}", OF st1] by simp
  then obtain st2 where st2: "free_module 3 st1 = Inr st2"
    using modules.destroyed_once [of generous Loaded False "[SetName ''m'']" "''m.so''" None no_blocks st1 "{3}" 3] no_blocks_ok by auto
  have "life_step ?load ?use free_module (st1, {3}) (st2, {})"
    using life_destroy [of 3 "{3}" free_module st1 st2 ?load ?use] st2 by simp
  with s1 have "block_step generous (no_blocks, {}) (st1, {3})" "block_step generous (st1, {3}) (st2, {})"
    unfolding block_step_def by blast+
  then have "(block_step generous)\<^sup>*\<^sup>* (no_blocks, {}) (st2, {})" by (meson r_into_rtranclp rtranclp_trans)
  from modules_no_leak [OF this no_blocks_ok] show ?thesis using st1 st2 by blast
qed

end
