(* ===== verification/Stdlibx.thy ===== *)
theory Stdlibx
  imports Cx_Stdio
begin

unbundle bit_operations_syntax

text \<open>
  Random bytes and random identifiers (\<open>stdlibx.c\<close>), as compiled for Linux on a little-endian
  machine. What \<open>getrandom\<close> delivers for a size, which may be fewer bytes or none, is an argument.
\<close>

subsection \<open>The code\<close>

definition random_gen :: "(nat \<Rightarrow> 8 word list) \<Rightarrow> nat \<Rightarrow> (nat \<times> 8 word list) res" where
  "random_gen getrandom n = assertR (length (getrandom n) = n) (Inr (n, getrandom n))"

text \<open>The fields of the union, and \<open>snprintf\<close> with \<open>%0<w>x\<close>.\<close>

record uuid =
  time_low :: "32 word"
  time_mid :: "16 word"
  time_hi_and_version :: "16 word"
  clk_seq_hi_res :: "8 word"
  clk_seq_low :: "8 word"
  node :: "8 word list"

fun le_num :: "8 word list \<Rightarrow> nat" where
  "le_num [] = 0"
| "le_num (b # bs) = unat b + 256 * le_num bs"

definition uuid_of_bytes :: "8 word list \<Rightarrow> uuid" where
  "uuid_of_bytes rnd =
     \<lparr>time_low = of_nat (le_num (take 4 rnd)), time_mid = of_nat (le_num (take 2 (drop 4 rnd))),
      time_hi_and_version = of_nat (le_num (take 2 (drop 6 rnd))), clk_seq_hi_res = rnd ! 8, clk_seq_low = rnd ! 9,
      node = take 6 (drop 10 rnd)\<rparr>"

definition hex_pad :: "nat \<Rightarrow> nat \<Rightarrow> string" where
  "hex_pad w n = replicate (w - length (hex_string n)) (CHR ''0'') @ hex_string n"

definition uuid_text :: "uuid \<Rightarrow> string" where
  "uuid_text u =
     hex_pad 8 (unat (time_low u)) @ ''-'' @ hex_pad 4 (unat (time_mid u)) @ ''-'' @
     hex_pad 4 (unat (time_hi_and_version u)) @ ''-'' @
     hex_pad 2 (unat (clk_seq_hi_res u)) @ hex_pad 2 (unat (clk_seq_low u)) @ ''-'' @
     concat (map (\<lambda>b. hex_pad 2 (unat b)) (node u))"

definition uuid_v4_gen :: "allocator \<Rightarrow> (nat \<Rightarrow> 8 word list) \<Rightarrow> mem res" where
  "uuid_v4_gen al getrandom =
     bindR (random_gen getrandom 16) (\<lambda>(_, rnd).
       let u = uuid_of_bytes rnd;
           u1 = u\<lparr>clk_seq_hi_res := (clk_seq_hi_res u AND 0x3F) OR 0x80\<rparr>;
           u2 = u1\<lparr>time_hi_and_version := (time_hi_and_version u1 AND 0x0FFF) OR 0x4000\<rparr>
       in if grant al 37 then Inr (snprintf_s 37 (uuid_text u2) @ [NUL]) else Inl NullDeref)"

subsection \<open>Padded hexadecimal numbers\<close>

lemma hex_pad_digits: "n < 16 ^ w \<Longrightarrow> 0 < w \<Longrightarrow> hex_pad w n = map (\<lambda>i. hex_char (n div 16 ^ i mod 16)) (rev [0..<w])"
proof (induction w arbitrary: n)
  case (Suc w)
  show ?case
  proof (cases "w = 0")
    case True
    then show ?thesis using Suc.prems by (simp add: hex_pad_def hex_string.simps [of n])
  next
    case False
    have "n div 16 < 16 ^ w" using Suc.prems by (simp add: less_mult_imp_div_less mult.commute)
    then have ih: "hex_pad w (n div 16) = map (\<lambda>i. hex_char (n div 16 div 16 ^ i mod 16)) (rev [0..<w])" using Suc.IH False by simp
    have zero: "hex_char 0 = CHR ''0''" by code_simp
    have "hex_pad (Suc w) n = hex_pad w (n div 16) @ [hex_char (n mod 16)]"
    proof (cases "n < 16")
      case True
      then show ?thesis using False
        by (simp add: hex_pad_def hex_string.simps [of n] hex_string.simps [of 0] zero replicate_append_same [symmetric])
          (metis Suc_pred append_Cons replicate_Suc replicate_append_same)
    next
      case False
      then show ?thesis by (simp add: hex_pad_def hex_string.simps [of n])
    qed
    also have "\<dots> = map (\<lambda>i. hex_char (n div 16 ^ i mod 16)) (rev [0..<Suc w])"
      unfolding ih by (simp add: upt_conv_Cons map_Suc_upt [symmetric] rev_map o_def div_mult2_eq del: upt_Suc)
    finally show ?thesis .
  qed
qed simp

lemma hex_pad_length: "n < 16 ^ w \<Longrightarrow> 0 < w \<Longrightarrow> length (hex_pad w n) = w"
  by (simp add: hex_pad_digits)

lemma hex_pad_xdigits: "n < 16 ^ w \<Longrightarrow> 0 < w \<Longrightarrow> c \<in> set (hex_pad w n) \<Longrightarrow> xdigit c \<noteq> None"
  by (auto simp: hex_pad_digits xdigit_hex_char)

lemma hex_pad_first: "n < 16 ^ Suc w \<Longrightarrow> \<exists>cs. hex_pad (Suc w) n = hex_char (n div 16 ^ w) # cs \<and> length cs = w"
  by (simp add: hex_pad_digits less_mult_imp_div_less mult.commute)

subsection \<open>The form of an identifier\<close>

lemma version_digit: "unat ((y AND 0x0FFF) OR 0x4000 :: 16 word) div 4096 = 4"
proof -
  have "drop_bit 12 ((y AND 0x0FFF) OR 0x4000 :: 16 word) = 4" by (simp add: drop_bit_or drop_bit_and)
  then have "unat (drop_bit 12 ((y AND 0x0FFF) OR 0x4000 :: 16 word)) = 4" by simp
  then show ?thesis unfolding unat_drop_bit_eq by (simp add: drop_bit_eq_div)
qed

lemma variant_digit: "unat ((b AND 0x3F) OR 0x80 :: 8 word) div 16 \<in> {8, 9, 10, 11}"
proof -
  let ?v = "drop_bit 4 b AND 3"
  have "?v \<le> 3" by (rule word_and_le1)
  then have "unat ?v \<in> {0, 1, 2, 3}" by (auto simp: word_le_nat_alt)
  moreover have "?v = of_nat (unat ?v)" by simp
  ultimately consider "?v = 0" | "?v = 1" | "?v = 2" | "?v = 3" by fastforce
  moreover have "drop_bit 4 ((b AND 0x3F) OR 0x80) = ?v OR 8" by (simp add: drop_bit_or drop_bit_and)
  ultimately have "unat (drop_bit 4 ((b AND 0x3F) OR 0x80)) \<in> {8, 9, 10, 11}" by cases simp_all
  then show ?thesis unfolding unat_drop_bit_eq by (simp add: drop_bit_eq_div)
qed

definition dash_at :: "nat \<Rightarrow> bool" where
  "dash_at i \<longleftrightarrow> i = 8 \<or> i = 13 \<or> i = 18 \<or> i = 23"

lemma nth_fields:
  assumes "length a = 8" and "length b = 4" and "length c = 4" and "length d = 4" and "length e = 12"
    and "i < 36" and "t = a @ ''-'' @ b @ ''-'' @ c @ ''-'' @ d @ ''-'' @ e"
  shows "if dash_at i then t ! i = CHR ''-'' else t ! i \<in> set a \<union> set b \<union> set c \<union> set d \<union> set e"
proof -
  have a: "t ! i \<in> set a" if "i < 8" using that assms by (simp add: nth_append)
  have b: "t ! i \<in> set b" if "8 < i" "i < 13" using that assms by (auto simp: nth_append nth_Cons')
  have c: "t ! i \<in> set c" if "13 < i" "i < 18" using that assms by (auto simp: nth_append nth_Cons')
  have d: "t ! i \<in> set d" if "18 < i" "i < 23" using that assms by (auto simp: nth_append nth_Cons')
  have e: "t ! i \<in> set e" if "23 < i" using that assms by (auto simp: nth_append nth_Cons')
  show ?thesis
  proof (cases "dash_at i")
    case True
    then have "t ! i = CHR ''-''" using assms unfolding dash_at_def by (auto simp: nth_append nth_Cons')
    then show ?thesis using True by simp
  next
    case False
    then consider "i < 8" | "8 < i" "i < 13" | "13 < i" "i < 18" | "18 < i" "i < 23" | "23 < i"
      unfolding dash_at_def by linarith
    then have "t ! i \<in> set a \<union> set b \<union> set c \<union> set d \<union> set e"
      by cases (use a b c d e in blast)+
    then show ?thesis using False by simp
  qed
qed

lemma unat_hex_bounds:
  "unat (x :: 8 word) < 16 ^ 2" "unat (y :: 16 word) < 16 ^ 4" "unat (z :: 32 word) < 16 ^ 8"
proof -
  have "unat x < 2 ^ LENGTH(8)" "unat y < 2 ^ LENGTH(16)" "unat z < 2 ^ LENGTH(32)" by (rule unsigned_less)+
  then show "unat x < 16 ^ 2" "unat y < 16 ^ 4" "unat z < 16 ^ 8" by simp_all
qed

lemma hex_pad_word [simp]:
  "length (hex_pad 2 (unat (x :: 8 word))) = 2" "length (hex_pad 4 (unat (y :: 16 word))) = 4"
  "length (hex_pad 8 (unat (z :: 32 word))) = 8"
  by (rule hex_pad_length, rule unat_hex_bounds, simp)+

lemma hex_pad_word_digits:
  "c \<in> set (hex_pad 2 (unat (x :: 8 word))) \<Longrightarrow> xdigit c \<noteq> None" "c \<in> set (hex_pad 4 (unat (y :: 16 word))) \<Longrightarrow> xdigit c \<noteq> None"
  "c \<in> set (hex_pad 8 (unat (z :: 32 word))) \<Longrightarrow> xdigit c \<noteq> None"
  by (erule hex_pad_xdigits [rotated 2], rule unat_hex_bounds, simp)+

text \<open>C36: With sixteen random bytes, \<open>uuid_v4_gen\<close> returns a text of 36 characters: hexadecimal digits
  with a dash at the four places of an identifier, the version digit 4, and a variant digit of 8, 9, a
  or b.\<close>

theorem uuid_v4_form:
  assumes "length (getrandom 16) = 16" and "grant al 37"
  shows "\<exists>t. uuid_v4_gen al getrandom = Inr (t @ [NUL]) \<and> length t = 36 \<and>
    (\<forall>i. i < 36 \<longrightarrow> (if dash_at i then t ! i = CHR ''-'' else xdigit (t ! i) \<noteq> None)) \<and>
    t ! 14 = CHR ''4'' \<and> t ! 19 \<in> {CHR ''8'', CHR ''9'', CHR ''a'', CHR ''b''}"
proof -
  let ?u = "uuid_of_bytes (getrandom 16)"
  let ?a = "hex_pad 8 (unat (time_low ?u))" and ?b = "hex_pad 4 (unat (time_mid ?u))"
  let ?v = "unat ((time_hi_and_version ?u AND 0x0FFF) OR 0x4000)" and ?r = "unat ((clk_seq_hi_res ?u AND 0x3F) OR 0x80)"
  let ?c = "hex_pad 4 ?v" and ?d = "hex_pad 2 ?r @ hex_pad 2 (unat (clk_seq_low ?u))"
  let ?e = "concat (map (\<lambda>b. hex_pad 2 (unat b)) (node ?u))"
  let ?t = "?a @ ''-'' @ ?b @ ''-'' @ ?c @ ''-'' @ ?d @ ''-'' @ ?e"
  have len: "length ?a = 8" "length ?b = 4" "length ?c = 4" "length ?d = 4" by simp_all
  have "length (node ?u) = 6" using assms(1) by (simp add: uuid_of_bytes_def)
  moreover have "length (concat (map (\<lambda>b. hex_pad 2 (unat b)) bs)) = 2 * length bs" for bs :: "8 word list"
    by (induction bs) simp_all
  ultimately have e: "length ?e = 12" by simp
  have gen: "uuid_v4_gen al getrandom = Inr (?t @ [NUL])"
    using assms len e by (simp add: uuid_v4_gen_def random_gen_def uuid_text_def snprintf_s_def Let_def)
  have x: "xdigit q \<noteq> None" if "q \<in> set ?a \<union> set ?b \<union> set ?c \<union> set ?d \<union> set ?e" for q
    using that hex_pad_word_digits by auto
  obtain cs where c: "?c = hex_char (?v div 16 ^ 3) # cs" using hex_pad_first [of ?v 3] unat_hex_bounds(2) by auto
  obtain ds where d: "hex_pad 2 ?r = hex_char (?r div 16 ^ 1) # ds" using hex_pad_first [of ?r 1] unat_hex_bounds(1) by (auto simp: numeral_2_eq_2)
  have "?t ! 14 = hex_char 4" using len c version_digit [of "time_hi_and_version ?u"] by (simp add: nth_append nth_Cons')
  moreover have "?t ! 19 = hex_char (?r div 16)" using len d by (simp add: nth_append nth_Cons')
  moreover have "hex_char 4 = CHR ''4''" "hex_char 8 = CHR ''8''" "hex_char 9 = CHR ''9''" "hex_char 10 = CHR ''a''" "hex_char 11 = CHR ''b''"
    by code_simp+
  ultimately have digits: "?t ! 14 = CHR ''4''" "?t ! 19 \<in> {CHR ''8'', CHR ''9'', CHR ''a'', CHR ''b''}"
    using variant_digit [of "clk_seq_hi_res ?u"] by auto
  have "if dash_at i then ?t ! i = CHR ''-'' else xdigit (?t ! i) \<noteq> None" if "i < 36" for i
    using nth_fields [OF len e that refl] x by (simp split: if_splits)
  moreover have "length ?t = 36" using len e by simp
  ultimately show ?thesis using gen digits by blast
qed

theorem uuid_v4_form_witness:
  "\<exists>t. uuid_v4_gen generous (\<lambda>n. replicate n 0xAB) = Inr (t @ [NUL]) \<and> length t = 36 \<and> t ! 14 = CHR ''4''"
  using uuid_v4_form [of "\<lambda>n. replicate n 0xAB" generous] by (auto simp: generous_def)

end
