(* ===== verification/Spec2Isabelle.thy ===== *)
theory Spec2Isabelle
  imports Cx_Hlist_Iter Errx Svcx Apix_Stm32 Apix_Router Demo_Clients Lifetimes Timer Task Module_Blocks Stdlibx
begin

text \<open>
  \<^bold>\<open>extlib in Isabelle/HOL.\<close>
  extlib is a C library for small message-passing programs. Its core is a bus (\<open>apix.c\<close>) that receives
  bytes from sinks (\<open>apix-posix.c\<close>: Unix and TCP sockets and serial lines, \<open>apix-stm32.c\<close>: a serial line
  of a microcontroller), cuts them into packets of a text protocol (\<open>srrp.c\<close>), routes requests,
  responses and published messages between the connected programs, and keeps the received bytes in
  growing buffers (\<open>atbuf.c\<close>). A server dispatches the requests it gets with a service hub (\<open>svcx.c\<close>).
  Around that core there are intrusive lists (\<open>list.h\<close>), checksums (\<open>crc16.c\<close>), a ring buffer
  (\<open>ringbuf.c\<close>), error texts (\<open>err.c\<close>), a reader of JSON values (\<open>json.c\<close>), timers, tasks and loadable
  modules (\<open>posix/\<close>), options (\<open>opt.c\<close>), trimming of texts (\<open>stringx.c\<close>), random identifiers
  (\<open>stdlibx.c\<close>) and logging (\<open>log.c\<close>).

  \<^bold>\<open>How the code is modelled.\<close>
  Each C function is a definition of the same name; a static function with leading underscores has a
  name without them. A struct is a record, an enum a datatype, a memory block the list of its bytes.
  A function that can go wrong returns \<open>'a res\<close>, whose left values are the faults: a failed assertion,
  an access outside a block, a dereference of \<open>NULL\<close> or of a pointer to nothing. \<open>size_t\<close> is \<open>nat\<close> with
  the wrap-around written out, 16- and 32-bit integers are words where their width matters. What the
  sources take from the system (the allocator, the clock, sockets, \<open>select\<close>, the dynamic loader,
  random bytes, files) is an argument; what a theorem needs of it is one of its hypotheses. Loops over
  lists are recursions; a loop that need not end is a partial function or has fuel, and that it ends
  is a theorem (\<open>parse_packet_ends\<close>, whose fuel is one round more than there are bytes, because every
  round takes at least one; \<open>timer_repeat_ends\<close>).

  \<^bold>\<open>The theories.\<close>
  \<^item> \<open>Cx_Prelude\<close> and \<open>Cx_Stdio\<close>: faults and results, \<open>size_t\<close>, blocks, C strings, \<open>sscanf\<close>, \<open>snprintf\<close>,
    \<open>atoi\<close>; the collection \<open>cx\<close> of rewriting rules.
  \<^item> \<open>Crc16\<close>: the checksum by table equals division of polynomials, bit by bit.
  \<^item> \<open>Byte_Fifo\<close>, \<open>Atbuf\<close>, \<open>Ringbuf\<close>: the contract of a byte queue as a locale, and its two
    implementations, with the writes that abort or lose data.
  \<^item> \<open>List_Script\<close>, \<open>Cx_List\<close>, \<open>Cx_Hlist\<close>: the contract of a linked list as a locale, and the circular
    and the hash lists of \<open>list.h\<close> on an explicit heap of nodes: any sequence of operations refines the
    same sequence on an abstract list. The other components therefore use plain lists for their linked
    lists.
  \<^item> \<open>Cx_Loop\<close>, \<open>Cx_List_Iter\<close>, \<open>Cx_Hlist_Iter\<close>: the loop macros of \<open>list.h\<close>, with the body as an
    argument: the contract of a cursor as a locale, what each loop visits, and which loops allow their
    body to delete the object they are at.
  \<^item> \<open>Srrp\<close>, \<open>Srrp_Fields\<close>: the readers and writers of packets; what is written is read back, what is read
    is framed.
  \<^item> \<open>Registry\<close>, \<open>Errx\<close>: the contract of a registry as a locale; error texts behave as a map.
  \<^item> \<open>Svcx\<close>: the service hub, which gives a request to the newest service whose header is a prefix of its own.
  \<^item> \<open>Apix\<close>, \<open>Apix_Handlers\<close>, \<open>Apix_Props\<close>: the state of the bus, its handlers, and what they do to
    requests, responses and topics.
  \<^item> \<open>Apix_Sink\<close>, \<open>Apix_Posix\<close>, \<open>Apix_Stm32\<close>: the contract between the bus and its sinks as a locale,
    with the invariant of the running bus proved in it, and its interpretations on the POSIX and on the
    STM32 sinks.
  \<^item> \<open>Apix_Poll\<close>, \<open>Apix_System\<close>, \<open>Apix_Topics\<close>, \<open>Apix_Idle\<close>: whole calls of \<open>apibus_poll\<close> on a bus with sockets,
    from the bytes that \<open>recv\<close> returns to the bytes that are sent: a request is forwarded or refused, an
    exchange completes; the handlers implement a specification of topics and subscribers; and what the bus
    does while nothing arrives.
  \<^item> \<open>Apix_Router\<close>: the specification of the bus as a router of packets, and that any sequence of polls
    implements it; hence no request is forgotten.
  \<^item> \<open>Json\<close>: the reader finds every value of a printed document under its path.
  \<^item> \<open>Timer\<close>: the timers of a thread as addresses and objects, with freed objects gone, so that a use
    after a release is a fault; one pass fires exactly the due timers, and whatever operations the program
    and its handlers perform, the lists of timers stay well-formed.
  \<^item> \<open>Task\<close>: the two threads of a task as an interleaving of single accesses; when stopping works, and
    when the request is lost.
  \<^item> \<open>Stringx\<close>, \<open>Opt\<close>: trimming in place; option tables stay well-typed and get the values of a file.
  \<^item> \<open>Module\<close>, \<open>Module_Blocks\<close>: loaded modules and the balance of opened and closed handles; parameters; a
    module with its texts on a store of blocks, which implements the model over values and leaks nothing.
  \<^item> \<open>Stdlibx\<close>, \<open>Log\<close>: the form of identifiers, and the bounds of the time stamp.
  \<^item> \<open>Cx_Store\<close>, \<open>Lifetimes\<close>: the functions that allocate and free, on a store of blocks; the contract of an
    object with a lifetime as a locale, interpreted on buffers, JSON objects, descriptors and modules: no
    block is lost and none freed twice.
  \<^item> \<open>Demo_Loop\<close>, \<open>Demo_Bus\<close>, \<open>Demo_Clients\<close>: the programs under \<open>src/demos\<close>: rounds until a signal is delivered,
    as a locale over the round; the bus program, the two clients, and a client that talks to a bus.
  \<^item> This theory: two properties of packets on their way through several components.

  \<^bold>\<open>Limits.\<close>
  Not modelled are \<open>stddefx.h\<close> (a macro for unused arguments), declarations without a definition in the
  headers, and the tests. The bus is single-threaded, as the code is; the timers are those of one thread at
  a time, since \<open>_loops\<close> is shared without a lock; tasks are the one component with an explicit
  interleaving, under sequential consistency. Log output of the bus is left out of its model, and so is
  the level of messages in the bus program; the clients print to a modelled log. Memory is a store of
  blocks in \<open>Lifetimes\<close>, \<open>Module_Blocks\<close> and \<open>Timer\<close> and a heap of nodes in \<open>Cx_List\<close> and \<open>Cx_Hlist\<close>; elsewhere
  objects are values. A signal is seen between two rounds of a main loop; that it interrupts \<open>select\<close> is
  one of the possible answers of the operating system in that round.
\<close>

subsection \<open>Packets on their way through the bus and the service hub\<close>

text \<open>the round trip of a request. A client's request, queued by the bus from connection \<open>c\<close>, is
  answered by a server that computes the checksum over header and data and writes a response with it:
  the bus recognises the response, sends it whole to connection \<open>c\<close>, and the request is off its list.\<close>

theorem request_is_answered:
  assumes "srrp_write_request al srcid header data = Inr p" and "length header < SRRP_HEADER_LEN"
    and "queue_packet al now bus c p = Inr bus1"
    and "crc16 header (int (length header)) = Inr c1" and "crc16_crc c1 data (int (length data)) = Inr c2"
    and "srrp_write_response al srcid c2 header answer = Inr q" and "can_send env bus c"
  shows "\<exists>bus2. handle_one_response env later bus1 \<lparr>rp_pac = q, rp_fd = s\<rparr> = Inr bus2 \<and>
    bus_requests bus2 = bus_requests bus \<and> bus_sent bus2 = bus_sent bus @ [(c, pk_raw q)]"
proof -
  note p = srrp_write_request_fields [OF assms(1,2)]
  note q = srrp_write_response_fields [OF assms(6,2)]
  let ?r = "\<lparr>rq_pac = p, rq_state = API_REQUEST_ST_NONE, rq_ts_create = now, rq_ts_send = 0, rq_fd = c, rq_crc16 = c2\<rparr>"
  have "crc16 (pk_header p) (int (pk_header_len p)) = Inr c1"
    using assms(4) by (simp add: p crc16_def crc16_loop_eq padded_def)
  moreover have "crc16_crc c1 (drop (pk_data p) (pk_raw p)) (int (pk_data_len p)) = Inr c2"
    using assms(5) by (simp add: p crc16_crc_def crc16_loop_eq)
  ultimately have bus1: "bus1 = bus\<lparr>bus_requests := ?r # bus_requests bus\<rparr>"
    using assms(3) by (auto simp: queue_packet_def p(1) split: if_splits)
  have "answers \<lparr>rp_pac = q, rp_fd = s\<rparr> ?r" by (simp add: answers_def p q strcmp_eq_def)
  moreover have "can_send env bus1 (rq_fd ?r)"
    using assms(7) by (simp add: bus1 can_send_def find_sinkfd_in_apibus_def)
  moreover have "terminated (pk_header q)" using assms(2) by (simp add: q padded_terminated)
  ultimately show ?thesis
    using response_routed [of bus1 "[]" ?r "bus_requests bus" "\<lparr>rp_pac = q, rp_fd = s\<rparr>" env later] q(4)
    by (simp add: bus1)
qed

theorem request_is_answered_witness:
  "\<exists>p q c2 bus1 bus2. srrp_write_request generous 1 ''/8/hello'' ''{}'' = Inr p \<and>
     queue_packet generous 7 example_bus 5 p = Inr bus1 \<and>
     srrp_write_response generous 1 c2 ''/8/hello'' ''{err:0}'' = Inr q \<and>
     handle_one_response example_ops 8 bus1 \<lparr>rp_pac = q, rp_fd = 4\<rparr> = Inr bus2 \<and> bus_sent bus2 = [(5, pk_raw q)]"
proof -
  obtain c1 c2 where c: "crc16 ''/8/hello'' (int (length ''/8/hello'')) = Inr c1"
    "crc16_crc c1 ''{}'' (int (length ''{}'')) = Inr c2"
    by (simp add: crc16_def crc16_crc_def crc16_loop_eq)
  obtain p where p: "srrp_write_request generous 1 ''/8/hello'' ''{}'' = Inr p"
    by (simp add: srrp_write_evals)
  obtain q where q: "srrp_write_response generous 1 c2 ''/8/hello'' ''{err:0}'' = Inr q"
    using unat_16_less [of c2] by (simp add: srrp_write_evals)
  have short: "length ''/8/hello'' < SRRP_HEADER_LEN" by (simp add: SRRP_HEADER_LEN_def)
  note f = srrp_write_request_fields [OF p short]
  obtain bus1 where b: "queue_packet generous 7 example_bus 5 p = Inr bus1"
    by (simp add: queue_packet_def f crc16_def crc16_crc_def crc16_loop_eq generous_def padded_def SRRP_HEADER_LEN_def)
  have "bus_sent example_bus = []" by (simp add: example_bus_def)
  then show ?thesis
    using request_is_answered [OF p short b c q example_can_send(2), of 8 4] p q b by auto
qed

text \<open>C32: a request written by a client and read by a server from the start of its receive buffer is
  given to the handler that the hub selects for the header, as the packet the client wrote.\<close>

theorem written_request_is_dealt:
  assumes "srrp_write_request al srcid header data = Inr p" and "srrp_header_ok header" and "srrp_data_ok data"
    and "length header < SRRP_HEADER_LEN" and "svc_select (hub_services hub) header = Some svc"
  shows "bindR (srrp_read_one_packet al (pk_raw p @ rest)) (\<lambda>r.
      case r of None \<Rightarrow> Inr (- 1, resp) | Some req \<Rightarrow> Inr (svchub_deal hub req resp)) =
    Inr (sv_func svc p resp)"
proof -
  note p = srrp_write_request_fields [OF assms(1,4)]
  have "take (SRRP_HEADER_LEN - 1) header = header" using assms(4) by simp
  then have "srrp_read_one_packet al (pk_raw p @ rest) = Inr (Some p)"
    by (intro srrp_reads_back_short [OF srrp_request_reads_back [OF assms(1-3)] assms(4)]) (simp add: p)
  moreover have "cstr (pk_header p) = header" using assms(2) by (simp add: p padded_cstr srrp_header_ok_def)
  ultimately show ?thesis using assms(5) by (simp add: svchub_deal_select)
qed

theorem written_request_is_dealt_witness:
  "\<exists>p. srrp_write_request generous 1 ''/hello/x'' ''{age:18}'' = Inr p \<and>
     bindR (srrp_read_one_packet generous (pk_raw p @ [])) (\<lambda>r.
       case r of None \<Rightarrow> Inr (- 1, None)
       | Some req \<Rightarrow> Inr (svchub_deal \<lparr>hub_services = [\<lparr>sv_header = ''/hello'', sv_func = \<lambda>req resp. (0, Some req)\<rparr>]\<rparr> req None)) =
     Inr (0, Some p)"
proof -
  obtain p where p: "srrp_write_request generous 1 ''/hello/x'' ''{age:18}'' = Inr p"
    by (simp add: srrp_write_evals)
  let ?svc = "\<lparr>sv_header = ''/hello'', sv_func = \<lambda>req resp. (0, Some req)\<rparr>"
  have "svc_select (hub_services \<lparr>hub_services = [?svc]\<rparr>) ''/hello/x'' = Some ?svc"
    by (simp add: svc_select_def)
  from written_request_is_dealt [OF p srrp_sample_texts this, of "[]" None] p show ?thesis by auto
qed

end
